(* ===== verification/Prelude.thy ===== *)
theory Prelude
  imports Main "HOL-Library.Monad_Syntax" "HOL-Library.Tree" "HOL-Library.Word"
begin

section \<open>Prelude: the memory the kernel's intrusive structures live in\<close>

text \<open>
  What every component shares: the heap model, its loads and stores, and the
  generic lemmas on them.

  The intrusive containers of \<open>src/kernel\<close> (the circular list of \<open>list.h\<close>, the
  red-black tree of \<open>rbtree.h\<close>) are structs of pointers embedded in larger objects.
  An address is a natural number, 0 is \<open>NULL\<close>. A struct at address \<open>a\<close> occupies the
  cells \<open>(a, W0)\<close>, \<open>(a, W1)\<close>, \<open>(a, W2)\<close> (its first, second and third pointer
  word) and \<open>(a, WC)\<close> (the byte after them). A pointer to a pointer, such as the
  \<open>struct rb_node **link\<close> of \<open>rb_link_node\<close>, is the pair itself.

  The cells of a struct follow its declaration order, so \<open>list.next\<close> and
  \<open>rb_node.rb_parent\<close> are both the first word and \<open>list.prev\<close> and
  \<open>rb_node.rb_right\<close> both the second: the overlap of the packed union
  \<open>{ struct list list; struct rb_node rb; }\<close> of \<open>struct __poller_node\<close> is the
  overlap of the cells.

  Loads and stores through \<open>NULL\<close> or outside allocated memory have no defined
  result: they give \<open>None\<close>, which aborts the whole computation in the option monad.
  A theorem that an operation returns \<open>Some\<close> is therefore also a proof that it makes
  no invalid memory access.
\<close>

type_synonym addr = nat

datatype word_ix = W0 | W1 | W2 | WC

type_synonym loc = "addr \<times> word_ix"
type_synonym heap = "loc \<Rightarrow> nat option"

abbreviation NULL :: addr where "NULL \<equiv> 0"

named_theorems heap_simps \<open>evaluation of loads and stores\<close>
named_theorems frame_simps \<open>what a store leaves unchanged\<close>

definition load :: "loc \<Rightarrow> heap \<Rightarrow> nat option" where
  "load l h = (if fst l = NULL then None else h l)"

definition store :: "loc \<Rightarrow> nat \<Rightarrow> heap \<Rightarrow> heap option" where
  "store l v h = (if fst l = NULL \<or> h l = None then None else Some (h(l \<mapsto> v)))"

lemma load_Some [heap_simps]: "fst l \<noteq> 0 \<Longrightarrow> load l h = h l"
  by (simp add: load_def)

lemma store_Some [heap_simps]: "fst l \<noteq> 0 \<Longrightarrow> h l = Some w \<Longrightarrow> store l v h = Some (h(l \<mapsto> v))"
  by (simp add: store_def)

lemma load_NULL [simp]: "load (0, f) h = None"
  by (simp add: load_def)

lemma store_NULL [simp]: "store (0, f) v h = None"
  by (simp add: store_def)

lemma store_eq_SomeD:
  "store l v h = Some h' \<Longrightarrow> h' = h(l \<mapsto> v) \<and> fst l \<noteq> 0 \<and> h l \<noteq> None"
  by (auto simp: store_def split: if_splits)

text \<open>A store never allocates or frees: it keeps the set of allocated cells.\<close>

lemma store_dom: "store l v h = Some h' \<Longrightarrow> dom h' = dom h"
  by (drule store_eq_SomeD) (simp add: insert_absorb domIff)

text \<open>Two heaps agree outside a set of locations.\<close>

definition agree_off :: "loc set \<Rightarrow> heap \<Rightarrow> heap \<Rightarrow> bool" where
  "agree_off X h h' \<longleftrightarrow> (\<forall>l. l \<notin> X \<longrightarrow> h' l = h l) \<and> dom h' = dom h"

lemma agree_off_refl [simp, intro]: "agree_off X h h"
  by (simp add: agree_off_def)

lemma agree_off_trans [trans]: "agree_off X h h' \<Longrightarrow> agree_off X h' h'' \<Longrightarrow> agree_off X h h''"
  by (simp add: agree_off_def)

lemma agree_off_mono: "agree_off X h h' \<Longrightarrow> X \<subseteq> Y \<Longrightarrow> agree_off Y h h'"
  by (auto simp: agree_off_def)

lemma agree_off_upd: "agree_off X h h' \<Longrightarrow> l \<in> X \<Longrightarrow> h l \<noteq> None \<Longrightarrow> agree_off X h (h'(l \<mapsto> v))"
  by (auto simp: agree_off_def dom_def)

lemma agree_offD: "agree_off X h h' \<Longrightarrow> l \<notin> X \<Longrightarrow> h' l = h l"
  by (cases l) (simp add: agree_off_def)

lemma agree_off_dom: "agree_off X h h' \<Longrightarrow> dom h' = dom h"
  by (simp add: agree_off_def)

lemma unat_less_64: "unat w < 2 ^ 64" for w :: "64 word"
  using unsigned_less [of w, where 'a = nat] by simp

text \<open>The wrap-around of a decrement.\<close>

lemma word_pred_less: "w - 1 < w \<longleftrightarrow> w \<noteq> 0" for w :: "'a::len word"
proof (cases "w = 0")
  case False
  then have "unat (w - 1) = unat w - 1" "unat w > 0" by (simp_all add: unat_minus_one unat_gt_0)
  with False show ?thesis by (simp add: word_less_nat_alt)
qed simp

end
