(* ===== verification/Rbtree.thy ===== *)
theory Rbtree
  imports Prelude
begin

section \<open>The red-black tree of rbtree.h and rbtree.c\<close>

text \<open>
  The operations of \<open>src/src/kernel/rbtree.c\<close>, statement by statement, over the heap
  of \<open>Prelude\<close>. The representation of trees in the heap and the proofs are in the
  theories that import this one.

  A \<open>struct rb_root *root\<close> is the location of the root pointer. The two halves of
  \<open>rb_insert_color\<close> and of \<open>__rb_erase_color\<close> are the same text with left and right
  exchanged; the model writes that text once, over the side \<open>d\<close> on which the code
  found the node, with \<open>near d\<close> the child field of that side and \<open>far d\<close> the other
  one.
\<close>

abbreviation rb_parent :: word_ix where "rb_parent \<equiv> W0"
abbreviation rb_right :: word_ix where "rb_right \<equiv> W1"
abbreviation rb_left :: word_ix where "rb_left \<equiv> W2"
abbreviation rb_color :: word_ix where "rb_color \<equiv> WC"

definition RB_RED :: nat where "RB_RED = 0"
definition RB_BLACK :: nat where "RB_BLACK = 1"

definition rb_link_node :: "addr \<Rightarrow> addr \<Rightarrow> loc \<Rightarrow> heap \<Rightarrow> heap option" where
  "rb_link_node node parent link h = do {
     h \<leftarrow> store (node, rb_parent) parent h;
     h \<leftarrow> store (node, rb_color) RB_RED h;
     h \<leftarrow> store (node, rb_right) NULL h;
     h \<leftarrow> store (node, rb_left) NULL h;
     store link node h
   }"

text \<open>
  The statement that makes \<open>parent\<close> (or the root, without a parent) point to
  \<open>child\<close> where it pointed to \<open>node\<close>: \<open>__rb_rotate_left\<close> and
  \<open>rb_replace_node\<close> have it once and \<open>rb_erase\<close> three times;
  \<open>__rb_rotate_right\<close> has it with the right child tested first.
\<close>

definition set_child :: "addr \<Rightarrow> addr \<Rightarrow> addr \<Rightarrow> loc \<Rightarrow> heap \<Rightarrow> heap option" where
  "set_child parent node child root h =
     (if parent \<noteq> NULL then do {
        pl \<leftarrow> load (parent, rb_left) h;
        if pl = node then store (parent, rb_left) child h
        else store (parent, rb_right) child h
      } else store root child h)"

definition set_child_right_first :: "addr \<Rightarrow> addr \<Rightarrow> addr \<Rightarrow> loc \<Rightarrow> heap \<Rightarrow> heap option" where
  "set_child_right_first parent node child root h =
     (if parent \<noteq> NULL then do {
        pr \<leftarrow> load (parent, rb_right) h;
        if pr = node then store (parent, rb_right) child h
        else store (parent, rb_left) child h
      } else store root child h)"

definition rb_rotate_left :: "addr \<Rightarrow> loc \<Rightarrow> heap \<Rightarrow> heap option" where
  "rb_rotate_left node root h = do {
     right \<leftarrow> load (node, rb_right) h;
     rl \<leftarrow> load (right, rb_left) h;
     h \<leftarrow> store (node, rb_right) rl h;
     h \<leftarrow> (if rl \<noteq> NULL then store (rl, rb_parent) node h else Some h);
     h \<leftarrow> store (right, rb_left) node h;
     parent \<leftarrow> load (node, rb_parent) h;
     h \<leftarrow> store (right, rb_parent) parent h;
     h \<leftarrow> set_child parent node right root h;
     store (node, rb_parent) right h
   }"

definition rb_rotate_right :: "addr \<Rightarrow> loc \<Rightarrow> heap \<Rightarrow> heap option" where
  "rb_rotate_right node root h = do {
     left \<leftarrow> load (node, rb_left) h;
     lr \<leftarrow> load (left, rb_right) h;
     h \<leftarrow> store (node, rb_left) lr h;
     h \<leftarrow> (if lr \<noteq> NULL then store (lr, rb_parent) node h else Some h);
     h \<leftarrow> store (left, rb_right) node h;
     parent \<leftarrow> load (node, rb_parent) h;
     h \<leftarrow> store (left, rb_parent) parent h;
     h \<leftarrow> set_child_right_first parent node left root h;
     store (node, rb_parent) left h
   }"

subsection \<open>Sides\<close>

datatype side = L | R

primrec near :: "side \<Rightarrow> word_ix" where
  "near L = rb_left"
| "near R = rb_right"

primrec far :: "side \<Rightarrow> word_ix" where
  "far L = rb_right"
| "far R = rb_left"

text \<open>\<open>rotate_to d\<close> moves a node down to side \<open>d\<close>: a left rotation for \<open>L\<close>.\<close>

primrec rotate_to :: "side \<Rightarrow> addr \<Rightarrow> loc \<Rightarrow> heap \<Rightarrow> heap option" where
  "rotate_to L = rb_rotate_left"
| "rotate_to R = rb_rotate_right"

primrec rotate_from :: "side \<Rightarrow> addr \<Rightarrow> loc \<Rightarrow> heap \<Rightarrow> heap option" where
  "rotate_from L = rb_rotate_right"
| "rotate_from R = rb_rotate_left"

subsection \<open>Rebalancing after an insertion\<close>

text \<open>
  One side of the body of the loop of \<open>rb_insert_color\<close>, for a parent on side \<open>d\<close> of the
  grandparent. The result is the heap and the value of \<open>node\<close> for the next round.
\<close>

definition insert_color_side :: "side \<Rightarrow> addr \<Rightarrow> addr \<Rightarrow> addr \<Rightarrow> loc \<Rightarrow> heap \<Rightarrow> (addr \<times> heap) option" where
  "insert_color_side d node parent gparent root h = do {
     uncle \<leftarrow> load (gparent, far d) h;
     uncle_red \<leftarrow> (if uncle \<noteq> NULL
                    then do { c \<leftarrow> load (uncle, rb_color) h; Some (c = RB_RED) }
                    else Some False);
     if uncle_red then do {
       h \<leftarrow> store (uncle, rb_color) RB_BLACK h;
       h \<leftarrow> store (parent, rb_color) RB_BLACK h;
       h \<leftarrow> store (gparent, rb_color) RB_RED h;
       Some (gparent, h)
     } else do {
       inner \<leftarrow> load (parent, far d) h;
       (node, parent, h) \<leftarrow> (if inner = node
          then do { h \<leftarrow> rotate_to d parent root h; Some (parent, node, h) }
          else Some (node, parent, h));
       h \<leftarrow> store (parent, rb_color) RB_BLACK h;
       h \<leftarrow> store (gparent, rb_color) RB_RED h;
       h \<leftarrow> rotate_from d gparent root h;
       Some (node, h)
     }
   }"

partial_function (option) insert_color_loop :: "addr \<Rightarrow> loc \<Rightarrow> heap \<Rightarrow> heap option" where
  "insert_color_loop node root h = do {
     parent \<leftarrow> load (node, rb_parent) h;
     if parent = NULL then Some h
     else do {
       pc \<leftarrow> load (parent, rb_color) h;
       if pc \<noteq> RB_RED then Some h
       else do {
         gparent \<leftarrow> load (parent, rb_parent) h;
         gl \<leftarrow> load (gparent, rb_left) h;
         (node, h) \<leftarrow> insert_color_side (if parent = gl then L else R) node parent gparent root h;
         insert_color_loop node root h
       }
     }
   }"

definition rb_insert_color :: "addr \<Rightarrow> loc \<Rightarrow> heap \<Rightarrow> heap option" where
  "rb_insert_color node root h = do {
     h \<leftarrow> insert_color_loop node root h;
     r \<leftarrow> load root h;
     store (r, rb_color) RB_BLACK h
   }"

subsection \<open>Rebalancing after a removal\<close>

text \<open>\<open>!p || p->rb_color == RB_BLACK\<close>\<close>

definition is_black :: "addr \<Rightarrow> heap \<Rightarrow> bool option" where
  "is_black p h = (if p = NULL then Some True
     else do { c \<leftarrow> load (p, rb_color) h; Some (c = RB_BLACK) })"

text \<open>
  One side of the body of the loop of \<open>__rb_erase_color\<close>, in its three statements: the
  first \<open>if\<close> makes the sibling \<open>other\<close> black; the \<open>if\<close> of the last branch makes the far
  child of \<open>other\<close> red; the second \<open>if\<close> is the rest. \<open>Inl (node, parent, h)\<close> is the
  state for the next round; \<open>Inr (node, h)\<close> leaves the loop by \<open>break\<close>.
\<close>

definition erase_color_red_sibling :: "side \<Rightarrow> addr \<Rightarrow> addr \<Rightarrow> loc \<Rightarrow> heap \<Rightarrow> (addr \<times> heap) option" where
  "erase_color_red_sibling d parent other root h = do {
     oc \<leftarrow> load (other, rb_color) h;
     if oc = RB_RED then do {
       h \<leftarrow> store (other, rb_color) RB_BLACK h;
       h \<leftarrow> store (parent, rb_color) RB_RED h;
       h \<leftarrow> rotate_to d parent root h;
       other \<leftarrow> load (parent, far d) h;
       Some (other, h)
     } else Some (other, h)
   }"

definition erase_color_far_child :: "side \<Rightarrow> addr \<Rightarrow> addr \<Rightarrow> loc \<Rightarrow> heap \<Rightarrow> (addr \<times> heap) option" where
  "erase_color_far_child d parent other root h = do {
     ofar \<leftarrow> load (other, far d) h;
     fb \<leftarrow> is_black ofar h;
     if fb then do {
       onear \<leftarrow> load (other, near d) h;
       h \<leftarrow> (if onear \<noteq> NULL then store (onear, rb_color) RB_BLACK h else Some h);
       h \<leftarrow> store (other, rb_color) RB_RED h;
       h \<leftarrow> rotate_from d other root h;
       other \<leftarrow> load (parent, far d) h;
       Some (other, h)
     } else Some (other, h)
   }"

definition erase_color_rotate :: "side \<Rightarrow> addr \<Rightarrow> addr \<Rightarrow> loc \<Rightarrow> heap \<Rightarrow> (addr \<times> heap) option" where
  "erase_color_rotate d parent other root h = do {
     pc \<leftarrow> load (parent, rb_color) h;
     h \<leftarrow> store (other, rb_color) pc h;
     h \<leftarrow> store (parent, rb_color) RB_BLACK h;
     ofar \<leftarrow> load (other, far d) h;
     h \<leftarrow> (if ofar \<noteq> NULL then store (ofar, rb_color) RB_BLACK h else Some h);
     h \<leftarrow> rotate_to d parent root h;
     r \<leftarrow> load root h;
     Some (r, h)
   }"

definition erase_color_side ::
  "side \<Rightarrow> addr \<Rightarrow> loc \<Rightarrow> heap \<Rightarrow> ((addr \<times> addr \<times> heap) + (addr \<times> heap)) option" where
  "erase_color_side d parent root h = do {
     other \<leftarrow> load (parent, far d) h;
     (other, h) \<leftarrow> erase_color_red_sibling d parent other root h;
     ol \<leftarrow> load (other, rb_left) h;
     lb \<leftarrow> is_black ol h;
     or \<leftarrow> load (other, rb_right) h;
     rb \<leftarrow> is_black or h;
     if lb \<and> rb then do {
       h \<leftarrow> store (other, rb_color) RB_RED h;
       pp \<leftarrow> load (parent, rb_parent) h;
       Some (Inl (parent, pp, h))
     } else do {
       (other, h) \<leftarrow> erase_color_far_child d parent other root h;
       (node, h) \<leftarrow> erase_color_rotate d parent other root h;
       Some (Inr (node, h))
     }
   }"

partial_function (option) erase_color_loop :: "addr \<Rightarrow> addr \<Rightarrow> loc \<Rightarrow> heap \<Rightarrow> (addr \<times> heap) option" where
  "erase_color_loop node parent root h = do {
     b \<leftarrow> is_black node h;
     r \<leftarrow> load root h;
     if b \<and> node \<noteq> r then do {
       pl \<leftarrow> load (parent, rb_left) h;
       s \<leftarrow> erase_color_side (if pl = node then L else R) parent root h;
       case s of
         Inl (node, parent, h) \<Rightarrow> erase_color_loop node parent root h
       | Inr (node, h) \<Rightarrow> Some (node, h)
     } else Some (node, h)
   }"

definition rb_erase_color :: "addr \<Rightarrow> addr \<Rightarrow> loc \<Rightarrow> heap \<Rightarrow> heap option" where
  "rb_erase_color node parent root h = do {
     (node, h) \<leftarrow> erase_color_loop node parent root h;
     if node \<noteq> NULL then store (node, rb_color) RB_BLACK h else Some h
   }"

subsection \<open>Removal\<close>

partial_function (option) leftmost :: "addr \<Rightarrow> heap \<Rightarrow> addr option" where
  "leftmost n h = do {
     left \<leftarrow> load (n, rb_left) h;
     if left = NULL then Some n else leftmost left h
   }"

partial_function (option) rightmost :: "addr \<Rightarrow> heap \<Rightarrow> addr option" where
  "rightmost n h = do {
     right \<leftarrow> load (n, rb_right) h;
     if right = NULL then Some n else rightmost right h
   }"

text \<open>Taking a node with at most one child out of the tree.\<close>

definition rb_unlink :: "addr \<Rightarrow> addr \<Rightarrow> addr \<Rightarrow> loc \<Rightarrow> heap \<Rightarrow> heap option" where
  "rb_unlink node child parent root h = do {
     h \<leftarrow> (if child \<noteq> NULL then store (child, rb_parent) parent h else Some h);
     set_child parent node child root h
   }"

text \<open>The successor \<open>node\<close>, already taken out, gets the place of \<open>old\<close>.\<close>

definition rb_take_place :: "addr \<Rightarrow> addr \<Rightarrow> loc \<Rightarrow> heap \<Rightarrow> heap option" where
  "rb_take_place node old root h = do {
     op \<leftarrow> load (old, rb_parent) h;
     h \<leftarrow> store (node, rb_parent) op h;
     oc \<leftarrow> load (old, rb_color) h;
     h \<leftarrow> store (node, rb_color) oc h;
     or \<leftarrow> load (old, rb_right) h;
     h \<leftarrow> store (node, rb_right) or h;
     ol \<leftarrow> load (old, rb_left) h;
     h \<leftarrow> store (node, rb_left) ol h;
     op \<leftarrow> load (old, rb_parent) h;
     h \<leftarrow> set_child op old node root h;
     ol \<leftarrow> load (old, rb_left) h;
     h \<leftarrow> store (ol, rb_parent) node h;
     or \<leftarrow> load (old, rb_right) h;
     if or \<noteq> NULL then store (or, rb_parent) node h else Some h
   }"

definition rb_erase :: "addr \<Rightarrow> loc \<Rightarrow> heap \<Rightarrow> heap option" where
  "rb_erase node root h = do {
     left \<leftarrow> load (node, rb_left) h;
     right \<leftarrow> load (node, rb_right) h;
     if left = NULL \<or> right = NULL then do {
       let child = (if left = NULL then right else left);
       parent \<leftarrow> load (node, rb_parent) h;
       color \<leftarrow> load (node, rb_color) h;
       h \<leftarrow> rb_unlink node child parent root h;
       if color = RB_BLACK then rb_erase_color child parent root h else Some h
     } else do {
       let old = node;
       node \<leftarrow> leftmost right h;
       child \<leftarrow> load (node, rb_right) h;
       parent \<leftarrow> load (node, rb_parent) h;
       color \<leftarrow> load (node, rb_color) h;
       h \<leftarrow> rb_unlink node child parent root h;
       np \<leftarrow> load (node, rb_parent) h;
       let parent = (if np = old then node else parent);
       h \<leftarrow> rb_take_place node old root h;
       if color = RB_BLACK then rb_erase_color child parent root h else Some h
     }
   }"

subsection \<open>Walking the tree in order\<close>

definition rb_first :: "loc \<Rightarrow> heap \<Rightarrow> addr option" where
  "rb_first root h = do {
     n \<leftarrow> load root h;
     if n = NULL then Some NULL else leftmost n h
   }"

definition rb_last :: "loc \<Rightarrow> heap \<Rightarrow> addr option" where
  "rb_last root h = do {
     n \<leftarrow> load root h;
     if n = NULL then Some NULL else rightmost n h
   }"

text \<open>
  The climb of \<open>rb_next\<close> (\<open>f = rb_right\<close>) and \<open>rb_prev\<close> (\<open>f = rb_left\<close>): up as long as
  the node is the \<open>f\<close> child of its parent, then the parent.
\<close>

partial_function (option) climb :: "word_ix \<Rightarrow> addr \<Rightarrow> heap \<Rightarrow> addr option" where
  "climb f node h = do {
     parent \<leftarrow> load (node, rb_parent) h;
     if parent = NULL then Some parent
     else do {
       c \<leftarrow> load (parent, f) h;
       if node = c then climb f parent h else Some parent
     }
   }"

definition rb_next :: "addr \<Rightarrow> heap \<Rightarrow> addr option" where
  "rb_next node h = do {
     right \<leftarrow> load (node, rb_right) h;
     if right \<noteq> NULL then leftmost right h else climb rb_right node h
   }"

definition rb_prev :: "addr \<Rightarrow> heap \<Rightarrow> addr option" where
  "rb_prev node h = do {
     left \<leftarrow> load (node, rb_left) h;
     if left \<noteq> NULL then rightmost left h else climb rb_left node h
   }"

subsection \<open>Replacing a node in place\<close>

definition rb_replace_node :: "addr \<Rightarrow> addr \<Rightarrow> loc \<Rightarrow> heap \<Rightarrow> heap option" where
  "rb_replace_node victim newnode root h = do {
     parent \<leftarrow> load (victim, rb_parent) h;
     h \<leftarrow> set_child parent victim newnode root h;
     left \<leftarrow> load (victim, rb_left) h;
     h \<leftarrow> (if left \<noteq> NULL then store (left, rb_parent) newnode h else Some h);
     right \<leftarrow> load (victim, rb_right) h;
     h \<leftarrow> (if right \<noteq> NULL then store (right, rb_parent) newnode h else Some h);
     vp \<leftarrow> load (victim, rb_parent) h;
     h \<leftarrow> store (newnode, rb_parent) vp h;
     vr \<leftarrow> load (victim, rb_right) h;
     h \<leftarrow> store (newnode, rb_right) vr h;
     vl \<leftarrow> load (victim, rb_left) h;
     h \<leftarrow> store (newnode, rb_left) vl h;
     vc \<leftarrow> load (victim, rb_color) h;
     store (newnode, rb_color) vc h
   }"

end
