(* ===== verification/Rbtree_Rep.thy ===== *)
theory Rbtree_Rep
  imports Rbtree
begin

section \<open>Trees in the heap\<close>

text \<open>
  The abstraction of the pointer structure: a binary tree whose nodes carry their
  address and colour, the predicate that a heap holds it, contexts (a tree with one
  subtree cut out) and the lemmas for the memory operations of the code at a focus:
  reading a field, recolouring, and the two rotations.
\<close>

subsection \<open>Abstract trees\<close>

datatype color = Red | Black

type_synonym atree = "(addr \<times> color) tree"

primrec color_code :: "color \<Rightarrow> nat" where
  "color_code Red = RB_RED"
| "color_code Black = RB_BLACK"

lemma color_code_eq [simp]:
  "color_code c = RB_RED \<longleftrightarrow> c = Red" "color_code c = RB_BLACK \<longleftrightarrow> c = Black"
  "RB_RED = color_code c \<longleftrightarrow> c = Red" "RB_BLACK = color_code c \<longleftrightarrow> c = Black"
  by (cases c; simp add: RB_RED_def RB_BLACK_def)+

lemma RED_BLACK [simp]: "RB_RED \<noteq> RB_BLACK" "RB_BLACK \<noteq> RB_RED"
  by (simp_all add: RB_RED_def RB_BLACK_def)

lemma not_Red [simp]: "c \<noteq> Red \<longleftrightarrow> c = Black" and not_Black [simp]: "c \<noteq> Black \<longleftrightarrow> c = Red"
  by (cases c; simp)+

fun ptr :: "atree \<Rightarrow> addr" where
  "ptr Leaf = NULL"
| "ptr (Node l (a, c) r) = a"

definition addrs :: "atree \<Rightarrow> addr list" where
  "addrs t = map fst (inorder t)"

lemma addrs_simps [simp]:
  "addrs Leaf = []"
  "addrs (Node l (a, c) r) = addrs l @ a # addrs r"
  by (simp_all add: addrs_def)

lemma addrs_eq_Nil [simp]: "addrs t = [] \<longleftrightarrow> t = Leaf"
  by (cases t) (auto simp: addrs_def)

fun rep :: "heap \<Rightarrow> addr \<Rightarrow> atree \<Rightarrow> bool" where
  "rep h par Leaf \<longleftrightarrow> True"
| "rep h par (Node l (a, c) r) \<longleftrightarrow>
     a \<noteq> NULL \<and> h (a, rb_parent) = Some par \<and> h (a, rb_color) = Some (color_code c) \<and>
     h (a, rb_left) = Some (ptr l) \<and> h (a, rb_right) = Some (ptr r) \<and> rep h a l \<and> rep h a r"

text \<open>The heap holds the tree \<open>t\<close> below the root pointer at \<open>root\<close>.\<close>

definition tree_at :: "loc \<Rightarrow> heap \<Rightarrow> atree \<Rightarrow> bool" where
  "tree_at root h t \<longleftrightarrow>
     fst root \<noteq> NULL \<and> fst root \<notin> set (addrs t) \<and> distinct (addrs t) \<and>
     h root = Some (ptr t) \<and> rep h NULL t"

lemma ptr_in_addrs: "t \<noteq> Leaf \<Longrightarrow> ptr t \<in> set (addrs t)"
  by (cases t rule: ptr.cases) auto

lemma rep_NULL_notin: "rep h par t \<Longrightarrow> NULL \<notin> set (addrs t)"
  by (induction h par t rule: rep.induct) auto

lemma rep_ptr_eq_NULL: "rep h par t \<Longrightarrow> ptr t = NULL \<longleftrightarrow> t = Leaf"
  by (cases t rule: ptr.cases) auto

lemma rep_parent: "rep h par t \<Longrightarrow> t \<noteq> Leaf \<Longrightarrow> h (ptr t, rb_parent) = Some par"
  by (cases t rule: ptr.cases) auto

lemma rep_upd [frame_simps]: "fst l \<notin> set (addrs t) \<Longrightarrow> rep (h(l \<mapsto> v)) par t \<longleftrightarrow> rep h par t"
  by (induction h par t rule: rep.induct) (auto simp: prod_eq_iff)

lemma rep_reparent:
  "rep h par t \<Longrightarrow> t \<noteq> Leaf \<Longrightarrow> distinct (addrs t) \<Longrightarrow> rep (h((ptr t, rb_parent) \<mapsto> q)) q t"
  by (cases t rule: ptr.cases) (auto simp: frame_simps)

lemma rep_cong_heap:
  "(\<And>a f. a \<in> set (addrs t) \<Longrightarrow> h' (a, f) = h (a, f)) \<Longrightarrow> rep h' par t \<longleftrightarrow> rep h par t"
  by (induction h par t rule: rep.induct) auto

lemma rep_agree:
  assumes "rep h par t" "agree_off X h h'" "\<And>l. l \<in> X \<Longrightarrow> fst l \<notin> set (addrs t)"
  shows "rep h' par t"
proof -
  have "h' (a, f) = h (a, f)" if "a \<in> set (addrs t)" for a f
  proof -
    from assms(3) [of "(a, f)"] that have "(a, f) \<notin> X" by auto
    with assms(2) show ?thesis by (rule agree_offD)
  qed
  then have "rep h' par t \<longleftrightarrow> rep h par t" by (rule rep_cong_heap)
  with assms(1) show ?thesis by blast
qed

subsection \<open>Sides of a node\<close>

primrec mk :: "side \<Rightarrow> atree \<Rightarrow> addr \<times> color \<Rightarrow> atree \<Rightarrow> atree" where
  "mk L s x t = Node s x t"
| "mk R s x t = Node t x s"

lemma ptr_mk [simp]: "ptr (mk d s (a, c) t) = a"
  by (cases d) auto

lemma mk_neq_Leaf [simp]: "mk d s x t \<noteq> Leaf" "Leaf \<noteq> mk d s x t"
  by (cases d; simp)+

lemma set_addrs_mk [simp]: "set (addrs (mk d s (a, c) t)) = insert a (set (addrs s) \<union> set (addrs t))"
  by (cases d) auto

lemma distinct_addrs_mk [simp]:
  "distinct (addrs (mk d s (a, c) t)) \<longleftrightarrow>
     distinct (addrs s) \<and> distinct (addrs t) \<and> a \<notin> set (addrs s) \<and> a \<notin> set (addrs t) \<and>
     set (addrs s) \<inter> set (addrs t) = {}"
  by (cases d) auto

lemma rep_mk [simp]:
  "rep h par (mk d s (a, c) t) \<longleftrightarrow>
     a \<noteq> NULL \<and> h (a, rb_parent) = Some par \<and> h (a, rb_color) = Some (color_code c) \<and>
     h (a, near d) = Some (ptr s) \<and> h (a, far d) = Some (ptr t) \<and> rep h a s \<and> rep h a t"
  by (cases d) auto

lemma near_far [simp]: "near d \<noteq> far d" "far d \<noteq> near d" "near d \<noteq> rb_parent" "far d \<noteq> rb_parent"
  "near d \<noteq> rb_color" "far d \<noteq> rb_color" "rb_parent \<noteq> near d" "rb_parent \<noteq> far d"
  "rb_color \<noteq> near d" "rb_color \<noteq> far d"
  by (cases d; simp)+

lemma mk_cases:
  assumes "t \<noteq> Leaf" obtains s a c u where "t = mk d s (a, c) u"
  using assms by (cases d; cases t rule: ptr.cases) auto

subsection \<open>Contexts\<close>

text \<open>
  A frame \<open>Fr d a c s\<close> is the node \<open>a\<close> of colour \<open>c\<close> whose child on side \<open>d\<close> is cut
  out and whose other child is \<open>s\<close>. A context is a list of frames, innermost first.
\<close>

datatype frame = Fr (fside: side) (faddr: addr) (fcolor: color) (fsib: atree)

primrec plug1 :: "frame \<Rightarrow> atree \<Rightarrow> atree" where
  "plug1 (Fr d a c s) t = mk d t (a, c) s"

primrec plug :: "frame list \<Rightarrow> atree \<Rightarrow> atree" where
  "plug [] t = t"
| "plug (f # fs) t = plug fs (plug1 f t)"

primrec cpar :: "frame list \<Rightarrow> addr" where
  "cpar [] = NULL"
| "cpar (f # fs) = faddr f"

primrec caddrs :: "frame list \<Rightarrow> addr set" where
  "caddrs [] = {}"
| "caddrs (f # fs) = insert (faddr f) (set (addrs (fsib f))) \<union> caddrs fs"

text \<open>The location that points to the hole: the \<open>struct rb_node **link\<close> of the code.\<close>

primrec hole :: "loc \<Rightarrow> frame list \<Rightarrow> loc" where
  "hole root [] = root"
| "hole root (f # fs) = (faddr f, near (fside f))"

primrec crep :: "loc \<Rightarrow> heap \<Rightarrow> frame list \<Rightarrow> addr \<Rightarrow> bool" where
  "crep root h [] p \<longleftrightarrow> h root = Some p"
| "crep root h (f # fs) p \<longleftrightarrow>
     faddr f \<noteq> NULL \<and> h (faddr f, rb_parent) = Some (cpar fs) \<and>
     h (faddr f, rb_color) = Some (color_code (fcolor f)) \<and>
     h (faddr f, near (fside f)) = Some p \<and> h (faddr f, far (fside f)) = Some (ptr (fsib f)) \<and>
     rep h (faddr f) (fsib f) \<and> crep root h fs (faddr f)"

primrec cdistinct :: "frame list \<Rightarrow> bool" where
  "cdistinct [] \<longleftrightarrow> True"
| "cdistinct (f # fs) \<longleftrightarrow> distinct (addrs (fsib f)) \<and> faddr f \<notin> set (addrs (fsib f)) \<and>
     faddr f \<notin> caddrs fs \<and> set (addrs (fsib f)) \<inter> caddrs fs = {} \<and> cdistinct fs"

lemma set_addrs_plug [simp]: "set (addrs (plug fs t)) = set (addrs t) \<union> caddrs fs"
proof (induction fs arbitrary: t)
  case (Cons f fs)
  then show ?case by (cases f) auto
qed simp

lemma distinct_plug:
  "distinct (addrs (plug fs t)) \<longleftrightarrow>
     distinct (addrs t) \<and> cdistinct fs \<and> set (addrs t) \<inter> caddrs fs = {}"
proof (induction fs arbitrary: t)
  case (Cons f fs)
  then show ?case by (cases f) auto
qed simp

lemma plug_append: "plug (fs @ gs) t = plug gs (plug fs t)"
  by (induction fs arbitrary: t) auto

text \<open>A context surrounds the in-order sequence of the subtree by a fixed prefix and suffix.\<close>

fun cpre :: "frame list \<Rightarrow> addr list" where
  "cpre [] = []"
| "cpre (Fr L a c s # fs) = cpre fs"
| "cpre (Fr R a c s # fs) = cpre fs @ addrs s @ [a]"

fun cpost :: "frame list \<Rightarrow> addr list" where
  "cpost [] = []"
| "cpost (Fr L a c s # fs) = a # addrs s @ cpost fs"
| "cpost (Fr R a c s # fs) = cpost fs"

lemma addrs_plug: "addrs (plug fs t) = cpre fs @ addrs t @ cpost fs"
  by (induction fs arbitrary: t rule: cpre.induct) auto

lemma focus_exists:
  "a \<in> set (addrs t) \<Longrightarrow> \<exists>fs l c r. t = plug fs (Node l (a, c) r)"
proof (induction t)
  case (Node l x r)
  obtain b cb where x: "x = (b, cb)" by (cases x)
  consider "a = b" | "a \<in> set (addrs l)" | "a \<in> set (addrs r)" using Node.prems x by auto
  then show ?case
  proof cases
    case 1
    then have "Node l x r = plug [] (Node l (a, cb) r)" by (simp add: x)
    then show ?thesis by blast
  next
    case 2
    with Node.IH(1) obtain fs l' c r' where "l = plug fs (Node l' (a, c) r')" by blast
    then have "Node l x r = plug (fs @ [Fr L b cb r]) (Node l' (a, c) r')" by (simp add: plug_append x)
    then show ?thesis by blast
  next
    case 3
    with Node.IH(2) obtain fs l' c r' where "r = plug fs (Node l' (a, c) r')" by blast
    then have "Node l x r = plug (fs @ [Fr R b cb l]) (Node l' (a, c) r')" by (simp add: plug_append x)
    then show ?thesis by blast
  qed
qed simp

lemma rep_plug:
  "h root = Some (ptr (plug fs t)) \<and> rep h NULL (plug fs t) \<longleftrightarrow>
     crep root h fs (ptr t) \<and> rep h (cpar fs) t"
proof (induction fs arbitrary: t)
  case (Cons f fs)
  then show ?case by (cases f) auto
qed simp

text \<open>The tree in focus form: the representation splits into the subtree and its context.\<close>

definition focus_at :: "loc \<Rightarrow> heap \<Rightarrow> frame list \<Rightarrow> atree \<Rightarrow> bool" where
  "focus_at root h fs t \<longleftrightarrow>
     fst root \<noteq> NULL \<and> fst root \<notin> set (addrs t) \<and> fst root \<notin> caddrs fs \<and>
     distinct (addrs t) \<and> cdistinct fs \<and> set (addrs t) \<inter> caddrs fs = {} \<and>
     crep root h fs (ptr t) \<and> rep h (cpar fs) t"

lemma tree_at_plug: "tree_at root h (plug fs t) \<longleftrightarrow> focus_at root h fs t"
  using rep_plug [of h root fs t] by (auto simp: tree_at_def focus_at_def distinct_plug)

lemma focus_at_Cons: "focus_at root h (f # fs) t \<longleftrightarrow> focus_at root h fs (plug1 f t)"
  by (simp add: tree_at_plug [symmetric])

lemma focus_at_Nil: "focus_at root h [] t \<longleftrightarrow> tree_at root h t"
  by (simp add: tree_at_plug [symmetric])

lemma crep_upd [frame_simps]:
  "fst l \<notin> caddrs fs \<Longrightarrow> fst l \<noteq> fst root \<Longrightarrow> crep root (h(l \<mapsto> v)) fs p \<longleftrightarrow> crep root h fs p"
  by (induction fs arbitrary: p) (auto simp: frame_simps prod_eq_iff)

lemma crep_hole_upd:
  "crep root h fs p \<Longrightarrow> cdistinct fs \<Longrightarrow> fst root \<notin> caddrs fs \<Longrightarrow>
   crep root (h(hole root fs \<mapsto> q)) fs q"
  by (cases root; cases fs) (auto simp: frame_simps)

lemma crep_cong_heap:
  "(\<And>a f. a \<in> caddrs fs \<Longrightarrow> h' (a, f) = h (a, f)) \<Longrightarrow> h' root = h root \<Longrightarrow> crep root h' fs p \<longleftrightarrow> crep root h fs p"
proof (induction fs arbitrary: p)
  case (Cons f fs)
  have "rep h' (faddr f) (fsib f) \<longleftrightarrow> rep h (faddr f) (fsib f)"
    using Cons.prems(1) by (intro rep_cong_heap) auto
  moreover have "crep root h' fs q \<longleftrightarrow> crep root h fs q" for q
    using Cons.prems by (intro Cons.IH) auto
  ultimately show ?case using Cons.prems(1) by simp
qed simp

lemma crep_hole: "crep root h fs p \<Longrightarrow> h (hole root fs) = Some p"
  by (cases fs) auto

lemma crep_cpar: "crep root h fs p \<Longrightarrow> cpar fs = NULL \<longleftrightarrow> fs = []"
  by (cases fs) auto

lemma cpar_in_caddrs: "fs \<noteq> [] \<Longrightarrow> cpar fs \<in> caddrs fs"
  by (cases fs) auto

subsection \<open>The ends of a subtree\<close>

lemma leftmost_hd: "rep h par t \<Longrightarrow> t \<noteq> Leaf \<Longrightarrow> leftmost (ptr t) h = Some (hd (addrs t))"
proof (induction h par t rule: rep.induct)
  case (2 h par l a c r)
  then show ?case
    by (subst leftmost.simps) (cases "l = Leaf"; auto simp: heap_simps rep_ptr_eq_NULL hd_append)
qed simp

lemma rightmost_last: "rep h par t \<Longrightarrow> t \<noteq> Leaf \<Longrightarrow> rightmost (ptr t) h = Some (last (addrs t))"
proof (induction h par t rule: rep.induct)
  case (2 h par l a c r)
  then show ?case
    by (subst rightmost.simps) (cases "r = Leaf"; auto simp: heap_simps rep_ptr_eq_NULL)
qed simp

subsection \<open>The memory operations at a focus\<close>

text \<open>The cells an operation on the tree may write.\<close>

definition region :: "loc \<Rightarrow> addr set \<Rightarrow> loc set" where
  "region root A = insert root (A \<times> UNIV)"

lemma region_root [simp, intro]: "root \<in> region root A"
  by (simp add: region_def)

lemma region_cell [simp]: "a \<in> A \<Longrightarrow> (a, f) \<in> region root A"
  by (simp add: region_def)

lemma region_mono: "A \<subseteq> B \<Longrightarrow> region root A \<subseteq> region root B"
  by (auto simp: region_def)

lemma ptr_sib_neq: "a \<notin> set (addrs s) \<Longrightarrow> a \<noteq> NULL \<Longrightarrow> ptr s \<noteq> a"
  by (cases s rule: ptr.cases) auto

text \<open>Redirecting the pointer to the subtree in focus, as the code does it.\<close>

lemma set_child_focus:
  assumes "crep root h fs a" "a \<notin> caddrs fs" "a \<noteq> NULL" "fst root \<noteq> NULL"
  shows "set_child (cpar fs) a b root h = Some (h(hole root fs \<mapsto> b))"
proof (cases fs)
  case (Cons f gs)
  with assms show ?thesis
    by (cases "fside f") (auto simp: set_child_def heap_simps dest: ptr_sib_neq)
qed (use assms in \<open>auto simp: set_child_def heap_simps\<close>)

lemma set_child_right_first_focus:
  assumes "crep root h fs a" "a \<notin> caddrs fs" "a \<noteq> NULL" "fst root \<noteq> NULL"
  shows "set_child_right_first (cpar fs) a b root h = Some (h(hole root fs \<mapsto> b))"
proof (cases fs)
  case (Cons f gs)
  with assms show ?thesis
    by (cases "fside f") (auto simp: set_child_right_first_def heap_simps dest: ptr_sib_neq)
qed (use assms in \<open>auto simp: set_child_right_first_def heap_simps\<close>)

lemma focus_set_color:
  assumes "focus_at root h fs (mk d l (a, c) r)"
  shows "store (a, rb_color) (color_code c') h = Some (h((a, rb_color) \<mapsto> color_code c'))"
    and "focus_at root (h((a, rb_color) \<mapsto> color_code c')) fs (mk d l (a, c') r)"
  using assms by (cases root; auto simp: focus_at_def heap_simps frame_simps)+

text \<open>The two rotations as one text over the side.\<close>

lemma rotate_to_eq:
  "rotate_to d node root h = do {
     right \<leftarrow> load (node, far d) h;
     rl \<leftarrow> load (right, near d) h;
     h \<leftarrow> store (node, far d) rl h;
     h \<leftarrow> (if rl \<noteq> NULL then store (rl, rb_parent) node h else Some h);
     h \<leftarrow> store (right, near d) node h;
     parent \<leftarrow> load (node, rb_parent) h;
     h \<leftarrow> store (right, rb_parent) parent h;
     h \<leftarrow> (case d of L \<Rightarrow> set_child | R \<Rightarrow> set_child_right_first) parent node right root h;
     store (node, rb_parent) right h
   }"
  by (cases d) (simp_all add: rb_rotate_left_def rb_rotate_right_def)

text \<open>What a rotation reads, and where its cells lie.\<close>

lemma rotate_reads:
  assumes "focus_at root h fs (mk d s (a, c) (mk d m (b, c') u))"
  shows "m \<noteq> Leaf \<Longrightarrow> ptr m \<noteq> a \<and> ptr m \<noteq> b \<and> ptr m \<notin> caddrs fs \<and> ptr m \<noteq> fst root \<and> ptr m \<noteq> NULL
      \<and> ptr m \<notin> set (addrs s) \<and> ptr m \<notin> set (addrs u) \<and> h (ptr m, rb_parent) = Some b"
    "fst (hole root fs) \<noteq> a" "fst (hole root fs) \<noteq> b" "fst (hole root fs) \<notin> set (addrs s)"
    "fst (hole root fs) \<notin> set (addrs m)" "fst (hole root fs) \<notin> set (addrs u)"
    "a \<noteq> 0" "b \<noteq> 0" "a \<noteq> b" "h (a, far d) = Some b" "h (b, near d) = Some (ptr m)"
    "h (a, rb_parent) = Some (cpar fs)" "h (b, rb_parent) = Some a"
proof -
  show "m \<noteq> Leaf \<Longrightarrow> ptr m \<noteq> a \<and> ptr m \<noteq> b \<and> ptr m \<notin> caddrs fs \<and> ptr m \<noteq> fst root \<and> ptr m \<noteq> NULL
      \<and> ptr m \<notin> set (addrs s) \<and> ptr m \<notin> set (addrs u) \<and> h (ptr m, rb_parent) = Some b"
    using assms by (cases m rule: ptr.cases) (auto simp: focus_at_def)
  show "fst (hole root fs) \<noteq> a" "fst (hole root fs) \<noteq> b" "fst (hole root fs) \<notin> set (addrs s)"
    "fst (hole root fs) \<notin> set (addrs m)" "fst (hole root fs) \<notin> set (addrs u)"
    using assms by (cases fs; auto simp: focus_at_def)+
qed (use assms in \<open>auto simp: focus_at_def\<close>)

text \<open>The heaps on the way: the middle subtree moved, the lifted node linked, the parents set.\<close>

definition rot_mid :: "side \<Rightarrow> addr \<Rightarrow> atree \<Rightarrow> heap \<Rightarrow> heap" where
  "rot_mid d a m h = (if m = Leaf then h((a, far d) \<mapsto> ptr m) else h((a, far d) \<mapsto> ptr m, (ptr m, rb_parent) \<mapsto> a))"

definition rot_up :: "side \<Rightarrow> frame list \<Rightarrow> addr \<Rightarrow> addr \<Rightarrow> atree \<Rightarrow> heap \<Rightarrow> heap" where
  "rot_up d fs a b m h = (rot_mid d a m h)((b, near d) \<mapsto> a, (b, rb_parent) \<mapsto> cpar fs)"

definition rot_end :: "side \<Rightarrow> loc \<Rightarrow> frame list \<Rightarrow> addr \<Rightarrow> addr \<Rightarrow> atree \<Rightarrow> heap \<Rightarrow> heap" where
  "rot_end d root fs a b m h = (rot_up d fs a b m h)(hole root fs \<mapsto> b, (a, rb_parent) \<mapsto> b)"

lemmas rot_defs = rot_end_def rot_up_def rot_mid_def

lemma rot_up_crep:
  assumes "focus_at root h fs (mk d s (a, c) (mk d m (b, c') u))"
  shows "crep root (rot_up d fs a b m h) fs a"
  using assms rotate_reads(1) [OF assms] by (auto simp: focus_at_def rot_mid_def rot_up_def frame_simps)

lemma rotate_to_runs:
  assumes "focus_at root h fs (mk d s (a, c) (mk d m (b, c') u))"
  shows "rotate_to d a root h = Some (rot_end d root fs a b m h)"
proof -
  note m = rotate_reads(1) [OF assms] and cell = rotate_reads(2-6) [OF assms] and reads = rotate_reads(7-13) [OF assms]
  let ?h2 = "rot_mid d a m h" and ?h3 = "rot_up d fs a b m h"
  have relink: "(case d of L \<Rightarrow> set_child | R \<Rightarrow> set_child_right_first) (cpar fs) a b root ?h3 = Some (?h3(hole root fs \<mapsto> b))"
    using assms rot_up_crep [OF assms] by (cases d) (auto simp: focus_at_def intro!: set_child_focus set_child_right_first_focus)
  have step2: "(if ptr m \<noteq> NULL then store (ptr m, rb_parent) a (h((a, far d) \<mapsto> ptr m)) else Some (h((a, far d) \<mapsto> ptr m))) = Some ?h2"
    using m by (auto simp: rot_mid_def heap_simps)
  have h2: "?h2 (b, near d) = Some (ptr m)" "?h2 (a, rb_parent) = Some (cpar fs)" "?h2 (b, rb_parent) = Some a"
    using reads m by (auto simp: rot_mid_def)
  have h3: "(?h3(hole root fs \<mapsto> b)) (a, rb_parent) = Some (cpar fs)"
    using reads cell h2 by (auto simp: rot_up_def prod_eq_iff)
  show ?thesis
    using reads h2 h3 relink
    by (simp add: rotate_to_eq load_def store_def step2 rot_up_def [symmetric] rot_end_def del: neq0_conv)
qed

lemma rotate_to_shape:
  assumes "focus_at root h fs (mk d s (a, c) (mk d m (b, c') u))"
  shows "focus_at root (rot_end d root fs a b m h) fs (mk d (mk d s (a, c) m) (b, c') u)"
proof -
  note m = rotate_reads(1) [OF assms] and cell = rotate_reads(2-6) [OF assms] and reads = rotate_reads(7-13) [OF assms]
  let ?h2 = "rot_mid d a m h" and ?h3 = "rot_up d fs a b m h" and ?h5 = "rot_end d root fs a b m h"
  have "crep root (?h3(hole root fs \<mapsto> b)) fs b"
    using rot_up_crep [OF assms] assms by (intro crep_hole_upd) (auto simp: focus_at_def)
  then have "crep root ?h5 fs b"
    using assms by (auto simp: rot_end_def focus_at_def crep_upd)
  moreover have "rep ?h2 a m"
    using assms m rep_reparent [of "h((a, far d) \<mapsto> ptr m)" b m a]
    by (auto simp: focus_at_def rot_mid_def frame_simps)
  with cell reads assms have "rep ?h5 a m"
    by (auto simp: rot_end_def rot_up_def focus_at_def frame_simps)
  moreover have "rep ?h5 a s" "rep ?h5 b u"
    using assms m cell by (auto simp: rot_defs focus_at_def frame_simps)
  moreover have "?h5 (a, f) = (if f = rb_parent then Some b else if f = far d then Some (ptr m) else h (a, f))"
    "?h5 (b, f) = (if f = rb_parent then Some (cpar fs) else if f = near d then Some a else h (b, f))" for f
    using reads m cell by (auto simp: rot_defs prod_eq_iff)
  ultimately show ?thesis using assms by (auto simp: focus_at_def)
qed

lemma rotate_to_frame:
  assumes "focus_at root h fs (mk d s (a, c) (mk d m (b, c') u))"
  shows "agree_off (region root ({a, b} \<union> set (addrs m) \<union> caddrs fs)) h (rot_end d root fs a b m h)"
proof -
  have "hole root fs \<in> region root (caddrs fs)"
    by (cases fs) auto
  then have "hole root fs \<in> region root ({a, b} \<union> set (addrs m) \<union> caddrs fs)"
    using region_mono by blast
  moreover have "h (hole root fs) \<noteq> None"
    using assms crep_hole [of root h fs a] by (auto simp: focus_at_def)
  ultimately show ?thesis
    using rotate_reads(7-13) [OF assms] rotate_reads(1) [OF assms] ptr_in_addrs [of m]
    by (auto simp: rot_defs intro!: agree_off_upd)
qed

lemma rotate_to_focus:
  assumes "focus_at root h fs (mk d s (a, c) (mk d m (b, c') u))"
  shows "\<exists>h'. rotate_to d a root h = Some h' \<and>
    focus_at root h' fs (mk d (mk d s (a, c) m) (b, c') u) \<and>
    agree_off (region root ({a, b} \<union> set (addrs m) \<union> caddrs fs)) h h'"
  using rotate_to_runs [OF assms] rotate_to_shape [OF assms] rotate_to_frame [OF assms] by blast

text \<open>The mirror image: \<open>rotate_from d\<close> lifts the near child of a node.\<close>

primrec opp :: "side \<Rightarrow> side" where
  "opp L = R"
| "opp R = L"

lemma mk_opp: "mk (opp d) s x t = mk d t x s"
  by (cases d) simp_all

lemma rotate_from_eq: "rotate_from d = rotate_to (opp d)"
  by (cases d) simp_all

lemma rotate_from_focus:
  assumes "focus_at root h fs (mk d (mk d u (b, c') m) (a, c) s)"
  shows "\<exists>h'. rotate_from d a root h = Some h' \<and>
    focus_at root h' fs (mk d u (b, c') (mk d m (a, c) s)) \<and>
    agree_off (region root ({a, b} \<union> set (addrs m) \<union> caddrs fs)) h h'"
  using rotate_to_focus [of root h fs "opp d" s a c m b c' u] assms
  by (simp add: mk_opp rotate_from_eq)

subsection \<open>Substituting one node for another\<close>

text \<open>
  The heap \<open>h'\<close> has \<open>n\<close> wherever \<open>h\<close> has \<open>a\<close>: in the cells of the node, in the pointer to it
  and in the parent pointers of its children.
\<close>

definition substituted :: "addr \<Rightarrow> addr \<Rightarrow> loc \<Rightarrow> frame list \<Rightarrow> atree \<Rightarrow> atree \<Rightarrow> heap \<Rightarrow> heap \<Rightarrow> bool" where
  "substituted a n root fs l r h h' \<longleftrightarrow>
     (\<forall>f. h' (n, f) = h (a, f)) \<and> h' (hole root fs) = Some n \<and>
     (l \<noteq> Leaf \<longrightarrow> h' (ptr l, rb_parent) = Some n) \<and> (r \<noteq> Leaf \<longrightarrow> h' (ptr r, rb_parent) = Some n) \<and>
     (\<forall>x f. x \<noteq> n \<longrightarrow> (x, f) \<noteq> hole root fs \<longrightarrow> \<not> (l \<noteq> Leaf \<and> (x, f) = (ptr l, rb_parent)) \<longrightarrow>
        \<not> (r \<noteq> Leaf \<and> (x, f) = (ptr r, rb_parent)) \<longrightarrow> h' (x, f) = h (x, f))"

lemma substituted_rep:
  assumes "rep h a t" "distinct (addrs t)"
    "t \<noteq> Leaf \<Longrightarrow> h' (ptr t, rb_parent) = Some n"
    "\<And>x f. x \<in> set (addrs t) \<Longrightarrow> (x, f) \<noteq> (ptr t, rb_parent) \<Longrightarrow> h' (x, f) = h (x, f)"
  shows "rep h' n t"
proof (cases "t = Leaf")
  case False
  have "rep h' n t \<longleftrightarrow> rep (h((ptr t, rb_parent) \<mapsto> n)) n t"
    using assms(3,4) False by (intro rep_cong_heap) auto
  with rep_reparent [OF assms(1) False assms(2)] show ?thesis by blast
qed simp

lemma substituted_focus:
  assumes foc: "focus_at root h fs (Node l (a, c) r)" and fresh: "n \<noteq> NULL" "n \<noteq> fst root" "n \<notin> caddrs fs"
      "n \<notin> set (addrs l)" "n \<notin> set (addrs r)" "n \<noteq> a"
    and sub: "substituted a n root fs l r h h'"
  shows "focus_at root h' fs (Node l (n, c) r)"
proof -
  note D = foc [unfolded focus_at_def]
  have ptrs: "l \<noteq> Leaf \<Longrightarrow> ptr l \<in> set (addrs l)" "r \<noteq> Leaf \<Longrightarrow> ptr r \<in> set (addrs r)"
    by (auto intro: ptr_in_addrs)
  have cell: "fst (hole root fs) \<notin> set (addrs l)" "fst (hole root fs) \<notin> set (addrs r)"
    using D by (cases fs; auto)+
  have off: "h' (x, f) = h (x, f)" if "x \<noteq> n" "(x, f) \<noteq> hole root fs" "\<not> (l \<noteq> Leaf \<and> (x, f) = (ptr l, rb_parent))"
      "\<not> (r \<noteq> Leaf \<and> (x, f) = (ptr r, rb_parent))" for x f
    using sub that by (simp add: substituted_def)
  have "rep h' n l"
  proof (rule substituted_rep)
    fix x f assume "x \<in> set (addrs l)" "(x, f) \<noteq> (ptr l, rb_parent)"
    with D fresh ptrs cell show "h' (x, f) = h (x, f)" by (intro off) (auto simp: prod_eq_iff)
  qed (use D sub in \<open>auto simp: substituted_def\<close>)
  moreover have "rep h' n r"
  proof (rule substituted_rep)
    fix x f assume "x \<in> set (addrs r)" "(x, f) \<noteq> (ptr r, rb_parent)"
    with D fresh ptrs cell show "h' (x, f) = h (x, f)" by (intro off) (auto simp: prod_eq_iff)
  qed (use D sub in \<open>auto simp: substituted_def\<close>)
  moreover have "crep root h' fs n"
  proof -
    have "crep root h' fs n \<longleftrightarrow> crep root (h(hole root fs \<mapsto> n)) fs n"
    proof (rule crep_cong_heap)
      fix x f assume "x \<in> caddrs fs"
      with D fresh ptrs sub show "h' (x, f) = (h(hole root fs \<mapsto> n)) (x, f)"
        by (cases "(x, f) = hole root fs") (auto simp: substituted_def intro!: off)
    next
      show "h' root = (h(hole root fs \<mapsto> n)) root"
      proof (cases "root = hole root fs")
        case False
        have "h' (fst root, snd root) = h (fst root, snd root)"
          using D fresh(2) ptrs False by (intro off) auto
        with False show ?thesis by simp
      qed (use sub in \<open>simp add: substituted_def\<close>)
    qed
    moreover have "crep root (h(hole root fs \<mapsto> n)) fs n"
      using D by (intro crep_hole_upd [of root h fs a]) auto
    ultimately show ?thesis by blast
  qed
  ultimately show ?thesis
    using D fresh sub by (auto simp: focus_at_def substituted_def)
qed

end
