(* ===== verification/Rbtree_Insert.thy ===== *)
theory Rbtree_Insert
  imports Rbtree_Rep
begin

section \<open>Red-black invariants and insertion\<close>

text \<open>
  The colour and height invariants of red-black trees, their form at a focus, and the
  correctness of \<open>rb_insert_color\<close>: started on a tree that is red-black but for a red
  node under a red parent, it stops, touches only the cells of the tree, keeps the
  in-order sequence of the nodes and leaves a red-black tree.
\<close>

subsection \<open>Invariants\<close>

fun col :: "atree \<Rightarrow> color" where
  "col Leaf = Black"
| "col (Node l (a, c) r) = c"

fun bh :: "atree \<Rightarrow> nat" where
  "bh Leaf = 0"
| "bh (Node l (a, c) r) = bh l + (if c = Black then 1 else 0)"

fun invc :: "atree \<Rightarrow> bool" where
  "invc Leaf \<longleftrightarrow> True"
| "invc (Node l (a, c) r) \<longleftrightarrow> (c = Red \<longrightarrow> col l = Black \<and> col r = Black) \<and> invc l \<and> invc r"

fun invh :: "atree \<Rightarrow> bool" where
  "invh Leaf \<longleftrightarrow> True"
| "invh (Node l (a, c) r) \<longleftrightarrow> bh l = bh r \<and> invh l \<and> invh r"

text \<open>The invariant of the tree between operations.\<close>

definition rbt :: "atree \<Rightarrow> bool" where
  "rbt t \<longleftrightarrow> invc t \<and> invh t \<and> col t = Black"

lemma col_mk [simp]: "col (mk d s (a, c) t) = c"
  by (cases d) auto

lemma invc_mk [simp]: "invc (mk d s (a, c) t) \<longleftrightarrow> (c = Red \<longrightarrow> col s = Black \<and> col t = Black) \<and> invc s \<and> invc t"
  by (cases d) auto

lemma invh_mk [simp]: "invh (mk d s (a, c) t) \<longleftrightarrow> bh s = bh t \<and> invh s \<and> invh t"
  by (cases d) auto

lemma bh_mk [simp]: "bh s = bh t \<Longrightarrow> bh (mk d s (a, c) t) = bh s + (if c = Black then 1 else 0)"
  by (cases d) auto

primrec ccol :: "frame list \<Rightarrow> color" where
  "ccol [] = Black"
| "ccol (f # fs) = fcolor f"

text \<open>The context keeps the invariants around a hole of black height \<open>n\<close>.\<close>

primrec cinv :: "frame list \<Rightarrow> nat \<Rightarrow> bool" where
  "cinv [] n \<longleftrightarrow> True"
| "cinv (f # fs) n \<longleftrightarrow> bh (fsib f) = n \<and> invc (fsib f) \<and> invh (fsib f) \<and>
     (fcolor f = Red \<longrightarrow> col (fsib f) = Black \<and> fs \<noteq> [] \<and> ccol fs = Black) \<and>
     cinv fs (n + (if fcolor f = Black then 1 else 0))"

lemma rbt_plug:
  "rbt (plug fs t) \<longleftrightarrow> invc t \<and> invh t \<and> cinv fs (bh t) \<and>
     (if fs = [] then col t = Black else ccol fs = Red \<longrightarrow> col t = Black)"
proof (induction fs arbitrary: t)
  case (Cons f fs)
  show ?case
  proof (cases f)
    case (Fr d a c s)
    with Cons [of "mk d t (a, c) s"] show ?thesis
      by (cases "bh s = bh t") auto
  qed
qed (auto simp: rbt_def)

lemma addrs_plug_cong: "addrs t = addrs t' \<Longrightarrow> addrs (plug fs t) = addrs (plug fs t')"
  by (simp add: addrs_plug)

lemma addrs_rotate: "addrs (mk d (mk d s (a, c) m) (b, c') u) = addrs (mk d s (a, e) (mk d m (b, e') u))"
  by (cases d) auto

subsection \<open>Recolouring a node\<close>

fun paint_at :: "addr \<Rightarrow> color \<Rightarrow> atree \<Rightarrow> atree" where
  "paint_at x c Leaf = Leaf"
| "paint_at x c (Node l (a, c') r) = Node (paint_at x c l) (a, if a = x then c else c') (paint_at x c r)"

lemma paint_at_mk [simp]:
  "paint_at x c (mk d l (a, c') r) = mk d (paint_at x c l) (a, if a = x then c else c') (paint_at x c r)"
  by (cases d) auto

lemma paint_at_id [simp]: "x \<notin> set (addrs t) \<Longrightarrow> paint_at x c t = t"
  by (induction x c t rule: paint_at.induct) auto

lemma addrs_paint_at [simp]: "addrs (paint_at x c t) = addrs t"
  by (induction x c t rule: paint_at.induct) auto

lemma ptr_paint_at [simp]: "ptr (paint_at x c t) = ptr t"
  by (cases t rule: ptr.cases) auto

lemma rep_paint_at:
  "rep h par t \<Longrightarrow> rep (h((x, rb_color) \<mapsto> color_code c)) par (paint_at x c t)"
  by (induction h par t rule: rep.induct) auto

lemma rep_color: "rep h par t \<Longrightarrow> x \<in> set (addrs t) \<Longrightarrow> x \<noteq> NULL \<and> (\<exists>k. h (x, rb_color) = Some (color_code k))"
  by (induction h par t rule: rep.induct) auto

lemma focus_paint:
  assumes "focus_at root h fs t" "x \<in> set (addrs t)"
  shows "\<exists>h'. store (x, rb_color) (color_code c) h = Some h' \<and> focus_at root h' fs (paint_at x c t) \<and>
    agree_off (region root (set (addrs t) \<union> caddrs fs)) h h'"
proof -
  from assms have "x \<noteq> NULL" "\<exists>k. h (x, rb_color) = Some (color_code k)"
    using rep_color by (auto simp: focus_at_def)
  moreover from assms have "x \<notin> caddrs fs" "x \<noteq> fst root"
    by (auto simp: focus_at_def)
  with assms(1) have "focus_at root (h((x, rb_color) \<mapsto> color_code c)) fs (paint_at x c t)"
    by (simp add: focus_at_def rep_paint_at crep_upd)
  ultimately show ?thesis
    using assms(2) by (auto simp: heap_simps intro!: agree_off_upd)
qed

lemma focus_paint_code:
  assumes "focus_at root h fs t" "x \<in> set (addrs t)"
  shows "\<exists>h'. store (x, rb_color) RB_BLACK h = Some h' \<and> focus_at root h' fs (paint_at x Black t) \<and>
      agree_off (region root (set (addrs t) \<union> caddrs fs)) h h'"
    and "\<exists>h'. store (x, rb_color) RB_RED h = Some h' \<and> focus_at root h' fs (paint_at x Red t) \<and>
      agree_off (region root (set (addrs t) \<union> caddrs fs)) h h'"
  using focus_paint [OF assms, of Black] focus_paint [OF assms, of Red] by simp_all

subsection \<open>The loop of rb_insert_color\<close>

text \<open>Reading a node's child through the model's tests on colour.\<close>

lemma uncle_red_eval:
  "rep h g u \<Longrightarrow> (if ptr u \<noteq> NULL then do { c \<leftarrow> load (ptr u, rb_color) h; Some (c = RB_RED) } else Some False)
     = Some (col u = Red)"
  by (cases u rule: col.cases) (auto simp: heap_simps)

text \<open>The red uncle: three recolourings, and the grandparent is the next node.\<close>

lemma insert_side_recolor:
  assumes "focus_at root h gs (mk e p (g, Black) u)" "p = mk d t (pa, Red) s" "col u = Red"
  shows "\<exists>h'. insert_color_side e nd pa g root h = Some (g, h') \<and>
    focus_at root h' gs (mk e (mk d t (pa, Black) s) (g, Red) (paint_at (ptr u) Black u)) \<and>
    agree_off (region root (set (addrs (mk e p (g, Black) u)) \<union> caddrs gs)) h h'"
proof -
  let ?A = "set (addrs (mk e p (g, Black) u)) \<union> caddrs gs"
  from assms(3) have u: "u \<noteq> Leaf" by (cases u) auto
  then have ua: "ptr u \<in> set (addrs u)" by (rule ptr_in_addrs)
  obtain h1 where h1: "store (ptr u, rb_color) RB_BLACK h = Some h1"
      "focus_at root h1 gs (paint_at (ptr u) Black (mk e p (g, Black) u))" "agree_off (region root ?A) h h1"
    using focus_paint_code(1) [OF assms(1), of "ptr u"] ua by auto
  obtain h2 where h2: "store (pa, rb_color) RB_BLACK h1 = Some h2"
      "focus_at root h2 gs (paint_at pa Black (paint_at (ptr u) Black (mk e p (g, Black) u)))"
      "agree_off (region root ?A) h1 h2"
    using focus_paint_code(1) [OF h1(2), of pa] assms(2) by auto
  obtain h3 where h3: "store (g, rb_color) RB_RED h2 = Some h3"
      "focus_at root h3 gs (paint_at g Red (paint_at pa Black (paint_at (ptr u) Black (mk e p (g, Black) u))))"
      "agree_off (region root ?A) h2 h3"
    using focus_paint_code(2) [OF h2(2), of g] by auto
  from assms(1,2) ua have "ptr u \<notin> set (addrs t)" "ptr u \<notin> set (addrs s)" "ptr u \<noteq> pa" "ptr u \<noteq> g"
    by (auto simp: focus_at_def)
  with assms ua have eq: "paint_at g Red (paint_at pa Black (paint_at (ptr u) Black (mk e p (g, Black) u)))
      = mk e (mk d t (pa, Black) s) (g, Red) (paint_at (ptr u) Black u)"
    by (auto simp: focus_at_def)
  have "insert_color_side e nd pa g root h = Some (g, h3)"
    using assms h1(1) h2(1) h3(1) uncle_red_eval [of h g u]
    by (auto simp: insert_color_side_def focus_at_def heap_simps)
  then show ?thesis
    using h1(3) h2(3) h3(2,3) eq by (auto intro: agree_off_trans)
qed

text \<open>The black uncle, second half: the parent takes the grandparent's place.\<close>

lemma insert_side_rotate:
  assumes "focus_at root h gs (mk e (mk e x (pa, Red) y) (g, Black) u)"
  shows "\<exists>h'. do { h \<leftarrow> store (pa, rb_color) RB_BLACK h; h \<leftarrow> store (g, rb_color) RB_RED h;
                   h \<leftarrow> rotate_from e g root h; Some (nd, h) } = Some (nd, h') \<and>
    focus_at root h' gs (mk e x (pa, Black) (mk e y (g, Red) u)) \<and>
    agree_off (region root (set (addrs (mk e (mk e x (pa, Red) y) (g, Black) u)) \<union> caddrs gs)) h h'"
proof -
  let ?t = "mk e (mk e x (pa, Red) y) (g, Black) u"
  let ?X = "region root (set (addrs ?t) \<union> caddrs gs)"
  obtain h1 where h1: "store (pa, rb_color) RB_BLACK h = Some h1"
      "focus_at root h1 gs (paint_at pa Black ?t)" "agree_off ?X h h1"
    using focus_paint_code(1) [OF assms, of pa] by auto
  obtain h2 where h2: "store (g, rb_color) RB_RED h1 = Some h2"
      "focus_at root h2 gs (paint_at g Red (paint_at pa Black ?t))" "agree_off ?X h1 h2"
    using focus_paint_code(2) [OF h1(2), of g] by auto
  have "paint_at g Red (paint_at pa Black ?t) = mk e (mk e x (pa, Black) y) (g, Red) u"
    using assms by (auto simp: focus_at_def)
  with h2(2) obtain h3 where h3: "rotate_from e g root h2 = Some h3"
      "focus_at root h3 gs (mk e x (pa, Black) (mk e y (g, Red) u))"
      "agree_off (region root ({g, pa} \<union> set (addrs y) \<union> caddrs gs)) h2 h3"
    using rotate_from_focus [of root h2 gs e x pa Black y g Red u] by auto
  have "agree_off ?X h2 h3"
    using h3(3) by (rule agree_off_mono) (rule region_mono, auto)
  with h1 h2 h3 show ?thesis by (auto intro: agree_off_trans)
qed

text \<open>
  The black uncle with the node on the outer side, and on the inner side, where node
  and parent first change places. Either way the next node has a black parent.
\<close>

lemma insert_side_outer:
  assumes "focus_at root h gs (mk e (mk e t (pa, Red) s) (g, Black) u)" "t \<noteq> Leaf" "col u = Black"
  shows "\<exists>h'. insert_color_side e (ptr t) pa g root h = Some (ptr t, h') \<and>
    focus_at root h' gs (mk e t (pa, Black) (mk e s (g, Red) u)) \<and>
    agree_off (region root (set (addrs (mk e (mk e t (pa, Red) s) (g, Black) u)) \<union> caddrs gs)) h h'"
proof -
  from assms(2) have "ptr t \<in> set (addrs t)" by (rule ptr_in_addrs)
  moreover from assms(1) have "set (addrs t) \<inter> set (addrs s) = {}" "rep h pa t"
    by (auto simp: focus_at_def)
  ultimately have "ptr s \<noteq> ptr t"
    using rep_NULL_notin [of h pa t] by (intro ptr_sib_neq [of "ptr t"]) (blast, metis)
  with assms(1,3) have "insert_color_side e (ptr t) pa g root h =
    do { h \<leftarrow> store (pa, rb_color) RB_BLACK h; h \<leftarrow> store (g, rb_color) RB_RED h;
         h \<leftarrow> rotate_from e g root h; Some (ptr t, h) }"
    using uncle_red_eval [of h g u] by (auto simp: insert_color_side_def focus_at_def heap_simps)
  with insert_side_rotate [OF assms(1), of "ptr t"] show ?thesis by auto
qed

lemma insert_side_inner:
  assumes "focus_at root h gs (mk e (mk e s (pa, Red) (mk e x (nd, Red) y)) (g, Black) u)" "col u = Black"
  shows "\<exists>h'. insert_color_side e nd pa g root h = Some (pa, h') \<and>
    focus_at root h' gs (mk e (mk e s (pa, Red) x) (nd, Black) (mk e y (g, Red) u)) \<and>
    agree_off (region root (set (addrs (mk e (mk e s (pa, Red) (mk e x (nd, Red) y)) (g, Black) u)) \<union> caddrs gs)) h h'"
proof -
  let ?X = "region root (set (addrs (mk e (mk e s (pa, Red) (mk e x (nd, Red) y)) (g, Black) u)) \<union> caddrs gs)"
  have "focus_at root h (Fr e g Black u # gs) (mk e s (pa, Red) (mk e x (nd, Red) y))"
    using assms(1) by (simp add: focus_at_Cons)
  then obtain h1 where h1: "rotate_to e pa root h = Some h1"
      "focus_at root h1 (Fr e g Black u # gs) (mk e (mk e s (pa, Red) x) (nd, Red) y)"
      "agree_off (region root ({pa, nd} \<union> set (addrs x) \<union> caddrs (Fr e g Black u # gs))) h h1"
    using rotate_to_focus by blast
  from h1(2) have "focus_at root h1 gs (mk e (mk e (mk e s (pa, Red) x) (nd, Red) y) (g, Black) u)"
    by (simp add: focus_at_Cons)
  from insert_side_rotate [OF this, of pa] obtain h2 where
    h2: "do { h \<leftarrow> store (nd, rb_color) RB_BLACK h1; h \<leftarrow> store (g, rb_color) RB_RED h;
              h \<leftarrow> rotate_from e g root h; Some (pa, h) } = Some (pa, h2)"
      "focus_at root h2 gs (mk e (mk e s (pa, Red) x) (nd, Black) (mk e y (g, Red) u))"
      "agree_off (region root (set (addrs (mk e (mk e (mk e s (pa, Red) x) (nd, Red) y) (g, Black) u)) \<union> caddrs gs)) h1 h2"
    by blast
  have "insert_color_side e nd pa g root h = Some (pa, h2)"
    using assms h1(1) h2(1) uncle_red_eval [of h g u]
    by (auto simp: insert_color_side_def focus_at_def heap_simps)
  moreover have "agree_off ?X h h1"
    using h1(3) by (rule agree_off_mono) (rule region_mono, auto)
  moreover have "agree_off ?X h1 h2"
    using h2(3) by (rule agree_off_mono) (rule region_mono, auto)
  ultimately show ?thesis using h2(2) by (auto intro: agree_off_trans)
qed

text \<open>
  The loop stops at the root and under a black parent. Elsewhere it makes one round, on
  the side on which the parent hangs.
\<close>

lemma insert_color_loop_stop:
  assumes "focus_at root h fs t" "t \<noteq> Leaf" "fs = [] \<or> ccol fs = Black"
  shows "insert_color_loop (ptr t) root h = Some h"
  using assms
  by (subst insert_color_loop.simps; cases t rule: ptr.cases; cases fs) (auto simp: focus_at_def heap_simps)

lemma insert_color_loop_round:
  assumes "focus_at root h (Fr d pa Red s # Fr e g c u # gs) t" "t \<noteq> Leaf"
  shows "insert_color_loop (ptr t) root h = do {
     (node, h) \<leftarrow> insert_color_side e (ptr t) pa g root h;
     insert_color_loop node root h }"
proof -
  from assms have u: "rep h g u" "pa \<notin> set (addrs u)" "pa \<noteq> 0"
    by (auto simp: focus_at_def)
  then have "ptr u \<noteq> pa" by (intro ptr_sib_neq) auto
  with assms show ?thesis
    by (subst insert_color_loop.simps; cases t rule: ptr.cases; cases e) (auto simp: focus_at_def heap_simps)
qed

lemma not_Leaf_plug: "t \<noteq> Leaf \<Longrightarrow> plug fs t \<noteq> Leaf"
proof (induction fs arbitrary: t)
  case (Cons f fs)
  then show ?case by (cases f) auto
qed simp

text \<open>
  The whole loop. The node in focus is red; everything holds but, perhaps, that its
  parent is black. By induction on the context, which the recolouring case shortens by
  two frames.
\<close>

definition insert_done :: "loc \<Rightarrow> heap \<Rightarrow> addr list \<Rightarrow> heap option \<Rightarrow> bool" where
  "insert_done root h xs res \<longleftrightarrow> (\<exists>h' t'. res = Some h' \<and> tree_at root h' t' \<and> t' \<noteq> Leaf \<and>
     addrs t' = xs \<and> invc t' \<and> invh t' \<and> agree_off (region root (set xs)) h h')"

lemma insert_doneI_stop:
  assumes "focus_at root h' fs t" "t \<noteq> Leaf" "fs = [] \<or> ccol fs = Black" "invc t" "invh t" "cinv fs (bh t)"
    "agree_off (region root (set (addrs (plug fs t)))) h h'"
  shows "insert_done root h (addrs (plug fs t)) (insert_color_loop (ptr t) root h')"
proof -
  have "rbt (plug fs t) \<or> fs = []"
    using assms(3-6) by (auto simp: rbt_plug)
  then have "invc (plug fs t)" "invh (plug fs t)"
    using assms(4,5) by (auto simp: rbt_def)
  with assms insert_color_loop_stop [OF assms(1-3)] not_Leaf_plug [OF assms(2)] show ?thesis
    unfolding insert_done_def tree_at_plug [symmetric] by blast
qed

lemma insert_done_trans:
  "agree_off (region root (set xs)) h h' \<Longrightarrow> insert_done root h' xs res \<Longrightarrow> insert_done root h xs res"
  unfolding insert_done_def by (blast intro: agree_off_trans)

lemma bh_paint_black: "col u = Red \<Longrightarrow> distinct (addrs u) \<Longrightarrow> invc u \<Longrightarrow> invh u \<Longrightarrow>
  bh (paint_at (ptr u) Black u) = bh u + 1 \<and> invc (paint_at (ptr u) Black u) \<and>
  invh (paint_at (ptr u) Black u) \<and> col (paint_at (ptr u) Black u) = Black"
  by (cases u rule: col.cases) auto

text \<open>A round, whatever it did to the parent and the grandparent, followed by the rest of the loop.\<close>

lemma insert_round_then:
  assumes "focus_at root h (Fr d pa Red s # Fr e g Black u # gs) t" "t \<noteq> Leaf"
    "insert_color_side e (ptr t) pa g root h = Some (nd, h')"
    "agree_off (region root (set (addrs (mk e (mk d t (pa, Red) s) (g, Black) u)) \<union> caddrs gs)) h h'"
    "addrs T = addrs (mk e (mk d t (pa, Red) s) (g, Black) u)"
    "insert_done root h' (addrs (plug gs T)) (insert_color_loop nd root h')"
  shows "insert_done root h (addrs (plug (Fr d pa Red s # Fr e g Black u # gs) t)) (insert_color_loop (ptr t) root h)"
proof (rule insert_done_trans)
  let ?fs = "Fr d pa Red s # Fr e g Black u # gs"
  have ad: "addrs (plug gs T) = addrs (plug ?fs t)" using addrs_plug_cong [OF assms(5)] by simp
  show "agree_off (region root (set (addrs (plug ?fs t)))) h h'" using assms(4) by (simp only: plug.simps plug1.simps set_addrs_plug)
  show "insert_done root h' (addrs (plug ?fs t)) (insert_color_loop (ptr t) root h)"
    using assms(3,6) ad insert_color_loop_round [OF assms(1,2)] by simp
qed

text \<open>The two cases with a black uncle end the loop.\<close>

lemma insert_outer_round:
  assumes "focus_at root h (Fr e pa Red s # Fr e g Black u # gs) t" "t \<noteq> Leaf" "col u = Black" "invc t" "invh t"
    "cinv (Fr e pa Red s # Fr e g Black u # gs) (bh t)"
  shows "insert_done root h (addrs (plug (Fr e pa Red s # Fr e g Black u # gs) t)) (insert_color_loop (ptr t) root h)"
proof -
  let ?T = "mk e (mk e t (pa, Red) s) (g, Black) u" let ?fs = "Fr e pa Black (mk e s (g, Red) u) # gs"
  from assms(1) insert_side_outer [of root h gs e t pa s g u] assms(2,3) obtain h' where
    h': "insert_color_side e (ptr t) pa g root h = Some (ptr t, h')"
      "focus_at root h' ?fs t" "agree_off (region root (set (addrs ?T) \<union> caddrs gs)) h h'"
    by (auto simp: focus_at_Cons)
  have ad: "addrs (mk e t (pa, Black) (mk e s (g, Red) u)) = addrs ?T" by (cases e) auto
  have "insert_done root h' (addrs (plug ?fs t)) (insert_color_loop (ptr t) root h')"
    using h'(2) assms(2-6) by (intro insert_doneI_stop) auto
  then show ?thesis by (intro insert_round_then [OF assms(1,2) h'(1,3) ad]) simp
qed

lemma insert_inner_round:
  assumes "focus_at root h (Fr (opp e) pa Red s # Fr e g Black u # gs) t" "col t = Red" "col u = Black" "invc t" "invh t"
    "cinv (Fr (opp e) pa Red s # Fr e g Black u # gs) (bh t)"
  shows "insert_done root h (addrs (plug (Fr (opp e) pa Red s # Fr e g Black u # gs) t)) (insert_color_loop (ptr t) root h)"
proof -
  have t: "t \<noteq> Leaf" using assms(2) by auto
  obtain x nd y where tm: "t = mk e x (nd, Red) y" using mk_cases [OF t, of e] assms(2) by (metis col_mk)
  let ?T = "mk e (mk (opp e) t (pa, Red) s) (g, Black) u"
  let ?t = "mk e s (pa, Red) x" and ?fs = "Fr e nd Black (mk e y (g, Red) u) # gs"
  from assms(1,3) tm insert_side_inner [of root h gs e s pa x nd y g u] obtain h' where
    h': "insert_color_side e (ptr t) pa g root h = Some (pa, h')"
      "focus_at root h' ?fs ?t" "agree_off (region root (set (addrs ?T) \<union> caddrs gs)) h h'"
    by (auto simp: focus_at_Cons mk_opp)
  have ad: "addrs (mk e ?t (nd, Black) (mk e y (g, Red) u)) = addrs ?T" by (cases e) (auto simp: tm)
  have "insert_done root h' (addrs (plug ?fs ?t)) (insert_color_loop (ptr ?t) root h')"
    using h'(2) t assms(3-6) by (intro insert_doneI_stop) (auto simp: tm)
  then show ?thesis by (intro insert_round_then [OF assms(1) t h'(1,3) ad]) simp
qed

lemma insert_color_loop_correct:
  assumes "focus_at root h fs t" "col t = Red" "invc t" "invh t" "cinv fs (bh t)"
  shows "insert_done root h (addrs (plug fs t)) (insert_color_loop (ptr t) root h)"
  using assms
proof (induction "length fs" arbitrary: fs t h rule: less_induct)
  case less
  have t: "t \<noteq> Leaf" using less.prems(2) by auto
  show ?case
  proof (cases "fs = [] \<or> ccol fs = Black")
    case True
    with less.prems t show ?thesis by (intro insert_doneI_stop) auto
  next
    case False
    with less.prems(5) obtain f f' gs where "fs = f # f' # gs" "fcolor f = Red" "fcolor f' = Black"
      by (cases fs; cases "tl fs") auto
    then obtain d pa s e g u where fs: "fs = Fr d pa Red s # Fr e g Black u # gs"
      by (cases f; cases f') auto
    note foc = less.prems(1) [unfolded fs]
    consider "col u = Red" | "col u = Black" "d = e" | "col u = Black" "d = opp e" by (cases "col u"; cases d; cases e) auto
    then show ?thesis
    proof cases
      case 1
      let ?T = "mk e (mk d t (pa, Red) s) (g, Black) u" and ?T' = "mk e (mk d t (pa, Black) s) (g, Red) (paint_at (ptr u) Black u)"
      have foc2: "focus_at root h gs ?T" using foc by (simp add: focus_at_Cons)
      have "bh s = bh t" "bh u = bh t" "invc s" "invh s" "invc u" "invh u" "col s = Black" "cinv gs (bh t + 1)" "distinct (addrs u)"
        using less.prems(5) foc by (auto simp: fs focus_at_def)
      note inv = this bh_paint_black [OF 1] less.prems(3,4)
      from insert_side_recolor [OF foc2 refl 1] obtain h' where
        h': "insert_color_side e (ptr t) pa g root h = Some (g, h')" "focus_at root h' gs ?T'"
          "agree_off (region root (set (addrs ?T) \<union> caddrs gs)) h h'" by blast
      have ad: "addrs ?T' = addrs ?T" by (cases e; cases d) auto
      have "insert_done root h' (addrs (plug gs ?T')) (insert_color_loop (ptr ?T') root h')"
        using inv by (intro less.hyps) (auto simp: fs h'(2))
      then show ?thesis unfolding fs by (intro insert_round_then [OF foc t h'(1,3) ad]) simp
    next
      case 2
      then show ?thesis using insert_outer_round [of root h e pa s g u gs t] less.prems t by (simp add: fs)
    next
      case 3
      then show ?thesis using insert_inner_round [of root h e pa s g u gs t] less.prems by (simp add: fs)
    qed
  qed
qed

subsection \<open>rb_insert_color and rb_link_node\<close>

text \<open>
  The contract of \<open>rb_insert_color\<close>: after a red leaf was linked into a red-black tree,
  it leaves a red-black tree with the same nodes in the same order.
\<close>

lemma tree_at_nonempty_root: "tree_at root h t \<Longrightarrow> t \<noteq> Leaf \<Longrightarrow> load root h = Some (ptr t) \<and> ptr t \<noteq> NULL"
  by (cases t rule: ptr.cases) (auto simp: tree_at_def heap_simps)

lemma paint_root_rbt: "invc t \<Longrightarrow> invh t \<Longrightarrow> distinct (addrs t) \<Longrightarrow> rbt (paint_at (ptr t) Black t)"
  by (cases t rule: ptr.cases) (auto simp: rbt_def)

lemma rb_insert_color_correct:
  assumes "focus_at root h fs t" "col t = Red" "invc t" "invh t" "cinv fs (bh t)"
  shows "\<exists>h' t'. rb_insert_color (ptr t) root h = Some h' \<and> tree_at root h' t' \<and>
    addrs t' = addrs (plug fs t) \<and> rbt t' \<and> agree_off (region root (set (addrs (plug fs t)))) h h'"
proof -
  from insert_color_loop_correct [OF assms] obtain h1 t1 where
    1: "insert_color_loop (ptr t) root h = Some h1" "tree_at root h1 t1" "t1 \<noteq> Leaf"
      "addrs t1 = addrs (plug fs t)" "invc t1" "invh t1"
      "agree_off (region root (set (addrs (plug fs t)))) h h1"
    unfolding insert_done_def by blast
  from 1(2) have f1: "focus_at root h1 [] t1" by (simp add: focus_at_Nil)
  from focus_paint_code(1) [OF f1 ptr_in_addrs [OF 1(3)]] obtain h2 where
    2: "store (ptr t1, rb_color) RB_BLACK h1 = Some h2" "focus_at root h2 [] (paint_at (ptr t1) Black t1)"
      "agree_off (region root (set (addrs t1))) h1 h2" by auto
  have "rbt (paint_at (ptr t1) Black t1)"
    using 1 by (intro paint_root_rbt) (auto simp: tree_at_def)
  moreover have "rb_insert_color (ptr t) root h = Some h2"
    using 1(1) 2(1) tree_at_nonempty_root [OF 1(2,3)] by (simp add: rb_insert_color_def)
  ultimately show ?thesis
    using 1(4,7) 2(2,3) by (auto simp: focus_at_Nil intro: agree_off_trans)
qed

text \<open>
  \<open>rb_link_node\<close> hangs a new node, whose cells are allocated and unused, into an empty
  place of the tree; \<open>link\<close> is the location of the null pointer there.
\<close>

definition fresh_node :: "addr \<Rightarrow> loc \<Rightarrow> atree \<Rightarrow> heap \<Rightarrow> bool" where
  "fresh_node n root t h \<longleftrightarrow> n \<noteq> NULL \<and> n \<noteq> fst root \<and> n \<notin> set (addrs t) \<and> (\<forall>f. h (n, f) \<noteq> None)"

lemma rb_link_node_correct:
  assumes "focus_at root h fs Leaf" "fresh_node n root (plug fs Leaf) h"
  shows "\<exists>h'. rb_link_node n (cpar fs) (hole root fs) h = Some h' \<and>
    focus_at root h' fs (Node Leaf (n, Red) Leaf) \<and>
    agree_off (region root (insert n (caddrs fs))) h h'"
proof -
  define h1 where "h1 = h((n, rb_parent) \<mapsto> cpar fs, (n, rb_color) \<mapsto> RB_RED, (n, rb_right) \<mapsto> NULL, (n, rb_left) \<mapsto> NULL)"
  have n: "n \<noteq> 0" "n \<noteq> fst root" "n \<notin> caddrs fs" "\<And>f. \<exists>v. h (n, f) = Some v"
    using assms(2) by (auto simp: fresh_node_def)
  have hole: "h (hole root fs) = Some NULL" "fst (hole root fs) \<noteq> 0" "fst (hole root fs) \<noteq> n"
    "hole root fs \<in> region root (insert n (caddrs fs))"
    using assms(1) n by (cases fs; auto simp: focus_at_def)+
  have c1: "crep root h1 fs NULL"
    using assms(1) n by (simp add: h1_def focus_at_def crep_upd)
  have link: "rb_link_node n (cpar fs) (hole root fs) h = Some (h1(hole root fs \<mapsto> n))"
    using n(1) n(4) [of rb_parent] n(4) [of rb_color] n(4) [of rb_right] n(4) [of rb_left] hole
    by (auto simp: rb_link_node_def h1_def heap_simps store_def prod_eq_iff)
  have "crep root (h1(hole root fs \<mapsto> n)) fs n"
    using c1 assms(1) by (intro crep_hole_upd) (auto simp: focus_at_def)
  moreover have "rep (h1(hole root fs \<mapsto> n)) (cpar fs) (Node Leaf (n, Red) Leaf)"
    using n hole by (auto simp: h1_def prod_eq_iff)
  ultimately have foc: "focus_at root (h1(hole root fs \<mapsto> n)) fs (Node Leaf (n, Red) Leaf)"
    using assms(1) n by (auto simp: focus_at_def)
  have "agree_off (region root (insert n (caddrs fs))) h (h1(hole root fs \<mapsto> n))"
    using n(4) hole(1,4) by (auto simp: h1_def intro!: agree_off_upd)
  with link foc show ?thesis by blast
qed

text \<open>Linking and rebalancing together, as every client does it.\<close>

definition rb_insert_at :: "addr \<Rightarrow> addr \<Rightarrow> loc \<Rightarrow> loc \<Rightarrow> heap \<Rightarrow> heap option" where
  "rb_insert_at n parent link root h = do {
     h \<leftarrow> rb_link_node n parent link h;
     rb_insert_color n root h
   }"

lemma rb_insert_at_correct:
  assumes "tree_at root h (plug fs Leaf)" "rbt (plug fs Leaf)" "fresh_node n root (plug fs Leaf) h"
  shows "\<exists>h' t'. rb_insert_at n (cpar fs) (hole root fs) root h = Some h' \<and> tree_at root h' t' \<and> rbt t' \<and>
    addrs t' = addrs (plug fs (Node Leaf (n, Red) Leaf)) \<and>
    agree_off (region root (insert n (caddrs fs))) h h'"
proof -
  let ?t = "Node Leaf (n, Red) Leaf"
  from assms(1) have "focus_at root h fs Leaf" by (simp add: tree_at_plug)
  from rb_link_node_correct [OF this assms(3)] obtain h1 where
    1: "rb_link_node n (cpar fs) (hole root fs) h = Some h1" "focus_at root h1 fs ?t"
      "agree_off (region root (insert n (caddrs fs))) h h1" by blast
  have "cinv fs (bh ?t)"
    using assms(2) by (simp add: rbt_plug)
  from rb_insert_color_correct [OF 1(2) _ _ _ this] obtain h2 t2 where
    2: "rb_insert_color (ptr ?t) root h1 = Some h2" "tree_at root h2 t2" "addrs t2 = addrs (plug fs ?t)" "rbt t2"
      "agree_off (region root (set (addrs (plug fs ?t)))) h1 h2" by auto
  with 1 show ?thesis
    by (auto simp: rb_insert_at_def intro: agree_off_trans)
qed

end
