(* ===== verification/Rbtree_Erase.thy ===== *)
theory Rbtree_Erase
  imports Rbtree_Insert
begin

section \<open>Removal from the red-black tree\<close>

text \<open>
  The correctness of \<open>__rb_erase_color\<close> and \<open>rb_erase\<close>: from a red-black tree that holds
  the node they stop, touch only the cells of the tree, remove exactly that node from
  the in-order sequence and leave a red-black tree.
\<close>

subsection \<open>Rebalancing: a subtree whose black height is one short\<close>

text \<open>The colour invariant but for the root of the subtree, which may be red under red.\<close>

fun invc_below :: "atree \<Rightarrow> bool" where
  "invc_below Leaf \<longleftrightarrow> True"
| "invc_below (Node l x r) \<longleftrightarrow> invc l \<and> invc r"

lemma invc_below_mk [simp]: "invc_below (mk d s x t) \<longleftrightarrow> invc s \<and> invc t"
  by (cases d) auto

lemma invc_below_black: "col t = Black \<Longrightarrow> invc_below t \<longleftrightarrow> invc t"
  by (cases t rule: col.cases) auto

lemma invc_imp_below: "invc t \<Longrightarrow> invc_below t"
  by (cases t rule: col.cases) auto

lemma is_black_ptr: "rep h par t \<Longrightarrow> is_black (ptr t) h = Some (col t = Black)"
  by (cases t rule: col.cases) (auto simp: is_black_def heap_simps)

lemma is_black_children:
  assumes "rep h par (mk d x (a, c) y)"
  shows "do { ol \<leftarrow> load (a, rb_left) h; lb \<leftarrow> is_black ol h; or \<leftarrow> load (a, rb_right) h;
              rb \<leftarrow> is_black or h; Some (lb \<and> rb) } = Some (col x = Black \<and> col y = Black)"
  using assms by (cases d) (auto simp: heap_simps is_black_ptr)

text \<open>The red sibling: a rotation, and the sibling is black.\<close>

lemma red_sibling:
  assumes "focus_at root h gs (mk d t (p, c) (mk d x (ot, Red) y))"
  shows "\<exists>h'. erase_color_red_sibling d p ot root h = Some (ptr x, h') \<and>
    focus_at root h' gs (mk d (mk d t (p, Red) x) (ot, Black) y) \<and>
    agree_off (region root (set (addrs (mk d t (p, c) (mk d x (ot, Red) y))) \<union> caddrs gs)) h h'"
proof -
  let ?t = "mk d t (p, c) (mk d x (ot, Red) y)"
  let ?X = "region root (set (addrs ?t) \<union> caddrs gs)"
  obtain h1 where h1: "store (ot, rb_color) RB_BLACK h = Some h1"
      "focus_at root h1 gs (paint_at ot Black ?t)" "agree_off ?X h h1"
    using focus_paint_code(1) [OF assms, of ot] by auto
  obtain h2 where h2: "store (p, rb_color) RB_RED h1 = Some h2"
      "focus_at root h2 gs (paint_at p Red (paint_at ot Black ?t))" "agree_off ?X h1 h2"
    using focus_paint_code(2) [OF h1(2), of p] by auto
  have "paint_at p Red (paint_at ot Black ?t) = mk d t (p, Red) (mk d x (ot, Black) y)"
    using assms by (auto simp: focus_at_def)
  with h2(2) obtain h3 where h3: "rotate_to d p root h2 = Some h3"
      "focus_at root h3 gs (mk d (mk d t (p, Red) x) (ot, Black) y)"
      "agree_off (region root ({p, ot} \<union> set (addrs x) \<union> caddrs gs)) h2 h3"
    using rotate_to_focus [of root h2 gs d t p Red x ot Black y] by auto
  have "agree_off ?X h2 h3"
    using h3(3) by (rule agree_off_mono) (rule region_mono, auto)
  moreover have "erase_color_red_sibling d p ot root h = Some (ptr x, h3)"
    using assms h1(1) h2(1) h3(1,2) by (auto simp: erase_color_red_sibling_def focus_at_def heap_simps)
  ultimately show ?thesis
    using h1 h2 h3(2) by (auto intro: agree_off_trans)
qed

lemma black_sibling_skip:
  assumes "focus_at root h gs (mk d t (p, c) (mk d x (ot, Black) y))"
  shows "erase_color_red_sibling d p ot root h = Some (ot, h)"
  using assms by (auto simp: erase_color_red_sibling_def focus_at_def heap_simps)

text \<open>A black far child and a red near child: a rotation, and the far child is red.\<close>

lemma far_child_black:
  assumes "focus_at root h gs (mk d t (p, c) (mk d (mk d x1 (xa, Red) x2) (ot, Black) y))" "col y = Black"
  shows "\<exists>h'. erase_color_far_child d p ot root h = Some (xa, h') \<and>
    focus_at root h' gs (mk d t (p, c) (mk d x1 (xa, Black) (mk d x2 (ot, Red) y))) \<and>
    agree_off (region root (set (addrs (mk d t (p, c) (mk d (mk d x1 (xa, Red) x2) (ot, Black) y))) \<union> caddrs gs)) h h'"
proof -
  let ?t = "mk d t (p, c) (mk d (mk d x1 (xa, Red) x2) (ot, Black) y)"
  let ?X = "region root (set (addrs ?t) \<union> caddrs gs)"
  obtain h1 where h1: "store (xa, rb_color) RB_BLACK h = Some h1"
      "focus_at root h1 gs (paint_at xa Black ?t)" "agree_off ?X h h1"
    using focus_paint_code(1) [OF assms(1), of xa] by auto
  obtain h2 where h2: "store (ot, rb_color) RB_RED h1 = Some h2"
      "focus_at root h2 gs (paint_at ot Red (paint_at xa Black ?t))" "agree_off ?X h1 h2"
    using focus_paint_code(2) [OF h1(2), of ot] by auto
  have "paint_at ot Red (paint_at xa Black ?t) = mk d t (p, c) (mk d (mk d x1 (xa, Black) x2) (ot, Red) y)"
    using assms by (auto simp: focus_at_def)
  with h2(2) have "focus_at root h2 (Fr (opp d) p c t # gs) (mk d (mk d x1 (xa, Black) x2) (ot, Red) y)"
    by (simp add: focus_at_Cons mk_opp)
  from rotate_from_focus [OF this] obtain h3 where h3: "rotate_from d ot root h2 = Some h3"
      "focus_at root h3 gs (mk d t (p, c) (mk d x1 (xa, Black) (mk d x2 (ot, Red) y)))"
      "agree_off (region root ({ot, xa} \<union> set (addrs x2) \<union> caddrs (Fr (opp d) p c t # gs))) h2 h3"
    by (auto simp: focus_at_Cons mk_opp)
  have "agree_off ?X h2 h3"
    using h3(3) by (rule agree_off_mono) (rule region_mono, auto)
  moreover have "erase_color_far_child d p ot root h = Some (xa, h3)"
    using assms h1(1) h2(1) h3(1,2) is_black_ptr [of h ot y]
    by (auto simp: erase_color_far_child_def focus_at_def heap_simps)
  ultimately show ?thesis
    using h1 h2 h3(2) by (auto intro: agree_off_trans)
qed

lemma far_child_red_skip:
  assumes "focus_at root h gs (mk d t (p, c) (mk d x (ot, co) y))" "col y = Red"
  shows "erase_color_far_child d p ot root h = Some (ot, h)"
  using assms is_black_ptr [of h ot y] by (auto simp: erase_color_far_child_def focus_at_def heap_simps)

text \<open>The last rotation pays the missing black node.\<close>

lemma last_rotation:
  assumes "focus_at root h gs (mk d t (p, c) (mk d x (ot, co) y))" "y \<noteq> Leaf"
  shows "\<exists>h'. erase_color_rotate d p ot root h =
      Some (ptr (plug gs (mk d (mk d t (p, Black) x) (ot, c) (paint_at (ptr y) Black y))), h') \<and>
    focus_at root h' gs (mk d (mk d t (p, Black) x) (ot, c) (paint_at (ptr y) Black y)) \<and>
    agree_off (region root (set (addrs (mk d t (p, c) (mk d x (ot, co) y))) \<union> caddrs gs)) h h'"
proof -
  let ?t = "mk d t (p, c) (mk d x (ot, co) y)" and ?y = "paint_at (ptr y) Black y"
  let ?X = "region root (set (addrs ?t) \<union> caddrs gs)"
  from assms(2) have y: "ptr y \<in> set (addrs y)" by (rule ptr_in_addrs)
  obtain h1 where h1: "store (ot, rb_color) (color_code c) h = Some h1"
      "focus_at root h1 gs (paint_at ot c ?t)" "agree_off ?X h h1"
    using focus_paint [OF assms(1), of ot c] by auto
  obtain h2 where h2: "store (p, rb_color) RB_BLACK h1 = Some h2"
      "focus_at root h2 gs (paint_at p Black (paint_at ot c ?t))" "agree_off ?X h1 h2"
    using focus_paint_code(1) [OF h1(2), of p] by auto
  obtain h3 where h3: "store (ptr y, rb_color) RB_BLACK h2 = Some h3"
      "focus_at root h3 gs (paint_at (ptr y) Black (paint_at p Black (paint_at ot c ?t)))" "agree_off ?X h2 h3"
    using focus_paint_code(1) [OF h2(2), of "ptr y"] y by auto
  have eq2: "paint_at p Black (paint_at ot c ?t) = mk d t (p, Black) (mk d x (ot, c) y)"
    using assms(1) by (auto simp: focus_at_def)
  from assms(1) y have "ptr y \<notin> set (addrs t)" "ptr y \<notin> set (addrs x)" "ptr y \<noteq> p" "ptr y \<noteq> ot"
    by (auto simp: focus_at_def)
  then have eq3: "paint_at (ptr y) Black (mk d t (p, Black) (mk d x (ot, c) y)) = mk d t (p, Black) (mk d x (ot, c) ?y)"
    by auto
  have "focus_at root h3 gs (mk d t (p, Black) (mk d x (ot, c) ?y))"
    using h3(2) unfolding eq2 eq3 .
  then obtain h4 where h4: "rotate_to d p root h3 = Some h4"
      "focus_at root h4 gs (mk d (mk d t (p, Black) x) (ot, c) ?y)"
      "agree_off (region root ({p, ot} \<union> set (addrs x) \<union> caddrs gs)) h3 h4"
    using rotate_to_focus [of root h3 gs d t p Black x ot c ?y] by blast
  have "agree_off ?X h3 h4"
    using h4(3) by (rule agree_off_mono) (rule region_mono, auto)
  then have "agree_off ?X h h4"
    using h1(3) h2(3) h3(3) by (blast intro: agree_off_trans)
  moreover have "load root h4 = Some (ptr (plug gs (mk d (mk d t (p, Black) x) (ot, c) ?y)))"
    using h4(2) by (simp add: tree_at_plug [symmetric] tree_at_def load_def)
  moreover have "load (ot, far d) h2 = Some (ptr y)" "ptr y \<noteq> NULL"
    using h2(2) eq2 assms(2) by (auto simp: focus_at_def heap_simps rep_ptr_eq_NULL)
  moreover have "load (p, rb_color) h = Some (color_code c)"
    using assms(1) by (auto simp: focus_at_def heap_simps)
  ultimately show ?thesis
    using h1(1) h2(1) h3(1) h4(1,2) by (auto simp: erase_color_rotate_def)
qed

text \<open>
  One round with a black sibling: either both of its children are black, it becomes red
  and the loop goes up, or the tree is repaired.
\<close>

definition erase_repaired :: "loc \<Rightarrow> heap \<Rightarrow> frame list \<Rightarrow> atree \<Rightarrow> addr \<Rightarrow> heap \<Rightarrow> bool" where
  "erase_repaired root h gs t node h' \<longleftrightarrow> (\<exists>T. node = ptr (plug gs T) \<and> focus_at root h' gs T \<and> rbt (plug gs T) \<and>
     addrs T = addrs t \<and> agree_off (region root (set (addrs t) \<union> caddrs gs)) h h')"

lemma last_rotation_repairs:
  assumes "focus_at root h gs (mk d t (p, c) (mk d x (ot, Black) y))" "col y = Red"
    "invc t" "invh t" "col t = Black" "bh x = bh t" "bh y = bh t" "invc x" "invc y" "invh x" "invh y"
    "cinv gs (bh t + 1 + (if c = Black then 1 else 0))" "c = Red \<longrightarrow> gs \<noteq> [] \<and> ccol gs = Black"
  shows "\<exists>node h'. erase_color_rotate d p ot root h = Some (node, h') \<and>
    erase_repaired root h gs (mk d t (p, c) (mk d x (ot, Black) y)) node h'"
proof -
  let ?T = "mk d (mk d t (p, Black) x) (ot, c) (paint_at (ptr y) Black y)"
  have y: "y \<noteq> Leaf" using assms(2) by auto
  from last_rotation [OF assms(1) y] obtain h' where
    h': "erase_color_rotate d p ot root h = Some (ptr (plug gs ?T), h')" "focus_at root h' gs ?T"
      "agree_off (region root (set (addrs (mk d t (p, c) (mk d x (ot, Black) y))) \<union> caddrs gs)) h h'" by blast
  have "distinct (addrs y)" using assms(1) by (auto simp: focus_at_def)
  with bh_paint_black [OF assms(2)] assms have "rbt (plug gs ?T)"
    by (cases c) (auto simp: rbt_plug)
  moreover have "addrs ?T = addrs (mk d t (p, c) (mk d x (ot, Black) y))"
    by (cases d) auto
  ultimately show ?thesis
    using h' unfolding erase_repaired_def by blast
qed

lemma black_sibling_head:
  assumes "focus_at root h gs (mk d t (p, c) (mk d x (ot, Black) y))"
    "load (p, far d) h0 = Some o0" "erase_color_red_sibling d p o0 root h0 = Some (ot, h)"
  shows "erase_color_side d p root h0 =
    (if col x = Black \<and> col y = Black then do {
       h \<leftarrow> store (ot, rb_color) RB_RED h;
       pp \<leftarrow> load (p, rb_parent) h;
       Some (Inl (p, pp, h))
     } else do {
       (other, h) \<leftarrow> erase_color_far_child d p ot root h;
       (node, h) \<leftarrow> erase_color_rotate d p other root h;
       Some (Inr (node, h))
     })"
  using assms is_black_ptr [of h ot x] is_black_ptr [of h ot y]
  by (cases d) (auto simp: erase_color_side_def focus_at_def heap_simps)

text \<open>A red child of the black sibling: one or two rotations repair the tree.\<close>

lemma red_child_round:
  assumes "focus_at root h gs (mk d t (p, c) (mk d x (ot, Black) y))"
    "invc t" "invh t" "col t = Black" "cinv (Fr d p c (mk d x (ot, Black) y) # gs) (bh t + 1)" "\<not> (col x = Black \<and> col y = Black)"
  obtains ot' h1 node h' where "erase_color_far_child d p ot root h = Some (ot', h1)" "erase_color_rotate d p ot' root h1 = Some (node, h')"
    "erase_repaired root h gs (mk d t (p, c) (mk d x (ot, Black) y)) node h'"
proof -
  let ?t = "mk d t (p, c) (mk d x (ot, Black) y)"
  have inv: "bh x = bh y" "bh x = bh t" "invc x" "invc y" "invh x" "invh y"
    "cinv gs (bh t + 1 + (if c = Black then 1 else 0))" "c = Red \<longrightarrow> gs \<noteq> [] \<and> ccol gs = Black"
    using assms(5) by (auto split: if_splits)
  show ?thesis
  proof (cases "col y")
    case Red
    with last_rotation_repairs [OF assms(1) Red assms(2-4)] inv far_child_red_skip [OF assms(1) Red] that
    show ?thesis by auto
  next
    case Black
    with assms(6) have cx: "col x = Red" by auto
    then obtain x1 xa x2 where x: "x = mk d x1 (xa, Red) x2"
      by (cases "x = Leaf") (auto elim: mk_cases [of x d])
    let ?t' = "mk d t (p, c) (mk d x1 (xa, Black) (mk d x2 (ot, Red) y))"
    from far_child_black [of root h gs d t p c x1 xa x2 ot y] assms(1) x Black obtain h1 where
      h1: "erase_color_far_child d p ot root h = Some (xa, h1)" "focus_at root h1 gs ?t'"
        "agree_off (region root (set (addrs ?t) \<union> caddrs gs)) h h1" by auto
    obtain node h' where 2: "erase_color_rotate d p xa root h1 = Some (node, h')" "erase_repaired root h1 gs ?t' node h'"
      using last_rotation_repairs [OF h1(2) _ assms(2-4)] inv x Black by auto
    have "addrs ?t' = addrs ?t" by (cases d) (auto simp: x)
    with 2(2) h1(3) have "erase_repaired root h gs ?t node h'"
      unfolding erase_repaired_def by (auto intro: agree_off_trans)
    with h1(1) 2(1) that show ?thesis by blast
  qed
qed

lemma black_sibling_round:
  assumes "focus_at root h gs (mk d t (p, c) (mk d x (ot, Black) y))"
    "invc t" "invh t" "col t = Black" "cinv (Fr d p c (mk d x (ot, Black) y) # gs) (bh t + 1)"
    "load (p, far d) h0 = Some o0" "erase_color_red_sibling d p o0 root h0 = Some (ot, h)"
  shows "(\<exists>h'. erase_color_side d p root h0 = Some (Inl (p, cpar gs, h')) \<and> col x = Black \<and> col y = Black \<and>
      focus_at root h' gs (mk d t (p, c) (mk d x (ot, Red) y)) \<and>
      agree_off (region root (set (addrs (mk d t (p, c) (mk d x (ot, Black) y))) \<union> caddrs gs)) h h') \<or>
    (\<exists>node h'. erase_color_side d p root h0 = Some (Inr (node, h')) \<and>
      erase_repaired root h gs (mk d t (p, c) (mk d x (ot, Black) y)) node h')"
proof (cases "col x = Black \<and> col y = Black")
  case True
  let ?t = "mk d t (p, c) (mk d x (ot, Black) y)"
  from focus_paint_code(2) [OF assms(1), of ot] obtain h' where
    h': "store (ot, rb_color) RB_RED h = Some h'" "focus_at root h' gs (paint_at ot Red ?t)"
      "agree_off (region root (set (addrs ?t) \<union> caddrs gs)) h h'" by auto
  moreover have "paint_at ot Red ?t = mk d t (p, c) (mk d x (ot, Red) y)"
    using assms(1) by (auto simp: focus_at_def)
  ultimately show ?thesis
    using True black_sibling_head [OF assms(1,6,7)] by (auto simp: focus_at_def heap_simps)
next
  case False
  obtain ot' h1 node h' where "erase_color_far_child d p ot root h = Some (ot', h1)" "erase_color_rotate d p ot' root h1 = Some (node, h')"
    "erase_repaired root h gs (mk d t (p, c) (mk d x (ot, Black) y)) node h'" by (rule red_child_round [OF assms(1-5) False])
  then show ?thesis using black_sibling_head [OF assms(1,6,7)] False by auto
qed

subsection \<open>The loop of __rb_erase_color\<close>

definition erase_done :: "loc \<Rightarrow> heap \<Rightarrow> addr list \<Rightarrow> heap option \<Rightarrow> bool" where
  "erase_done root h xs res \<longleftrightarrow> (\<exists>h' t'. res = Some h' \<and> tree_at root h' t' \<and> addrs t' = xs \<and> rbt t' \<and>
     agree_off (region root (set xs)) h h')"

lemma erase_done_trans:
  "agree_off (region root (set xs)) h h' \<Longrightarrow> erase_done root h' xs res \<Longrightarrow> erase_done root h xs res"
  unfolding erase_done_def by (blast intro: agree_off_trans)

lemma load_root: "focus_at root h fs t \<Longrightarrow> load root h = Some (ptr (plug fs t))"
  by (simp add: tree_at_plug [symmetric] tree_at_def load_def)

lemma ptr_plug_in: "fs \<noteq> [] \<Longrightarrow> ptr (plug fs t) \<in> caddrs fs"
proof (induction fs arbitrary: t)
  case (Cons f fs)
  then show ?case by (cases f; cases "fs = []") auto
qed simp

lemma ptr_neq_root:
  assumes "focus_at root h fs t" "fs \<noteq> []" shows "ptr t \<noteq> ptr (plug fs t)"
proof (cases "t = Leaf")
  case True
  with assms show ?thesis
    using not_Leaf_plug [of "plug1 (hd fs) t" "tl fs"] rep_ptr_eq_NULL [of h NULL "plug fs t"]
    by (cases fs; cases "hd fs") (auto simp: tree_at_plug [symmetric] tree_at_def)
next
  case False
  with assms ptr_in_addrs [OF False] ptr_plug_in [OF assms(2), of t] show ?thesis
    by (auto simp: focus_at_def)
qed

lemma erase_color_stop:
  assumes "focus_at root h fs t" "fs = [] \<or> col t = Red"
  shows "rb_erase_color (ptr t) (cpar fs) root h =
    (if ptr t \<noteq> NULL then store (ptr t, rb_color) RB_BLACK h else Some h)"
proof -
  have "erase_color_loop (ptr t) (cpar fs) root h = Some (ptr t, h)"
    using assms is_black_ptr [of h "cpar fs" t] load_root [OF assms(1)]
    by (subst erase_color_loop.simps) (auto simp: focus_at_def)
  then show ?thesis by (simp add: rb_erase_color_def)
qed

lemma erase_color_round:
  assumes "focus_at root h (Fr d p c s # gs) t" "col t = Black" "s \<noteq> Leaf"
  shows "rb_erase_color (ptr t) p root h = do {
     s \<leftarrow> erase_color_side d p root h;
     case s of
       Inl (node, parent, h) \<Rightarrow> rb_erase_color node parent root h
     | Inr (node, h) \<Rightarrow> if node \<noteq> NULL then store (node, rb_color) RB_BLACK h else Some h }"
proof -
  have "rep h p t" "rep h p s" "set (addrs t) \<inter> set (addrs s) = {}"
    using assms(1) by (auto simp: focus_at_def)
  moreover have "ptr s \<noteq> ptr t"
    using calculation assms(3) ptr_in_addrs [of s] ptr_in_addrs [of t] rep_ptr_eq_NULL [of h p s]
    by (cases "t = Leaf") auto
  ultimately have "erase_color_loop (ptr t) p root h = do {
       s \<leftarrow> erase_color_side d p root h;
       case s of
         Inl (node, parent, h) \<Rightarrow> erase_color_loop node parent root h
       | Inr (node, h) \<Rightarrow> Some (node, h) }"
    using assms is_black_ptr [of h p t] load_root [OF assms(1)] ptr_neq_root [OF assms(1)]
    by (subst erase_color_loop.simps) (cases d; auto simp: focus_at_def heap_simps)
  then show ?thesis
    by (cases "erase_color_side d p root h") (auto simp: rb_erase_color_def split: sum.splits)
qed

lemma rbt_Leaf [simp]: "rbt Leaf"
  by (simp add: rbt_def)

lemma erase_doneI_stop:
  assumes "focus_at root h fs t" "fs = [] \<or> col t = Red" "invc_below t" "invh t" "cinv fs (bh t + 1)"
  shows "erase_done root h (addrs (plug fs t)) (rb_erase_color (ptr t) (cpar fs) root h)"
proof (cases "t = Leaf")
  case True
  with assms have "fs = []" by auto
  with True assms erase_color_stop [OF assms(1,2)] show ?thesis
    by (auto simp: erase_done_def focus_at_Nil intro: rbt_Leaf)
next
  case False
  then have "ptr t \<in> set (addrs t)" by (rule ptr_in_addrs)
  from focus_paint_code(1) [OF assms(1) this] obtain h' where
    h': "store (ptr t, rb_color) RB_BLACK h = Some h'" "focus_at root h' fs (paint_at (ptr t) Black t)"
      "agree_off (region root (set (addrs t) \<union> caddrs fs)) h h'" by blast
  have "ptr t \<noteq> NULL"
    using assms(1) False by (auto simp: focus_at_def rep_ptr_eq_NULL)
  with h'(1) erase_color_stop [OF assms(1,2)] have "rb_erase_color (ptr t) (cpar fs) root h = Some h'"
    by simp
  moreover have "distinct (addrs t)" using assms(1) by (simp add: focus_at_def)
  with assms(2-5) have "rbt (plug fs (paint_at (ptr t) Black t))"
    by (cases t rule: col.cases) (auto simp: rbt_plug)
  moreover have "addrs (plug fs (paint_at (ptr t) Black t)) = addrs (plug fs t)"
    by (rule addrs_plug_cong) simp
  ultimately show ?thesis
    using h'(2,3) unfolding erase_done_def set_addrs_plug tree_at_plug [symmetric] by blast
qed

lemma erase_doneI_repaired:
  assumes "erase_repaired root h gs t node h'"
  shows "erase_done root h (addrs (plug gs t)) (if node \<noteq> NULL then store (node, rb_color) RB_BLACK h' else Some h')"
proof -
  from assms obtain T where T: "node = ptr (plug gs T)" "focus_at root h' gs T" "rbt (plug gs T)"
    "addrs T = addrs t" "agree_off (region root (set (addrs t) \<union> caddrs gs)) h h'"
    unfolding erase_repaired_def by blast
  let ?T = "plug gs T"
  have ad: "addrs ?T = addrs (plug gs t)" by (rule addrs_plug_cong [OF T(4)])
  have foc: "focus_at root h' [] ?T" using T(2) by (simp add: focus_at_Nil tree_at_plug)
  from T(3) have "invc_below ?T" "invh ?T"
    by (auto simp: rbt_def invc_below_black)
  with foc have "erase_done root h' (addrs ?T) (rb_erase_color (ptr ?T) NULL root h')"
    using erase_doneI_stop [OF foc] by simp
  then have "erase_done root h' (addrs ?T) (if node \<noteq> NULL then store (node, rb_color) RB_BLACK h' else Some h')"
    using erase_color_stop [OF foc] by (simp add: T(1) split: if_splits)
  then show ?thesis
    using T(5) unfolding ad by (elim erase_done_trans [rotated]) (simp add: ad)
qed

text \<open>
  A black subtree under a black sibling: one round, and then the loop from one frame
  further up, for which the lemma takes the claim as its last premise.
\<close>

lemma erase_round_black_sibling:
  assumes "focus_at root h (Fr d p c (mk d x (ot, Black) y) # gs) t" "invc t" "invh t" "col t = Black"
    "cinv (Fr d p c (mk d x (ot, Black) y) # gs) (bh t + 1)"
    "load (p, far d) h0 = Some o0" "erase_color_red_sibling d p o0 root h0 = Some (ot, h)"
    "\<And>h' T. focus_at root h' gs T \<Longrightarrow> T = mk d t (p, c) (mk d x (ot, Red) y) \<Longrightarrow> invc_below T \<Longrightarrow> invh T \<Longrightarrow>
       cinv gs (bh T + 1) \<Longrightarrow> erase_done root h' (addrs (plug gs T)) (rb_erase_color p (cpar gs) root h')"
  shows "erase_done root h (addrs (plug gs (mk d t (p, c) (mk d x (ot, Black) y)))) (do {
     s \<leftarrow> erase_color_side d p root h0;
     case s of
       Inl (node, parent, h) \<Rightarrow> rb_erase_color node parent root h
     | Inr (node, h) \<Rightarrow> if node \<noteq> NULL then store (node, rb_color) RB_BLACK h else Some h })"
proof -
  let ?t = "mk d t (p, c) (mk d x (ot, Black) y)" and ?T = "mk d t (p, c) (mk d x (ot, Red) y)"
  have foc: "focus_at root h gs ?t"
    using assms(1) by (simp add: focus_at_Cons)
  have "addrs ?T = addrs ?t" by (cases d) auto
  then have ad: "addrs (plug gs ?T) = addrs (plug gs ?t)" by (rule addrs_plug_cong)
  from black_sibling_round [OF foc assms(2-7)] show ?thesis
  proof (elim disjE exE conjE)
    fix h' assume h': "erase_color_side d p root h0 = Some (Inl (p, cpar gs, h'))" "col x = Black" "col y = Black"
      "focus_at root h' gs ?T" "agree_off (region root (set (addrs ?t) \<union> caddrs gs)) h h'"
    have "erase_done root h' (addrs (plug gs ?T)) (rb_erase_color p (cpar gs) root h')"
      using h' assms(2-5) by (intro assms(8)) (auto split: if_splits)
    then have "erase_done root h (addrs (plug gs ?t)) (rb_erase_color p (cpar gs) root h')"
      unfolding ad by (rule erase_done_trans [rotated]) (use h'(5) in simp)
    then show ?thesis by (simp add: h'(1))
  next
    fix node h' assume "erase_color_side d p root h0 = Some (Inr (node, h'))" "erase_repaired root h gs ?t node h'"
    then show ?thesis using erase_doneI_repaired [of root h gs ?t node h'] by simp
  qed
qed

text \<open>
  Under a red sibling the parent is black; after the rotation the parent is red, so that
  the loop stops there at the latest.
\<close>

lemma erase_round_red_sibling:
  assumes "focus_at root h (Fr d p Black (mk d x (ot, Red) y) # gs) t" "invc t" "invh t" "col t = Black"
    "cinv (Fr d p Black (mk d x (ot, Red) y) # gs) (bh t + 1)"
  shows "erase_done root h (addrs (plug gs (mk d t (p, Black) (mk d x (ot, Red) y)))) (rb_erase_color (ptr t) p root h)"
proof -
  let ?s = "mk d x (ot, Red) y" and ?gs = "Fr d ot Black y # gs"
  have inv: "bh x = bh t + 1" "bh y = bh t + 1" "invc x" "invh x" "invc y" "invh y" "col x = Black" "col y = Black"
    "cinv gs (bh t + 2)"
    using assms(5) by auto
  from red_sibling [of root h gs d t p Black x ot y] assms(1) obtain h1 where
    h1: "erase_color_red_sibling d p ot root h = Some (ptr x, h1)" "focus_at root h1 (Fr d p Red x # ?gs) t"
      "agree_off (region root (set (addrs (mk d t (p, Black) ?s)) \<union> caddrs gs)) h h1"
    by (auto simp: focus_at_Cons)
  have "x \<noteq> Leaf" using inv by (cases x) auto
  then obtain x1 xa x2 where xm: "x = mk d x1 (xa, Black) x2"
    using mk_cases [of x d] inv(7) by (metis col_mk)
  have ld: "load (p, far d) h = Some ot"
    using assms(1) by (auto simp: focus_at_def heap_simps)
  have stop: "erase_done root h' (addrs (plug ?gs T)) (rb_erase_color p (cpar ?gs) root h')"
    if "focus_at root h' ?gs T" "T = mk d t (p, Red) (mk d x1 (xa, Red) x2)"
      "invc_below T" "invh T" "cinv ?gs (bh T + 1)" for h' T
    using erase_doneI_stop [OF that(1) _ that(3-5)] that(2) by simp
  have "erase_done root h1 (addrs (plug ?gs (mk d t (p, Red) x))) (rb_erase_color (ptr t) p root h)"
    unfolding erase_color_round [OF assms(1) assms(4) mk_neq_Leaf(1)] xm
    using h1(1,2) inv assms(2-4) ld
    by (intro erase_round_black_sibling [OF _ assms(2-4) _ ld _ stop]) (auto simp: xm)
  moreover have "addrs (mk d (mk d t (p, Red) x) (ot, Black) y) = addrs (mk d t (p, Black) ?s)"
    by (rule addrs_rotate)
  from addrs_plug_cong [OF this, of gs]
  have "addrs (plug ?gs (mk d t (p, Red) x)) = addrs (plug gs (mk d t (p, Black) ?s))"
    by simp
  ultimately show ?thesis
    using h1(3) by (intro erase_done_trans [of root _ h h1]) auto
qed

lemma rb_erase_color_correct:
  assumes "focus_at root h fs t" "invc_below t" "invh t" "cinv fs (bh t + 1)"
  shows "erase_done root h (addrs (plug fs t)) (rb_erase_color (ptr t) (cpar fs) root h)"
  using assms
proof (induction fs arbitrary: t h)
  case Nil
  then show ?case by (intro erase_doneI_stop) auto
next
  case (Cons f gs)
  show ?case
  proof (cases "col t")
    case Red
    with Cons.prems show ?thesis by (intro erase_doneI_stop) auto
  next
    case black: Black
    obtain d p c s where f: "f = Fr d p c s" by (cases f)
    have inv: "invc t" "bh s = bh t + 1"
      using Cons.prems black by (auto simp: invc_below_black f)
    then have s: "s \<noteq> Leaf" by (cases s) auto
    then obtain x ot co y where sm: "s = mk d x (ot, co) y" by (rule mk_cases)
    show ?thesis
    proof (cases co)
      case Red
      then have "c = Black" using Cons.prems(4) by (auto simp: f sm)
      then show ?thesis
        using erase_round_red_sibling [of root h d p x ot y gs t] Cons.prems inv black
        by (auto simp: f sm Red)
    next
      case Black
      have foc: "focus_at root h (Fr d p c (mk d x (ot, Black) y) # gs) t"
        using Cons.prems(1) by (simp add: f sm Black)
      have ld: "load (p, far d) h = Some ot"
        using foc by (auto simp: focus_at_def heap_simps)
      have skip: "erase_color_red_sibling d p ot root h = Some (ot, h)"
        using foc by (intro black_sibling_skip) (simp add: focus_at_Cons)
      have ih: "erase_done root h' (addrs (plug gs T)) (rb_erase_color p (cpar gs) root h')"
        if "focus_at root h' gs T" "T = mk d t (p, c) (mk d x (ot, Red) y)" "invc_below T" "invh T"
          "cinv gs (bh T + 1)" for h' T
        using Cons.IH [OF that(1,3-5)] that(2) by simp
      have "erase_done root h (addrs (plug gs (mk d t (p, c) (mk d x (ot, Black) y)))) (rb_erase_color (ptr t) p root h)"
        unfolding erase_color_round [OF foc black mk_neq_Leaf(1)]
        using Cons.prems(4) by (intro erase_round_black_sibling [OF foc inv(1) Cons.prems(3) black _ ld skip ih])
          (auto simp: f sm Black)
      then show ?thesis by (simp add: f sm Black)
    qed
  qed
qed

subsection \<open>Taking a node out\<close>

lemma unlink_focus:
  assumes "focus_at root h fs (Node l (a, c) r)" "k = l \<and> r = Leaf \<or> k = r \<and> l = Leaf"
  shows "\<exists>h'. rb_unlink a (ptr k) (cpar fs) root h = Some h' \<and> focus_at root h' fs k \<and>
    (\<forall>f. h' (a, f) = h (a, f)) \<and> agree_off (region root (set (addrs k) \<union> caddrs fs)) h h'"
proof -
  define h1 where "h1 = (if k = Leaf then h else h((ptr k, rb_parent) \<mapsto> cpar fs))"
  define h2 where "h2 = h1(hole root fs \<mapsto> ptr k)"
  have k: "k \<noteq> Leaf \<Longrightarrow> ptr k \<noteq> a \<and> ptr k \<notin> caddrs fs \<and> ptr k \<noteq> fst root \<and> ptr k \<noteq> NULL \<and> h (ptr k, rb_parent) = Some a"
    using assms by (cases k rule: ptr.cases) (auto simp: focus_at_def)
  have repk: "rep h a k" "distinct (addrs k)" "a \<notin> set (addrs k)" "fst root \<notin> set (addrs k)"
      "set (addrs k) \<inter> caddrs fs = {}"
    using assms by (auto simp: focus_at_def)
  have cell: "fst (hole root fs) \<noteq> a" "fst (hole root fs) \<notin> set (addrs k)"
      "hole root fs \<in> region root (set (addrs k) \<union> caddrs fs)" "h (hole root fs) \<noteq> None"
    using assms by (cases fs; auto simp: focus_at_def)+
  have c1: "crep root h1 fs a"
    using assms(1) k by (auto simp: h1_def focus_at_def crep_upd)
  have "(if ptr k \<noteq> NULL then store (ptr k, rb_parent) (cpar fs) h else Some h) = Some h1"
    using k by (auto simp: h1_def heap_simps)
  moreover have "set_child (cpar fs) a (ptr k) root h1 = Some h2"
    using assms(1) unfolding h2_def by (intro set_child_focus [OF c1]) (auto simp: focus_at_def)
  ultimately have run: "rb_unlink a (ptr k) (cpar fs) root h = Some h2"
    by (simp add: rb_unlink_def split: if_splits)
  have "crep root h2 fs (ptr k)"
    using c1 assms(1) unfolding h2_def by (intro crep_hole_upd) (auto simp: focus_at_def)
  moreover have "rep h1 (cpar fs) k"
    using repk rep_reparent [of h a k] by (auto simp: h1_def)
  then have "rep h2 (cpar fs) k"
    using cell(2) by (simp add: h2_def rep_upd)
  ultimately have "focus_at root h2 fs k"
    using assms(1) repk by (simp add: focus_at_def)
  moreover have "h2 (a, f) = h (a, f)" for f
    using cell k by (auto simp: h2_def h1_def prod_eq_iff)
  moreover have "agree_off (region root (set (addrs k) \<union> caddrs fs)) h h2"
    using cell(3,4) k ptr_in_addrs [of k] by (auto simp: h2_def h1_def intro!: agree_off_upd)
  ultimately show ?thesis using run by blast
qed

text \<open>Removal of a node with at most one child.\<close>

lemma remove1_focus:
  assumes "distinct (addrs (plug fs t))" "addrs t = xs @ a # ys" "addrs t' = xs @ ys"
  shows "remove1 a (addrs (plug fs t)) = addrs (plug fs t')"
  using assms by (auto simp: addrs_plug remove1_append)

text \<open>
  The code that puts the successor into the place of the node: a node that is in memory and
  outside the tree.
\<close>

definition outsider :: "addr \<Rightarrow> addr \<Rightarrow> loc \<Rightarrow> frame list \<Rightarrow> atree \<Rightarrow> atree \<Rightarrow> heap \<Rightarrow> bool" where
  "outsider n a root fs l r h \<longleftrightarrow> n \<noteq> NULL \<and> n \<noteq> fst root \<and> n \<notin> caddrs fs \<and> n \<notin> set (addrs l) \<and> n \<notin> set (addrs r) \<and> n \<noteq> a \<and> (\<forall>f. h (n, f) \<noteq> None)"

text \<open>The heaps on the way: the node filled, the parent and the left child linked, the right child linked.\<close>

definition put_node :: "addr \<Rightarrow> frame list \<Rightarrow> atree \<Rightarrow> atree \<Rightarrow> color \<Rightarrow> heap \<Rightarrow> heap" where
  "put_node n fs l r c h = h((n, rb_parent) \<mapsto> cpar fs, (n, rb_color) \<mapsto> color_code c, (n, rb_right) \<mapsto> ptr r, (n, rb_left) \<mapsto> ptr l)"

definition put_left :: "addr \<Rightarrow> loc \<Rightarrow> frame list \<Rightarrow> atree \<Rightarrow> atree \<Rightarrow> color \<Rightarrow> heap \<Rightarrow> heap" where
  "put_left n root fs l r c h = (put_node n fs l r c h)(hole root fs \<mapsto> n, (ptr l, rb_parent) \<mapsto> n)"

definition put_right :: "addr \<Rightarrow> loc \<Rightarrow> frame list \<Rightarrow> atree \<Rightarrow> atree \<Rightarrow> color \<Rightarrow> heap \<Rightarrow> heap" where
  "put_right n root fs l r c h = (if r = Leaf then put_left n root fs l r c h else (put_left n root fs l r c h)((ptr r, rb_parent) \<mapsto> n))"

lemmas put_defs = put_node_def put_left_def put_right_def

lemma outsiderD:
  assumes "outsider n a root fs l r h"
  shows "n \<noteq> NULL" "n \<noteq> fst root" "n \<notin> caddrs fs" "n \<notin> set (addrs l)" "n \<notin> set (addrs r)" "n \<noteq> a" "h (n, f) \<noteq> None"
  using assms by (simp_all add: outsider_def)

lemma take_place_reads:
  assumes "focus_at root h fs (Node l (a, c) r)" "outsider n a root fs l r h" "l \<noteq> Leaf"
  shows "ptr l \<in> set (addrs l)" "r \<noteq> Leaf \<Longrightarrow> ptr r \<in> set (addrs r)" "ptr l \<noteq> NULL" "ptr r = NULL \<longleftrightarrow> r = Leaf"
    "h (ptr l, rb_parent) = Some a" "r \<noteq> Leaf \<Longrightarrow> h (ptr r, rb_parent) = Some a"
    "fst (hole root fs) \<noteq> a" "fst (hole root fs) \<noteq> n" "fst (hole root fs) \<notin> set (addrs l)"
    "fst (hole root fs) \<notin> set (addrs r)" "hole root fs \<in> region root (caddrs fs)" "h (hole root fs) \<noteq> None"
    "ptr l \<noteq> n" "ptr l \<noteq> a" "r \<noteq> Leaf \<Longrightarrow> ptr r \<noteq> n \<and> ptr r \<noteq> a \<and> ptr r \<noteq> ptr l"
proof -
  note D = assms(1) [unfolded focus_at_def] and fresh = assms(2) [unfolded outsider_def]
  show p: "ptr l \<in> set (addrs l)" "r \<noteq> Leaf \<Longrightarrow> ptr r \<in> set (addrs r)"
    using assms(3) by (auto intro: ptr_in_addrs)
  show "ptr l \<noteq> NULL" "ptr r = NULL \<longleftrightarrow> r = Leaf" using D assms(3) by (auto simp: rep_ptr_eq_NULL)
  show "h (ptr l, rb_parent) = Some a" "r \<noteq> Leaf \<Longrightarrow> h (ptr r, rb_parent) = Some a" using D assms(3) by (auto simp: rep_parent)
  show "fst (hole root fs) \<noteq> a" "fst (hole root fs) \<noteq> n" "fst (hole root fs) \<notin> set (addrs l)"
      "fst (hole root fs) \<notin> set (addrs r)" "hole root fs \<in> region root (caddrs fs)" "h (hole root fs) \<noteq> None"
    using D fresh by (cases fs; auto)+
  show "ptr l \<noteq> n" "ptr l \<noteq> a" "r \<noteq> Leaf \<Longrightarrow> ptr r \<noteq> n \<and> ptr r \<noteq> a \<and> ptr r \<noteq> ptr l"
    using p fresh D by auto
qed

lemma take_place_runs:
  assumes "focus_at root h fs (Node l (a, c) r)" "outsider n a root fs l r h" "l \<noteq> Leaf"
  shows "rb_take_place n a root h = Some (put_right n root fs l r c h)"
proof -
  let ?h1 = "put_node n fs l r c h" and ?h2 = "put_left n root fs l r c h"
  note D = assms(1) [unfolded focus_at_def] and fresh = assms(2) [unfolded outsider_def] and R = take_place_reads [OF assms]
  have c1: "crep root ?h1 fs a"
    using D fresh by (simp add: put_node_def crep_upd)
  have sc: "set_child (cpar fs) a n root ?h1 = Some (?h1(hole root fs \<mapsto> n))"
    using D by (intro set_child_focus [OF c1]) auto
  have reads1: "?h1 (a, rb_parent) = Some (cpar fs)" "?h1 (a, rb_left) = Some (ptr l)" "?h1 (a, rb_right) = Some (ptr r)"
      "a \<noteq> NULL"
    using D fresh by (auto simp: put_node_def)
  have run1: "rb_take_place n a root h = do {
      h \<leftarrow> set_child (cpar fs) a n root ?h1;
      ol \<leftarrow> load (a, rb_left) h;
      h \<leftarrow> store (ol, rb_parent) n h;
      or \<leftarrow> load (a, rb_right) h;
      if or \<noteq> NULL then store (or, rb_parent) n h else Some h }"
    using D outsiderD(1-6) [OF assms(2)] by (simp add: rb_take_place_def load_def store_def outsiderD(7) [OF assms(2)] put_node_def)
  have reads2: "(?h1(hole root fs \<mapsto> n)) (a, rb_left) = Some (ptr l)"
      "(?h1(hole root fs \<mapsto> n)) (ptr l, rb_parent) = Some a" "?h2 (a, rb_right) = Some (ptr r)"
      "r \<noteq> Leaf \<Longrightarrow> ?h2 (ptr r, rb_parent) = Some a"
    using reads1 R by (auto simp: put_left_def put_node_def prod_eq_iff)
  then show ?thesis
    unfolding run1 sc using reads1(4) R(3,4)
    by (cases "r = Leaf") (simp_all add: load_def store_def put_left_def [symmetric] put_right_def)
qed

lemma take_place_substituted:
  assumes "focus_at root h fs (Node l (a, c) r)" "outsider n a root fs l r h" "l \<noteq> Leaf"
  shows "\<exists>h'. rb_take_place n a root h = Some h' \<and> substituted a n root fs l r h h' \<and>
    agree_off (region root (insert n (set (addrs l) \<union> set (addrs r) \<union> caddrs fs))) h h'"
proof -
  let ?h3 = "put_right n root fs l r c h"
  note D = assms(1) [unfolded focus_at_def] and fresh = assms(2) [unfolded outsider_def] and R = take_place_reads [OF assms]
  have "?h3 (n, f) = h (a, f)" for f
    using D fresh R by (cases f) (auto simp: put_defs prod_eq_iff)
  moreover have "?h3 (hole root fs) = Some n" "?h3 (ptr l, rb_parent) = Some n" "r \<noteq> Leaf \<Longrightarrow> ?h3 (ptr r, rb_parent) = Some n"
    using R by (auto simp: put_left_def put_right_def prod_eq_iff)
  moreover have "?h3 (x, f) = h (x, f)" if "x \<noteq> n" "(x, f) \<noteq> hole root fs" "(x, f) \<noteq> (ptr l, rb_parent)"
      "\<not> (r \<noteq> Leaf \<and> (x, f) = (ptr r, rb_parent))" for x f
    using that by (auto simp: put_defs)
  ultimately have "substituted a n root fs l r h ?h3" using assms(3) by (auto simp: substituted_def)
  moreover have "hole root fs \<in> region root (insert n (set (addrs l) \<union> set (addrs r) \<union> caddrs fs))"
    using R(11) by (rule set_mp [OF region_mono, rotated]) auto
  with fresh R have "agree_off (region root (insert n (set (addrs l) \<union> set (addrs r) \<union> caddrs fs))) h ?h3"
    by (auto simp: put_defs intro!: agree_off_upd)
  ultimately show ?thesis using take_place_runs [OF assms] by blast
qed

text \<open>The leftmost node of a subtree, with the context that leads to it.\<close>

lemma leftmost_focus:
  "t \<noteq> Leaf \<Longrightarrow> \<exists>ms n cn k. t = plug ms (Node Leaf (n, cn) k) \<and> cpre ms = []"
proof (induction t)
  case (Node l x r)
  obtain b cb where x: "x = (b, cb)" by (cases x)
  show ?case
  proof (cases "l = Leaf")
    case True
    then have "Node l x r = plug [] (Node Leaf (b, cb) r)" by (simp add: x)
    then show ?thesis by (intro exI [of _ "[]"]) auto
  next
    case False
    with Node.IH(1) obtain ms n cn k where ms: "l = plug ms (Node Leaf (n, cn) k)" "cpre ms = []" by blast
    have "Node l x r = plug (ms @ [Fr L b cb r]) (Node Leaf (n, cn) k)"
      by (simp add: plug_append x ms(1))
    moreover have "cpre (ms @ [Fr L b cb r]) = []"
      using ms(2) by (induction ms rule: cpre.induct) auto
    ultimately show ?thesis by blast
  qed
qed simp

lemma ccol_change: "ccol (ms @ Fr d a c l # fs) = ccol (ms @ Fr d b c l # fs)"
  by (cases ms) auto

lemma cinv_change: "cinv (ms @ Fr d a c l # fs) n = cinv (ms @ Fr d b c l # fs) n"
  by (induction ms arbitrary: n) (auto simp: ccol_change [of _ d a c l fs b])

lemma cpar_append: "cpar (ms @ fs) = (if ms = [] then cpar fs else cpar ms)"
  by (cases ms) auto

lemma caddrs_append [simp]: "caddrs (ms @ fs) = caddrs ms \<union> caddrs fs"
  by (induction ms) auto

text \<open>The last step of both branches: rebalance if a black node is gone.\<close>

lemma erase_finish:
  assumes "focus_at root h fs k" "invc k" "invh k" "cinv fs (bh k + (if cn = Black then 1 else 0))"
    "cn = Red \<longrightarrow> col k = Black" "fs = [] \<longrightarrow> cn = Black"
  shows "erase_done root h (addrs (plug fs k))
    (if color_code cn = RB_BLACK then rb_erase_color (ptr k) (cpar fs) root h else Some h)"
proof (cases cn)
  case Red
  with assms have "rbt (plug fs k)" by (auto simp: rbt_plug)
  moreover have "tree_at root h (plug fs k)" using assms(1) by (simp add: tree_at_plug)
  ultimately show ?thesis using Red by (auto simp: erase_done_def)
next
  case Black
  with assms show ?thesis
    using rb_erase_color_correct [OF assms(1)] by (auto intro: invc_imp_below)
qed

lemma rb_erase_two_runs:
  assumes "focus_at root h fs (Node l (a, c) r)" "l \<noteq> Leaf" "r \<noteq> Leaf"
    and n: "r = plug ms (Node Leaf (n, cn) k)" "cpre ms = []" "n \<noteq> NULL" "h (n, rb_parent) = Some p" "h (n, rb_right) = Some (ptr k)" "h (n, rb_color) = Some (color_code cn)"
    and run: "rb_unlink n (ptr k) p root h = Some h1" "h1 (n, rb_parent) = Some p" "rb_take_place n a root h1 = Some h2"
  shows "rb_erase a root h = (if color_code cn = RB_BLACK then rb_erase_color (ptr k) (if p = a then n else p) root h2 else Some h2)"
proof -
  have reads: "load (a, rb_left) h = Some (ptr l)" "load (a, rb_right) h = Some (ptr r)" "rep h a r"
      "ptr l \<noteq> NULL" "ptr r \<noteq> NULL"
    using assms(1-3) by (auto simp: focus_at_def heap_simps rep_ptr_eq_NULL)
  have left: "leftmost (ptr r) h = Some n"
    using leftmost_hd [OF reads(3) assms(3)] by (simp add: n(1,2) addrs_plug)
  have loads: "load (n, rb_right) h = Some (ptr k)" "load (n, rb_parent) h = Some p"
      "load (n, rb_color) h = Some (color_code cn)" "load (n, rb_parent) h1 = Some p"
    using n(3-6) run(2) by (simp_all add: load_def)
  show ?thesis
    using reads left loads run(1,3)
    by (simp add: rb_erase_def Let_def del: neq0_conv color_code_eq)
qed

lemma rb_erase_two_children:
  assumes foc: "focus_at root h fs (Node l (a, c) r)" and lr: "l \<noteq> Leaf" "r \<noteq> Leaf"
    and inv: "rbt (plug fs (Node l (a, c) r))"
  shows "\<exists>h0 xs. erase_done root h0 xs (rb_erase a root h) \<and> xs = remove1 a (addrs (plug fs (Node l (a, c) r))) \<and>
    agree_off (region root (set (addrs (plug fs (Node l (a, c) r))))) h h0"
proof -
  let ?T = "plug fs (Node l (a, c) r)" and ?X = "region root (set (addrs (plug fs (Node l (a, c) r))))"
  from leftmost_focus [OF lr(2)] obtain ms n cn k where
    r: "r = plug ms (Node Leaf (n, cn) k)" and ms: "cpre ms = []" by blast
  let ?N = "ms @ Fr R a c l # fs" and ?N' = "ms @ Fr R n c l # fs" and ?R = "plug ms k"
  have T: "?T = plug ?N (Node Leaf (n, cn) k)" by (simp add: plug_append r)
  have focN: "focus_at root h ?N (Node Leaf (n, cn) k)"
    using foc unfolding tree_at_plug [symmetric] T .
  have D: "n \<noteq> NULL" "n \<noteq> fst root" "n \<notin> caddrs fs" "n \<notin> set (addrs l)" "n \<notin> set (addrs ?R)" "n \<noteq> a"
      "a \<notin> caddrs ms" "\<And>f. h (n, f) \<noteq> None" "a \<noteq> NULL" "h (n, rb_parent) = Some (cpar ?N)"
      "h (n, rb_right) = Some (ptr k)" "h (n, rb_color) = Some (color_code cn)"
    using focN foc [unfolded focus_at_def] by (auto simp: focus_at_def r) (case_tac f; auto)
  from unlink_focus [OF focN, of k] obtain h1 where
    h1: "rb_unlink n (ptr k) (cpar ?N) root h = Some h1" "focus_at root h1 ?N k" "\<forall>f. h1 (n, f) = h (n, f)"
      "agree_off (region root (set (addrs k) \<union> caddrs ?N)) h h1" by blast
  have foc1: "focus_at root h1 fs (Node l (a, c) ?R)"
    using h1(2) unfolding tree_at_plug [symmetric] by (simp add: plug_append)
  have "outsider n a root fs l ?R h1" using D(1-6,8) h1(3) by (simp add: outsider_def)
  from take_place_substituted [OF foc1 this lr(1)] obtain h2 where h2: "rb_take_place n a root h1 = Some h2" "substituted a n root fs l ?R h1 h2"
      "agree_off (region root (insert n (set (addrs l) \<union> set (addrs ?R) \<union> caddrs fs))) h1 h2" by blast
  have "focus_at root h2 fs (Node l (n, c) ?R)"
    using substituted_focus [OF foc1 D(1-6) h2(2)] .
  then have foc2: "focus_at root h2 ?N' k"
    unfolding tree_at_plug [symmetric] by (simp add: plug_append)
  have par: "(if cpar ?N = a then n else cpar ?N) = cpar ?N'"
    using D(7) cpar_in_caddrs [of ms] by (auto simp: cpar_append)
  have "rb_erase a root h = (if color_code cn = RB_BLACK then rb_erase_color (ptr k) (cpar ?N') root h2 else Some h2)"
    using rb_erase_two_runs [OF foc lr r ms D(1,10-12) h1(1) _ h2(1)] h1(3) D(10) unfolding par by simp
  moreover have "erase_done root h2 (addrs (plug ?N' k))
      (if color_code cn = RB_BLACK then rb_erase_color (ptr k) (cpar ?N') root h2 else Some h2)"
    using inv unfolding T
    by (intro erase_finish [OF foc2]) (auto simp: rbt_plug cinv_change [of ms R a c l fs _ n])
  moreover have "addrs (plug ?N' k) = remove1 a (addrs ?T)"
    using foc by (subst remove1_focus [where xs = "addrs l" and ys = "addrs r" and t' = "Node l (n, c) ?R"])
      (auto simp: tree_at_plug [symmetric] tree_at_def plug_append r addrs_plug ms)
  moreover have "agree_off ?X h h2"
  proof (rule agree_off_trans)
    show "agree_off ?X h h1"
      using h1(4) by (rule agree_off_mono) (rule region_mono, auto simp: r)
    show "agree_off ?X h1 h2"
      using h2(3) by (rule agree_off_mono) (rule region_mono, auto simp: r)
  qed
  ultimately show ?thesis by metis
qed

lemma rb_erase_one_child:
  assumes foc: "focus_at root h fs (Node l (a, c) r)" and k: "k = l \<and> r = Leaf \<or> k = r \<and> l = Leaf"
    and inv: "rbt (plug fs (Node l (a, c) r))"
  shows "\<exists>h0 xs. erase_done root h0 xs (rb_erase a root h) \<and> xs = remove1 a (addrs (plug fs (Node l (a, c) r))) \<and>
    agree_off (region root (set (addrs (plug fs (Node l (a, c) r))))) h h0"
proof -
  from unlink_focus [OF foc k] obtain h1 where h1: "rb_unlink a (ptr k) (cpar fs) root h = Some h1"
    "focus_at root h1 fs k" "agree_off (region root (set (addrs k) \<union> caddrs fs)) h h1" by blast
  have "rb_erase a root h =
      (if color_code c = RB_BLACK then rb_erase_color (ptr k) (cpar fs) root h1 else Some h1)"
  proof -
    have reads: "load (a, rb_left) h = Some (ptr l)" "load (a, rb_right) h = Some (ptr r)"
        "load (a, rb_parent) h = Some (cpar fs)" "load (a, rb_color) h = Some (color_code c)"
        "ptr l = NULL \<longleftrightarrow> l = Leaf" "ptr r = NULL \<longleftrightarrow> r = Leaf"
      using foc by (auto simp: focus_at_def heap_simps rep_ptr_eq_NULL)
    then show ?thesis
      using k h1(1) by (auto simp: rb_erase_def Let_def simp del: color_code_eq)
  qed
  moreover have "erase_done root h1 (addrs (plug fs k))
      (if color_code c = RB_BLACK then rb_erase_color (ptr k) (cpar fs) root h1 else Some h1)"
    using inv k by (intro erase_finish [OF h1(2)]) (auto simp: rbt_plug split: if_splits)
  moreover have "addrs (plug fs k) = remove1 a (addrs (plug fs (Node l (a, c) r)))"
    using foc k by (subst remove1_focus [where xs = "addrs l" and ys = "addrs r" and t' = k])
      (auto simp: tree_at_plug [symmetric] tree_at_def)
  moreover have "agree_off (region root (set (addrs (plug fs (Node l (a, c) r))))) h h1"
    using h1(3) by (rule agree_off_mono) (rule region_mono, use k in auto)
  ultimately show ?thesis by metis
qed

text \<open>The contract of \<open>rb_erase\<close>.\<close>

lemma rb_erase_correct:
  assumes "tree_at root h t" "rbt t" "a \<in> set (addrs t)"
  shows "\<exists>h' t'. rb_erase a root h = Some h' \<and> tree_at root h' t' \<and> rbt t' \<and> addrs t' = remove1 a (addrs t) \<and>
    agree_off (region root (set (addrs t))) h h'"
proof -
  from focus_exists [OF assms(3)] obtain fs l c r where t: "t = plug fs (Node l (a, c) r)" by blast
  from assms(1) have foc: "focus_at root h fs (Node l (a, c) r)" by (simp add: t tree_at_plug)
  have "\<exists>h0 xs. erase_done root h0 xs (rb_erase a root h) \<and> xs = remove1 a (addrs t) \<and>
      agree_off (region root (set (addrs t))) h h0"
    using rb_erase_two_children [OF foc] rb_erase_one_child [OF foc] assms(2) unfolding t by blast
  then obtain h0 h' t' where *: "rb_erase a root h = Some h'" "tree_at root h' t'" "rbt t'" "addrs t' = remove1 a (addrs t)"
      "agree_off (region root (set (remove1 a (addrs t)))) h0 h'" "agree_off (region root (set (addrs t))) h h0"
    unfolding erase_done_def by clarify
  moreover have "agree_off (region root (set (addrs t))) h0 h'"
    using *(5) by (rule agree_off_mono) (rule region_mono, rule set_remove1_subset)
  ultimately show ?thesis by (blast intro: agree_off_trans)
qed

end
