(* ===== verification/Rbtree_Walk.thy ===== *)
theory Rbtree_Walk
  imports Rbtree_Erase
begin

section \<open>Walking the tree, and replacing a node\<close>

text \<open>
  \<open>rb_first\<close>, \<open>rb_last\<close>, \<open>rb_next\<close> and \<open>rb_prev\<close> compute the ends of and the steps along
  the in-order sequence of the nodes; \<open>rb_replace_node\<close> puts another node in the
  place of one, which changes neither the shape nor the colours.
\<close>

definition first_of :: "addr list \<Rightarrow> addr" where
  "first_of xs = (case xs of [] \<Rightarrow> NULL | x # _ \<Rightarrow> x)"

definition last_of :: "addr list \<Rightarrow> addr" where
  "last_of xs = (if xs = [] then NULL else last xs)"

lemma first_of_simps [simp]: "first_of [] = NULL" "first_of (x # xs) = x"
    "xs \<noteq> [] \<Longrightarrow> first_of (xs @ ys) = first_of xs"
  by (auto simp: first_of_def split: list.splits)

lemma last_of_simps [simp]: "last_of [] = NULL" "last_of (xs @ [x]) = x"
    "ys \<noteq> [] \<Longrightarrow> last_of (xs @ ys) = last_of ys"
  by (auto simp: last_of_def)

lemma first_of_hd: "xs \<noteq> [] \<Longrightarrow> first_of xs = hd xs"
  by (cases xs) auto

lemma rb_first_correct: "tree_at root h t \<Longrightarrow> rb_first root h = Some (first_of (addrs t))"
  by (cases "t = Leaf") (auto simp: rb_first_def tree_at_def load_def rep_ptr_eq_NULL leftmost_hd first_of_hd)

lemma rb_last_correct: "tree_at root h t \<Longrightarrow> rb_last root h = Some (last_of (addrs t))"
  by (cases "t = Leaf") (auto simp: rb_last_def tree_at_def load_def rep_ptr_eq_NULL rightmost_last last_of_def)

subsection \<open>The climb\<close>

lemma sibling_neq:
  assumes "focus_at root h (Fr d a c s # fs) t" "t \<noteq> Leaf"
  shows "ptr t \<noteq> ptr s"
proof -
  have "set (addrs t) \<inter> set (addrs s) = {}" "rep h a t"
    using assms(1) by (auto simp: focus_at_def)
  with assms(2) ptr_in_addrs [of t] ptr_in_addrs [of s] rep_ptr_eq_NULL [of h a t] show ?thesis
    by (cases "s = Leaf") auto
qed

lemma climb_right:
  "focus_at root h fs t \<Longrightarrow> t \<noteq> Leaf \<Longrightarrow> climb rb_right (ptr t) h = Some (first_of (cpost fs))"
proof (induction fs arbitrary: t rule: cpost.induct)
  case 1
  then show ?case
    using rep_ptr_eq_NULL [of h NULL t]
    by (subst climb.simps) (auto simp: focus_at_def load_def rep_ptr_eq_NULL rep_parent)
next
  case (2 a c s fs)
  then show ?case
    using sibling_neq [OF 2(2,3)]
    by (subst climb.simps) (auto simp: focus_at_def load_def rep_ptr_eq_NULL rep_parent)
next
  case (3 a c s fs)
  from 3(2) have "focus_at root h fs (Node s (a, c) t)" by (simp add: focus_at_Cons)
  from 3(1) [OF this] have "climb rb_right a h = Some (first_of (cpost fs))" by simp
  with 3(2,3) show ?case
    by (subst climb.simps) (auto simp: focus_at_def load_def rep_ptr_eq_NULL rep_parent)
qed

lemma climb_left:
  "focus_at root h fs t \<Longrightarrow> t \<noteq> Leaf \<Longrightarrow> climb rb_left (ptr t) h = Some (last_of (cpre fs))"
proof (induction fs arbitrary: t rule: cpre.induct)
  case 1
  then show ?case
    using rep_ptr_eq_NULL [of h NULL t]
    by (subst climb.simps) (auto simp: focus_at_def load_def rep_ptr_eq_NULL rep_parent)
next
  case (2 a c s fs)
  from 2(2) have "focus_at root h fs (Node t (a, c) s)" by (simp add: focus_at_Cons)
  from 2(1) [OF this] have "climb rb_left a h = Some (last_of (cpre fs))" by simp
  with 2(2,3) show ?case
    by (subst climb.simps) (auto simp: focus_at_def load_def rep_ptr_eq_NULL rep_parent)
next
  case (3 a c s fs)
  then show ?case
    using sibling_neq [OF 3(2,3)]
    by (subst climb.simps) (auto simp: focus_at_def load_def rep_ptr_eq_NULL rep_parent)
qed

lemma split_at:
  assumes "tree_at root h t" "addrs t = xs @ a # ys"
  obtains fs l c r where "focus_at root h fs (Node l (a, c) r)" "xs = cpre fs @ addrs l" "ys = addrs r @ cpost fs"
proof -
  from focus_exists [of a t] assms(2) obtain fs l c r where t: "t = plug fs (Node l (a, c) r)" by auto
  with assms(1) have foc: "focus_at root h fs (Node l (a, c) r)" by (simp add: tree_at_plug)
  have "(cpre fs @ addrs l) @ a # (addrs r @ cpost fs) = xs @ a # ys"
    using assms(2) by (simp add: t addrs_plug)
  moreover have "a \<notin> set (cpre fs @ addrs l)" "a \<notin> set (addrs r @ cpost fs)"
    using assms(1) by (auto simp: t tree_at_def addrs_plug)
  ultimately have "cpre fs @ addrs l = xs \<and> addrs r @ cpost fs = ys"
    using append_Cons_eq_iff [of a "cpre fs @ addrs l" "addrs r @ cpost fs" xs ys] by blast
  with foc that show ?thesis by blast
qed

theorem rb_next_correct:
  assumes "tree_at root h t" "addrs t = xs @ a # ys"
  shows "rb_next a h = Some (first_of ys)"
proof -
  from assms obtain fs l c r where
    foc: "focus_at root h fs (Node l (a, c) r)" and ys: "ys = addrs r @ cpost fs" by (rule split_at)
  have "load (a, rb_right) h = Some (ptr r)" "rep h a r"
    using foc by (auto simp: focus_at_def load_def)
  then show ?thesis
    using climb_right [OF foc] leftmost_hd [of h a r]
    by (cases "r = Leaf") (auto simp: rb_next_def ys rep_ptr_eq_NULL first_of_hd)
qed

theorem rb_prev_correct:
  assumes "tree_at root h t" "addrs t = xs @ a # ys"
  shows "rb_prev a h = Some (last_of xs)"
proof -
  from assms obtain fs l c r where
    foc: "focus_at root h fs (Node l (a, c) r)" and xs: "xs = cpre fs @ addrs l" by (rule split_at)
  have "load (a, rb_left) h = Some (ptr l)" "rep h a l"
    using foc by (auto simp: focus_at_def load_def)
  then show ?thesis
    using climb_left [OF foc] rightmost_last [of h a l]
    by (cases "l = Leaf") (auto simp: rb_prev_def xs rep_ptr_eq_NULL last_of_def)
qed

subsection \<open>rb_replace_node\<close>

lemma replace_substituted:
  assumes foc: "focus_at root h fs (Node l (a, c) r)" and fresh: "n \<noteq> NULL" "n \<noteq> fst root" "n \<notin> caddrs fs"
      "n \<notin> set (addrs l)" "n \<notin> set (addrs r)" "n \<noteq> a" "\<And>f. h (n, f) \<noteq> None"
  shows "\<exists>h'. rb_replace_node a n root h = Some h' \<and> substituted a n root fs l r h h'"
proof -
  define h1 where "h1 = h(hole root fs \<mapsto> n)"
  define h2 where "h2 = (if l = Leaf then h1 else h1((ptr l, rb_parent) \<mapsto> n))"
  define h3 where "h3 = (if r = Leaf then h2 else h2((ptr r, rb_parent) \<mapsto> n))"
  define h4 where "h4 = h3((n, rb_parent) \<mapsto> cpar fs, (n, rb_right) \<mapsto> ptr r, (n, rb_left) \<mapsto> ptr l, (n, rb_color) \<mapsto> color_code c)"
  note D = foc [unfolded focus_at_def]
  have ne: "l \<noteq> Leaf \<Longrightarrow> ptr l \<noteq> n \<and> ptr l \<noteq> a \<and> ptr l \<in> set (addrs l)" "r \<noteq> Leaf \<Longrightarrow> ptr r \<noteq> n \<and> ptr r \<noteq> a \<and> ptr r \<in> set (addrs r)"
      "l \<noteq> Leaf \<Longrightarrow> r \<noteq> Leaf \<Longrightarrow> ptr l \<noteq> ptr r"
    using D fresh ptr_in_addrs [of l] ptr_in_addrs [of r] by auto
  have nz: "ptr l = NULL \<longleftrightarrow> l = Leaf" "ptr r = NULL \<longleftrightarrow> r = Leaf" "a \<noteq> NULL"
    using D by (auto simp: rep_ptr_eq_NULL)
  have pl: "l \<noteq> Leaf \<Longrightarrow> h (ptr l, rb_parent) = Some a" "r \<noteq> Leaf \<Longrightarrow> h (ptr r, rb_parent) = Some a"
    using D by (auto simp: rep_parent)
  have cell: "fst (hole root fs) \<noteq> a" "fst (hole root fs) \<noteq> n" "fst (hole root fs) \<notin> set (addrs l)"
      "fst (hole root fs) \<notin> set (addrs r)"
    using D fresh by (cases fs; auto)+
  have sc: "set_child (cpar fs) a n root h = Some h1"
    using D unfolding h1_def by (intro set_child_focus) auto
  have up: "h1 (a, f) = h (a, f)" "h2 (a, f) = h (a, f)" "h3 (a, f) = h (a, f)" "h3 (n, f) = h (n, f)" for f
    using cell ne by (auto simp: h1_def h2_def h3_def prod_eq_iff)
  have s2: "(if ptr l \<noteq> NULL then store (ptr l, rb_parent) n h1 else Some h1) = Some h2"
    using nz pl cell ne by (auto simp: h1_def h2_def store_def prod_eq_iff)
  have s3: "(if ptr r \<noteq> NULL then store (ptr r, rb_parent) n h2 else Some h2) = Some h3"
    using nz pl cell ne by (auto simp: h1_def h2_def h3_def store_def prod_eq_iff)
  have "rb_replace_node a n root h = Some h4"
    using D fresh(1-6) nz sc s2 s3
    by (simp add: rb_replace_node_def load_def up store_def fresh(7) h4_def del: neq0_conv)
  moreover have "substituted a n root fs l r h h4"
  proof -
    have "h4 (n, f) = h (a, f)" for f
      using D by (cases f) (auto simp: h4_def)
    moreover have "h4 (hole root fs) = Some n" "l \<noteq> Leaf \<Longrightarrow> h4 (ptr l, rb_parent) = Some n"
      "r \<noteq> Leaf \<Longrightarrow> h4 (ptr r, rb_parent) = Some n"
      using cell ne by (auto simp: h4_def h3_def h2_def h1_def prod_eq_iff)
    moreover have "h4 (x, f) = h (x, f)" if "x \<noteq> n" "(x, f) \<noteq> hole root fs"
        "\<not> (l \<noteq> Leaf \<and> (x, f) = (ptr l, rb_parent))" "\<not> (r \<noteq> Leaf \<and> (x, f) = (ptr r, rb_parent))" for x f
      using that by (auto simp: h4_def h3_def h2_def h1_def)
    ultimately show ?thesis by (auto simp: substituted_def)
  qed
  ultimately show ?thesis by blast
qed

text \<open>The same tree with \<open>newnode\<close> in the place of \<open>victim\<close>.\<close>

definition rename :: "addr \<Rightarrow> addr \<Rightarrow> atree \<Rightarrow> atree" where
  "rename v n t = map_tree (\<lambda>(a, c). (if a = v then n else a, c)) t"

lemma rename_simps [simp]:
  "rename v n Leaf = Leaf"
  "rename v n (Node l (a, c) r) = Node (rename v n l) (if a = v then n else a, c) (rename v n r)"
  by (auto simp: rename_def)

lemma rename_mk: "rename v n (mk d l (a, c) r) = mk d (rename v n l) (if a = v then n else a, c) (rename v n r)"
  by (cases d) auto

lemma rename_id: "v \<notin> set (addrs t) \<Longrightarrow> rename v n t = t"
  by (induction t) auto

lemma rename_plug: "v \<notin> caddrs fs \<Longrightarrow> rename v n (plug fs t) = plug fs (rename v n t)"
proof (induction fs arbitrary: t)
  case (Cons f fs)
  then show ?case by (cases f) (auto simp: rename_mk rename_id)
qed simp

lemma rename_inv [simp]: "col (rename v n t) = col t" "bh (rename v n t) = bh t" "invc (rename v n t) = invc t"
    "invh (rename v n t) = invh t"
proof -
  show c: "col (rename v n t) = col t" for t by (cases t rule: col.cases) auto
  show b: "bh (rename v n t) = bh t" for t by (induction t rule: bh.induct) auto
  show "invc (rename v n t) = invc t" by (induction t rule: invc.induct) (auto simp: c)
  show "invh (rename v n t) = invh t" by (induction t rule: invh.induct) (auto simp: b)
qed

lemma rbt_rename [simp]: "rbt (rename v n t) = rbt t"
  by (simp add: rbt_def)

lemma addrs_rename: "addrs (rename v n t) = map (\<lambda>x. if x = v then n else x) (addrs t)"
  by (induction t) auto

theorem rb_replace_node_correct:
  assumes "tree_at root h t" "v \<in> set (addrs t)" "fresh_node n root t h"
  shows "\<exists>h'. rb_replace_node v n root h = Some h' \<and> tree_at root h' (rename v n t)"
proof -
  from focus_exists [OF assms(2)] obtain fs l c r where t: "t = plug fs (Node l (v, c) r)" by blast
  from assms(1) have foc: "focus_at root h fs (Node l (v, c) r)" by (simp add: t tree_at_plug)
  from assms(3) have fr: "n \<noteq> NULL" "n \<noteq> fst root" "n \<notin> caddrs fs" "n \<notin> set (addrs l)" "n \<notin> set (addrs r)"
      "n \<noteq> v" "\<And>f. h (n, f) \<noteq> None"
    by (auto simp: fresh_node_def t)
  from replace_substituted [OF foc fr] obtain h' where h': "rb_replace_node v n root h = Some h'"
    "substituted v n root fs l r h h'" by blast
  have "rename v n t = plug fs (Node l (n, c) r)"
    using foc by (auto simp: t focus_at_def rename_plug rename_id)
  then have "tree_at root h' (rename v n t)"
    using substituted_focus [OF foc fr(1-6) h'(2)] by (simp add: tree_at_plug)
  with h'(1) show ?thesis by blast
qed

end
