(* ===== verification/Rbtree_Spec.thy ===== *)
theory Rbtree_Spec
  imports Rbtree_Walk
begin

section \<open>What the red-black tree promises its clients\<close>

text \<open>
  The contract the timer code of the poller relies on: a root pointer and a heap hold
  a sequence of nodes, with both ends, both neighbours, and removal. The interface is a
  locale; its interpretation on \<open>rb_first\<close>, \<open>rb_last\<close>, \<open>rb_next\<close>, \<open>rb_prev\<close> and
  \<open>rb_erase\<close> is the refinement of the pointer code to sequences. The properties of the
  component close the theory.
\<close>

locale node_sequence =
  fixes seq_at :: "loc \<Rightarrow> heap \<Rightarrow> addr list \<Rightarrow> bool"
    and first last :: "loc \<Rightarrow> heap \<Rightarrow> addr option"
    and nextn prevn :: "addr \<Rightarrow> heap \<Rightarrow> addr option"
    and erase :: "addr \<Rightarrow> loc \<Rightarrow> heap \<Rightarrow> heap option"
  assumes seq_nodes: "seq_at root h xs \<Longrightarrow> distinct xs \<and> NULL \<notin> set xs"
    and first: "seq_at root h xs \<Longrightarrow> first root h = Some (first_of xs)"
    and last: "seq_at root h xs \<Longrightarrow> last root h = Some (last_of xs)"
    and nextn: "seq_at root h (xs @ a # ys) \<Longrightarrow> nextn a h = Some (first_of ys)"
    and prevn: "seq_at root h (xs @ a # ys) \<Longrightarrow> prevn a h = Some (last_of xs)"
    and erase: "seq_at root h xs \<Longrightarrow> a \<in> set xs \<Longrightarrow>
      \<exists>h'. erase a root h = Some h' \<and> seq_at root h' (remove1 a xs) \<and> agree_off (region root (set xs)) h h'"
begin

text \<open>Stepping forward \<open>n\<close> times, collecting the nodes.\<close>

fun walk :: "nat \<Rightarrow> addr \<Rightarrow> heap \<Rightarrow> addr list option" where
  "walk 0 a h = (if a = NULL then Some [] else None)"
| "walk (Suc n) a h = do { b \<leftarrow> nextn a h; bs \<leftarrow> walk n b h; Some (a # bs) }"

lemma walk_suffix: "seq_at root h (xs @ ys) \<Longrightarrow> walk (length ys) (first_of ys) h = Some ys"
proof (induction ys arbitrary: xs)
  case (Cons y ys)
  from Cons.IH [of "xs @ [y]"] Cons.prems nextn [of root h xs y ys] show ?case by simp
qed simp

lemma walk_all: "seq_at root h xs \<Longrightarrow> \<exists>a. first root h = Some a \<and> walk (length xs) a h = Some xs"
  using walk_suffix [of root h "[]" xs] first by simp

lemma prev_of_next:
  assumes "seq_at root h xs" "a \<in> set xs" "nextn a h = Some b" "b \<noteq> NULL"
  shows "prevn b h = Some a"
proof -
  from assms(2) obtain us vs where xs: "xs = us @ a # vs" by (auto simp: in_set_conv_decomp)
  with nextn [of root h us a vs] assms(1,3,4) obtain ws where "vs = b # ws" by (cases vs) auto
  with prevn [of root h "us @ [a]" b ws] assms(1) xs show ?thesis by simp
qed

lemma pop_first:
  assumes "seq_at root h (x # xs)"
  shows "\<exists>h'. erase x root h = Some h' \<and> seq_at root h' xs \<and> agree_off (region root (insert x (set xs))) h h'"
  using erase [OF assms, of x] by simp

end

text \<open>The heap holds the nodes \<open>xs\<close>, in this order, in a valid red-black tree.\<close>

definition rb_seq :: "loc \<Rightarrow> heap \<Rightarrow> addr list \<Rightarrow> bool" where
  "rb_seq root h xs \<longleftrightarrow> (\<exists>t. tree_at root h t \<and> rbt t \<and> addrs t = xs)"

interpretation rb: node_sequence rb_seq rb_first rb_last rb_next rb_prev rb_erase
proof
  fix root h xs a ys
  show "rb_seq root h xs \<Longrightarrow> distinct xs \<and> NULL \<notin> set xs"
    by (auto simp: rb_seq_def tree_at_def rep_NULL_notin)
  show "rb_seq root h xs \<Longrightarrow> rb_first root h = Some (first_of xs)"
    "rb_seq root h xs \<Longrightarrow> rb_last root h = Some (last_of xs)"
    by (auto simp: rb_seq_def rb_first_correct rb_last_correct)
  show "rb_seq root h (xs @ a # ys) \<Longrightarrow> rb_next a h = Some (first_of ys)"
    "rb_seq root h (xs @ a # ys) \<Longrightarrow> rb_prev a h = Some (last_of xs)"
    unfolding rb_seq_def by (blast intro: rb_next_correct rb_prev_correct)+
  show "rb_seq root h xs \<Longrightarrow> a \<in> set xs \<Longrightarrow> \<exists>h'. rb_erase a root h = Some h' \<and> rb_seq root h' (remove1 a xs) \<and>
      agree_off (region root (set xs)) h h'"
    unfolding rb_seq_def using rb_erase_correct by blast
qed

subsection \<open>Depth\<close>

text \<open>The colouring bounds the depth: at least \<open>2 ^ bh t\<close> places, at most \<open>2 * bh t + 1\<close> levels.\<close>

lemma bh_size1: "invh t \<Longrightarrow> 2 ^ bh t \<le> size1 t"
proof (induction t rule: invh.induct)
  case (2 l a c r)
  then have "2 ^ bh l \<le> size1 l" "2 ^ bh l \<le> size1 r" by auto
  then show ?case by auto
qed simp

lemma height_bh: "invc t \<Longrightarrow> invh t \<Longrightarrow> height t \<le> 2 * bh t + (if col t = Black then 0 else 1)"
proof (induction t rule: invh.induct)
  case (2 l a c r)
  then show ?case by (cases c) (auto split: if_splits)
qed simp

lemma rbt_height: "rbt t \<Longrightarrow> 2 ^ height t \<le> (length (addrs t) + 1)\<^sup>2"
proof -
  assume t: "rbt t"
  then have "(2::nat) ^ height t \<le> 2 ^ (2 * bh t)"
    using height_bh [of t] by (auto simp: rbt_def)
  also have "\<dots> = (2 ^ bh t)\<^sup>2" by (simp add: power_mult mult.commute)
  also have "\<dots> \<le> (size1 t)\<^sup>2"
    using t bh_size1 [of t] by (auto simp: rbt_def)
  also have "size1 t = length (addrs t) + 1" by (simp add: addrs_def size1_size)
  finally show ?thesis .
qed

subsection \<open>Properties\<close>

text \<open>A heap with a tree of three nodes and a free node, for the witnesses.\<close>

definition sample_heap :: heap where
  "sample_heap = map_of
    [((1, W0), 20),
     ((20, rb_parent), 0), ((20, rb_left), 10), ((20, rb_right), 30), ((20, rb_color), RB_BLACK),
     ((10, rb_parent), 20), ((10, rb_left), 0), ((10, rb_right), 0), ((10, rb_color), RB_RED),
     ((30, rb_parent), 20), ((30, rb_left), 0), ((30, rb_right), 0), ((30, rb_color), RB_RED),
     ((40, rb_parent), 0), ((40, rb_left), 0), ((40, rb_right), 0), ((40, rb_color), 0)]"

definition sample_tree :: atree where
  "sample_tree = Node (Node Leaf (10, Red) Leaf) (20, Black) (Node Leaf (30, Red) Leaf)"

lemma sample_tree_at: "tree_at (1, W0) sample_heap sample_tree" "rbt sample_tree" "addrs sample_tree = [10, 20, 30]"
  by (simp_all add: tree_at_def sample_heap_def sample_tree_def rbt_def)

lemma sample_fresh: "fresh_node 40 (1, W0) sample_tree sample_heap"
proof -
  have "sample_heap (40, f) \<noteq> None" for f by (cases f) (simp_all add: sample_heap_def)
  then show ?thesis by (simp add: fresh_node_def sample_tree_def)
qed

text \<open>
  C1: \<open>rb_erase\<close> of a node of a valid red-black tree finishes without an invalid access,
  removes exactly that node from the in-order sequence, leaves a valid red-black tree
  (no red node under a red one, equal black heights, black root) and writes no cell but
  the root pointer and the cells of the tree's nodes.
\<close>

theorem rb_erase_keeps_red_black:
  assumes "tree_at root h t" "rbt t" "a \<in> set (addrs t)"
  shows "\<exists>h' t'. rb_erase a root h = Some h' \<and> tree_at root h' t' \<and> rbt t' \<and> addrs t' = remove1 a (addrs t) \<and>
    agree_off (region root (set (addrs t))) h h'"
  using assms by (rule rb_erase_correct)

theorem rb_erase_keeps_red_black_witness:
  "\<exists>h' t'. rb_erase 20 (1, W0) sample_heap = Some h' \<and> tree_at (1, W0) h' t' \<and> rbt t' \<and> addrs t' = [10, 30]"
  using rb_erase_keeps_red_black [OF sample_tree_at(1,2), of 20] by (auto simp: sample_tree_at)

text \<open>
  C7: \<open>rb_link_node\<close> followed by \<open>rb_insert_color\<close>, at any empty place of a valid
  red-black tree, finishes without an invalid access, puts the node at that place of the
  in-order sequence and leaves a valid red-black tree.
\<close>

theorem rb_insert_keeps_red_black:
  assumes "tree_at root h (plug fs Leaf)" "rbt (plug fs Leaf)" "fresh_node n root (plug fs Leaf) h"
  shows "\<exists>h1 h' t'. rb_link_node n (cpar fs) (hole root fs) h = Some h1 \<and> rb_insert_color n root h1 = Some h' \<and>
    tree_at root h' t' \<and> rbt t' \<and> addrs t' = cpre fs @ [n] @ cpost fs \<and>
    agree_off (region root (insert n (caddrs fs))) h h'"
  using rb_insert_at_correct [OF assms] by (fastforce simp: rb_insert_at_def addrs_plug bind_eq_Some_conv)

theorem rb_insert_keeps_red_black_witness:
  "\<exists>h1 h' t'. rb_link_node 40 30 (30, rb_right) sample_heap = Some h1 \<and> rb_insert_color 40 (1, W0) h1 = Some h' \<and>
    tree_at (1, W0) h' t' \<and> rbt t' \<and> addrs t' = [10, 20, 30, 40]"
proof -
  let ?fs = "[Fr R 30 Red Leaf, Fr R 20 Black (Node Leaf (10, Red) Leaf)]"
  have t: "plug ?fs Leaf = sample_tree" by (simp add: sample_tree_def)
  show ?thesis
    using rb_insert_keeps_red_black [of "(1, W0)" sample_heap ?fs 40, unfolded t, OF sample_tree_at(1,2) sample_fresh]
    by auto
qed

text \<open>
  C34: starting at \<open>rb_first\<close>, \<open>rb_next\<close> visits every node of the tree once, in order, and
  then gives \<open>NULL\<close>; \<open>rb_last\<close> is the end of that sequence, and \<open>rb_prev\<close> undoes \<open>rb_next\<close>.
\<close>

theorem rb_walk_enumerates:
  assumes "rb_seq root h xs"
  shows "(\<exists>a. rb_first root h = Some a \<and> rb.walk (length xs) a h = Some xs) \<and>
    rb_last root h = Some (last_of xs) \<and>
    (\<forall>a b. a \<in> set xs \<and> rb_next a h = Some b \<and> b \<noteq> NULL \<longrightarrow> rb_prev b h = Some a)"
  using rb.walk_all [OF assms] rb.last [OF assms] rb.prev_of_next [OF assms] by blast

theorem rb_walk_enumerates_witness:
  "(\<exists>a. rb_first (1, W0) sample_heap = Some a \<and> rb.walk 3 a sample_heap = Some [10, 20, 30]) \<and>
   rb_last (1, W0) sample_heap = Some 30 \<and> rb_prev 20 sample_heap = Some 10"
proof -
  have s: "rb_seq (1, W0) sample_heap [10, 20, 30]" using sample_tree_at by (auto simp: rb_seq_def)
  have n: "rb_next 10 sample_heap = Some 20" using rb.nextn [of _ _ "[]" 10 "[20, 30]"] s by simp
  show ?thesis
    using rb_walk_enumerates [OF s] n by (force simp add: last_of_def numeral_3_eq_3 simp del: rb.walk.simps)
qed

text \<open>
  \<open>rb_replace_node\<close> puts a fresh node in the place of the victim: same shape, same
  colours, same order, no other change of the tree.
\<close>

theorem rb_replace_node_in_place:
  assumes "tree_at root h t" "rbt t" "v \<in> set (addrs t)" "fresh_node n root t h"
  shows "\<exists>h'. rb_replace_node v n root h = Some h' \<and> tree_at root h' (rename v n t) \<and> rbt (rename v n t)"
  using rb_replace_node_correct [OF assms(1,3,4)] assms(2) by simp

theorem rb_replace_node_in_place_witness:
  "\<exists>h'. rb_replace_node 10 40 (1, W0) sample_heap = Some h' \<and>
     tree_at (1, W0) h' (Node (Node Leaf (40, Red) Leaf) (20, Black) (Node Leaf (30, Red) Leaf))"
  using rb_replace_node_in_place [OF sample_tree_at(1,2) _ sample_fresh, of 10]
  by (auto simp: sample_tree_at) (auto simp: sample_tree_def)

end
