(* ===== verification/Kernel_List.thy ===== *)
theory Kernel_List
  imports Prelude
begin

section \<open>The circular list of list.h\<close>

text \<open>
  The six operations of \<open>src/src/kernel/list.h\<close> over the heap of \<open>Prelude\<close>, and what
  they do to a circular doubly linked list. \<open>list_init\<close>, \<open>list_empty\<close>, \<open>list_delete\<close> and
  the insertion into an empty list behave as such a list requires; the other
  insertions keep only part of the links, and the lemmas say which.
\<close>

abbreviation nextf :: word_ix where "nextf \<equiv> W0"
abbreviation prevf :: word_ix where "prevf \<equiv> W1"

subsection \<open>Operations\<close>

definition list_init :: "addr \<Rightarrow> heap \<Rightarrow> heap option" where
  "list_init head h = do {
     h \<leftarrow> store (head, nextf) head h;
     store (head, prevf) head h
   }"

definition list_empty :: "addr \<Rightarrow> heap \<Rightarrow> bool option" where
  "list_empty head h = do { n \<leftarrow> load (head, nextf) h; Some (n = head) }"

text \<open>The branch that \<open>list_add_tail\<close> and \<open>list_add_front\<close> share.\<close>

definition add_to_empty :: "addr \<Rightarrow> addr \<Rightarrow> heap \<Rightarrow> heap option" where
  "add_to_empty head entry h = do {
     h \<leftarrow> store (head, nextf) entry h;
     h \<leftarrow> store (head, prevf) entry h;
     h \<leftarrow> store (entry, prevf) head h;
     store (entry, nextf) head h
   }"

definition list_add_tail :: "addr \<Rightarrow> addr \<Rightarrow> heap \<Rightarrow> heap option" where
  "list_add_tail head entry h = do {
     e \<leftarrow> list_empty head h;
     if e then add_to_empty head entry h
     else do {
       hp \<leftarrow> load (head, prevf) h;
       hpn \<leftarrow> load (hp, nextf) h;
       h \<leftarrow> store (entry, prevf) hpn h;
       h \<leftarrow> store (entry, nextf) head h;
       hp \<leftarrow> load (head, prevf) h;
       store (hp, nextf) entry h
     }
   }"

definition list_add_list :: "addr \<Rightarrow> addr \<Rightarrow> heap \<Rightarrow> heap option" where
  "list_add_list head entry h = do {
     tmp \<leftarrow> load (head, prevf) h;
     h \<leftarrow> store (tmp, nextf) entry h;
     h \<leftarrow> store (entry, nextf) head h;
     store (entry, prevf) tmp h
   }"

definition list_add_front :: "addr \<Rightarrow> addr \<Rightarrow> heap \<Rightarrow> heap option" where
  "list_add_front head entry h = do {
     e \<leftarrow> list_empty head h;
     if e then add_to_empty head entry h
     else do {
       h \<leftarrow> store (entry, prevf) head h;
       hn \<leftarrow> load (head, nextf) h;
       h \<leftarrow> store (entry, nextf) hn h;
       store (head, nextf) entry h
     }
   }"

definition list_delete :: "addr \<Rightarrow> heap \<Rightarrow> heap option" where
  "list_delete entry h = do {
     ep \<leftarrow> load (entry, prevf) h;
     en \<leftarrow> load (entry, nextf) h;
     h \<leftarrow> store (ep, nextf) en h;
     en \<leftarrow> load (entry, nextf) h;
     ep \<leftarrow> load (entry, prevf) h;
     store (en, prevf) ep h
   }"

subsection \<open>Lists in the heap\<close>

text \<open>Consecutive nodes point to each other.\<close>

fun linked :: "heap \<Rightarrow> addr list \<Rightarrow> bool" where
  "linked h (a # b # xs) \<longleftrightarrow> h (a, nextf) = Some b \<and> h (b, prevf) = Some a \<and> linked h (b # xs)"
| "linked h _ \<longleftrightarrow> True"

definition list_at :: "heap \<Rightarrow> addr \<Rightarrow> addr list \<Rightarrow> bool" where
  "list_at h head xs \<longleftrightarrow> distinct (head # xs) \<and> NULL \<notin> set (head # xs) \<and> linked h (head # xs @ [head])"

text \<open>What a traversal along \<open>next\<close> from \<open>a\<close> to \<open>b\<close> sees.\<close>

primrec path :: "heap \<Rightarrow> addr \<Rightarrow> addr list \<Rightarrow> addr \<Rightarrow> bool" where
  "path h a [] b \<longleftrightarrow> h (a, nextf) = Some b"
| "path h a (x # xs) b \<longleftrightarrow> h (a, nextf) = Some x \<and> path h x xs b"

definition forward :: "heap \<Rightarrow> addr \<Rightarrow> addr list \<Rightarrow> bool" where
  "forward h head xs \<longleftrightarrow> head \<noteq> NULL \<and> head \<notin> set xs \<and> path h head xs head"

lemma linked_append:
  "linked h (xs @ a # ys) \<longleftrightarrow> linked h (xs @ [a]) \<and> linked h (a # ys)"
  by (induction h xs rule: linked.induct) (cases ys; auto)+

lemma linked_path: "linked h (a # xs @ [b]) \<Longrightarrow> path h a xs b"
  by (induction xs arbitrary: a) auto

lemma list_at_forward: "list_at h head xs \<Longrightarrow> forward h head xs"
  by (auto simp: list_at_def forward_def linked_path)

lemma path_append [simp]: "path h a (xs @ x # ys) b \<longleftrightarrow> path h a xs x \<and> path h x ys b"
  by (induction xs arbitrary: a) auto

lemma path_upd [frame_simps]:
  "snd l \<noteq> nextf \<or> fst l \<notin> insert a (set xs) \<Longrightarrow> path (h(l \<mapsto> v)) a xs b \<longleftrightarrow> path h a xs b"
  by (induction xs arbitrary: a) (auto simp: prod_eq_iff)

lemma path_det: "path h a xs b \<Longrightarrow> path h a ys b \<Longrightarrow> b \<notin> set xs \<Longrightarrow> b \<notin> set ys \<Longrightarrow> xs = ys"
proof (induction xs arbitrary: a ys)
  case Nil
  then show ?case by (cases ys) auto
next
  case (Cons x xs)
  then show ?case by (cases ys) auto
qed

lemma forward_unique: "forward h head xs \<Longrightarrow> forward h head ys \<Longrightarrow> xs = ys"
  by (auto simp: forward_def intro: path_det)

text \<open>An update changes the links of no other node.\<close>

lemma linked_upd [frame_simps]:
  assumes "snd l \<noteq> nextf \<or> fst l \<notin> set (butlast xs)" "snd l \<noteq> prevf \<or> fst l \<notin> set (tl xs)"
  shows "linked (h(l \<mapsto> v)) xs \<longleftrightarrow> linked h xs"
  using assms
proof (induction h xs rule: linked.induct)
  case (1 h a b xs)
  have "linked (h(l \<mapsto> v)) (b # xs) \<longleftrightarrow> linked h (b # xs)"
    by (rule 1(1)) (use 1(2,3) in auto)
  moreover have "l \<noteq> (a, nextf)" "l \<noteq> (b, prevf)" using 1(2,3) by auto
  ultimately show ?case by (simp add: fun_upd_other del: fun_upd_apply)
qed auto

subsection \<open>The operations that keep the list\<close>

lemma list_init_correct:
  assumes "head \<noteq> NULL" "h (head, nextf) \<noteq> None" "h (head, prevf) \<noteq> None"
  shows "\<exists>h'. list_init head h = Some h' \<and> list_at h' head [] \<and> agree_off ({head} \<times> {nextf, prevf}) h h'"
  using assms by (auto simp: list_init_def store_def list_at_def intro!: agree_off_upd)

lemma list_empty_correct: "list_at h head xs \<Longrightarrow> list_empty head h = Some (xs = [])"
  by (cases xs) (auto simp: list_at_def list_empty_def load_def)

lemma list_empty_forward: "forward h head xs \<Longrightarrow> list_empty head h = Some (xs = [])"
  by (cases xs) (auto simp: forward_def list_empty_def load_def)

definition free_node :: "heap \<Rightarrow> addr \<Rightarrow> bool" where
  "free_node h e \<longleftrightarrow> e \<noteq> NULL \<and> h (e, nextf) \<noteq> None \<and> h (e, prevf) \<noteq> None"

lemma add_to_empty_correct:
  assumes "list_at h head []" "free_node h e" "e \<noteq> head"
  shows "\<exists>h'. list_add_tail head e h = Some h' \<and> list_at h' head [e] \<and> agree_off ({head, e} \<times> {nextf, prevf}) h h'"
    "list_add_front head e h = list_add_tail head e h"
  using assms(2,3) list_empty_correct [OF assms(1)] assms(1)
  by (auto simp: list_add_tail_def list_add_front_def add_to_empty_def store_def list_at_def free_node_def
      intro!: agree_off_upd)

lemma list_at_neighbours:
  assumes "list_at h head (xs @ a # ys)"
  shows "h (a, prevf) = Some (last (head # xs))" "h (a, nextf) = Some (hd (ys @ [head]))"
proof -
  have *: "linked h ((head # xs) @ [a])" "linked h (a # ys @ [head])"
    using assms linked_append [of h "head # xs" a "ys @ [head]"] by (auto simp: list_at_def)
  obtain us where "head # xs = us @ [last (head # xs)]"
    by (metis append_butlast_last_id list.distinct(1))
  then show "h (a, prevf) = Some (last (head # xs))"
    using *(1) linked_append [of h us "last (head # xs)" "[a]"] by (metis append_Cons append_Nil append_assoc linked.simps(1))
  show "h (a, nextf) = Some (hd (ys @ [head]))"
    using *(2) by (cases ys) auto
qed

lemma list_at_head:
  assumes "list_at h head xs"
  shows "h (head, prevf) = Some (last (head # xs))" "h (head, nextf) = Some (hd (xs @ [head]))" "free_node h head"
proof -
  have l: "linked h (head # xs @ [head])" using assms by (simp add: list_at_def)
  show n: "h (head, nextf) = Some (hd (xs @ [head]))" using l by (cases xs) auto
  show p: "h (head, prevf) = Some (last (head # xs))"
  proof (cases xs rule: rev_cases)
    case (snoc ys y)
    then show ?thesis using l linked_append [of h "head # ys" y "[head]"] by auto
  qed (use l in simp)
  show "free_node h head" using assms n p by (simp add: free_node_def list_at_def)
qed

text \<open>Two entries linked to each other across what lay between them.\<close>

lemma linked_bypass:
  assumes "linked h (us @ [p])" "linked h (n # vs)" "p \<notin> set us" "n \<notin> set vs" "p \<notin> set (butlast (n # vs))" "n \<notin> set (tl (us @ [p]))"
  shows "linked (h((p, nextf) \<mapsto> n, (n, prevf) \<mapsto> p)) (us @ p # n # vs)"
proof -
  let ?h' = "h((p, nextf) \<mapsto> n, (n, prevf) \<mapsto> p)"
  obtain y ys where y: "us @ [p] = y # ys" by (cases us) auto
  have "linked (h((p, nextf) \<mapsto> n)) (us @ [p])"
    using assms(1,3) by (subst linked_upd) simp_all
  then have "linked ?h' (us @ [p])"
    using assms(6) unfolding y by (subst linked_upd) simp_all
  moreover have "linked (h((p, nextf) \<mapsto> n)) (n # vs)"
    using assms(2,5) by (subst linked_upd) (simp_all del: butlast.simps)
  then have "linked ?h' (n # vs)"
    using assms(4) by (subst linked_upd) simp_all
  ultimately show ?thesis
    using linked_append [of ?h' us p "n # vs"] by simp
qed

lemma list_delete_correct:
  assumes "list_at h head (xs @ a # ys)"
  shows "\<exists>h'. list_delete a h = Some h' \<and> list_at h' head (xs @ ys) \<and>
    agree_off (set (head # xs @ ys) \<times> {nextf, prevf}) h h'"
proof -
  define p n where "p = last (head # xs)" and "n = hd (ys @ [head])"
  define us where "us = butlast (head # xs)"
  define vs where "vs = tl (ys @ [head])"
  have pre: "head # xs = us @ [p]" and post: "ys @ [head] = n # vs"
    by (auto simp: p_def us_def n_def vs_def)
  have D: "distinct (head # xs @ a # ys)" "NULL \<notin> set (head # xs @ a # ys)"
      "linked h (head # (xs @ a # ys) @ [head])"
    using assms by (auto simp: list_at_def)
  have whole: "head # (xs @ a # ys) @ [head] = us @ p # a # n # vs"
    using pre post by (metis append_Cons append_assoc append_Nil)
  have cells: "h (p, nextf) = Some a" "h (a, prevf) = Some p" "h (a, nextf) = Some n" "h (n, prevf) = Some a"
    and l1: "linked h (us @ [p])" and l2: "linked h (n # vs)"
    using D(3) linked_append [of h us p "a # n # vs"] unfolding whole by auto
  have mem0: "p \<in> set (head # xs)" "n \<in> set (head # ys)"
    by (auto simp: p_def n_def hd_append)
  then have mem: "p \<in> set (head # xs)" "n \<in> set (head # ys)" "a \<notin> {p, n, NULL}" "p \<noteq> NULL" "n \<noteq> NULL"
    using D(1,2) by auto
  have d: "p \<notin> set us" "n \<notin> set vs" "p \<notin> set ys" "n \<notin> set xs"
    using D(1) arg_cong [OF pre, of distinct] arg_cong [OF post, of distinct] mem(1,2) by auto
  define h' where "h' = h((p, nextf) \<mapsto> n, (n, prevf) \<mapsto> p)"
  have "list_delete a h = Some h'"
    using cells mem by (auto simp: list_delete_def load_def store_def h'_def)
  moreover have "linked h' (us @ p # n # vs)"
    using d arg_cong [OF post, of butlast] arg_cong [OF pre, of tl] unfolding h'_def by (intro linked_bypass [OF l1 l2]) simp_all
  moreover have "us @ p # n # vs = head # (xs @ ys) @ [head]"
    using pre post by (metis append_Cons append_assoc append_Nil)
  moreover have "agree_off (set (head # xs @ ys) \<times> {nextf, prevf}) h h'"
    using cells mem by (auto simp: h'_def intro!: agree_off_upd)
  ultimately show ?thesis
    using D(1,2) \<open>list_delete a h = Some h'\<close> by (auto simp: list_at_def)
qed

subsection \<open>What the other insertions do\<close>

text \<open>
  \<open>list_add_tail\<close> on a list with elements writes the links of the new entry and the
  \<open>next\<close> of \<open>head->prev\<close>, but not \<open>head->prev\<close>: whatever followed \<open>l\<close>, the entry that
  \<open>head->prev\<close> still names, is cut off.
\<close>

lemma list_add_tail_nonempty:
  assumes "forward h head (xs @ l # zs)" "h (head, prevf) = Some l" "l \<noteq> NULL" "l \<notin> set xs"
    "free_node h e" "e \<notin> set (head # xs @ [l])"
  shows "\<exists>h'. list_add_tail head e h = Some h' \<and> forward h' head (xs @ [l, e]) \<and> h' (head, prevf) = Some l \<and>
    agree_off ({l, e} \<times> {nextf, prevf}) h h'"
proof -
  obtain n where n: "h (l, nextf) = Some n" using assms(1) by (cases zs) (auto simp: forward_def)
  define h' where "h' = h((e, prevf) \<mapsto> n, (e, nextf) \<mapsto> head, (l, nextf) \<mapsto> e)"
  have "list_add_tail head e h = Some h'"
    using assms n list_empty_forward [OF assms(1)]
    by (auto simp: list_add_tail_def load_def store_def free_node_def h'_def forward_def)
  moreover have "forward h' head (xs @ [l, e])"
    using assms by (auto simp: forward_def h'_def path_upd)
  moreover have "h' (head, prevf) = Some l" using assms by (auto simp: h'_def)
  moreover have "agree_off ({l, e} \<times> {nextf, prevf}) h h'"
    using assms(5) n by (auto simp: h'_def free_node_def intro!: agree_off_upd)
  ultimately show ?thesis by blast
qed

text \<open>Adding several entries one after the other.\<close>

primrec list_add_tails :: "addr \<Rightarrow> addr list \<Rightarrow> heap \<Rightarrow> heap option" where
  "list_add_tails head [] h = Some h"
| "list_add_tails head (e # es) h = do { h \<leftarrow> list_add_tail head e h; list_add_tails head es h }"

lemma free_node_agree: "agree_off X h h' \<Longrightarrow> free_node h' e \<longleftrightarrow> free_node h e"
  using agree_off_dom [of X h h'] by (auto simp: free_node_def domIff dom_def)

lemma list_add_tails_loses:
  assumes "forward h head (xs @ l # zs)" "h (head, prevf) = Some l" "l \<noteq> NULL" "l \<notin> set xs"
    "\<And>e. e \<in> set es \<Longrightarrow> free_node h e \<and> e \<notin> set (head # xs @ [l])" "es \<noteq> []"
  shows "\<exists>h'. list_add_tails head es h = Some h' \<and> forward h' head (xs @ [l, last es])"
  using assms
proof (induction es arbitrary: h zs)
  case (Cons e es)
  from list_add_tail_nonempty [OF Cons.prems(1-4), of e] Cons.prems(5) obtain h1 where
    1: "list_add_tail head e h = Some h1" "forward h1 head (xs @ [l, e])" "h1 (head, prevf) = Some l"
      "agree_off ({l, e} \<times> {nextf, prevf}) h h1" by auto
  then show ?case
    using Cons.IH [of h1 "[e]"] Cons.prems(3-5) by (cases "es = []") (auto simp: free_node_agree)
qed simp

text \<open>
  The poller calls \<open>list_add_tail(list->prev, entry)\<close>. With elements in the list the
  \<open>head\<close> argument is then the last entry \<open>l\<close>, and the new entry takes the place between
  \<open>l->prev\<close> and \<open>l\<close>; \<open>l->prev\<close> itself is not written, so whatever was between is cut off.
\<close>

definition list_add_tail_prev :: "addr \<Rightarrow> addr \<Rightarrow> heap \<Rightarrow> heap option" where
  "list_add_tail_prev head entry h = do { p \<leftarrow> load (head, prevf) h; list_add_tail p entry h }"

lemma list_add_tail_prev_nonempty:
  assumes "forward h head (xs @ zs @ [l])" "h (head, prevf) = Some l" "h (l, prevf) = Some (last (head # xs))"
    "NULL \<notin> set (xs @ [l])" "l \<notin> set xs" "distinct xs" "free_node h e" "e \<notin> set (head # xs @ [l])"
  shows "\<exists>h'. list_add_tail_prev head e h = Some h' \<and> forward h' head (xs @ [e, l]) \<and> h' (head, prevf) = Some l \<and>
    h' (l, prevf) = Some (last (head # xs)) \<and> agree_off ({last (head # xs), e} \<times> {nextf, prevf}) h h'"
proof -
  define p us where "p = last (head # xs)" and "us = butlast (head # xs)"
  have pus: "head # xs = us @ [p]" by (simp add: p_def us_def)
  have "p \<in> set (head # xs)" unfolding p_def by (rule last_in_set) simp
  then have p: "p \<noteq> NULL" "p \<noteq> l" "p \<noteq> e"
    using assms(1,4,5,8) by (auto simp: forward_def intro!: gr0I)
  obtain n where n: "h (p, nextf) = Some n"
    using assms(1) by (cases xs rule: rev_cases; cases zs) (auto simp: forward_def p_def)
  have hl: "h (l, nextf) = Some head" "head \<noteq> l" "head \<noteq> NULL"
    using assms(1) path_append [of h head "xs @ zs" l "[]" head] by (auto simp: forward_def)
  define h' where "h' = h((e, prevf) \<mapsto> n, (e, nextf) \<mapsto> l, (p, nextf) \<mapsto> e)"
  have "list_add_tail_prev head e h = Some h'"
    using assms(2,3,4,7,8) hl p(1-3) n unfolding p_def [symmetric]
    by (auto simp: list_add_tail_prev_def list_add_tail_def list_empty_def load_def store_def free_node_def h'_def)
  moreover have "forward h' head (xs @ [e, l])"
  proof (cases xs rule: rev_cases)
    case Nil
    then show ?thesis using assms hl by (auto simp: forward_def h'_def p_def path_upd)
  next
    case (snoc ys y)
    then show ?thesis using assms hl by (auto simp: forward_def h'_def p_def path_upd)
  qed
  moreover have "agree_off ({p, e} \<times> {nextf, prevf}) h h'"
    using assms(7) n by (auto simp: h'_def free_node_def intro!: agree_off_upd)
  ultimately show ?thesis
    using assms(2,3,8) unfolding p_def [symmetric] by (auto simp: h'_def)
qed

primrec list_add_tail_prevs :: "addr \<Rightarrow> addr list \<Rightarrow> heap \<Rightarrow> heap option" where
  "list_add_tail_prevs head [] h = Some h"
| "list_add_tail_prevs head (e # es) h = do { h \<leftarrow> list_add_tail_prev head e h; list_add_tail_prevs head es h }"

lemma list_add_tail_prevs_loses:
  assumes "forward h head (zs @ [l])" "h (head, prevf) = Some l" "h (l, prevf) = Some head" "l \<noteq> NULL"
    "\<And>e. e \<in> set es \<Longrightarrow> free_node h e \<and> e \<notin> {head, l}" "es \<noteq> []"
  shows "\<exists>h'. list_add_tail_prevs head es h = Some h' \<and> forward h' head [last es, l] \<and>
    h' (head, prevf) = Some l \<and> h' (l, prevf) = Some head"
  using assms
proof (induction es arbitrary: h zs)
  case (Cons e es)
  from list_add_tail_prev_nonempty [of h head "[]" zs l e] Cons.prems obtain h1 where
    1: "list_add_tail_prev head e h = Some h1" "forward h1 head [e, l]" "h1 (head, prevf) = Some l"
      "h1 (l, prevf) = Some head" "agree_off ({head, e} \<times> {nextf, prevf}) h h1" by auto
  then show ?case
    using Cons.IH [of h1 "[e]"] Cons.prems(4,5) by (cases "es = []") (auto simp: free_node_agree)
qed simp

text \<open>
  \<open>list_add_front\<close> leaves the \<open>prev\<close> of the old first entry at the head: the forward list
  is right, but deleting the old first entry then removes the new one too.
\<close>

lemma list_add_front_nonempty:
  assumes "list_at h head (x # xs)" "free_node h e" "e \<notin> set (head # x # xs)"
  shows "\<exists>h'. list_add_front head e h = Some h' \<and> forward h' head (e # x # xs) \<and>
    (\<exists>h''. list_delete x h' = Some h'' \<and> forward h'' head xs)"
proof -
  from assms(1) have f: "forward h head (x # xs)" by (rule list_at_forward)
  define n where "n = hd (xs @ [head])"
  have x: "h (x, nextf) = Some n" "h (x, prevf) = Some head" "h (n, prevf) = Some x"
    and nz: "x \<noteq> NULL" "head \<noteq> NULL" "n \<noteq> NULL" "x \<noteq> head" "n \<noteq> x" "n \<in> set (head # xs)"
    using assms(1) by (cases xs; auto simp: list_at_def n_def)+
  define h1 where "h1 = h((e, prevf) \<mapsto> head, (e, nextf) \<mapsto> x, (head, nextf) \<mapsto> e)"
  define h2 where "h2 = h1((head, nextf) \<mapsto> n, (n, prevf) \<mapsto> head)"
  have "list_add_front head e h = Some h1"
    using assms(2,3) f nz list_empty_forward [OF f]
    by (auto simp: list_add_front_def load_def store_def free_node_def h1_def forward_def)
  moreover have "forward h1 head (e # x # xs)"
    using assms(3) f by (auto simp: forward_def h1_def path_upd)
  moreover have "list_delete x h1 = Some h2"
    using assms(3) x nz by (auto simp: list_delete_def load_def store_def h1_def h2_def)
  moreover have "forward h2 head xs"
    using assms(1,3) f by (cases xs) (auto simp: forward_def h1_def h2_def n_def path_upd list_at_def)
  ultimately show ?thesis by blast
qed

text \<open>
  \<open>list_add_list\<close> splices the head node of the other list instead of its entries:
  the forward list gains that head node, and none of the entries.
\<close>

lemma list_add_list_forward:
  assumes "list_at h head xs" "free_node h other" "other \<notin> set (head # xs)"
  shows "\<exists>h'. list_add_list head other h = Some h' \<and> forward h' head (xs @ [other]) \<and>
    h' (head, prevf) = h (head, prevf) \<and> agree_off ({last (head # xs), other} \<times> {nextf, prevf}) h h'"
proof -
  define p us where "p = last (head # xs)" and "us = butlast (head # xs)"
  have pus: "head # xs = us @ [p]" by (simp add: p_def us_def)
  have D: "linked h ((us @ [p]) @ [head])" "distinct (us @ [p])" "NULL \<notin> set (us @ [p])"
    using assms(1) unfolding pus [symmetric] by (auto simp: list_at_def)
  then have p: "h (head, prevf) = Some p" "h (p, nextf) = Some head" "p \<noteq> NULL" "head \<noteq> NULL"
    using linked_append [of h us p "[head]"] assms(1) by (auto simp: list_at_def)
  define h' where "h' = h((p, nextf) \<mapsto> other, (other, nextf) \<mapsto> head, (other, prevf) \<mapsto> p)"
  have "list_add_list head other h = Some h'"
    using p assms(2) by (auto simp: list_add_list_def load_def store_def h'_def free_node_def)
  moreover have "forward h' head (xs @ [other])"
  proof (cases xs rule: rev_cases)
    case Nil
    then show ?thesis using assms by (auto simp: forward_def h'_def p_def path_upd list_at_def)
  next
    case (snoc ys y)
    then show ?thesis
      using assms list_at_forward [OF assms(1)] by (auto simp: forward_def h'_def p_def path_upd list_at_def)
  qed
  moreover have "agree_off ({p, other} \<times> {nextf, prevf}) h h'"
    using assms(2) p by (auto simp: h'_def free_node_def intro!: agree_off_upd)
  moreover have "h' (head, prevf) = h (head, prevf)"
    using assms(3) by (auto simp: h'_def)
  ultimately show ?thesis unfolding p_def by blast
qed

subsection \<open>Properties\<close>

text \<open>From the empty list, both ways of appending keep two entries at most.\<close>

lemma list_add_tails_from_empty:
  assumes "list_at h head []" "es \<noteq> []" "distinct (x # es)" "\<And>e. e \<in> set (x # es) \<Longrightarrow> free_node h e \<and> e \<noteq> head"
  shows "\<exists>h'. list_add_tails head (x # es) h = Some h' \<and> forward h' head [x, last es]"
proof -
  from add_to_empty_correct(1) [OF assms(1), of x] assms(4) obtain h1 where
    1: "list_add_tail head x h = Some h1" "list_at h1 head [x]" "agree_off ({head, x} \<times> {nextf, prevf}) h h1" by auto
  have "forward h1 head ([] @ x # [])" "h1 (head, prevf) = Some x" "x \<noteq> NULL"
    using 1(2) list_at_forward [OF 1(2)] by (auto simp: list_at_def)
  from list_add_tails_loses [OF this, of es] 1 assms(2-4) show ?thesis
    by (auto simp: free_node_agree [OF 1(3)])
qed

lemma list_add_tail_prevs_from_empty:
  assumes "list_at h head []" "es \<noteq> []" "distinct (x # es)" "\<And>e. e \<in> set (x # es) \<Longrightarrow> free_node h e \<and> e \<noteq> head"
  shows "\<exists>h'. list_add_tail_prevs head (x # es) h = Some h' \<and> forward h' head [last es, x] \<and>
    h' (head, prevf) = Some x \<and> h' (x, prevf) = Some head"
proof -
  from add_to_empty_correct(1) [OF assms(1), of x] assms(4) obtain h1 where
    1: "list_add_tail head x h = Some h1" "list_at h1 head [x]" "agree_off ({head, x} \<times> {nextf, prevf}) h h1" by auto
  have first: "list_add_tail_prev head x h = Some h1"
    using assms(1) 1(1) by (auto simp: list_add_tail_prev_def list_at_def load_def)
  have "forward h1 head ([] @ [x])" "h1 (head, prevf) = Some x" "h1 (x, prevf) = Some head" "x \<noteq> NULL"
    using 1(2) list_at_forward [OF 1(2)] by (auto simp: list_at_def)
  from list_add_tail_prevs_loses [OF this, of es] first assms(2-4) show ?thesis
    by (auto simp: free_node_agree [OF 1(3)])
qed

text \<open>A heap with an empty list at 1 and four free nodes, for the witnesses.\<close>

definition list_heap :: heap where
  "list_heap = map_of ([((1, nextf), 1), ((1, prevf), 1)] @
     concat (map (\<lambda>a. [((a, nextf), 0), ((a, prevf), 0)]) [2, 3, 4, 5]))"

lemma list_heap_at: "list_at list_heap 1 []" "e \<in> {2, 3, 4, 5} \<Longrightarrow> free_node list_heap e"
  by (auto simp: list_heap_def list_at_def free_node_def)

text \<open>
  \<open>list_delete\<close> takes exactly the given entry out of a circular doubly linked list,
  whatever its position, and writes only links of that list.
\<close>

theorem list_delete_removes:
  assumes "list_at h head (xs @ a # ys)"
  shows "\<exists>h'. list_delete a h = Some h' \<and> list_at h' head (xs @ ys) \<and>
    agree_off (set (head # xs @ ys) \<times> {nextf, prevf}) h h'"
  using assms by (rule list_delete_correct)

theorem list_delete_removes_witness:
  "\<exists>h h'. list_add_tail 1 2 list_heap = Some h \<and> list_at h 1 [2] \<and> list_delete 2 h = Some h' \<and> list_at h' 1 []"
proof -
  from add_to_empty_correct(1) [OF list_heap_at(1) list_heap_at(2) [of 2]] obtain h where
    h: "list_add_tail 1 2 list_heap = Some h" "list_at h 1 [2]" by auto
  with list_delete_removes [of h 1 "[]" 2 "[]"] show ?thesis by auto
qed

text \<open>
  C35: after appending \<open>x, e1, ..., en\<close> (n at least 1) to an empty list with
  \<open>list_add_tail(head, .)\<close>, a traversal sees only \<open>x\<close> and \<open>en\<close>; with
  \<open>list_add_tail(head->prev, .)\<close>, as the poller calls it, it sees \<open>en\<close> and then \<open>x\<close>.
  All other entries are cut off.
\<close>

theorem list_add_tail_keeps_two:
  assumes "list_at h head []" "es \<noteq> []" "distinct (x # es)" "\<forall>e \<in> set (x # es). free_node h e \<and> e \<noteq> head"
  shows "(\<exists>h'. list_add_tails head (x # es) h = Some h' \<and> forward h' head [x, last es]) \<and>
    (\<exists>h'. list_add_tail_prevs head (x # es) h = Some h' \<and> forward h' head [last es, x])"
  using list_add_tails_from_empty [OF assms(1-3)] list_add_tail_prevs_from_empty [OF assms(1-3)] assms(4) by blast

theorem list_add_tail_keeps_two_witness:
  "(\<exists>h'. list_add_tails 1 [2, 3, 4, 5] list_heap = Some h' \<and> forward h' 1 [2, 5]) \<and>
   (\<exists>h'. list_add_tail_prevs 1 [2, 3, 4, 5] list_heap = Some h' \<and> forward h' 1 [5, 2])"
  using list_add_tail_keeps_two [OF list_heap_at(1), of "[3, 4, 5]" 2] list_heap_at(2)
  by (simp del: list_add_tails.simps list_add_tail_prevs.simps)

text \<open>
  \<open>list_add_front\<close> on a list with elements gives the right forward list, but the
  deletion of the old first entry then drops the new entry as well.
\<close>

theorem list_add_front_then_delete:
  assumes "list_at h head (x # xs)" "free_node h e" "e \<notin> set (head # x # xs)"
  shows "\<exists>h'. list_add_front head e h = Some h' \<and> forward h' head (e # x # xs) \<and>
    (\<exists>h''. list_delete x h' = Some h'' \<and> forward h'' head xs)"
  using assms by (rule list_add_front_nonempty)

theorem list_add_front_then_delete_witness:
  "\<exists>h h'. list_add_front 1 2 list_heap = Some h \<and> list_add_front 1 3 h = Some h' \<and> forward h' 1 [3, 2] \<and>
     (\<exists>h''. list_delete 2 h' = Some h'' \<and> forward h'' 1 [])"
proof -
  from add_to_empty_correct [OF list_heap_at(1) list_heap_at(2) [of 2]] obtain h where
    h: "list_add_front 1 2 list_heap = Some h" "list_at h 1 [2]" "agree_off ({1, 2} \<times> {nextf, prevf}) list_heap h" by auto
  moreover have "free_node h 3" using list_heap_at(2) [of 3] free_node_agree [OF h(3)] by simp
  ultimately show ?thesis using list_add_front_then_delete [of h 1 2 "[]" 3] by auto
qed

text \<open>
  \<open>list_add_list(head, other)\<close> appends the head node of the other list to the
  forward list, and none of its entries.
\<close>

theorem list_add_list_splices_head:
  assumes "list_at h head xs" "list_at h other ys" "other \<notin> set (head # xs)"
  shows "\<exists>h'. list_add_list head other h = Some h' \<and> forward h' head (xs @ [other])"
  using list_add_list_forward [OF assms(1) list_at_head(3) [OF assms(2)] assms(3)] by blast

theorem list_add_list_splices_head_witness:
  "\<exists>h h'. list_init 5 list_heap = Some h \<and> list_at h 1 [] \<and> list_at h 5 [] \<and> list_add_list 1 5 h = Some h' \<and> forward h' 1 [5]"
proof -
  from list_init_correct [of 5 list_heap] list_heap_at(2) [of 5] obtain h where
    h: "list_init 5 list_heap = Some h" "list_at h 5 []" "agree_off ({5} \<times> {nextf, prevf}) list_heap h"
    by (auto simp: free_node_def)
  have "list_at h 1 []" using list_heap_at(1) h(3) by (auto simp: list_at_def agree_off_def)
  with list_add_list_splices_head [of h 1 "[]" 5 "[]"] h(1,2) show ?thesis by auto
qed

end
