(* ===== verification/Msgqueue.thy ===== *)
theory Msgqueue
  imports Kernel_List
begin

section \<open>The message queue of msgqueue.cc\<close>

text \<open>
  \<open>src/src/kernel/msgqueue.cc\<close>: a queue of intrusively linked messages with two
  buffers, one for the producers and one for the consumers. A \<open>void **\<close> is the address of
  the cell it points to, a link of a message is the cell at \<open>msg + linkoff\<close>, and
  \<open>head1\<close> and \<open>head2\<close> are the cells at the offsets they have in the struct (two
  \<open>size_t\<close> and two \<open>int\<close> before them). \<open>size_t\<close> is a 64-bit word.

  A thread that reaches a \<open>wait\<close> on a condition variable gives \<open>Blocked\<close>; \<open>None\<close> is
  undefined behaviour. The concurrent runs are in \<open>Msgqueue_Threads\<close>.
\<close>

datatype 'a wait = Ready 'a | Blocked

record msgqueue =
  msg_max :: "64 word"
  msg_cnt :: "64 word"
  linkoff :: int
  nonblock :: bool
  get_head :: addr
  put_head :: addr
  put_tail :: addr

subsection \<open>Operations\<close>

definition head1 :: "addr \<Rightarrow> addr" where "head1 queue = queue + 24"
definition head2 :: "addr \<Rightarrow> addr" where "head2 queue = queue + 32"

definition msgqueue_create :: "addr \<Rightarrow> 64 word \<Rightarrow> int \<Rightarrow> heap \<Rightarrow> (msgqueue \<times> heap) option" where
  "msgqueue_create queue maxlen off h = do {
     h \<leftarrow> store (head1 queue, W0) NULL h;
     h \<leftarrow> store (head2 queue, W0) NULL h;
     Some (\<lparr>msg_max = maxlen, msg_cnt = 0, linkoff = off, nonblock = False,
            get_head = head1 queue, put_head = head2 queue, put_tail = head2 queue\<rparr>, h)
   }"

definition msgqueue_set_nonblock :: "msgqueue \<Rightarrow> msgqueue" where
  "msgqueue_set_nonblock q = q\<lparr>nonblock := True\<rparr>"

definition msg_queue_set_block :: "msgqueue \<Rightarrow> msgqueue" where
  "msg_queue_set_block q = q\<lparr>nonblock := False\<rparr>"

definition link_of :: "msgqueue \<Rightarrow> addr \<Rightarrow> addr" where
  "link_of q msg = nat (int msg + linkoff q)"

definition msg_of :: "msgqueue \<Rightarrow> addr \<Rightarrow> addr" where
  "msg_of q link = nat (int link - linkoff q)"

text \<open>The condition of the loop around \<open>put_cond.wait\<close>, and what follows the loop.\<close>

definition put_waits :: "msgqueue \<Rightarrow> bool" where
  "put_waits q \<longleftrightarrow> msg_cnt q = msg_max q \<and> \<not> nonblock q"

definition put_commit :: "addr \<Rightarrow> msgqueue \<Rightarrow> heap \<Rightarrow> (msgqueue \<times> heap) option" where
  "put_commit link q h = do {
     h \<leftarrow> store (put_tail q, W0) link h;
     Some (q\<lparr>put_tail := link, msg_cnt := msg_cnt q + 1\<rparr>, h)
   }"

definition msg_queue_put :: "addr \<Rightarrow> msgqueue \<Rightarrow> heap \<Rightarrow> (msgqueue \<times> heap) wait option" where
  "msg_queue_put msg q h = do {
     let link = link_of q msg;
     h \<leftarrow> store (link, W0) NULL h;
     if put_waits q then Some Blocked
     else do { s \<leftarrow> put_commit link q h; Some (Ready s) }
   }"

definition swap_waits :: "msgqueue \<Rightarrow> bool" where
  "swap_waits q \<longleftrightarrow> msg_cnt q = 0 \<and> \<not> nonblock q"

text \<open>The notification of the producers, and the exchange of the buffers.\<close>

definition swap_notifies :: "msgqueue \<Rightarrow> bool" where
  "swap_notifies q \<longleftrightarrow> msg_cnt q > msg_max q - 1"

definition swap_buffers :: "msgqueue \<Rightarrow> msgqueue" where
  "swap_buffers q = q\<lparr>get_head := put_head q, put_head := get_head q, put_tail := get_head q, msg_cnt := 0\<rparr>"

definition msgqueue_swap :: "msgqueue \<Rightarrow> (64 word \<times> msgqueue) wait" where
  "msgqueue_swap q = (if swap_waits q then Blocked else Ready (msg_cnt q, swap_buffers q))"

definition take_head :: "msgqueue \<Rightarrow> heap \<Rightarrow> (addr \<times> heap) option" where
  "take_head q h = do {
     g \<leftarrow> load (get_head q, W0) h;
     n \<leftarrow> load (g, W0) h;
     h \<leftarrow> store (get_head q, W0) n h;
     Some (msg_of q g, h)
   }"

definition msgqueue_get :: "msgqueue \<Rightarrow> heap \<Rightarrow> (addr \<times> msgqueue \<times> heap) wait option" where
  "msgqueue_get q h = do {
     g \<leftarrow> load (get_head q, W0) h;
     if g \<noteq> NULL then do { (msg, h) \<leftarrow> take_head q h; Some (Ready (msg, q, h)) }
     else case msgqueue_swap q of
         Blocked \<Rightarrow> Some Blocked
       | Ready (cnt, q) \<Rightarrow>
           if cnt > 0 then do { (msg, h) \<leftarrow> take_head q h; Some (Ready (msg, q, h)) }
           else Some (Ready (NULL, q, h))
   }"

text \<open>
  \<open>std::mutex\<close>, as the thread that runs \<open>msgqueue_put_head\<close> sees \<open>get_mutex\<close>: to
  \<open>try_lock\<close> a mutex one owns, or to \<open>unlock\<close> one that one does not own, is undefined.
\<close>

datatype owner = Free | Me | Other

fun try_lock :: "owner \<Rightarrow> (bool \<times> owner) option" where
  "try_lock Free = Some (True, Me)"
| "try_lock Other = Some (False, Other)"
| "try_lock Me = None"

definition unlock :: "owner \<Rightarrow> owner option" where
  "unlock m = (if m = Me then Some Free else None)"

text \<open>
  The loop \<open>while (*queue->get_head)\<close>. \<open>Some None\<close> is leaving the loop by its condition.
\<close>

partial_function (option) put_head_loop :: "owner \<Rightarrow> addr \<Rightarrow> msgqueue \<Rightarrow> heap \<Rightarrow> heap option option" where
  "put_head_loop m link q h = do {
     g \<leftarrow> load (get_head q, W0) h;
     if g = NULL then Some None
     else do {
       (locked, m) \<leftarrow> try_lock m;
       if \<not> locked then do {
         g \<leftarrow> load (get_head q, W0) h;
         h \<leftarrow> store (link, W0) g h;
         h \<leftarrow> store (get_head q, W0) link h;
         _ \<leftarrow> unlock m;
         Some (Some h)
       } else put_head_loop m link q h
     }
   }"

definition put_head_waits :: "msgqueue \<Rightarrow> bool" where
  "put_head_waits q \<longleftrightarrow> msg_cnt q = msg_max q \<and> nonblock q"

definition msgqueue_put_head :: "owner \<Rightarrow> addr \<Rightarrow> msgqueue \<Rightarrow> heap \<Rightarrow> (msgqueue \<times> heap) wait option" where
  "msgqueue_put_head m msg q h = do {
     let link = link_of q msg;
     r \<leftarrow> put_head_loop m link q h;
     case r of
       Some h \<Rightarrow> Some (Ready (q, h))
     | None \<Rightarrow>
         if put_head_waits q then Some Blocked
         else do {
           p \<leftarrow> load (put_head q, W0) h;
           h \<leftarrow> store (link, W0) p h;
           l \<leftarrow> load (link, W0) h;
           let q = (if l = NULL then q\<lparr>put_tail := link\<rparr> else q);
           h \<leftarrow> store (put_head q, W0) link h;
           Some (Ready (q\<lparr>msg_cnt := msg_cnt q + 1\<rparr>, h))
         }
   }"

subsection \<open>The two chains\<close>

text \<open>
  \<open>gs\<close> are the links in the consumers' buffer, \<open>ps\<close> those in the producers'. All links
  are addresses of the machine, so their number fits the counter.
\<close>

definition mq_at :: "msgqueue \<Rightarrow> heap \<Rightarrow> addr list \<Rightarrow> addr list \<Rightarrow> bool" where
  "mq_at q h gs ps \<longleftrightarrow>
     distinct (get_head q # put_head q # gs @ ps) \<and> NULL \<notin> set (get_head q # put_head q # gs @ ps) \<and>
     path h (get_head q) gs NULL \<and> path h (put_head q) ps NULL \<and>
     put_tail q = last (put_head q # ps) \<and> msg_cnt q = of_nat (length ps) \<and>
     (\<forall>l \<in> set (gs @ ps). l < 2 ^ 64)"

lemma path_upd_tail:
  "path h a ps b \<Longrightarrow> distinct (a # ps) \<Longrightarrow> l \<notin> set (a # ps) \<Longrightarrow> h (l, nextf) = Some b \<Longrightarrow>
   path (h((last (a # ps), nextf) \<mapsto> l)) a (ps @ [l]) b"
proof (induction ps arbitrary: a)
  case (Cons x ps)
  then have "last (x # ps) \<noteq> a" by (metis distinct.simps(2) last_in_set list.distinct(1))
  with Cons show ?case by auto
qed auto

lemma path_last: "path h a xs b \<Longrightarrow> h (last (a # xs), nextf) = Some b"
  by (induction xs arbitrary: a) auto

lemma mq_cnt_small: "mq_at q h gs ps \<Longrightarrow> length ps < 2 ^ 64"
proof -
  assume m: "mq_at q h gs ps"
  then have "set ps \<subseteq> {1..<2 ^ 64}" by (auto simp: mq_at_def Suc_le_eq intro!: gr0I)
  then have "card (set ps) \<le> 2 ^ 64 - 1" using card_mono [of "{1::nat..<2 ^ 64}" "set ps"] by simp
  then show ?thesis using m by (simp add: mq_at_def distinct_card)
qed

lemma of_nat_64_eq_0: "n < 2 ^ 64 \<Longrightarrow> (of_nat n :: 64 word) = 0 \<longleftrightarrow> n = 0"
  by (simp add: word_eq_iff_unsigned unsigned_of_nat take_bit_nat_eq_self flip: unat_eq_zero)

lemma mq_cnt_0: "mq_at q h gs ps \<Longrightarrow> msg_cnt q = 0 \<longleftrightarrow> ps = []"
  using mq_cnt_small [of q h gs ps] of_nat_64_eq_0 [of "length ps"] by (simp add: mq_at_def)

subsection \<open>The operations on the chains\<close>

lemma msgqueue_create_correct:
  assumes "queue \<noteq> NULL" "h (head1 queue, W0) \<noteq> None" "h (head2 queue, W0) \<noteq> None"
  shows "\<exists>q h'. msgqueue_create queue maxlen off h = Some (q, h') \<and> mq_at q h' [] [] \<and> \<not> nonblock q \<and>
    msg_max q = maxlen \<and> linkoff q = off"
  using assms by (auto simp: msgqueue_create_def store_def mq_at_def head1_def head2_def)

definition fresh_link :: "addr \<Rightarrow> msgqueue \<Rightarrow> heap \<Rightarrow> addr list \<Rightarrow> bool" where
  "fresh_link l q h ls \<longleftrightarrow> l \<notin> set (NULL # get_head q # put_head q # ls) \<and> h (l, W0) \<noteq> None \<and> l < 2 ^ 64"

lemma mq_at_frame: "mq_at q h gs ps \<Longrightarrow> l \<notin> set (get_head q # put_head q # gs @ ps) \<Longrightarrow> mq_at q (h((l, W0) \<mapsto> v)) gs ps"
  by (auto simp: mq_at_def path_upd)

lemma put_commit_correct:
  assumes "mq_at q h gs ps" "fresh_link l q h (gs @ ps)" "h (l, W0) = Some NULL"
  shows "\<exists>q' h'. put_commit l q h = Some (q', h') \<and> mq_at q' h' gs (ps @ [l]) \<and>
    q' = q\<lparr>put_tail := l, msg_cnt := msg_cnt q + 1\<rparr> \<and> agree_off ({last (put_head q # ps)} \<times> {W0}) h h'"
proof -
  let ?t = "last (put_head q # ps)"
  define h' where "h' = h((?t, W0) \<mapsto> l)"
  note D = assms(1) [unfolded mq_at_def]
  have t: "?t \<in> set (put_head q # ps)" by (rule last_in_set) simp
  with D have tz: "?t \<noteq> NULL" "?t \<noteq> get_head q" "?t \<notin> set gs" by auto
  have ht: "h (?t, W0) = Some NULL" using D by (blast intro: path_last)
  have "put_commit l q h = Some (q\<lparr>put_tail := l, msg_cnt := msg_cnt q + 1\<rparr>, h')"
    using D ht tz by (simp add: put_commit_def store_def h'_def)
  moreover have "path h' (put_head q) (ps @ [l]) NULL"
    unfolding h'_def using D assms(2,3) by (intro path_upd_tail) (auto simp: fresh_link_def)
  moreover have "path h' (get_head q) gs NULL"
    using D tz by (simp add: h'_def path_upd)
  moreover have "agree_off ({?t} \<times> {W0}) h h'" using ht by (auto simp: h'_def intro!: agree_off_upd)
  ultimately show ?thesis using D assms(2) by (auto simp: mq_at_def fresh_link_def)
qed

lemma take_head_correct:
  assumes "mq_at q h (g # gs) ps"
  shows "\<exists>h'. take_head q h = Some (msg_of q g, h') \<and> mq_at q h' gs ps \<and> agree_off ({get_head q} \<times> {W0}) h h'"
proof -
  note D = assms [unfolded mq_at_def]
  obtain n where n: "h (g, W0) = Some n" using D by (cases gs) auto
  define h' where "h' = h((get_head q, W0) \<mapsto> n)"
  have "take_head q h = Some (msg_of q g, h')"
    using D n by (auto simp: take_head_def load_def store_def h'_def)
  moreover have "path h' (get_head q) gs NULL"
    using D n by (cases gs) (auto simp: h'_def path_upd)
  moreover have "path h' (put_head q) ps NULL" using D by (auto simp: h'_def path_upd)
  moreover have "agree_off ({get_head q} \<times> {W0}) h h'" using D by (auto simp: h'_def intro!: agree_off_upd)
  ultimately show ?thesis using D by (auto simp: mq_at_def)
qed

lemma swap_buffers_correct: "mq_at q h [] ps \<Longrightarrow> mq_at (swap_buffers q) h ps []"
  by (auto simp: mq_at_def swap_buffers_def)

lemma load_get_head: "mq_at q h gs ps \<Longrightarrow> load (get_head q, W0) h = Some (hd (gs @ [NULL]))"
  by (cases gs) (auto simp: mq_at_def load_def)

lemma msg_of_swap [simp]: "msg_of (swap_buffers q) = msg_of q"
  by (simp add: fun_eq_iff msg_of_def swap_buffers_def)

lemma swap_buffers_fields [simp]:
  "linkoff (swap_buffers q) = linkoff q" "nonblock (swap_buffers q) = nonblock q" "msg_max (swap_buffers q) = msg_max q"
  by (simp_all add: swap_buffers_def)

text \<open>The whole of \<open>msgqueue_get\<close>, on every branch.\<close>

lemma msgqueue_get_correct:
  assumes "mq_at q h gs ps"
  shows "case gs @ ps of
      [] \<Rightarrow> msgqueue_get q h = Some (if nonblock q then Ready (NULL, swap_buffers q, h) else Blocked)
    | l # ls \<Rightarrow> \<exists>q' h' gs' ps'. msgqueue_get q h = Some (Ready (msg_of q l, q', h')) \<and> mq_at q' h' gs' ps' \<and> gs' @ ps' = ls \<and>
        linkoff q' = linkoff q \<and> nonblock q' = nonblock q \<and> msg_max q' = msg_max q"
proof (cases gs)
  case (Cons g gs')
  with assms take_head_correct [of q h g gs' ps] load_get_head [OF assms] show ?thesis
    by (fastforce simp: msgqueue_get_def mq_at_def)
next
  case Nil
  note cnt = mq_cnt_0 [OF assms]
  show ?thesis
  proof (cases ps)
    case Nil
    with \<open>gs = []\<close> cnt load_get_head [OF assms] show ?thesis
      by (simp add: msgqueue_get_def msgqueue_swap_def swap_waits_def)
  next
    case (Cons p ps')
    from swap_buffers_correct [of q h ps] assms \<open>gs = []\<close> have "mq_at (swap_buffers q) h (p # ps') []" by (simp add: Cons)
    from take_head_correct [OF this] Cons \<open>gs = []\<close> cnt load_get_head [OF assms] show ?thesis
      by (fastforce simp: msgqueue_get_def msgqueue_swap_def swap_waits_def word_gt_0)
  qed
qed

lemma msg_queue_put_correct:
  assumes "mq_at q h gs ps" "fresh_link (link_of q m) q h (gs @ ps)"
  shows "if put_waits q then msg_queue_put m q h = Some Blocked
    else \<exists>q' h'. msg_queue_put m q h = Some (Ready (q', h')) \<and> mq_at q' h' gs (ps @ [link_of q m]) \<and>
      linkoff q' = linkoff q \<and> nonblock q' = nonblock q \<and> msg_max q' = msg_max q \<and> dom h' = dom h \<and>
      get_head q' = get_head q \<and> put_head q' = put_head q"
proof -
  let ?l = "link_of q m"
  define h1 where "h1 = h((?l, W0) \<mapsto> NULL)"
  have s: "store (?l, W0) NULL h = Some h1" using assms(2) by (auto simp: store_def h1_def fresh_link_def)
  have "mq_at q h1 gs ps" "fresh_link ?l q h1 (gs @ ps)" "h1 (?l, W0) = Some NULL" "dom h1 = dom h"
    using assms mq_at_frame [OF assms(1), of ?l] by (auto simp: fresh_link_def h1_def)
  with put_commit_correct [of q h1 gs ps ?l] s show ?thesis
    by (fastforce simp: msg_queue_put_def dest: agree_off_dom)
qed

subsection \<open>The queue as a client sees it\<close>

text \<open>
  A first-in first-out queue whose operations may block. The laws speak of the sequence
  of messages only; \<open>ok m s\<close> says that \<open>m\<close> may be put, \<open>full s\<close> that a put waits.
\<close>

locale fifo =
  fixes holds :: "'s \<Rightarrow> 'm list \<Rightarrow> bool"
    and ok :: "'m \<Rightarrow> 's \<Rightarrow> bool"
    and full :: "'s \<Rightarrow> bool"
    and put :: "'m \<Rightarrow> 's \<Rightarrow> 's wait option"
    and get :: "'s \<Rightarrow> ('m \<times> 's) wait option"
  assumes put_law: "holds s ms \<Longrightarrow> ok m s \<Longrightarrow> \<not> full s \<Longrightarrow> \<exists>s'. put m s = Some (Ready s') \<and> holds s' (ms @ [m]) \<and>
      (\<forall>m'. ok m' s \<and> m' \<noteq> m \<longrightarrow> ok m' s')"
    and get_law: "holds s (m # ms) \<Longrightarrow> \<exists>s'. get s = Some (Ready (m, s')) \<and> holds s' ms"
begin

text \<open>Puts that never wait, then gets.\<close>

primrec puts :: "'m list \<Rightarrow> 's \<Rightarrow> 's option" where
  "puts [] s = Some s"
| "puts (m # ms) s = do {
     r \<leftarrow> put m s;
     case r of Ready s \<Rightarrow> puts ms s | Blocked \<Rightarrow> None
   }"

primrec gets :: "nat \<Rightarrow> 's \<Rightarrow> ('m list \<times> 's) option" where
  "gets 0 s = Some ([], s)"
| "gets (Suc n) s = do {
     r \<leftarrow> get s;
     case r of
       Ready (m, s) \<Rightarrow> do { (ms, s) \<leftarrow> gets n s; Some (m # ms, s) }
     | Blocked \<Rightarrow> None
   }"

lemma gets_all: "holds s (ms @ ns) \<Longrightarrow> \<exists>s'. gets (length ms) s = Some (ms, s') \<and> holds s' ns"
proof (induction ms arbitrary: s)
  case (Cons m ms)
  from get_law [of s m "ms @ ns"] Cons.prems obtain s1 where 1: "get s = Some (Ready (m, s1))" "holds s1 (ms @ ns)" by auto
  from Cons.IH [OF 1(2)] 1(1) show ?case by auto
qed auto

end

text \<open>The contract with a bound that the client keeps.\<close>

locale bounded_fifo = fifo holds ok full put get
  for holds :: "'s \<Rightarrow> 'm list \<Rightarrow> bool" and ok full put get +
  fixes room :: "'s \<Rightarrow> nat"
  assumes room_full: "room s > 0 \<Longrightarrow> holds s ms \<Longrightarrow> \<not> full s"
    and room_put: "put m s = Some (Ready s') \<Longrightarrow> holds s ms \<Longrightarrow> ok m s \<Longrightarrow> room s \<le> room s' + 1"
begin

lemma puts_all:
  assumes "holds s ms" "distinct ns" "\<And>m. m \<in> set ns \<Longrightarrow> ok m s" "length ns \<le> room s"
  shows "\<exists>s'. puts ns s = Some s' \<and> holds s' (ms @ ns)"
  using assms
proof (induction ns arbitrary: s ms)
  case (Cons n ns)
  then have nf: "\<not> full s" using room_full by simp
  from put_law [OF Cons.prems(1) _ nf, of n] Cons.prems(3) obtain s1 where
    1: "put n s = Some (Ready s1)" "holds s1 (ms @ [n])" "\<And>m. ok m s \<Longrightarrow> m \<noteq> n \<Longrightarrow> ok m s1" by auto
  have "length ns \<le> room s1" using room_put [OF 1(1) Cons.prems(1)] Cons.prems(3,4) by auto
  with Cons.IH [OF 1(2)] 1(1,3) Cons.prems(2,3) show ?case by auto
qed simp

lemma puts_gets:
  assumes "holds s []" "distinct ns" "\<And>m. m \<in> set ns \<Longrightarrow> ok m s" "length ns \<le> room s"
  shows "\<exists>s1 s2. puts ns s = Some s1 \<and> gets (length ns) s1 = Some (ns, s2) \<and> holds s2 []"
  using puts_all [OF assms] gets_all [of _ ns "[]"] by fastforce

end

text \<open>The instance: the state is the queue with its heap, the messages are addresses.\<close>

definition mq_holds :: "msgqueue \<times> heap \<Rightarrow> addr list \<Rightarrow> bool" where
  "mq_holds s ms \<longleftrightarrow> (\<exists>gs ps. mq_at (fst s) (snd s) gs ps \<and> ms = map (msg_of (fst s)) (gs @ ps))"

definition mq_ok :: "addr \<Rightarrow> msgqueue \<times> heap \<Rightarrow> bool" where
  "mq_ok m s \<longleftrightarrow> 0 < int m + linkoff (fst s) \<and>
     (\<exists>gs ps. mq_at (fst s) (snd s) gs ps \<and> fresh_link (link_of (fst s) m) (fst s) (snd s) (gs @ ps))"

definition mq_full :: "msgqueue \<times> heap \<Rightarrow> bool" where
  "mq_full s = put_waits (fst s)"

definition mq_put :: "addr \<Rightarrow> msgqueue \<times> heap \<Rightarrow> (msgqueue \<times> heap) wait option" where
  "mq_put m s = msg_queue_put m (fst s) (snd s)"

definition mq_get :: "msgqueue \<times> heap \<Rightarrow> (addr \<times> msgqueue \<times> heap) wait option" where
  "mq_get s = msgqueue_get (fst s) (snd s)"

text \<open>Room before the counter meets the maximum, for a queue that may block.\<close>

definition mq_room :: "msgqueue \<times> heap \<Rightarrow> nat" where
  "mq_room s = unat (msg_max (fst s)) - unat (msg_cnt (fst s))"

lemma path_unique: "path h a xs NULL \<Longrightarrow> path h a ys NULL \<Longrightarrow> NULL \<notin> set xs \<Longrightarrow> NULL \<notin> set ys \<Longrightarrow> xs = ys"
  by (rule path_det)

lemma mq_at_unique: "mq_at q h gs ps \<Longrightarrow> mq_at q h gs' ps' \<Longrightarrow> gs' = gs \<and> ps' = ps"
  by (auto simp: mq_at_def intro: path_unique)

lemma msg_link: "0 < int m + linkoff q \<Longrightarrow> msg_of q (link_of q m) = m"
  by (simp add: msg_of_def link_of_def)

lemma link_of_inj: "0 < int m + linkoff q \<Longrightarrow> 0 < int m' + linkoff q \<Longrightarrow> link_of q m' = link_of q m \<longleftrightarrow> m' = m"
  by (auto simp: link_of_def)

lemma link_cong: "linkoff q' = linkoff q \<Longrightarrow> msg_of q' = msg_of q \<and> link_of q' = link_of q"
  by (simp add: fun_eq_iff msg_of_def link_of_def)

lemma mq_put_law:
  assumes "mq_holds s ms" "mq_ok m s" "\<not> mq_full s"
  shows "\<exists>s'. mq_put m s = Some (Ready s') \<and> mq_holds s' (ms @ [m]) \<and> (\<forall>m'. mq_ok m' s \<and> m' \<noteq> m \<longrightarrow> mq_ok m' s')"
proof -
  obtain q h where s: "s = (q, h)" by (cases s)
  from assms(1) obtain gs ps where at: "mq_at q h gs ps" and ms: "ms = map (msg_of q) (gs @ ps)"
    by (auto simp: mq_holds_def s)
  have fresh: "fresh_link (link_of q k) q h (gs @ ps)" "0 < int k + linkoff q" if "mq_ok k s" for k
    using that mq_at_unique [OF at] by (auto simp: mq_ok_def s)
  from msg_queue_put_correct [OF at fresh(1) [OF assms(2)]] assms(3) obtain q' h' where
    r: "msg_queue_put m q h = Some (Ready (q', h'))" "mq_at q' h' gs (ps @ [link_of q m])" "linkoff q' = linkoff q"
      "dom h' = dom h" "get_head q' = get_head q" "put_head q' = put_head q"
    by (auto simp: mq_full_def s)
  note lc = link_cong [OF r(3)]
  have "mq_holds (q', h') (ms @ [m])"
    unfolding mq_holds_def using r(2) ms lc msg_link [OF fresh(2) [OF assms(2)]]
    by (intro exI [of _ gs] exI [of _ "ps @ [link_of q m]"]) auto
  moreover have "mq_ok m' (q', h')" if "mq_ok m' s" "m' \<noteq> m" for m'
    unfolding mq_ok_def using fresh [OF that(1)] fresh(2) [OF assms(2)] that(2) r(2-6) lc
    by (intro conjI exI [of _ gs] exI [of _ "ps @ [link_of q m]"]) (auto simp: fresh_link_def link_of_inj)
  ultimately show ?thesis using r(1) by (auto simp: mq_put_def s)
qed

lemma mq_get_law:
  assumes "mq_holds s (m # ms)"
  shows "\<exists>s'. mq_get s = Some (Ready (m, s')) \<and> mq_holds s' ms"
proof -
  obtain q h where s: "s = (q, h)" by (cases s)
  from assms obtain gs ps where at: "mq_at q h gs ps" and ms: "m # ms = map (msg_of q) (gs @ ps)"
    by (auto simp: mq_holds_def s)
  then obtain l ls where "gs @ ps = l # ls" "m = msg_of q l" "ms = map (msg_of q) ls" by (cases "gs @ ps") auto
  with msgqueue_get_correct [OF at] obtain q' h' gs' ps' where
    "msgqueue_get q h = Some (Ready (m, q', h'))" "mq_at q' h' gs' ps'" "ms = map (msg_of q) (gs' @ ps')" "linkoff q' = linkoff q"
    by auto
  with link_cong [of q' q] show ?thesis by (auto simp: mq_get_def s mq_holds_def)
qed

lemma put_commit_cnt: "put_commit l q h = Some (q', h') \<Longrightarrow> msg_cnt q' = msg_cnt q + 1 \<and> msg_max q' = msg_max q"
  by (auto simp: put_commit_def bind_eq_Some_conv)

lemma unat_Suc_le: "unat (w + 1) \<le> unat (w :: 64 word) + 1"
  by (simp add: unat_word_ariths)

interpretation mq: bounded_fifo mq_holds mq_ok mq_full mq_put mq_get mq_room
proof
  fix s ms m s'
  show "mq_holds s ms \<Longrightarrow> mq_ok m s \<Longrightarrow> \<not> mq_full s \<Longrightarrow> \<exists>s'. mq_put m s = Some (Ready s') \<and> mq_holds s' (ms @ [m]) \<and>
      (\<forall>m'. mq_ok m' s \<and> m' \<noteq> m \<longrightarrow> mq_ok m' s')"
    by (rule mq_put_law)
  show "mq_holds s (m # ms) \<Longrightarrow> \<exists>s'. mq_get s = Some (Ready (m, s')) \<and> mq_holds s' ms"
    by (rule mq_get_law)
  show "mq_room s > 0 \<Longrightarrow> mq_holds s ms \<Longrightarrow> \<not> mq_full s"
    by (auto simp: mq_room_def mq_full_def put_waits_def)
  show "mq_put m s = Some (Ready s') \<Longrightarrow> mq_holds s ms \<Longrightarrow> mq_ok m s \<Longrightarrow> mq_room s \<le> mq_room s' + 1"
    using unat_Suc_le [of "msg_cnt (fst s)"]
    by (cases s') (auto simp: mq_put_def msg_queue_put_def Let_def bind_eq_Some_conv mq_room_def dest!: put_commit_cnt split: if_splits)
qed

subsection \<open>Putting at the head\<close>

text \<open>
  With messages in the consumers' buffer, the loop of \<open>msgqueue_put_head\<close> is undefined
  whoever owns \<open>get_mutex\<close>: if it is free, the first \<open>try_lock\<close> takes it and the second
  round locks it again; if another thread has it, the branch unlocks it.
\<close>

lemma put_head_loop_undefined:
  assumes "mq_at q h (g # gs) ps" "m \<in> {Free, Other}"
  shows "put_head_loop m l q h = None"
proof -
  have g: "load (get_head q, W0) h = Some g" "g \<noteq> NULL" using assms(1) by (auto simp: mq_at_def load_def)
  have me: "put_head_loop Me l q h = None" by (subst put_head_loop.simps) (simp add: g)
  show ?thesis
    using assms(2) by (subst put_head_loop.simps) (auto simp: g me unlock_def bind_eq_None_conv)
qed

lemma put_head_loop_skip: "mq_at q h [] ps \<Longrightarrow> put_head_loop m l q h = Some None"
  by (subst put_head_loop.simps) (simp add: load_get_head)

lemma msgqueue_put_head_correct:
  assumes "mq_at q h [] ps" "fresh_link (link_of q m) q h ps" "\<not> put_head_waits q"
  shows "\<exists>q' h'. msgqueue_put_head ow m q h = Some (Ready (q', h')) \<and> mq_at q' h' [] (link_of q m # ps)"
proof -
  note D = assms(1) [unfolded mq_at_def]
  let ?l = "link_of q m"
  obtain p where p: "h (put_head q, W0) = Some p" "p = NULL \<longleftrightarrow> ps = []" using D by (cases ps) auto
  define q1 where "q1 = (if p = NULL then q\<lparr>put_tail := ?l\<rparr> else q)\<lparr>msg_cnt := msg_cnt q + 1\<rparr>"
  define h1 where "h1 = h((?l, W0) \<mapsto> p, (put_head q, W0) \<mapsto> ?l)"
  have "msgqueue_put_head ow m q h = Some (Ready (q1, h1))"
    using assms(2,3) D p(1) put_head_loop_skip [OF assms(1)]
    by (auto simp: msgqueue_put_head_def Let_def load_def store_def fresh_link_def q1_def h1_def)
  moreover have "path h1 (put_head q) (?l # ps) NULL"
    using D assms(2) p by (cases ps) (auto simp: h1_def fresh_link_def path_upd)
  moreover have "path h1 (get_head q) [] NULL" using D assms(2) by (auto simp: h1_def fresh_link_def)
  ultimately show ?thesis using D assms(2) p(2) by (auto simp: mq_at_def fresh_link_def q1_def)
qed

end
