(* ===== verification/Msgqueue_Threads.thy ===== *)
theory Msgqueue_Threads
  imports Msgqueue
begin

section \<open>Producers and consumers running at once\<close>

text \<open>
  The operations of the message queue as the atomic sections their mutexes make of them,
  and any interleaving of any number of threads over these sections. A thread's
  position is its program counter; a message it is about to put travels with it.
  Waiting threads may also wake up without a notification.

  \<open>put_log\<close> and \<open>got_log\<close> record the messages in the order in which they were linked
  into the queue and returned from it; the code has no such variables.
\<close>

datatype pc =
    Idle
  | PutLock addr  \<comment> \<open>link initialised, before the loop around \<open>put_cond.wait\<close>\<close>
  | PutWait addr  \<comment> \<open>in \<open>put_cond.wait\<close>\<close>
  | PutNotify     \<comment> \<open>after the critical section, before \<open>get_cond.notify_one\<close>\<close>
  | GetStart      \<comment> \<open>\<open>get_mutex\<close> taken, before the test of \<open>*get_head\<close>\<close>
  | GetSwap       \<comment> \<open>in \<open>__msgqueue_swap\<close>, before the loop around \<open>get_cond.wait\<close>\<close>
  | GetWait       \<comment> \<open>in \<open>get_cond.wait\<close>\<close>
  | GetTake       \<comment> \<open>buffers exchanged, before the first message is unlinked\<close>
  | NbNotify      \<comment> \<open>\<open>nonblock\<close> set, before the notifications of \<open>msgqueue_set_nonblock\<close>\<close>

record sys =
  que :: msgqueue
  mem :: heap
  pcs :: "nat \<Rightarrow> pc"
  put_log :: "addr list"
  got_log :: "addr list"

fun pending :: "pc \<Rightarrow> addr option" where
  "pending (PutLock m) = Some m"
| "pending (PutWait m) = Some m"
| "pending _ = None"

definition has_get_mutex :: "pc \<Rightarrow> bool" where
  "has_get_mutex p \<longleftrightarrow> p \<in> {GetStart, GetSwap, GetWait, GetTake}"

definition wake_putter :: "pc \<Rightarrow> pc" where
  "wake_putter p = (case p of PutWait m \<Rightarrow> PutLock m | _ \<Rightarrow> p)"

text \<open>Only the thread with \<open>get_mutex\<close> can be in \<open>get_cond.wait\<close>: waking one wakes all.\<close>

definition wake_getter :: "pc \<Rightarrow> pc" where
  "wake_getter p = (if p = GetWait then GetSwap else p)"

text \<open>A message may be put when its link is memory of its own, in no queue and in no put.\<close>

definition may_put :: "addr \<Rightarrow> sys \<Rightarrow> bool" where
  "may_put m s \<longleftrightarrow> 0 < int m + linkoff (que s) \<and> (\<forall>t. pending (pcs s t) \<noteq> Some m) \<and>
     fresh_link (link_of (que s) m) (que s) (mem s) (map (link_of (que s)) (drop (length (got_log s)) (put_log s)))"

inductive mq_step :: "sys \<Rightarrow> sys \<Rightarrow> bool" where
  put_start: "pcs s t = Idle \<Longrightarrow> may_put m s \<Longrightarrow> store (link_of (que s) m, W0) NULL (mem s) = Some h \<Longrightarrow>
     mq_step s (s\<lparr>mem := h, pcs := (pcs s)(t := PutLock m)\<rparr>)"
| put_block: "pcs s t = PutLock m \<Longrightarrow> put_waits (que s) \<Longrightarrow> mq_step s (s\<lparr>pcs := (pcs s)(t := PutWait m)\<rparr>)"
| put_link: "pcs s t = PutLock m \<Longrightarrow> \<not> put_waits (que s) \<Longrightarrow>
     put_commit (link_of (que s) m) (que s) (mem s) = Some (q, h) \<Longrightarrow>
     mq_step s (s\<lparr>que := q, mem := h, pcs := (pcs s)(t := PutNotify), put_log := put_log s @ [m]\<rparr>)"
| put_notify: "pcs s t = PutNotify \<Longrightarrow> mq_step s (s\<lparr>pcs := (wake_getter \<circ> pcs s)(t := Idle)\<rparr>)"
| get_start: "pcs s t = Idle \<Longrightarrow> \<forall>t'. \<not> has_get_mutex (pcs s t') \<Longrightarrow> mq_step s (s\<lparr>pcs := (pcs s)(t := GetStart)\<rparr>)"
| get_empty: "pcs s t = GetStart \<Longrightarrow> load (get_head (que s), W0) (mem s) = Some NULL \<Longrightarrow>
     mq_step s (s\<lparr>pcs := (pcs s)(t := GetSwap)\<rparr>)"
| get_first: "pcs s t = GetStart \<Longrightarrow> load (get_head (que s), W0) (mem s) = Some g \<Longrightarrow> g \<noteq> NULL \<Longrightarrow>
     take_head (que s) (mem s) = Some (m, h) \<Longrightarrow>
     mq_step s (s\<lparr>mem := h, pcs := (pcs s)(t := Idle), got_log := got_log s @ [m]\<rparr>)"
| swap_block: "pcs s t = GetSwap \<Longrightarrow> msgqueue_swap (que s) = Blocked \<Longrightarrow> mq_step s (s\<lparr>pcs := (pcs s)(t := GetWait)\<rparr>)"
| swap: "pcs s t = GetSwap \<Longrightarrow> msgqueue_swap (que s) = Ready (cnt, q) \<Longrightarrow>
     mq_step s (s\<lparr>que := q, pcs := ((if swap_notifies (que s) then wake_putter else id) \<circ> pcs s)
       (t := if cnt > 0 then GetTake else Idle)\<rparr>)"
| get_take: "pcs s t = GetTake \<Longrightarrow> take_head (que s) (mem s) = Some (m, h) \<Longrightarrow>
     mq_step s (s\<lparr>mem := h, pcs := (pcs s)(t := Idle), got_log := got_log s @ [m]\<rparr>)"
| set_nonblock: "pcs s t = Idle \<Longrightarrow> mq_step s (s\<lparr>que := msgqueue_set_nonblock (que s), pcs := (pcs s)(t := NbNotify)\<rparr>)"
| nonblock_notify: "pcs s t = NbNotify \<Longrightarrow> mq_step s (s\<lparr>pcs := (wake_putter \<circ> wake_getter \<circ> pcs s)(t := Idle)\<rparr>)"
| set_block: "pcs s t = Idle \<Longrightarrow> mq_step s (s\<lparr>que := msg_queue_set_block (que s)\<rparr>)"
| spurious: "mq_step s (s\<lparr>pcs := (pcs s)(t := wake_putter (wake_getter (pcs s t)))\<rparr>)"

definition mq_initial :: "sys \<Rightarrow> bool" where
  "mq_initial s \<longleftrightarrow> mq_at (que s) (mem s) [] [] \<and> (\<forall>t. pcs s t = Idle) \<and> put_log s = [] \<and> got_log s = []"

inductive mq_run :: "sys \<Rightarrow> bool" where
  run_init: "mq_initial s \<Longrightarrow> mq_run s"
| run_step: "mq_run s \<Longrightarrow> mq_step s s' \<Longrightarrow> mq_run s'"

subsection \<open>The invariant\<close>

text \<open>What is in the queue, and that it is what was put and not yet returned.\<close>

definition queue_inv :: "sys \<Rightarrow> addr list \<Rightarrow> addr list \<Rightarrow> bool" where
  "queue_inv s gs ps \<longleftrightarrow> mq_at (que s) (mem s) gs ps \<and> put_log s = got_log s @ map (msg_of (que s)) (gs @ ps) \<and>
     (\<forall>l \<in> set (gs @ ps). link_of (que s) (msg_of (que s) l) = l)"

text \<open>The messages on their way in.\<close>

definition pending_inv :: "sys \<Rightarrow> addr list \<Rightarrow> bool" where
  "pending_inv s ls \<longleftrightarrow>
     (\<forall>t m. pending (pcs s t) = Some m \<longrightarrow> 0 < int m + linkoff (que s) \<and>
        fresh_link (link_of (que s) m) (que s) (mem s) ls \<and> mem s (link_of (que s) m, W0) = Some NULL) \<and>
     (\<forall>t t' m. pending (pcs s t) = Some m \<and> pending (pcs s t') = Some m \<longrightarrow> t = t')"

definition getter_inv :: "sys \<Rightarrow> addr list \<Rightarrow> bool" where
  "getter_inv s gs \<longleftrightarrow>
     (\<forall>t t'. has_get_mutex (pcs s t) \<and> has_get_mutex (pcs s t') \<longrightarrow> t = t') \<and>
     (\<forall>t. pcs s t = GetTake \<longrightarrow> gs \<noteq> []) \<and> (\<forall>t. pcs s t \<in> {GetSwap, GetWait} \<longrightarrow> gs = [])"

text \<open>A waiting thread waits for something that is still so, or is about to be notified.\<close>

definition wakeup_inv :: "sys \<Rightarrow> bool" where
  "wakeup_inv s \<longleftrightarrow>
     (\<forall>t m. pcs s t = PutWait m \<longrightarrow> put_waits (que s) \<or> (\<exists>u. pcs s u = NbNotify)) \<and>
     (\<forall>t. pcs s t = GetWait \<longrightarrow> swap_waits (que s) \<or> (\<exists>u. pcs s u \<in> {NbNotify, PutNotify}))"

definition mq_inv :: "sys \<Rightarrow> bool" where
  "mq_inv s \<longleftrightarrow> (\<exists>gs ps. queue_inv s gs ps \<and> pending_inv s (gs @ ps) \<and> getter_inv s gs) \<and> wakeup_inv s"

lemma wake_simps [simp]:
  "pending (wake_putter p) = pending p" "pending (wake_getter p) = pending p"
  "has_get_mutex (wake_putter p) = has_get_mutex p" "has_get_mutex (wake_getter p) = has_get_mutex p"
  "wake_putter p \<noteq> PutWait m" "wake_getter p \<noteq> GetWait"
  "wake_putter p = GetWait \<longleftrightarrow> p = GetWait" "wake_getter p = PutWait m \<longleftrightarrow> p = PutWait m"
  "wake_putter p = GetTake \<longleftrightarrow> p = GetTake" "wake_getter p = GetTake \<longleftrightarrow> p = GetTake"
  "wake_putter p = GetSwap \<longleftrightarrow> p = GetSwap" "wake_getter p = GetSwap \<longleftrightarrow> p \<in> {GetSwap, GetWait}"
  "wake_putter p = NbNotify \<longleftrightarrow> p = NbNotify" "wake_getter p = NbNotify \<longleftrightarrow> p = NbNotify"
  "wake_putter p = PutNotify \<longleftrightarrow> p = PutNotify" "wake_getter p = PutNotify \<longleftrightarrow> p = PutNotify"
  by (auto simp: wake_putter_def wake_getter_def has_get_mutex_def split: pc.splits)

lemma has_get_mutex_simps [simp]:
  "has_get_mutex Idle = False" "has_get_mutex (PutLock m) = False" "has_get_mutex (PutWait m) = False"
  "has_get_mutex PutNotify = False" "has_get_mutex GetStart" "has_get_mutex GetSwap" "has_get_mutex GetWait"
  "has_get_mutex GetTake" "has_get_mutex NbNotify = False"
  by (simp_all add: has_get_mutex_def)

text \<open>Steps that change neither the memory nor the buffers.\<close>

lemma nonblock_irrelevant [simp]:
  "link_of (q\<lparr>nonblock := b\<rparr>) = link_of q" "msg_of (q\<lparr>nonblock := b\<rparr>) = msg_of q"
  "fresh_link l (q\<lparr>nonblock := b\<rparr>) h ls = fresh_link l q h ls" "mq_at (q\<lparr>nonblock := b\<rparr>) h gs ps = mq_at q h gs ps"
  by (auto simp: fun_eq_iff link_of_def msg_of_def fresh_link_def mq_at_def)

lemma queue_inv_same:
  "queue_inv s gs ps \<Longrightarrow> mem s' = mem s \<Longrightarrow> que s' = que s\<lparr>nonblock := b\<rparr> \<Longrightarrow> put_log s' = put_log s \<Longrightarrow> got_log s' = got_log s \<Longrightarrow>
   queue_inv s' gs ps"
  by (auto simp: queue_inv_def mq_at_def msg_of_def link_of_def)

lemma pending_inv_same:
  "pending_inv s ls \<Longrightarrow> mem s' = mem s \<Longrightarrow> que s' = que s\<lparr>nonblock := b\<rparr> \<Longrightarrow>
   (\<And>t m. pending (pcs s' t) = Some m \<Longrightarrow> pending (pcs s t) = Some m) \<Longrightarrow> pending_inv s' ls"
  unfolding pending_inv_def by (simp add: nonblock_irrelevant) blast

lemma put_start_inv:
  assumes "queue_inv s gs ps" "pending_inv s (gs @ ps)" "may_put m s" "store (link_of (que s) m, W0) NULL (mem s) = Some h"
    "pcs s t = Idle"
  shows "queue_inv (s\<lparr>mem := h, pcs := (pcs s)(t := PutLock m)\<rparr>) gs ps \<and>
    pending_inv (s\<lparr>mem := h, pcs := (pcs s)(t := PutLock m)\<rparr>) (gs @ ps)"
proof -
  let ?q = "que s" and ?l = "link_of (que s) m"
  have "map (link_of ?q) (drop (length (got_log s)) (put_log s)) = gs @ ps"
    using assms(1) by (auto simp: queue_inv_def intro!: map_idI)
  then have fresh: "fresh_link ?l ?q (mem s) (gs @ ps)" and m: "0 < int m + linkoff ?q" "\<And>t. pending (pcs s t) \<noteq> Some m"
    using assms(3) by (auto simp: may_put_def)
  have h: "h = (mem s)((?l, W0) \<mapsto> NULL)" using store_eq_SomeD [OF assms(4)] by simp
  have "mq_at ?q h gs ps" using mq_at_frame [of ?q "mem s" gs ps ?l] fresh assms(1) by (auto simp: h queue_inv_def fresh_link_def)
  moreover have "link_of ?q m' = ?l \<longleftrightarrow> m' = m" if "0 < int m' + linkoff ?q" for m'
    using that m(1) by (simp add: link_of_inj)
  ultimately show ?thesis
    using assms(1,2) fresh m by (auto simp: queue_inv_def pending_inv_def h fresh_link_def split: if_splits)
qed

lemma put_link_inv:
  assumes "queue_inv s gs ps" "pending_inv s (gs @ ps)" "pcs s t = PutLock m"
    "put_commit (link_of (que s) m) (que s) (mem s) = Some (q, h)"
  shows "queue_inv (s\<lparr>que := q, mem := h, pcs := (pcs s)(t := PutNotify), put_log := put_log s @ [m]\<rparr>) gs (ps @ [link_of (que s) m]) \<and>
    pending_inv (s\<lparr>que := q, mem := h, pcs := (pcs s)(t := PutNotify), put_log := put_log s @ [m]\<rparr>) (gs @ ps @ [link_of (que s) m])"
proof -
  let ?q = "que s" and ?l = "link_of (que s) m"
  from assms(2,3) have m: "0 < int m + linkoff ?q" and fresh: "fresh_link ?l ?q (mem s) (gs @ ps)" and "mem s (?l, W0) = Some NULL"
    and other: "\<And>t' m'. t' \<noteq> t \<Longrightarrow> pending (pcs s t') = Some m' \<Longrightarrow> m' \<noteq> m"
    unfolding pending_inv_def by (metis pending.simps(1))+
  with put_commit_correct [of ?q "mem s" gs ps ?l] assms(1,4) have
    at: "mq_at q h gs (ps @ [?l])" and q: "q = ?q\<lparr>put_tail := ?l, msg_cnt := msg_cnt ?q + 1\<rparr>"
      and ag: "agree_off ({last (put_head ?q # ps)} \<times> {W0}) (mem s) h"
    by (auto simp: queue_inv_def)
  have q_off: "linkoff q = linkoff ?q" by (simp add: q)
  from link_cong [OF this] have lc: "link_of q = link_of ?q" "msg_of q = msg_of ?q" by simp_all
  have "queue_inv (s\<lparr>que := q, mem := h, pcs := (pcs s)(t := PutNotify), put_log := put_log s @ [m]\<rparr>) gs (ps @ [?l])"
    using assms(1) at m by (auto simp: queue_inv_def lc msg_link)
  moreover have "h (link_of ?q m', W0) = Some NULL \<and> fresh_link (link_of ?q m') q h (gs @ ps @ [?l])"
    if "pending (pcs s t') = Some m'" "t' \<noteq> t" for t' m'
  proof -
    from that assms(2) have p: "0 < int m' + linkoff ?q" "fresh_link (link_of ?q m') ?q (mem s) (gs @ ps)"
      "mem s (link_of ?q m', W0) = Some NULL" by (auto simp: pending_inv_def)
    have "last (put_head ?q # ps) \<in> set (put_head ?q # ps)" by (rule last_in_set) simp
    with p(2) have "link_of ?q m' \<noteq> last (put_head ?q # ps)" by (auto simp: fresh_link_def)
    then have "h (link_of ?q m', W0) = Some NULL" using agree_offD [OF ag, of "(link_of ?q m', W0)"] p(3) by auto
    with p other [OF that(2,1)] m show ?thesis by (auto simp: fresh_link_def q link_of_inj)
  qed
  then have "pending_inv (s\<lparr>que := q, mem := h, pcs := (pcs s)(t := PutNotify), put_log := put_log s @ [m]\<rparr>) (gs @ ps @ [?l])"
    using assms(2) q_off by (auto simp: pending_inv_def lc split: if_splits)
  ultimately show ?thesis by blast
qed

lemma take_inv:
  assumes "queue_inv s (g # gs) ps" "pending_inv s (g # gs @ ps)" "take_head (que s) (mem s) = Some (m, h)"
    "pending (pcs s t) = None"
  shows "queue_inv (s\<lparr>mem := h, pcs := (pcs s)(t := Idle), got_log := got_log s @ [m]\<rparr>) gs ps \<and>
    pending_inv (s\<lparr>mem := h, pcs := (pcs s)(t := Idle), got_log := got_log s @ [m]\<rparr>) (gs @ ps)"
proof -
  let ?q = "que s"
  from take_head_correct [of ?q "mem s" g gs ps] assms(1,3) have at: "mq_at ?q h gs ps" and m: "m = msg_of ?q g"
    and ag: "agree_off ({get_head ?q} \<times> {W0}) (mem s) h" by (auto simp: queue_inv_def)
  have "h (l, W0) = mem s (l, W0)" if "l \<noteq> get_head ?q" for l
    using agree_offD [OF ag, of "(l, W0)"] that by auto
  then have "fresh_link l ?q h (gs @ ps)" "h (l, W0) = mem s (l, W0)" if "fresh_link l ?q (mem s) (g # gs @ ps)" for l
    using that by (auto simp: fresh_link_def)
  then show ?thesis
    using assms(1,2) at by (auto simp: queue_inv_def pending_inv_def m split: if_splits)
qed

lemma swap_inv:
  assumes "queue_inv s [] ps" "pending_inv s ps" "pcs s t = GetSwap"
    and "\<And>u. pending (f u) = pending (pcs s u)" "pending p = None"
  shows "queue_inv (s\<lparr>que := swap_buffers (que s), pcs := f(t := p)\<rparr>) ps [] \<and>
    pending_inv (s\<lparr>que := swap_buffers (que s), pcs := f(t := p)\<rparr>) ps"
proof -
  have lc: "link_of (swap_buffers (que s)) = link_of (que s)" using link_cong [of "swap_buffers (que s)" "que s"] by simp
  have fl: "fresh_link l (swap_buffers (que s)) h ls = fresh_link l (que s) h ls" for l h ls
    by (auto simp: fresh_link_def swap_buffers_def)
  show ?thesis
    using assms swap_buffers_correct [of "que s" "mem s" ps]
    by (auto simp: queue_inv_def pending_inv_def lc fl split: if_splits)
qed

text \<open>The waiting threads across the steps that change the queue.\<close>

lemma wakeup_swap:
  assumes "wakeup_inv s" "getter_inv s gs" "pcs s t = GetSwap" "\<not> swap_waits (que s)" "p \<in> {GetTake, Idle}"
  shows "wakeup_inv (s\<lparr>que := swap_buffers (que s),
    pcs := ((if swap_notifies (que s) then wake_putter else id) \<circ> pcs s)(t := p)\<rparr>)"
proof -
  have one: "u = t" if "pcs s u = GetWait" for u
  proof -
    from that assms(3) have "has_get_mutex (pcs s u)" "has_get_mutex (pcs s t)" by simp_all
    with assms(2) show ?thesis by (auto simp: getter_inv_def)
  qed
  have put: "put_waits (swap_buffers (que s))" if "\<not> swap_notifies (que s)" "put_waits (que s)"
  proof -
    from that have "\<not> msg_max (que s) > msg_max (que s) - 1" by (simp add: swap_notifies_def put_waits_def)
    then have "msg_max (que s) = 0" using word_pred_less [of "msg_max (que s)"] by blast
    with that(2) show ?thesis by (simp add: put_waits_def swap_buffers_def)
  qed
  define f where "f = ((if swap_notifies (que s) then wake_putter else id) \<circ> pcs s)(t := p)"
  have f: "f u = PutWait m \<Longrightarrow> \<not> swap_notifies (que s) \<and> pcs s u = PutWait m"
      "f u = GetWait \<Longrightarrow> u \<noteq> t \<and> pcs s u = GetWait" "pcs s u = NbNotify \<Longrightarrow> f u = NbNotify" for u m
    using assms(3,5) by (auto simp: f_def split: if_splits)
  have "put_waits (swap_buffers (que s)) \<or> (\<exists>v. f v = NbNotify)" if "f u = PutWait m" for u m
    using f(1) [OF that] f(3) put assms(1) unfolding wakeup_inv_def by blast
  moreover have False if "f u = GetWait" for u
    using f(2) [OF that] one by blast
  ultimately show ?thesis
    unfolding wakeup_inv_def f_def [symmetric] by auto
qed

lemma wakeup_put_link:
  assumes "wakeup_inv s" "pcs s t = PutLock m" "\<not> put_waits (que s)"
  shows "wakeup_inv (s\<lparr>que := q, mem := h, pcs := (pcs s)(t := PutNotify), put_log := l\<rparr>)"
proof -
  let ?f = "(pcs s)(t := PutNotify)"
  have "\<exists>v. ?f v = NbNotify" if "?f u = PutWait m'" for u m'
  proof -
    from that have "pcs s u = PutWait m'" by (auto split: if_splits)
    with assms(1,3) obtain v where "pcs s v = NbNotify" unfolding wakeup_inv_def by blast
    with assms(2) have "?f v = NbNotify" by auto
    then show ?thesis ..
  qed
  moreover have "?f t = PutNotify" by simp
  ultimately show ?thesis unfolding wakeup_inv_def by fastforce
qed

text \<open>Steps of one thread that starts no wait and ends no notification.\<close>

lemma wakeup_local:
  assumes "wakeup_inv s" "que s' = que s" "pcs s' = (pcs s)(t := p)" "pcs s t \<notin> {PutNotify, NbNotify}"
    "\<And>m. p = PutWait m \<Longrightarrow> put_waits (que s)" "p = GetWait \<Longrightarrow> swap_waits (que s)"
  shows "wakeup_inv s'"
proof -
  have keep: "pcs s u \<in> {NbNotify, PutNotify} \<Longrightarrow> pcs s' u = pcs s u" for u using assms(3,4) by auto
  have "put_waits (que s) \<or> (\<exists>v. pcs s' v = NbNotify)" if "pcs s' u = PutWait m" for u m
    using that assms(1,3,5) keep unfolding wakeup_inv_def by (metis fun_upd_apply insertCI)
  moreover have "swap_waits (que s) \<or> (\<exists>v. pcs s' v \<in> {NbNotify, PutNotify})" if "pcs s' u = GetWait" for u
    using that assms(1,3,6) keep unfolding wakeup_inv_def by (metis fun_upd_apply)
  ultimately show ?thesis unfolding wakeup_inv_def assms(2) by blast
qed

lemma mq_invI:
  "queue_inv s gs ps \<Longrightarrow> pending_inv s (gs @ ps) \<Longrightarrow> getter_inv s gs \<Longrightarrow> wakeup_inv s \<Longrightarrow> mq_inv s"
  by (auto simp: mq_inv_def)

text \<open>Steps that move threads but keep the queue.\<close>

lemma mq_inv_pcs:
  assumes "mq_inv s" "que s' = que s\<lparr>nonblock := b\<rparr>" "mem s' = mem s" "put_log s' = put_log s" "got_log s' = got_log s"
    "\<And>t m. pending (pcs s' t) = Some m \<Longrightarrow> pending (pcs s t) = Some m" "wakeup_inv s'"
    "\<And>gs ps. queue_inv s gs ps \<Longrightarrow> getter_inv s gs \<Longrightarrow> getter_inv s' gs"
  shows "mq_inv s'"
proof -
  from assms(1) obtain gs ps where "queue_inv s gs ps" "pending_inv s (gs @ ps)" "getter_inv s gs"
    by (auto simp: mq_inv_def)
  then show ?thesis
    by (intro mq_invI [of s' gs ps] queue_inv_same [of s gs ps s' b] pending_inv_same [of s "gs @ ps" s' b] assms)
qed

lemma getter_inv_pcs:
  "getter_inv s gs \<Longrightarrow> (\<And>t. has_get_mutex (pcs s' t) \<Longrightarrow> has_get_mutex (pcs s t)) \<Longrightarrow>
   (\<And>t. pcs s' t = GetTake \<Longrightarrow> gs \<noteq> []) \<Longrightarrow> (\<And>t. pcs s' t \<in> {GetSwap, GetWait} \<Longrightarrow> gs = []) \<Longrightarrow> getter_inv s' gs"
  unfolding getter_inv_def by blast

lemma getter_inv_sub:
  "getter_inv s gs \<Longrightarrow> (\<And>t. has_get_mutex (pcs s' t) \<Longrightarrow> has_get_mutex (pcs s t)) \<Longrightarrow>
   (\<And>t. pcs s' t = GetTake \<Longrightarrow> pcs s t = GetTake) \<Longrightarrow>
   (\<And>t. pcs s' t \<in> {GetSwap, GetWait} \<Longrightarrow> pcs s t \<in> {GetSwap, GetWait}) \<Longrightarrow> getter_inv s' gs"
  unfolding getter_inv_def by blast

lemma mq_inv_move:
  assumes "mq_inv s" "s' = s\<lparr>pcs := (pcs s)(t := p)\<rparr>" "pcs s t \<notin> {PutNotify, NbNotify}"
    "\<And>m. p = PutWait m \<Longrightarrow> put_waits (que s)" "p = GetWait \<Longrightarrow> swap_waits (que s)"
    "pending p = None \<or> pending p = pending (pcs s t)" 
    "\<And>gs ps. queue_inv s gs ps \<Longrightarrow> getter_inv s gs \<Longrightarrow> getter_inv s' gs"
  shows "mq_inv s'"
proof (rule mq_inv_pcs [where s = s and b = "nonblock (que s)"])
  show "wakeup_inv s'" using assms(1-5) by (intro wakeup_local [of s s' t p]) (auto simp: mq_inv_def)
qed (use assms in \<open>auto split: if_splits\<close>)

lemma queue_inv_gs: "queue_inv s gs ps \<Longrightarrow> load (get_head (que s), W0) (mem s) = Some g \<Longrightarrow> (gs = [] \<longleftrightarrow> g = NULL)"
  using load_get_head [of "que s" "mem s" gs ps] by (cases gs) (auto simp: queue_inv_def mq_at_def)

text \<open>The steps that notify.\<close>

lemma mq_inv_notify:
  assumes "mq_inv s" "pcs s t = PutNotify \<or> pcs s t = NbNotify"
    "f = (if pcs s t = PutNotify then wake_getter else wake_putter \<circ> wake_getter)"
  shows "mq_inv (s\<lparr>pcs := (f \<circ> pcs s)(t := Idle)\<rparr>)"
proof (rule mq_inv_pcs [where s = s and b = "nonblock (que s)"])
  have nb: "((f \<circ> pcs s)(t := Idle)) u = NbNotify" if "pcs s u = NbNotify" "pcs s t = PutNotify" for u
    using that assms(3) by auto
  have "put_waits (que s) \<or> (\<exists>v. ((f \<circ> pcs s)(t := Idle)) v = NbNotify)" if "((f \<circ> pcs s)(t := Idle)) u = PutWait m" for u m
  proof -
    from that assms(3) have "pcs s t = PutNotify" "pcs s u = PutWait m" using assms(2) by (auto split: if_splits)
    with assms(1) nb show ?thesis unfolding mq_inv_def wakeup_inv_def by blast
  qed
  moreover have "((f \<circ> pcs s)(t := Idle)) u \<noteq> GetWait" for u using assms(3) by auto
  ultimately show "wakeup_inv (s\<lparr>pcs := (f \<circ> pcs s)(t := Idle)\<rparr>)" by (simp add: wakeup_inv_def)
  fix gs ps
  assume "getter_inv s gs"
  then show "getter_inv (s\<lparr>pcs := (f \<circ> pcs s)(t := Idle)\<rparr>) gs"
    by (rule getter_inv_sub) (auto simp: assms(3) split: if_splits)
qed (use assms(1,3) in \<open>auto split: if_splits\<close>)

lemma getter_inv_take:
  assumes "getter_inv s gs" "has_get_mutex (pcs s t)" "\<not> has_get_mutex p"
  shows "getter_inv (s\<lparr>mem := h, pcs := (pcs s)(t := p), got_log := l\<rparr>) gs'"
proof -
  have "\<not> has_get_mutex (((pcs s)(t := p)) u)" for u using assms by (auto simp: getter_inv_def)
  then show ?thesis unfolding getter_inv_def has_get_mutex_def by auto
qed

lemma mq_inv_take:
  assumes "mq_inv s" "pcs s t \<in> {GetStart, GetTake}" "take_head (que s) (mem s) = Some (m, h)"
    "\<And>gs ps. queue_inv s gs ps \<Longrightarrow> getter_inv s gs \<Longrightarrow> gs \<noteq> []"
  shows "mq_inv (s\<lparr>mem := h, pcs := (pcs s)(t := Idle), got_log := got_log s @ [m]\<rparr>)"
proof -
  from assms(1) obtain gs' ps where 1: "queue_inv s gs' ps" "pending_inv s (gs' @ ps)" "getter_inv s gs'" "wakeup_inv s"
    by (auto simp: mq_inv_def)
  with assms(4) obtain g gs where g: "gs' = g # gs" by (cases gs') auto
  let ?s = "s\<lparr>mem := h, pcs := (pcs s)(t := Idle), got_log := got_log s @ [m]\<rparr>"
  have "queue_inv ?s gs ps \<and> pending_inv ?s (gs @ ps)"
    using 1(1,2) assms(2,3) by (intro take_inv [of s g]) (auto simp: g)
  moreover have "getter_inv ?s gs" using assms(2) by (intro getter_inv_take [OF 1(3)]) auto
  moreover have "wakeup_inv ?s" using assms(2) by (intro wakeup_local [OF 1(4), of _ t Idle]) auto
  ultimately show ?thesis by (blast intro: mq_invI)
qed

lemma mq_invE:
  assumes "mq_inv s"
  obtains gs ps where "queue_inv s gs ps" "pending_inv s (gs @ ps)" "getter_inv s gs" "wakeup_inv s"
  using assms by (auto simp: mq_inv_def)

lemma mq_inv_spurious:
  assumes "mq_inv s"
  shows "mq_inv (s\<lparr>pcs := (pcs s)(t := wake_putter (wake_getter (pcs s t)))\<rparr>)"
proof (cases "wake_putter (wake_getter (pcs s t)) = pcs s t")
  case True
  with assms show ?thesis by simp
next
  case False
  let ?s = "s\<lparr>pcs := (pcs s)(t := wake_putter (wake_getter (pcs s t)))\<rparr>"
  from assms False show ?thesis
    by (intro mq_inv_move [of s ?s t]) (auto elim!: getter_inv_pcs simp: getter_inv_def wake_putter_def wake_getter_def split: if_splits pc.splits)
qed

lemma mq_inv_put_start:
  assumes "mq_inv s" "pcs s t = Idle" "may_put m s" "store (link_of (que s) m, W0) NULL (mem s) = Some h"
  shows "mq_inv (s\<lparr>mem := h, pcs := (pcs s)(t := PutLock m)\<rparr>)"
proof -
  let ?s = "s\<lparr>mem := h, pcs := (pcs s)(t := PutLock m)\<rparr>"
  from assms(1) obtain gs ps where "queue_inv s gs ps" "pending_inv s (gs @ ps)" "getter_inv s gs" "wakeup_inv s" by (rule mq_invE)
  then show ?thesis using assms(2-4) put_start_inv [of s gs ps m h t]
    by (intro mq_invI [of ?s gs ps] wakeup_local [of s ?s t]) (auto elim!: getter_inv_pcs simp: getter_inv_def split: if_splits)
qed

lemma mq_inv_put_link:
  assumes "mq_inv s" "pcs s t = PutLock m" "\<not> put_waits (que s)" "put_commit (link_of (que s) m) (que s) (mem s) = Some (q, h)"
  shows "mq_inv (s\<lparr>que := q, mem := h, pcs := (pcs s)(t := PutNotify), put_log := put_log s @ [m]\<rparr>)"
proof -
  from assms(1) obtain gs ps where "queue_inv s gs ps" "pending_inv s (gs @ ps)" "getter_inv s gs" "wakeup_inv s" by (rule mq_invE)
  with assms(2-4) put_link_inv [of s gs ps t m q h] wakeup_put_link [of s t m] show ?thesis
    by (intro mq_invI [of _ gs "ps @ [link_of (que s) m]"]) (auto simp: getter_inv_def split: if_splits)
qed

lemma mq_inv_swap:
  assumes "mq_inv s" "pcs s t = GetSwap" "msgqueue_swap (que s) = Ready (cnt, q)"
  shows "mq_inv (s\<lparr>que := q, pcs := ((if swap_notifies (que s) then wake_putter else id) \<circ> pcs s)(t := if cnt > 0 then GetTake else Idle)\<rparr>)"
proof -
  from assms(1) obtain gs ps where 1: "queue_inv s gs ps" "pending_inv s (gs @ ps)" "getter_inv s gs" "wakeup_inv s" by (rule mq_invE)
  let ?p = "if cnt > 0 then GetTake else Idle"
  let ?f = "(if swap_notifies (que s) then wake_putter else id) \<circ> pcs s"
  from assms(3) have q: "q = swap_buffers (que s)" "cnt = msg_cnt (que s)" "\<not> swap_waits (que s)"
    by (auto simp: msgqueue_swap_def split: if_splits)
  from 1(3) assms(2) have gs: "gs = []" by (auto simp: getter_inv_def)
  have g: "getter_inv (s\<lparr>que := q, pcs := ?f(t := ?p)\<rparr>) ps"
    using 1(1,3) assms(2) q(2) mq_cnt_0 [of "que s" "mem s" gs ps] by (auto simp: getter_inv_def queue_inv_def word_gt_0 split: if_splits)
  show ?thesis
    using swap_inv [of s ps t ?f ?p] wakeup_swap [OF 1(4,3), of t ?p] 1 assms(2) q gs g
    by (intro mq_invI [of _ ps "[]"]) auto
qed

lemma mq_step_inv:
  assumes "mq_step s s'" "mq_inv s"
  shows "mq_inv s'"
  using assms(1)
proof cases
  case (put_block t m)
  with assms(2) show ?thesis by (intro mq_inv_move [of s s' t]) (auto intro: getter_inv_pcs simp: getter_inv_def)
next
  case (get_start t)
  with assms(2) show ?thesis by (intro mq_inv_move [of s s' t]) (auto simp: getter_inv_def)
next
  case (get_empty t)
  with assms(2) show ?thesis by (intro mq_inv_move [of s s' t]) (auto simp: getter_inv_def dest!: queue_inv_gs split: if_splits)
next
  case (swap_block t)
  with assms(2) show ?thesis by (intro mq_inv_move [of s s' t]) (auto simp: getter_inv_def msgqueue_swap_def split: if_splits)
next
  case (put_notify t)
  with mq_inv_notify [OF assms(2), of t wake_getter] show ?thesis by simp
next
  case (nonblock_notify t)
  with mq_inv_notify [OF assms(2), of t "wake_putter \<circ> wake_getter"] show ?thesis by (simp add: comp_assoc)
next
  case (set_nonblock t)
  with assms(2) show ?thesis
    by (intro mq_inv_pcs [of s s' True]) (auto simp: msgqueue_set_nonblock_def getter_inv_def wakeup_inv_def split: if_splits)
next
  case (set_block t)
  with assms(2) show ?thesis
    by (intro mq_inv_pcs [of s s' False])
      (auto simp: msg_queue_set_block_def getter_inv_def wakeup_inv_def mq_inv_def put_waits_def swap_waits_def)
next
  case (get_first t g m h)
  with mq_inv_take [OF assms(2), of t m h] queue_inv_gs [of s _ _ g] show ?thesis by blast
next
  case (get_take t m h)
  with mq_inv_take [OF assms(2), of t m h] show ?thesis by (auto simp: getter_inv_def)
qed (use assms(2) mq_inv_spurious mq_inv_put_start mq_inv_put_link mq_inv_swap in auto)

lemma mq_run_inv: "mq_run s \<Longrightarrow> mq_inv s"
proof (induction rule: mq_run.induct)
  case (run_init s)
  then show ?case
    by (intro mq_invI [of s "[]" "[]"])
      (auto simp: mq_initial_def queue_inv_def pending_inv_def getter_inv_def wakeup_inv_def)
qed (rule mq_step_inv)

subsection \<open>Properties\<close>

text \<open>A queue with room for two messages and the cells of two messages, for the witnesses.\<close>

definition sample_mem :: heap where
  "sample_mem = map_of [((34, W0), 0), ((42, W0), 0), ((100, W0), 7), ((108, W0), 7)]"

definition sample_que :: msgqueue where
  "sample_que = \<lparr>msg_max = 2, msg_cnt = 0, linkoff = 0, nonblock = False, get_head = 34, put_head = 42, put_tail = 42\<rparr>"

definition sample_sys :: sys where
  "sample_sys = \<lparr>que = sample_que, mem = sample_mem, pcs = (\<lambda>_. Idle), put_log = [], got_log = []\<rparr>"

lemma sample_at: "mq_at sample_que sample_mem [] []"
  by (simp add: mq_at_def sample_que_def sample_mem_def)

lemma sample_create: "msgqueue_create 10 2 0 sample_mem = Some (sample_que, sample_mem)"
  by (auto simp: msgqueue_create_def store_def head1_def head2_def sample_mem_def sample_que_def fun_eq_iff)

lemma sample_initial: "mq_run sample_sys"
  by (rule run_init) (simp add: mq_initial_def sample_sys_def sample_at)

lemma sample_link: "link_of sample_que m = m"
  by (simp add: link_of_def sample_que_def)

text \<open>One put, up to its notification.\<close>

lemma sample_run: "\<exists>s. mq_run s \<and> put_log s = [100] \<and> got_log s = [] \<and> pcs s 0 = PutNotify"
proof -
  let ?h = "sample_mem((100, W0) \<mapsto> NULL)"
  let ?s1 = "sample_sys\<lparr>mem := ?h, pcs := (pcs sample_sys)(0 := PutLock 100)\<rparr>"
  have "may_put 100 sample_sys"
    by (simp add: may_put_def sample_sys_def sample_link fresh_link_def) (simp add: sample_que_def sample_mem_def)
  then have "mq_step sample_sys ?s1"
    by (rule put_start [rotated]) (simp_all add: sample_sys_def sample_link store_def sample_mem_def)
  with sample_initial have 1: "mq_run ?s1" by (rule run_step)
  have "\<exists>q h. put_commit (link_of (que ?s1) 100) (que ?s1) (mem ?s1) = Some (q, h)"
    by (simp add: put_commit_def sample_sys_def store_def sample_que_def sample_mem_def)
  then obtain q h where "put_commit (link_of (que ?s1) 100) (que ?s1) (mem ?s1) = Some (q, h)" by blast
  then have "mq_step ?s1 (?s1\<lparr>que := q, mem := h, pcs := (pcs ?s1)(0 := PutNotify), put_log := put_log ?s1 @ [100]\<rparr>)"
    by (intro put_link) (simp_all add: sample_sys_def put_waits_def sample_que_def)
  with 1 have "mq_run (?s1\<lparr>que := q, mem := h, pcs := (pcs ?s1)(0 := PutNotify), put_log := put_log ?s1 @ [100]\<rparr>)"
    by (rule run_step)
  then show ?thesis by (intro exI conjI, assumption) (simp_all add: sample_sys_def)
qed

text \<open>
  C4: in every interleaving of any number of producers and consumers, the messages
  returned so far are a prefix of the messages linked in so far, in the same order, and
  the rest of them is exactly what the two buffers hold: nothing is lost, duplicated or
  overtaken.
\<close>

theorem msgqueue_fifo_under_threads:
  assumes "mq_run s"
  shows "\<exists>gs ps. mq_at (que s) (mem s) gs ps \<and> put_log s = got_log s @ map (msg_of (que s)) (gs @ ps)"
  using mq_run_inv [OF assms] by (auto simp: mq_inv_def queue_inv_def)

theorem msgqueue_fifo_under_threads_witness:
  "\<exists>s gs ps. mq_run s \<and> put_log s = [100] \<and> mq_at (que s) (mem s) gs ps \<and> map (msg_of (que s)) (gs @ ps) = [100]"
proof -
  from sample_run obtain s where s: "mq_run s" "put_log s = [100]" "got_log s = []" by blast
  with msgqueue_fifo_under_threads [OF s(1)] show ?thesis by fastforce
qed

text \<open>
  C16: no wake-up is lost, in any interleaving: a producer that waits does so while the
  queue is still full (and blocking), a consumer that waits does so while it is still
  empty, unless a thread is on its way to the notification.
\<close>

theorem msgqueue_no_lost_wakeup:
  assumes "mq_run s"
  shows "(pcs s t = PutWait m \<longrightarrow> put_waits (que s) \<or> (\<exists>u. pcs s u = NbNotify)) \<and>
    (pcs s t = GetWait \<longrightarrow> swap_waits (que s) \<or> (\<exists>u. pcs s u \<in> {NbNotify, PutNotify}))"
  using mq_run_inv [OF assms] unfolding mq_inv_def wakeup_inv_def by blast

theorem msgqueue_no_lost_wakeup_witness:
  "\<exists>s. mq_run s \<and> pcs s 1 = GetWait \<and> swap_waits (que s)"
proof -
  let ?s1 = "sample_sys\<lparr>pcs := (pcs sample_sys)(1 := GetStart)\<rparr>"
  let ?s2 = "?s1\<lparr>pcs := (pcs ?s1)(1 := GetSwap)\<rparr>"
  let ?s3 = "?s2\<lparr>pcs := (pcs ?s2)(1 := GetWait)\<rparr>"
  have "mq_step sample_sys ?s1" by (rule get_start) (simp_all add: sample_sys_def)
  moreover have "mq_step ?s1 ?s2" by (rule get_empty) (simp_all add: sample_sys_def load_def sample_que_def sample_mem_def)
  moreover have "mq_step ?s2 ?s3"
    by (rule swap_block) (simp_all add: sample_sys_def msgqueue_swap_def swap_waits_def sample_que_def)
  ultimately have "mq_run ?s3" using sample_initial by (blast intro: run_step)
  moreover from this have "swap_waits (que ?s3)"
    using msgqueue_no_lost_wakeup [of ?s3 1] by (auto simp: sample_sys_def split: if_splits)
  ultimately show ?thesis by (intro exI [of _ ?s3]) simp
qed

text \<open>
  C30: \<open>msgqueue_get\<close> on every branch: with messages queued it returns the oldest one; on
  an empty queue it waits, or returns \<open>NULL\<close> in non-blocking mode.
\<close>

theorem msgqueue_get_returns_oldest:
  assumes "mq_at q h gs ps"
  shows "case gs @ ps of
      [] \<Rightarrow> msgqueue_get q h = Some (if nonblock q then Ready (NULL, swap_buffers q, h) else Blocked)
    | l # ls \<Rightarrow> \<exists>q' h' gs' ps'. msgqueue_get q h = Some (Ready (msg_of q l, q', h')) \<and> mq_at q' h' gs' ps' \<and> gs' @ ps' = ls"
  using msgqueue_get_correct [OF assms] by (auto split: list.splits)

theorem msgqueue_get_returns_oldest_witness: "msgqueue_get sample_que sample_mem = Some Blocked"
  using msgqueue_get_returns_oldest [OF sample_at] by (simp add: sample_que_def)

text \<open>
  A client that puts distinct messages into an empty queue with room for them gets
  the same messages back in the same order, and no put waits.
\<close>

theorem msgqueue_put_get_roundtrip:
  assumes "mq_holds s []" "distinct ms" "\<forall>m \<in> set ms. mq_ok m s" "length ms \<le> mq_room s"
  shows "\<exists>s1 s2. mq.puts ms s = Some s1 \<and> mq.gets (length ms) s1 = Some (ms, s2) \<and> mq_holds s2 []"
  using assms by (intro mq.puts_gets) auto

theorem msgqueue_put_get_roundtrip_witness:
  "\<exists>s1 s2. mq.puts [108, 100] (sample_que, sample_mem) = Some s1 \<and> mq.gets 2 s1 = Some ([108, 100], s2)"
proof -
  have h: "mq_holds (sample_que, sample_mem) []" unfolding mq_holds_def using sample_at by force
  have "fresh_link m sample_que sample_mem []" if "m \<in> {100, 108}" for m
    using that by (auto simp: fresh_link_def sample_que_def sample_mem_def)
  then have "mq_ok m (sample_que, sample_mem)" if "m \<in> {100, 108}" for m
    unfolding mq_ok_def using that sample_at sample_link by (force simp: sample_que_def)
  moreover have "mq_room (sample_que, sample_mem) = 2" by (simp add: mq_room_def sample_que_def)
  ultimately show ?thesis
    using msgqueue_put_get_roundtrip [OF h, of "[108, 100]"] by (simp add: numeral_2_eq_2 del: mq.puts.simps mq.gets.simps) blast
qed



end
