(* ===== verification/Thrdpool.thy ===== *)
theory Thrdpool
  imports Msgqueue_Threads
begin

section \<open>The thread pool of thrdpool.cc\<close>

text \<open>
  \<open>src/src/kernel/thrdpool.cc\<close>: worker threads that take task entries from a message
  queue. The results of \<open>malloc\<close>, \<open>pthread_attr_init\<close> and \<open>pthread_create\<close> are
  arguments; thread ids are numbers, 0 the zero id of \<open>__zero_tid\<close>. A task entry is the
  address of its \<open>link\<close>, the queue's message with offset 0; what is in the entry is the map
  \<open>entries\<close>. \<open>Blocked\<close> is a wait on a condition variable.
\<close>

datatype routine = Thrdpool_exit_routine | User nat

type_synonym task = "routine \<times> nat"

record thrdpool =
  msgq :: msgqueue
  nthreads :: "64 word"
  stacksize :: "64 word"
  tid :: nat
  stop :: bool

subsection \<open>Operations\<close>

text \<open>
  \<open>__thrdpool_exit_routine\<close>: the pool, whether \<open>terminate\<close> is notified, and the thread
  that is joined, if there is one.
\<close>

definition thrdpool_exit_routine :: "nat \<Rightarrow> thrdpool \<Rightarrow> thrdpool \<times> bool \<times> nat option" where
  "thrdpool_exit_routine self p =
     (let t = tid p; p = p\<lparr>tid := self, nthreads := nthreads p - 1\<rparr>
      in (p, nthreads p = 0 \<and> stop p, if t \<noteq> 0 then Some t else None))"

text \<open>
  One round of the loop of \<open>__thrdpool_routine\<close>: leave the loop for the exit routine, wait
  for a task, or run the task of the entry.
\<close>

datatype round = Exit_pool | Run_task task

definition routine_round :: "(addr \<Rightarrow> task) \<Rightarrow> thrdpool \<Rightarrow> heap \<Rightarrow> (round \<times> thrdpool \<times> heap) wait option" where
  "routine_round entries p h =
     (if stop p then Some (Ready (Exit_pool, p, h))
      else do {
        r \<leftarrow> msgqueue_get (msgq p) h;
        case r of
          Blocked \<Rightarrow> Some Blocked
        | Ready (entry, q, h) \<Rightarrow>
            if entry = NULL then Some (Ready (Exit_pool, p\<lparr>msgq := q\<rparr>, h))
            else Some (Ready (Run_task (entries entry), p\<lparr>msgq := q\<rparr>, h))
      })"

text \<open>After the task: \<open>nthreads == 0\<close> frees the pool and ends the thread.\<close>

definition after_task :: "thrdpool \<Rightarrow> bool" where
  "after_task p \<longleftrightarrow> nthreads p = 0"

text \<open>\<open>__thrdpool_terminate\<close>, up to its loop, and the whole of it with the thread it joins.\<close>

definition terminate_mark :: "bool \<Rightarrow> thrdpool \<Rightarrow> thrdpool" where
  "terminate_mark in_pool p = p\<lparr>msgq := msgqueue_set_nonblock (msgq p), stop := True,
     nthreads := if in_pool then nthreads p - 1 else nthreads p\<rparr>"

definition terminate_waits :: "thrdpool \<Rightarrow> bool" where
  "terminate_waits p \<longleftrightarrow> nthreads p > 0"

definition thrdpool_terminate :: "bool \<Rightarrow> thrdpool \<Rightarrow> (thrdpool \<times> nat option) wait" where
  "thrdpool_terminate in_pool p =
     (let p = terminate_mark in_pool p
      in if terminate_waits p then Blocked
         else Ready (p, if tid p \<noteq> 0 then Some (tid p) else None))"

text \<open>
  The loop of \<open>__thrdpool_create_threads\<close>: \<open>spawn k\<close> is the result of the \<open>k\<close>-th call of
  \<open>pthread_create\<close>. The result is \<open>ret\<close>, the number of threads created, and the pool.
\<close>

lemma word_Suc_bound: "w < n \<Longrightarrow> unat n - unat (w + 1) < unat n - unat (w :: 64 word)"
proof -
  assume "w < n"
  then have "unat (w + 1) = unat w + 1" "unat w < unat n"
    using unat_less_64 [of n] by (auto simp: word_less_nat_alt unat_word_ariths)
  then show ?thesis by simp
qed

function create_loop :: "64 word \<Rightarrow> (nat \<Rightarrow> int) \<Rightarrow> nat \<Rightarrow> int \<Rightarrow> thrdpool \<Rightarrow> int \<times> nat \<times> thrdpool" where
  "create_loop n spawn k ret p =
     (if nthreads p < n then
        (if spawn k = 0 then create_loop n spawn (Suc k) 0 (p\<lparr>nthreads := nthreads p + 1\<rparr>)
         else (spawn k, k, p))
      else (ret, k, p))"
  by auto
termination
  by (relation "measure (\<lambda>(n, spawn, k, ret, p). unat n - unat (nthreads p))") (auto simp: word_Suc_bound)

declare create_loop.simps [simp del]

definition thrdpool_create_threads ::
  "int \<Rightarrow> (nat \<Rightarrow> int) \<Rightarrow> 64 word \<Rightarrow> thrdpool \<Rightarrow> (int \<times> nat \<times> thrdpool) wait" where
  "thrdpool_create_threads attr spawn n p =
     (if attr = 0 then
        (case create_loop n spawn 0 attr p of
           (ret, k, p) \<Rightarrow>
             if nthreads p = n then Ready (0, k, p)
             else (case thrdpool_terminate False p of
                     Blocked \<Rightarrow> Blocked
                   | Ready (p, _) \<Rightarrow> Ready (-1, k, p)))
      else Ready (-1, 0, p))"

text \<open>
  \<open>thrdpool_create\<close>: \<open>pool_mem\<close> is whether the pool was allocated and \<open>queue\<close> the
  address of the allocated queue. The pool comes with the number of threads created.
\<close>

definition thrdpool_create ::
  "bool \<Rightarrow> addr \<Rightarrow> int \<Rightarrow> (nat \<Rightarrow> int) \<Rightarrow> 64 word \<Rightarrow> 64 word \<Rightarrow> heap \<Rightarrow> ((thrdpool \<times> nat) option \<times> heap) wait option" where
  "thrdpool_create pool_mem queue attr spawn n stack h =
     (if \<not> pool_mem then Some (Ready (None, h))
      else if queue = NULL then Some (Ready (None, h))
      else do {
        (q, h) \<leftarrow> msgqueue_create queue 0 0 h;
        let p = \<lparr>msgq = q, nthreads = n, stacksize = stack, tid = 0, stop = False\<rparr>;
        case thrdpool_create_threads attr spawn n p of
          Blocked \<Rightarrow> Some Blocked
        | Ready (ret, k, p) \<Rightarrow> Some (Ready (if ret \<ge> 0 then Some (p, k) else None, h))
      })"

text \<open>\<open>thrdpool_schedule\<close> into an allocated entry \<open>buf\<close>; without one it fails.\<close>

definition thrdpool_schedule ::
  "task \<Rightarrow> addr \<Rightarrow> (addr \<Rightarrow> task) \<Rightarrow> thrdpool \<Rightarrow> heap \<Rightarrow> (int \<times> (addr \<Rightarrow> task) \<times> thrdpool \<times> heap) wait option" where
  "thrdpool_schedule task buf entries p h =
     (if buf = NULL then Some (Ready (-1, entries, p, h))
      else do {
        let entries = entries(buf := task);
        r \<leftarrow> msg_queue_put buf (msgq p) h;
        case r of
          Blocked \<Rightarrow> Some Blocked
        | Ready (q, h) \<Rightarrow> Some (Ready (0, entries, p\<lparr>msgq := q\<rparr>, h))
      })"

definition thrdpool_increase :: "int \<Rightarrow> int \<Rightarrow> thrdpool \<Rightarrow> int \<times> thrdpool" where
  "thrdpool_increase attr spawned p =
     (if attr = 0 \<and> spawned = 0 then (0, p\<lparr>nthreads := nthreads p + 1\<rparr>) else (-1, p))"

definition thrdpool_decrease ::
  "owner \<Rightarrow> nat \<Rightarrow> addr \<Rightarrow> (addr \<Rightarrow> task) \<Rightarrow> thrdpool \<Rightarrow> heap \<Rightarrow> (int \<times> (addr \<Rightarrow> task) \<times> thrdpool \<times> heap) wait option" where
  "thrdpool_decrease m self buf entries p h =
     (if buf = NULL then Some (Ready (-1, entries, p, h))
      else do {
        let entries = entries(buf := (Thrdpool_exit_routine, self));
        r \<leftarrow> msgqueue_put_head m buf (msgq p) h;
        case r of
          Blocked \<Rightarrow> Some Blocked
        | Ready (q, h) \<Rightarrow> Some (Ready (0, entries, p\<lparr>msgq := q\<rparr>, h))
      })"

definition thrdpool_in_pool :: "nat \<Rightarrow> nat \<Rightarrow> bool" where
  "thrdpool_in_pool parent_thrdpool pool \<longleftrightarrow> parent_thrdpool = pool"

definition thrdpool_exit :: "nat \<Rightarrow> nat \<Rightarrow> nat \<Rightarrow> thrdpool \<Rightarrow> (thrdpool \<times> bool \<times> nat option) option" where
  "thrdpool_exit parent pool self p =
     (if thrdpool_in_pool parent pool then Some (thrdpool_exit_routine self p) else None)"

text \<open>
  The loop of \<open>thrdpool_destroy\<close>: the tasks that \<open>pending\<close> is called with, in order;
  \<open>has_pending\<close> is whether that function pointer is not null.
\<close>

partial_function (option) destroy_loop ::
  "bool \<Rightarrow> (addr \<Rightarrow> task) \<Rightarrow> msgqueue \<Rightarrow> heap \<Rightarrow> (task list \<times> msgqueue \<times> heap) wait option" where
  "destroy_loop has_pending entries q h = do {
     r \<leftarrow> msgqueue_get q h;
     case r of
       Blocked \<Rightarrow> Some Blocked
     | Ready (entry, q, h) \<Rightarrow>
         if entry = NULL then Some (Ready ([], q, h))
         else do {
           r \<leftarrow> destroy_loop has_pending entries q h;
           case r of
             Blocked \<Rightarrow> Some Blocked
           | Ready (ts, q, h) \<Rightarrow>
               Some (Ready (if has_pending \<and> fst (entries entry) \<noteq> Thrdpool_exit_routine then entries entry # ts else ts, q, h))
         }
   }"

definition thrdpool_destroy ::
  "bool \<Rightarrow> bool \<Rightarrow> (addr \<Rightarrow> task) \<Rightarrow> thrdpool \<Rightarrow> heap \<Rightarrow> (task list \<times> heap) wait option" where
  "thrdpool_destroy has_pending in_pool entries p h =
     (case thrdpool_terminate in_pool p of
        Blocked \<Rightarrow> Some Blocked
      | Ready (p, _) \<Rightarrow> do {
          r \<leftarrow> destroy_loop has_pending entries (msgq p) h;
          case r of
            Blocked \<Rightarrow> Some Blocked
          | Ready (ts, q, h) \<Rightarrow> Some (Ready (ts, h))
        })"

subsection \<open>Creation\<close>

lemma create_loop_starts:
  assumes "\<And>i. spawn i = 0" "nthreads p \<le> n"
  shows "create_loop n spawn k 0 p = (0, k + (unat n - unat (nthreads p)), p\<lparr>nthreads := n\<rparr>)"
  using assms(2)
proof (induction "unat n - unat (nthreads p)" arbitrary: k p rule: less_induct)
  case less
  show ?case
  proof (cases "nthreads p < n")
    case True
    let ?p = "p\<lparr>nthreads := nthreads p + 1\<rparr>"
    have s: "unat (nthreads p + 1) = unat (nthreads p) + 1" "unat (nthreads p) < unat n"
      using True unat_less_64 [of n] by (auto simp: word_less_nat_alt unat_word_ariths)
    then have "nthreads ?p \<le> n" by (simp add: word_le_nat_alt)
    with less(1) [of ?p "Suc k"] s True assms(1) show ?thesis by (subst create_loop.simps) simp
  next
    case False
    with less(2) have "nthreads p = n" by simp
    then show ?thesis by (subst create_loop.simps) simp
  qed
qed

lemma create_loop_full: "nthreads p = n \<Longrightarrow> create_loop n spawn k ret p = (ret, k, p)"
  by (subst create_loop.simps) simp

lemma thrdpool_create_idle:
  assumes "queue \<noteq> NULL" "h (head1 queue, W0) \<noteq> None" "h (head2 queue, W0) \<noteq> None"
  shows "\<exists>p h'. thrdpool_create True queue 0 spawn n stack h = Some (Ready (Some (p, 0), h')) \<and> nthreads p = n \<and> tid p = 0 \<and>
    \<not> stop p \<and> mq_at (msgq p) h' [] [] \<and> msg_max (msgq p) = 0 \<and> \<not> nonblock (msgq p) \<and> linkoff (msgq p) = 0"
  using msgqueue_create_correct [OF assms, of 0 0] assms(1)
  by (auto simp: thrdpool_create_def thrdpool_create_threads_def create_loop_full Let_def)

subsection \<open>The count of the threads\<close>

text \<open>
  The pool beside the number of its worker threads: a successful \<open>thrdpool_increase\<close>, a
  worker that leaves through the exit routine, a worker that calls \<open>thrdpool_destroy\<close>
  (it detaches itself and leaves the count), and a call from outside. The machine runs
  fewer than \<open>2 ^ 64\<close> threads.
\<close>

inductive pool_step :: "64 word \<Rightarrow> thrdpool \<times> nat \<Rightarrow> thrdpool \<times> nat \<Rightarrow> bool" for n where
  increase: "thrdpool_increase attr spawned p = (0, p') \<Longrightarrow> unat n + w + 1 < 2 ^ 64 \<Longrightarrow> pool_step n (p, w) (p', w + 1)"
| worker_exit: "thrdpool_exit_routine self p = (p', notified, joined) \<Longrightarrow> pool_step n (p, w + 1) (p', w)"
| destroy_inside: "pool_step n (p, w + 1) (terminate_mark True p, w)"
| destroy_outside: "pool_step n (p, w) (terminate_mark False p, w)"

inductive pool_run :: "64 word \<Rightarrow> thrdpool \<times> nat \<Rightarrow> thrdpool \<times> nat \<Rightarrow> bool" for n where
  pool_refl: "pool_run n s s"
| pool_trans: "pool_run n s s' \<Longrightarrow> pool_step n s' s'' \<Longrightarrow> pool_run n s s''"

inductive_cases pool_stepE: "pool_step n s s'"

lemma pool_step_count:
  "pool_step n (p, w) (p', w') \<Longrightarrow> nthreads p = n + of_nat w \<Longrightarrow> unat n + w < 2 ^ 64 \<Longrightarrow>
   nthreads p' = n + of_nat w' \<and> unat n + w' < 2 ^ 64"
  by (erule pool_step.cases)
    (auto simp: thrdpool_increase_def thrdpool_exit_routine_def terminate_mark_def Let_def split: if_splits)

lemma pool_run_count:
  "pool_run n s s' \<Longrightarrow> nthreads (fst s) = n + of_nat (snd s) \<Longrightarrow> unat n + snd s < 2 ^ 64 \<Longrightarrow>
   nthreads (fst s') = n + of_nat (snd s') \<and> unat n + snd s' < 2 ^ 64"
proof (induction rule: pool_run.induct)
  case (pool_trans s s' s'')
  then show ?case using pool_step_count [of n "fst s'" "snd s'" "fst s''" "snd s''"] by simp
qed simp

lemma count_positive: "0 < n \<Longrightarrow> unat n + w < 2 ^ 64 \<Longrightarrow> 0 < n + of_nat w" for n :: "64 word"
proof -
  assume "0 < n" "unat n + w < 2 ^ 64"
  then have "unat (n + of_nat w) = unat n + w" "0 < unat n"
    by (simp_all add: unat_word_ariths unat_of_nat unat_gt_0 word_gt_0)
  then show ?thesis by (metis unat_gt_0 word_gt_0 add_pos_nonneg zero_le)
qed

subsection \<open>Draining the queue\<close>

lemma destroy_loop_drains:
  assumes "mq_at q h gs ps" "nonblock q" "\<And>l. l \<in> set (gs @ ps) \<Longrightarrow> msg_of q l \<noteq> NULL"
  shows "\<exists>q' h'. destroy_loop has_pending entries q h = Some (Ready
      (if has_pending then filter (\<lambda>t. fst t \<noteq> Thrdpool_exit_routine) (map (entries \<circ> msg_of q) (gs @ ps)) else [], q', h'))"
  using assms
proof (induction "gs @ ps" arbitrary: q h gs ps)
  case Nil
  with msgqueue_get_correct [OF Nil(2)] show ?case by (subst destroy_loop.simps) auto
next
  case (Cons l ls)
  from msgqueue_get_correct [OF Cons(3)] Cons(2) [symmetric] obtain q1 h1 gs1 ps1 where
    1: "msgqueue_get q h = Some (Ready (msg_of q l, q1, h1))" "mq_at q1 h1 gs1 ps1" "gs1 @ ps1 = ls"
      "linkoff q1 = linkoff q" "nonblock q1 = nonblock q" by auto
  have same: "msg_of q1 = msg_of q" using link_cong [OF 1(4)] by simp
  have l: "msg_of q l \<noteq> NULL" using Cons(5) [of l] Cons(2) [symmetric] by simp
  from Cons(1) [OF 1(3) [symmetric] 1(2)] Cons(4,5) Cons(2) [symmetric] 1(3,5) same obtain q2 h2 where
    "destroy_loop has_pending entries q1 h1 = Some (Ready
      (if has_pending then filter (\<lambda>t. fst t \<noteq> Thrdpool_exit_routine) (map (entries \<circ> msg_of q) ls) else [], q2, h2))"
    by force
  with 1(1) l Cons(2) [symmetric] show ?case by (subst destroy_loop.simps) auto
qed

subsection \<open>Properties\<close>

lemma sample_cells: "sample_mem (head1 10, W0) \<noteq> None" "sample_mem (head2 10, W0) \<noteq> None"
  by (simp_all add: sample_mem_def head1_def head2_def)

text \<open>
  \<open>__thrdpool_create_threads(n, pool)\<close> on a pool that counts no threads creates
  exactly \<open>n\<close> threads and leaves the count at \<open>n\<close>, when every \<open>pthread_create\<close> succeeds.
\<close>

theorem create_threads_from_zero:
  assumes "\<forall>i. spawn i = 0" "nthreads p = 0"
  shows "thrdpool_create_threads 0 spawn n p = Ready (0, unat n, p\<lparr>nthreads := n\<rparr>)"
  using create_loop_starts [of spawn p n 0] assms by (simp add: thrdpool_create_threads_def)

theorem create_threads_from_zero_witness:
  "thrdpool_create_threads 0 (\<lambda>_. 0) 3 \<lparr>msgq = sample_que, nthreads = 0, stacksize = 0, tid = 0, stop = False\<rparr> =
     Ready (0, 3, \<lparr>msgq = sample_que, nthreads = 3, stacksize = 0, tid = 0, stop = False\<rparr>)"
  using create_threads_from_zero [of "\<lambda>_. 0" "\<lparr>msgq = sample_que, nthreads = 0, stacksize = 0, tid = 0, stop = False\<rparr>" 3] by simp

text \<open>
  \<open>thrdpool_create\<close> stores the requested number in \<open>nthreads\<close> before it calls
  \<open>__thrdpool_create_threads\<close>, whose loop then never runs: the pool it returns has no
  thread, for every number asked for and whatever \<open>pthread_create\<close> would give.
\<close>

theorem thrdpool_create_starts_no_thread:
  assumes "queue \<noteq> NULL" "h (head1 queue, W0) \<noteq> None" "h (head2 queue, W0) \<noteq> None"
  shows "\<exists>p h'. thrdpool_create True queue 0 spawn n stack h = Some (Ready (Some (p, 0), h')) \<and> nthreads p = n"
  using thrdpool_create_idle [OF assms] by blast

theorem thrdpool_create_starts_no_thread_witness:
  "\<exists>p h'. thrdpool_create True 10 0 (\<lambda>_. 0) 8 0 sample_mem = Some (Ready (Some (p, 0), h')) \<and> nthreads p = 8"
  using thrdpool_create_starts_no_thread [of 10 sample_mem] sample_cells by simp

text \<open>
  C37: from the pool that \<open>thrdpool_create\<close> returns for \<open>n > 0\<close>, whatever threads are
  added and leave afterwards, \<open>nthreads\<close> stays \<open>n\<close> above the number of workers, so
  \<open>thrdpool_destroy\<close> from outside the pool waits and the wait never ends.
\<close>

theorem thrdpool_destroy_never_returns:
  assumes "thrdpool_create True queue 0 spawn n stack h = Some (Ready (Some (p, 0), h'))" "0 < n" "queue \<noteq> NULL"
    "h (head1 queue, W0) \<noteq> None" "h (head2 queue, W0) \<noteq> None" "pool_run n (p, 0) (p', w)"
  shows "nthreads p' = n + of_nat w \<and> thrdpool_destroy has_pending False entries p' h'' = Some Blocked"
proof -
  from thrdpool_create_idle [OF assms(3-5), of spawn n stack] assms(1) have "nthreads p = n" by auto
  with pool_run_count [OF assms(6)] unat_less_64 [of n] have "nthreads p' = n + of_nat w" "unat n + w < 2 ^ 64" by auto
  with count_positive [OF assms(2), of w] show ?thesis
    by (simp add: thrdpool_destroy_def thrdpool_terminate_def terminate_waits_def terminate_mark_def Let_def)
qed

theorem thrdpool_destroy_never_returns_witness:
  "\<exists>p h. thrdpool_create True 10 0 (\<lambda>_. 0) 8 0 sample_mem = Some (Ready (Some (p, 0), h)) \<and>
     thrdpool_destroy True False (\<lambda>_. (User 0, 0)) p h = Some Blocked"
proof -
  from thrdpool_create_idle [of 10 sample_mem "\<lambda>_. 0" 8 0] sample_cells obtain p h where
    "thrdpool_create True 10 0 (\<lambda>_. 0) 8 0 sample_mem = Some (Ready (Some (p, 0), h))" by auto
  with thrdpool_destroy_never_returns [OF this, of p 0] sample_cells pool_refl show ?thesis by auto
qed

text \<open>
  The pool's queue is created with maximum 0, which the queue takes as its capacity:
  the first \<open>thrdpool_schedule\<close> on a new pool waits.
\<close>

theorem thrdpool_schedule_blocks:
  assumes "thrdpool_create True queue 0 spawn n stack h = Some (Ready (Some (p, k), h'))" "queue \<noteq> NULL"
    "h (head1 queue, W0) \<noteq> None" "h (head2 queue, W0) \<noteq> None" "buf \<noteq> NULL" "h' (buf, W0) \<noteq> None"
  shows "thrdpool_schedule task buf entries p h' = Some Blocked"
proof -
  from thrdpool_create_idle [OF assms(2-4), of spawn n stack] assms(1) have
    "msg_max (msgq p) = 0" "\<not> nonblock (msgq p)" "linkoff (msgq p) = 0" "mq_at (msgq p) h' [] []" by auto
  then show ?thesis
    using assms(5,6) mq_cnt_0 [of "msgq p" h' "[]" "[]"]
    by (simp add: thrdpool_schedule_def msg_queue_put_def Let_def link_of_def store_def put_waits_def)
qed

theorem thrdpool_schedule_blocks_witness:
  "\<exists>p h. thrdpool_create True 10 0 (\<lambda>_. 0) 8 0 sample_mem = Some (Ready (Some (p, 0), h)) \<and>
     thrdpool_schedule (User 1, 0) 100 (\<lambda>_. (User 0, 0)) p h = Some Blocked"
proof -
  from thrdpool_create_idle [of 10 sample_mem "\<lambda>_. 0" 8 0] sample_cells obtain p h where
    c: "thrdpool_create True 10 0 (\<lambda>_. 0) 8 0 sample_mem = Some (Ready (Some (p, 0), h))" by auto
  have "h (100, W0) \<noteq> None"
    using c by (auto simp: thrdpool_create_def msgqueue_create_def store_def head1_def head2_def sample_mem_def Let_def
        thrdpool_create_threads_def create_loop_full split: if_splits)
  with thrdpool_schedule_blocks [OF c _ sample_cells] c show ?thesis by auto
qed

text \<open>
  \<open>thrdpool_destroy\<close>, once no thread is counted, calls \<open>pending\<close> with every task left
  in the queue, in the order in which they were scheduled, except the exit requests, and
  returns.
\<close>

theorem thrdpool_destroy_drains:
  assumes "mq_at (msgq p) h gs ps" "\<forall>l \<in> set (gs @ ps). msg_of (msgq p) l \<noteq> NULL" "nthreads p = 0"
  shows "\<exists>h'. thrdpool_destroy True False entries p h = Some (Ready
    (filter (\<lambda>t. fst t \<noteq> Thrdpool_exit_routine) (map (entries \<circ> msg_of (msgq p)) (gs @ ps)), h'))"
proof -
  have s: "msgqueue_set_nonblock (msgq p) = (msgq p)\<lparr>nonblock := True\<rparr>" by (simp add: msgqueue_set_nonblock_def)
  have "mq_at ((msgq p)\<lparr>nonblock := True\<rparr>) h gs ps" using assms(1) by simp
  from destroy_loop_drains [OF this, of True entries] assms(2) obtain q' h' where
    "destroy_loop True entries ((msgq p)\<lparr>nonblock := True\<rparr>) h = Some (Ready
      (filter (\<lambda>t. fst t \<noteq> Thrdpool_exit_routine) (map (entries \<circ> msg_of (msgq p)) (gs @ ps)), q', h'))" by auto
  then show ?thesis
    using assms(3) by (simp add: thrdpool_destroy_def thrdpool_terminate_def terminate_mark_def terminate_waits_def s Let_def)
qed

theorem thrdpool_destroy_drains_witness:
  "\<exists>h'. thrdpool_destroy True False (\<lambda>_. (User 7, 0)) \<lparr>msgq = sample_que, nthreads = 0, stacksize = 0, tid = 0, stop = False\<rparr>
     sample_mem = Some (Ready ([], h'))"
  using thrdpool_destroy_drains [of "\<lparr>msgq = sample_que, nthreads = 0, stacksize = 0, tid = 0, stop = False\<rparr>" sample_mem "[]" "[]"]
    sample_at by simp

end
