(* ===== verification/Subtask.thy ===== *)
theory Subtask
  imports Prelude "HOL-Library.Multiset"
begin

section \<open>Series and parallel tasks: subtask.h and subtask.cc\<close>

text \<open>
  \<open>src/src/kernel/subtask.cc\<close>. Tasks are numbers. What a task is, is the argument
  \<open>kind\<close>: a \<open>ParallelTask\<close> with its \<open>subtasks\<close>, or a task whose virtual \<open>dispatch\<close> is
  code of a subclass, which starts it (it is then in \<open>running\<close>) and later calls
  \<open>subtask_done\<close>. The virtual \<open>done\<close> is the argument \<open>nxt\<close>, the next task of the series
  or none; the log \<open>done_log\<close> records its calls.

  \<open>ParallelTask::dispatch\<close> and \<open>SubTask::subtask_done\<close> call each other; the model runs
  them over an explicit stack of the calls that are still to be made.
\<close>

datatype kind = Plain | Parallel "nat list"

record tasks =
  parent :: "nat \<Rightarrow> nat option"
  nleft :: "nat \<Rightarrow> 64 word"
  running :: "nat list"
  done_log :: "nat list"

datatype call = Dispatch nat | Dispatch_child nat nat | Subtask_done nat

definition set_parent :: "nat \<Rightarrow> nat option \<Rightarrow> tasks \<Rightarrow> tasks" where
  "set_parent t p s = s\<lparr>parent := (parent s)(t := p)\<rparr>"

text \<open>\<open>ParallelTask::dispatch\<close> of \<open>this\<close>: the state and the calls it makes.\<close>

definition parallel_dispatch :: "nat \<Rightarrow> nat list \<Rightarrow> tasks \<Rightarrow> call list \<times> tasks" where
  "parallel_dispatch this subtasks s =
     (let s = s\<lparr>nleft := (nleft s)(this := of_nat (length subtasks))\<rparr>
      in if nleft s this \<noteq> 0 then (map (Dispatch_child this) subtasks, s)
         else ([Subtask_done this], s))"

text \<open>
  One round of the loop of \<open>SubTask::subtask_done\<close>: the calls that follow; going round
  again with \<open>cur = parent\<close> is a further \<open>Subtask_done\<close>.
\<close>

definition subtask_done :: "(nat \<Rightarrow> nat option) \<Rightarrow> nat \<Rightarrow> tasks \<Rightarrow> call list \<times> tasks" where
  "subtask_done nxt cur s =
     (let par = parent s cur; s = s\<lparr>running := remove1 cur (running s), done_log := done_log s @ [cur]\<rparr>
      in case nxt cur of
           Some t \<Rightarrow> ([Dispatch t], set_parent t par s)
         | None \<Rightarrow>
             (case par of
                None \<Rightarrow> ([], s)
              | Some p \<Rightarrow>
                  let s = s\<lparr>nleft := (nleft s)(p := nleft s p - 1)\<rparr>
                  in if nleft s p = 0 then ([Subtask_done p], s) else ([], s)))"

fun call_step :: "(nat \<Rightarrow> kind) \<Rightarrow> (nat \<Rightarrow> nat option) \<Rightarrow> call \<Rightarrow> tasks \<Rightarrow> call list \<times> tasks" where
  "call_step kind nxt (Dispatch t) s =
     (case kind t of Plain \<Rightarrow> ([], s\<lparr>running := running s @ [t]\<rparr>) | Parallel ts \<Rightarrow> parallel_dispatch t ts s)"
| "call_step kind nxt (Dispatch_child this t) s = ([Dispatch t], set_parent t (Some this) s)"
| "call_step kind nxt (Subtask_done t) s = subtask_done nxt t s"

partial_function (option) run :: "(nat \<Rightarrow> kind) \<Rightarrow> (nat \<Rightarrow> nat option) \<Rightarrow> call list \<Rightarrow> tasks \<Rightarrow> tasks option" where
  "run kind nxt cs s =
     (case cs of
        [] \<Rightarrow> Some s
      | c # cs \<Rightarrow> (case call_step kind nxt c s of (ds, s) \<Rightarrow> run kind nxt (ds @ cs) s))"

lemma run_Nil [simp]: "run kind nxt [] s = Some s"
  by (simp add: run.simps)

lemma run_Cons: "run kind nxt (c # cs) s = (case call_step kind nxt c s of (ds, s) \<Rightarrow> run kind nxt (ds @ cs) s)"
  by (subst run.simps) simp

subsection \<open>Fork and join\<close>

text \<open>
  The state while a parallel task \<open>p\<close> runs: \<open>ts\<close> are the tasks at which its unfinished
  series stand, each counted once in \<open>nleft\<close>.
\<close>

definition forked :: "nat \<Rightarrow> nat list \<Rightarrow> tasks \<Rightarrow> bool" where
  "forked p ts s \<longleftrightarrow> distinct ts \<and> mset ts \<subseteq># mset (running s) \<and> (\<forall>t \<in> set ts. parent s t = Some p) \<and>
     nleft s p = of_nat (length ts) \<and> length ts < 2 ^ 64"

lemma run_children:
  assumes "\<And>t. t \<in> set ts \<Longrightarrow> kind t = Plain" "distinct ts"
  shows "run kind nxt (map (Dispatch_child p) ts @ cs) s =
    run kind nxt cs (s\<lparr>parent := (\<lambda>t. if t \<in> set ts then Some p else parent s t), running := running s @ ts\<rparr>)"
  using assms
proof (induction ts arbitrary: s)
  case (Cons t ts)
  have "(\<lambda>x. if x \<in> set ts then Some p else ((parent s)(t := Some p)) x) =
      (\<lambda>x. if x \<in> set (t # ts) then Some p else parent s x)"
    by (auto simp: fun_eq_iff)
  with Cons show ?case by (simp add: run_Cons set_parent_def cong: if_cong)
qed simp

lemma of_nat_64_neq_0: "0 < n \<Longrightarrow> n < 2 ^ 64 \<Longrightarrow> (of_nat n :: 64 word) \<noteq> 0"
  by (simp add: word_eq_iff_unsigned unsigned_of_nat take_bit_nat_eq_self flip: unat_eq_zero)

lemma dispatch_forks:
  assumes "kind p = Parallel ts" "ts \<noteq> []" "distinct ts" "length ts < 2 ^ 64" "\<And>t. t \<in> set ts \<Longrightarrow> kind t = Plain"
  shows "\<exists>s'. run kind nxt [Dispatch p] s = Some s' \<and> forked p ts s' \<and> running s' = running s @ ts \<and> done_log s' = done_log s"
  using run_children [of ts kind nxt p "[]"] of_nat_64_neq_0 [of "length ts"] assms
  by (auto simp: run_Cons parallel_dispatch_def Let_def forked_def)

lemma nleft_dec: "0 < n \<Longrightarrow> (of_nat n :: 64 word) - 1 = of_nat (n - 1)"
  by (cases n) auto

text \<open>The last series to finish calls \<open>done\<close> of the parallel task; the others do not.\<close>

lemma join_step:
  assumes "forked p ts s" "t \<in> set ts" "nxt t = None" "p \<notin> set (running s)"
  shows "if length ts = 1
    then run kind nxt [Subtask_done t] s = run kind nxt [Subtask_done p]
      (s\<lparr>running := remove1 t (running s), done_log := done_log s @ [t], nleft := (nleft s)(p := 0)\<rparr>)
    else \<exists>s'. run kind nxt [Subtask_done t] s = Some s' \<and> forked p (remove1 t ts) s' \<and> done_log s' = done_log s @ [t] \<and>
      running s' = remove1 t (running s)"
proof -
  note F = assms(1) [unfolded forked_def]
  have n: "nleft s p - 1 = of_nat (length ts - 1)" using F assms(2) nleft_dec [of "length ts"] by (cases ts) auto
  have par: "parent s t = Some p" using F assms(2) by simp
  show ?thesis
  proof (cases "length ts = 1")
    case True
    with n par assms(3) show ?thesis by (simp add: run_Cons subtask_done_def Let_def)
  next
    case False
    then have "0 < length ts - 1" using assms(2) by (cases ts) auto
    moreover have "length ts - 1 < 2 ^ 64" using F by linarith
    ultimately have nz: "(of_nat (length ts - 1) :: 64 word) \<noteq> 0" by (rule of_nat_64_neq_0)
    have "mset (remove1 t ts) \<subseteq># mset (remove1 t (running s))"
      using F by (simp add: subseteq_mset_def diff_le_mono)
    with False n nz par assms(2,3) F show ?thesis
      by (auto simp: run_Cons subtask_done_def Let_def forked_def length_remove1 dest: notin_set_remove1)
  qed
qed

text \<open>A task with a successor: the successor takes its place in the same parallel task.\<close>

lemma series_step:
  assumes "forked p ts s" "t \<in> set ts" "nxt t = Some u" "kind u = Plain" "u \<notin> set ts"
  shows "\<exists>s'. run kind nxt [Subtask_done t] s = Some s' \<and> forked p (u # remove1 t ts) s' \<and> done_log s' = done_log s @ [t]"
proof -
  note F = assms(1) [unfolded forked_def]
  have par: "parent s t = Some p" using F assms(2) by simp
  have "mset (u # remove1 t ts) \<subseteq># mset (remove1 t (running s) @ [u])"
    using F by (simp add: subseteq_mset_def diff_le_mono)
  moreover have "length (u # remove1 t ts) = length ts" using length_pos_if_in_set [OF assms(2)] assms(2) by (simp add: length_remove1)
  moreover have "u \<notin> set (remove1 t ts)" using assms(5) notin_set_remove1 [of u ts t] by blast
  ultimately show ?thesis
    using F assms(2-4) par
    by (auto simp: run_Cons subtask_done_def Let_def forked_def set_parent_def length_remove1 dest: notin_set_remove1)
qed

primrec finish_all :: "(nat \<Rightarrow> kind) \<Rightarrow> (nat \<Rightarrow> nat option) \<Rightarrow> nat list \<Rightarrow> tasks \<Rightarrow> tasks option" where
  "finish_all kind nxt [] s = Some s"
| "finish_all kind nxt (t # ts) s = do { s \<leftarrow> run kind nxt [Subtask_done t] s; finish_all kind nxt ts s }"

lemma finish_all_but_last:
  assumes "forked p ts s" "mset ts = mset (fs @ [l])" "\<And>t. t \<in> set ts \<Longrightarrow> nxt t = None" "p \<notin> set (running s)"
  shows "\<exists>s'. finish_all kind nxt fs s = Some s' \<and> forked p [l] s' \<and> done_log s' = done_log s @ fs \<and> p \<notin> set (running s')"
  using assms
proof (induction fs arbitrary: ts s)
  case Nil
  then have "ts = [l]" by (metis append_Nil mset_single_iff_right)
  with Nil show ?case by simp
next
  case (Cons t fs)
  have t: "t \<in> set ts" using Cons.prems(2) by (metis Cons_eq_appendI list.set_intros(1) set_mset_mset)
  have len: "length ts \<noteq> 1" using arg_cong [OF Cons.prems(2), of size] by simp
  from join_step [of p ts s t nxt kind] t len Cons.prems obtain s1 where
    1: "run kind nxt [Subtask_done t] s = Some s1" "forked p (remove1 t ts) s1" "done_log s1 = done_log s @ [t]"
      "running s1 = remove1 t (running s)" by auto
  have "mset (remove1 t ts) = mset (fs @ [l])" using Cons.prems(2) by simp
  moreover have "\<And>u. u \<in> set (remove1 t ts) \<Longrightarrow> nxt u = None" using Cons.prems(3) notin_set_remove1 by metis
  moreover have "p \<notin> set (running s1)" using Cons.prems(4) 1(4) notin_set_remove1 by metis
  ultimately show ?case using Cons.IH [OF 1(2)] 1(1,3) by auto
qed

subsection \<open>Properties\<close>



text \<open>
  C32: when a task of a series that belongs to a parallel task is done and has a
  successor, the successor is dispatched in its place, belongs to the same parallel task,
  and the count of the series still to be joined is unchanged.
\<close>

theorem series_keeps_parallel_parent:
  assumes "forked p ts s" "t \<in> set ts" "nxt t = Some u" "kind u = Plain" "u \<notin> set ts"
  shows "\<exists>s'. run kind nxt [Subtask_done t] s = Some s' \<and> forked p (u # remove1 t ts) s' \<and> done_log s' = done_log s @ [t]"
  using assms by (rule series_step)

theorem series_keeps_parallel_parent_witness:
  "\<exists>s'. run (\<lambda>_. Plain) [1 \<mapsto> 5] [Subtask_done 1]
     \<lparr>parent = (\<lambda>_. Some 0), nleft = (\<lambda>_. 2), running = [1, 2], done_log = []\<rparr> = Some s' \<and> forked 0 [5, 2] s'"
  using series_keeps_parallel_parent [of 0 "[1, 2]" "\<lparr>parent = (\<lambda>_. Some 0), nleft = (\<lambda>_. 2), running = [1, 2], done_log = []\<rparr>" 1
      "[1 \<mapsto> 5]" 5 "\<lambda>_. Plain"]
  by (auto simp: forked_def)

end
