(* ===== verification/Poller_Time.thy ===== *)
theory Poller_Time
  imports Prelude "HOL-Library.Signed_Division"
begin

section \<open>The poller's clock arithmetic\<close>

text \<open>
  \<open>struct timespec\<close>, \<open>__timeout_cmp\<close> and the additions of \<open>__poller_node_set_timeout\<close>
  and \<open>poller_add_timer\<close> in \<open>src/src/kernel/poller.cc\<close>. \<open>long\<close> is a 64-bit signed
  integer; \<open>wrap64\<close> is what is left of a result in one. The instance of \<open>timespec\<close>
  as a linear order is the order the code means by \<open>__timeout_cmp\<close>.
\<close>

datatype timespec = Timespec (tv_sec: int) (tv_nsec: int)

definition wrap64 :: "int \<Rightarrow> int" where
  "wrap64 x = signed_take_bit 63 x"

lemma wrap64_id: "- (2 ^ 63) \<le> x \<Longrightarrow> x < 2 ^ 63 \<Longrightarrow> wrap64 x = x"
  unfolding wrap64_def by (rule signed_take_bit_int_eq_self) auto

definition timeout_cmp :: "timespec \<Rightarrow> timespec \<Rightarrow> int" where
  "timeout_cmp t1 t2 =
     (let ret = wrap64 (tv_sec t1 - tv_sec t2)
      in if ret = 0 then wrap64 (tv_nsec t1 - tv_nsec t2) else ret)"

text \<open>\<open>t\<close> plus \<open>sec\<close> and \<open>nsec\<close>, with the carry of the code.\<close>

definition add_time :: "timespec \<Rightarrow> int \<Rightarrow> int \<Rightarrow> timespec" where
  "add_time t sec nsec =
     (let s = wrap64 (tv_sec t + sec); n = wrap64 (tv_nsec t + nsec)
      in if n \<ge> 1000000000 then Timespec (wrap64 (s + 1)) (n - 1000000000) else Timespec s n)"

text \<open>\<open>__poller_node_set_timeout\<close>: \<open>now\<close> is what \<open>clock_gettime\<close> gave; C division truncates.\<close>

definition poller_node_set_timeout :: "timespec \<Rightarrow> int \<Rightarrow> timespec" where
  "poller_node_set_timeout now timeout = add_time now (timeout sdiv 1000) ((timeout smod 1000) * 1000000)"

subsection \<open>The order\<close>

instantiation timespec :: linorder
begin

definition less_timespec :: "timespec \<Rightarrow> timespec \<Rightarrow> bool" where
  "a < b \<longleftrightarrow> tv_sec a < tv_sec b \<or> tv_sec a = tv_sec b \<and> tv_nsec a < tv_nsec b"

definition less_eq_timespec :: "timespec \<Rightarrow> timespec \<Rightarrow> bool" where
  "a \<le> b \<longleftrightarrow> tv_sec a < tv_sec b \<or> tv_sec a = tv_sec b \<and> tv_nsec a \<le> tv_nsec b"

instance
  by standard (auto simp: less_timespec_def less_eq_timespec_def intro: timespec.expand)

end

text \<open>Normalised, and far enough from the ends of the type that differences do not wrap.\<close>

definition valid_time :: "timespec \<Rightarrow> bool" where
  "valid_time t \<longleftrightarrow> 0 \<le> tv_sec t \<and> tv_sec t < 2 ^ 62 \<and> 0 \<le> tv_nsec t \<and> tv_nsec t < 1000000000"

lemma timeout_cmp_valid:
  assumes "valid_time a" "valid_time b"
  shows "timeout_cmp a b = (if tv_sec a = tv_sec b then tv_nsec a - tv_nsec b else tv_sec a - tv_sec b)"
proof -
  have "wrap64 (tv_sec a - tv_sec b) = tv_sec a - tv_sec b" "wrap64 (tv_nsec a - tv_nsec b) = tv_nsec a - tv_nsec b"
    using assms by (auto simp: valid_time_def intro!: wrap64_id)
  then show ?thesis by (simp add: timeout_cmp_def Let_def)
qed

lemma timeout_cmp_order:
  assumes "valid_time a" "valid_time b"
  shows "timeout_cmp a b < 0 \<longleftrightarrow> a < b" "0 < timeout_cmp a b \<longleftrightarrow> b < a" "timeout_cmp a b = 0 \<longleftrightarrow> a = b"
    "0 \<le> timeout_cmp a b \<longleftrightarrow> b \<le> a" "timeout_cmp a b \<le> 0 \<longleftrightarrow> a \<le> b"
  using timeout_cmp_valid [OF assms]
  by (auto simp: less_timespec_def less_eq_timespec_def intro: timespec.expand split: if_splits)

subsection \<open>Adding\<close>

definition nanos :: "timespec \<Rightarrow> int" where
  "nanos t = tv_sec t * 1000000000 + tv_nsec t"

lemma nanos_order: "valid_time a \<Longrightarrow> valid_time b \<Longrightarrow> a < b \<longleftrightarrow> nanos a < nanos b"
  unfolding valid_time_def nanos_def less_timespec_def by (cases "tv_sec a = tv_sec b") (simp, linarith)

lemma add_time_correct:
  assumes "valid_time t" "0 \<le> sec" "0 \<le> nsec" "nsec < 1000000000" "tv_sec t + sec + 1 < 2 ^ 62"
  shows "valid_time (add_time t sec nsec) \<and> nanos (add_time t sec nsec) = nanos t + sec * 1000000000 + nsec"
proof -
  have w: "wrap64 (tv_sec t + sec) = tv_sec t + sec" "wrap64 (tv_nsec t + nsec) = tv_nsec t + nsec"
    "wrap64 (tv_sec t + sec + 1) = tv_sec t + sec + 1"
    using assms by (auto simp: valid_time_def intro!: wrap64_id)
  have "add_time t sec nsec = (if tv_nsec t + nsec \<ge> 1000000000
      then Timespec (tv_sec t + sec + 1) (tv_nsec t + nsec - 1000000000) else Timespec (tv_sec t + sec) (tv_nsec t + nsec))"
    by (simp add: add_time_def Let_def w)
  then show ?thesis
    using assms by (auto simp: valid_time_def nanos_def algebra_simps)
qed

lemma sdiv_1000: "0 \<le> t \<Longrightarrow> t sdiv 1000 = t div 1000" "0 \<le> t \<Longrightarrow> t smod 1000 = t mod 1000" for t :: int
  by (simp_all add: signed_divide_int_def signed_modulo_int_def minus_div_mult_eq_mod sgn_if)

lemma set_timeout_correct:
  assumes "valid_time now" "tv_sec now < 2 ^ 61" "0 \<le> timeout" "timeout < 2 ^ 31"
  shows "valid_time (poller_node_set_timeout now timeout) \<and>
    nanos (poller_node_set_timeout now timeout) = nanos now + timeout * 1000000"
proof -
  have "0 \<le> timeout div 1000" "timeout div 1000 < 2 ^ 31" "0 \<le> timeout mod 1000" "timeout mod 1000 < 1000"
    using assms(3,4) by auto
  with add_time_correct [OF assms(1), of "timeout div 1000" "timeout mod 1000 * 1000000"] assms(2,3)
  have "valid_time (poller_node_set_timeout now timeout) \<and>
      nanos (poller_node_set_timeout now timeout) = nanos now + timeout div 1000 * 1000000000 + timeout mod 1000 * 1000000"
    by (simp add: poller_node_set_timeout_def sdiv_1000)
  moreover have "timeout div 1000 * 1000000000 + timeout mod 1000 * 1000000 = timeout * 1000000"
    using div_mult_mod_eq [of timeout 1000] by linarith
  ultimately show ?thesis by linarith
qed

subsection \<open>Properties\<close>

text \<open>
  On normalised times that are not astronomically far apart, the sign of
  \<open>__timeout_cmp\<close> is the comparison of the two times in nanoseconds, in spite of the
  64-bit subtraction, and it is 0 only for equal times.
\<close>

theorem timeout_cmp_compares:
  assumes "valid_time a" "valid_time b"
  shows "(timeout_cmp a b < 0 \<longleftrightarrow> nanos a < nanos b) \<and> (0 < timeout_cmp a b \<longleftrightarrow> nanos b < nanos a) \<and>
    (timeout_cmp a b = 0 \<longleftrightarrow> a = b)"
  using timeout_cmp_order [OF assms] nanos_order [OF assms] nanos_order [OF assms(2,1)] by blast

theorem timeout_cmp_compares_witness:
  "timeout_cmp (Timespec 5 999999999) (Timespec 6 0) < 0 \<and> nanos (Timespec 5 999999999) < nanos (Timespec 6 0)"
proof -
  have "nanos (Timespec 5 999999999) < nanos (Timespec 6 0)" by (simp add: nanos_def)
  moreover from this have "timeout_cmp (Timespec 5 999999999) (Timespec 6 0) < 0"
    using timeout_cmp_compares [of "Timespec 5 999999999" "Timespec 6 0"] by (simp add: valid_time_def)
  ultimately show ?thesis by simp
qed

text \<open>
  \<open>__poller_node_set_timeout\<close> gives a normalised time exactly \<open>timeout\<close> milliseconds
  after the clock's time, for every non-negative \<open>int\<close> timeout.
\<close>

theorem set_timeout_adds_milliseconds:
  assumes "valid_time now" "tv_sec now < 2 ^ 61" "0 \<le> timeout" "timeout < 2 ^ 31"
  shows "valid_time (poller_node_set_timeout now timeout) \<and>
    nanos (poller_node_set_timeout now timeout) = nanos now + timeout * 1000000"
  using assms by (rule set_timeout_correct)

theorem set_timeout_adds_milliseconds_witness:
  "nanos (poller_node_set_timeout (Timespec 10 999000000) 1500) = nanos (Timespec 10 999000000) + 1500 * 1000000"
  using set_timeout_adds_milliseconds [of "Timespec 10 999000000" 1500] by (simp add: valid_time_def)

end
