(* ===== verification/Poller_Tree.thy ===== *)
theory Poller_Tree
  imports Rbtree_Spec Poller_Time
begin

section \<open>The poller's tree of timeouts\<close>

text \<open>
  \<open>__poller_tree_insert\<close> and \<open>__poller_tree_erase\<close> of \<open>src/src/kernel/poller.cc\<close>, over
  the tree of \<open>rbtree.c\<close> with the two cached ends \<open>tree_first\<close> and \<open>tree_last\<close>. The
  node of a poller entry and its \<open>rb\<close> member have the same address in the model
  (\<open>rb_entry\<close> is the identity); \<open>tm\<close> gives the \<open>timeout\<close> member of an entry, and is
  undefined on an address that is no entry.
\<close>

type_synonym times = "addr \<Rightarrow> timespec option"

record timers =
  timeo_tree :: loc
  tree_first :: addr
  tree_last :: addr
  tmem :: heap

text \<open>\<open>__timeout_cmp(node1, node2)\<close>\<close>

definition cmp :: "times \<Rightarrow> addr \<Rightarrow> addr \<Rightarrow> int option" where
  "cmp tm n1 n2 = do { t1 \<leftarrow> tm n1; t2 \<leftarrow> tm n2; Some (timeout_cmp t1 t2) }"

text \<open>The \<open>do ... while (*p)\<close> loop: the parent and the place found.\<close>

partial_function (option) descend :: "times \<Rightarrow> addr \<Rightarrow> loc \<Rightarrow> heap \<Rightarrow> (addr \<times> loc) option" where
  "descend tm node p h = do {
     parent \<leftarrow> load p h;
     c \<leftarrow> cmp tm node parent;
     let p = (if c < 0 then (parent, rb_left) else (parent, rb_right));
     nxt \<leftarrow> load p h;
     if nxt \<noteq> NULL then descend tm node p h else Some (parent, p)
   }"

definition poller_tree_insert :: "times \<Rightarrow> addr \<Rightarrow> timers \<Rightarrow> timers option" where
  "poller_tree_insert tm node ts = do {
     let p = timeo_tree ts;
     let entry = tree_last ts;
     top \<leftarrow> load p (tmem ts);
     (parent, p, ts) \<leftarrow>
       (if top = NULL then Some (NULL, p, ts\<lparr>tree_first := node, tree_last := node\<rparr>)
        else do {
          c \<leftarrow> cmp tm node entry;
          if c \<ge> 0 then Some (tree_last ts, (tree_last ts, rb_right), ts\<lparr>tree_last := node\<rparr>)
          else do {
            (parent, p) \<leftarrow> descend tm node p (tmem ts);
            Some (parent, p, if p = (tree_first ts, rb_left) then ts\<lparr>tree_first := node\<rparr> else ts)
          }
        });
     h \<leftarrow> rb_link_node node parent p (tmem ts);
     h \<leftarrow> rb_insert_color node (timeo_tree ts) h;
     Some (ts\<lparr>tmem := h\<rparr>)
   }"

definition poller_tree_erase :: "addr \<Rightarrow> timers \<Rightarrow> timers option" where
  "poller_tree_erase node ts = do {
     first \<leftarrow> (if node = tree_first ts then rb_next node (tmem ts) else Some (tree_first ts));
     last \<leftarrow> (if node = tree_last ts then rb_prev node (tmem ts) else Some (tree_last ts));
     h \<leftarrow> rb_erase node (timeo_tree ts) (tmem ts);
     Some (ts\<lparr>tree_first := first, tree_last := last, tmem := h\<rparr>)
   }"

subsection \<open>The tree as a sequence ordered by time\<close>

definition ordered :: "times \<Rightarrow> addr list \<Rightarrow> bool" where
  "ordered tm xs \<longleftrightarrow> (\<forall>a \<in> set xs. \<exists>t. tm a = Some t \<and> valid_time t) \<and> sorted (map (the \<circ> tm) xs)"

definition timers_at :: "times \<Rightarrow> timers \<Rightarrow> addr list \<Rightarrow> bool" where
  "timers_at tm ts xs \<longleftrightarrow> rb_seq (timeo_tree ts) (tmem ts) xs \<and> ordered tm xs \<and>
     tree_first ts = first_of xs \<and> tree_last ts = last_of xs"

text \<open>The reference: after all entries that are not later.\<close>

definition insert_after :: "times \<Rightarrow> addr \<Rightarrow> addr list \<Rightarrow> addr list" where
  "insert_after tm n xs = takeWhile (\<lambda>a. \<not> the (tm n) < the (tm a)) xs @ n # dropWhile (\<lambda>a. \<not> the (tm n) < the (tm a)) xs"

lemma ordered_append: "ordered tm (xs @ ys) \<longleftrightarrow>
    ordered tm xs \<and> ordered tm ys \<and> (\<forall>x \<in> set xs. \<forall>y \<in> set ys. the (tm x) \<le> the (tm y))"
  by (auto simp: ordered_def sorted_append)

lemma ordered_Cons: "ordered tm (x # xs) \<longleftrightarrow>
    (\<exists>t. tm x = Some t \<and> valid_time t) \<and> ordered tm xs \<and> (\<forall>y \<in> set xs. the (tm x) \<le> the (tm y))"
  by (auto simp: ordered_def)

lemma set_insert_after [simp]: "set (insert_after tm n xs) = insert n (set xs)"
proof -
  have "set (insert_after tm n xs) = insert n (set (takeWhile (\<lambda>a. \<not> the (tm n) < the (tm a)) xs @
      dropWhile (\<lambda>a. \<not> the (tm n) < the (tm a)) xs))"
    by (simp only: insert_after_def set_append set_simps Un_insert_right)
  then show ?thesis by (simp only: takeWhile_dropWhile_id)
qed

lemma dropWhile_later:
  assumes "ordered tm xs" "y \<in> set (dropWhile (\<lambda>a. \<not> the (tm n) < the (tm a)) xs)"
  shows "the (tm n) < the (tm y)"
proof -
  obtain z zs where d: "dropWhile (\<lambda>a. \<not> the (tm n) < the (tm a)) xs = z # zs" using assms(2) by (cases "dropWhile (\<lambda>a. \<not> the (tm n) < the (tm a)) xs") auto
  then have z: "the (tm n) < the (tm z)" by (metis dropWhile_eq_Cons_conv)
  have "ordered tm (takeWhile (\<lambda>a. \<not> the (tm n) < the (tm a)) xs @ z # zs)" using assms(1) takeWhile_dropWhile_id d by metis
  then have "\<forall>y \<in> set zs. the (tm z) \<le> the (tm y)" by (simp add: ordered_append ordered_Cons)
  with z assms(2) d show ?thesis by (auto intro: less_le_trans)
qed

lemma ordered_insert_after:
  assumes "ordered tm xs" "tm n = Some t" "valid_time t"
  shows "ordered tm (insert_after tm n xs)"
proof -
  let ?P = "\<lambda>a. \<not> the (tm n) < the (tm a)"
  have "ordered tm (takeWhile ?P xs @ dropWhile ?P xs)" using assms(1) by simp
  then have o: "ordered tm (takeWhile ?P xs)" "ordered tm (dropWhile ?P xs)"
    "\<forall>x \<in> set (takeWhile ?P xs). \<forall>y \<in> set (dropWhile ?P xs). the (tm x) \<le> the (tm y)"
    unfolding ordered_append by blast+
  have "\<forall>x \<in> set (takeWhile ?P xs). the (tm x) \<le> the (tm n)" by (auto dest: set_takeWhileD)
  moreover have "\<forall>y \<in> set (dropWhile ?P xs). the (tm n) \<le> the (tm y)"
    using dropWhile_later [OF assms(1)] less_imp_le by blast
  ultimately show ?thesis
    using assms(2,3) o unfolding insert_after_def ordered_append ordered_Cons by simp
qed

lemma cmp_ordered: "tm n = Some t \<Longrightarrow> valid_time t \<Longrightarrow> tm a = Some u \<Longrightarrow> valid_time u \<Longrightarrow>
    \<exists>c. cmp tm n a = Some c \<and> (c < 0 \<longleftrightarrow> the (tm n) < the (tm a))"
  by (simp add: cmp_def timeout_cmp_order)

text \<open>Only the cells of the entries and of the root, and the times of the entries, matter.\<close>

lemma timers_at_cong:
  assumes "timers_at tm ts xs" "timeo_tree ts' = timeo_tree ts" "tree_first ts' = tree_first ts" "tree_last ts' = tree_last ts"
    "\<And>l. l = timeo_tree ts \<or> fst l \<in> set xs \<Longrightarrow> tmem ts' l = tmem ts l" "\<And>a. a \<in> set xs \<Longrightarrow> tm' a = tm a"
  shows "timers_at tm' ts' xs"
proof -
  from assms(1) obtain t where t: "tree_at (timeo_tree ts) (tmem ts) t" "rbt t" "addrs t = xs" by (auto simp: timers_at_def rb_seq_def)
  have "rep (tmem ts') NULL t \<longleftrightarrow> rep (tmem ts) NULL t" by (rule rep_cong_heap) (simp add: assms(5) t(3))
  then have "tree_at (timeo_tree ts) (tmem ts') t" using t assms(5) by (simp add: tree_at_def)
  moreover have "map (the \<circ> tm') xs = map (the \<circ> tm) xs" using assms(6) by simp
  ultimately show ?thesis using assms(1-4,6) t(2,3) by (auto simp: timers_at_def rb_seq_def ordered_def simp del: map_eq_conv)
qed

subsection \<open>Finding the place\<close>

lemma while_split:
  "\<not> P a \<Longrightarrow> takeWhile P (xs @ a # ys) = takeWhile P xs" "\<not> P a \<Longrightarrow> dropWhile P (xs @ a # ys) = dropWhile P xs @ a # ys"
  "(\<And>x. x \<in> set xs \<Longrightarrow> P x) \<Longrightarrow> P a \<Longrightarrow> takeWhile P (xs @ a # ys) = xs @ a # takeWhile P ys"
  "(\<And>x. x \<in> set xs \<Longrightarrow> P x) \<Longrightarrow> P a \<Longrightarrow> dropWhile P (xs @ a # ys) = dropWhile P ys"
  by (induction xs) auto

definition place :: "times \<Rightarrow> addr \<Rightarrow> frame list \<Rightarrow> atree \<Rightarrow> frame list \<Rightarrow> bool" where
  "place tm n fs t fs' \<longleftrightarrow> fs' \<noteq> [] \<and> plug fs' Leaf = plug fs t \<and>
     cpre fs' = cpre fs @ takeWhile (\<lambda>a. \<not> the (tm n) < the (tm a)) (addrs t) \<and>
     cpost fs' = dropWhile (\<lambda>a. \<not> the (tm n) < the (tm a)) (addrs t) @ cpost fs"

lemma place_left:
  assumes "the (tm n) < the (tm a)"
  shows "place tm n (Fr L a c r # fs) l fs' \<Longrightarrow> place tm n fs (Node l (a, c) r) fs'"
    "place tm n fs (Node Leaf (a, c) r) (Fr L a c r # fs)"
  using assms by (auto simp: place_def while_split)

lemma place_right:
  assumes "\<not> the (tm n) < the (tm a)" "ordered tm (addrs (Node l (a, c) r))"
  shows "place tm n (Fr R a c l # fs) r fs' \<Longrightarrow> place tm n fs (Node l (a, c) r) fs'"
    "r = Leaf \<Longrightarrow> place tm n fs (Node l (a, c) r) (Fr R a c l # fs)"
proof -
  have "\<not> the (tm n) < the (tm x)" if "x \<in> set (addrs l)" for x
  proof -
    have "the (tm x) \<le> the (tm a)" using assms(2) that by (simp add: ordered_append)
    with assms(1) show ?thesis by (meson less_le_trans)
  qed
  then show "place tm n (Fr R a c l # fs) r fs' \<Longrightarrow> place tm n fs (Node l (a, c) r) fs'"
    "r = Leaf \<Longrightarrow> place tm n fs (Node l (a, c) r) (Fr R a c l # fs)"
    using assms(1) by (auto simp: place_def while_split)
qed

lemma descend_correct:
  assumes "focus_at root h fs t" "t \<noteq> Leaf" "ordered tm (addrs t)" "tm n = Some u" "valid_time u"
  shows "\<exists>fs'. descend tm n (hole root fs) h = Some (cpar fs', hole root fs') \<and> place tm n fs t fs'"
  using assms(1-3)
proof (induction t arbitrary: fs)
  case (Node l x r)
  obtain a c where x: "x = (a, c)" by (cases x)
  note 2 = Node [unfolded x]
  have cells: "load (hole root fs) h = Some a" "h (a, rb_left) = Some (ptr l)" "h (a, rb_right) = Some (ptr r)" "a \<noteq> NULL"
      "rep h a l" "rep h a r"
    using 2(3) crep_hole [of root h fs a] by (cases fs; auto simp: focus_at_def load_def)+
  have "\<exists>v. tm a = Some v \<and> valid_time v" using 2(5) by (simp add: ordered_append ordered_Cons)
  with cmp_ordered [of tm n u a, OF assms(4,5)] obtain k where k: "cmp tm n a = Some k" "k < 0 \<longleftrightarrow> the (tm n) < the (tm a)" by blast
  have sub: "ordered tm (addrs l)" "ordered tm (addrs r)" using 2(5) by (simp_all add: ordered_append ordered_Cons)
  show ?case
  proof (cases "k < 0")
    case True
    let ?fs = "Fr L a c r # fs"
    have d: "descend tm n (hole root fs) h = (if ptr l \<noteq> NULL then descend tm n (hole root ?fs) h else Some (cpar ?fs, hole root ?fs))"
      using cells k True by (subst descend.simps) (simp add: load_def)
    show ?thesis
    proof (cases "l = Leaf")
      case False
      from 2(3) have "focus_at root h ?fs l" by (simp add: focus_at_Cons)
      from 2(1) [OF this False sub(1)] d False cells(5) k True show ?thesis
        using place_left(1) [of tm n a c r fs l] by (fastforce simp: rep_ptr_eq_NULL x)
    next
      case leaf: True
      then show ?thesis
        using d k True place_left(2) [of tm n a fs c r] by (intro exI [of _ ?fs]) (simp add: x)
    qed
  next
    case False
    let ?fs = "Fr R a c l # fs"
    have d: "descend tm n (hole root fs) h = (if ptr r \<noteq> NULL then descend tm n (hole root ?fs) h else Some (cpar ?fs, hole root ?fs))"
      using cells k False by (subst descend.simps) (simp add: load_def)
    show ?thesis
    proof (cases "r = Leaf")
      case nl: False
      from 2(3) have "focus_at root h ?fs r" by (simp add: focus_at_Cons)
      from 2(2) [OF this nl sub(2)] d nl cells(6) k False 2(5) show ?thesis
        using place_right(1) [of tm n a l c r fs] by (fastforce simp: rep_ptr_eq_NULL x)
    next
      case leaf: True
      then show ?thesis
        using d k False 2(5) place_right(2) [of tm n a l c r fs] by (intro exI [of _ ?fs]) (simp add: x)
    qed
  qed
qed simp

lemma rightmost_place:
  assumes "t \<noteq> Leaf"
  shows "\<exists>fs. plug fs Leaf = t \<and> cpost fs = [] \<and> cpre fs = addrs t \<and> cpar fs = last (addrs t) \<and>
    (\<forall>root. hole root fs = (last (addrs t), rb_right))"
  using assms
proof (induction t)
  case (Node l x r)
  obtain a c where x: "x = (a, c)" by (cases x)
  show ?case
  proof (cases "r = Leaf")
    case True
    then show ?thesis by (intro exI [of _ "[Fr R a c l]"]) (simp add: x)
  next
    case False
    with Node(2) obtain fs where fs: "plug fs Leaf = r" "cpost fs = []" "cpre fs = addrs r" "cpar fs = last (addrs r)"
      "\<forall>root. hole root fs = (last (addrs r), rb_right)" by blast
    have ne: "fs \<noteq> []" using fs(1) False by auto
    have "cpost (fs @ [Fr R a c l]) = cpost fs" "cpre (fs @ [Fr R a c l]) = addrs l @ a # cpre fs"
      by (induction fs rule: cpost.induct) auto
    with fs ne False show ?thesis by (intro exI [of _ "fs @ [Fr R a c l]"]) (cases fs; auto simp: plug_append x)
  qed
qed simp

text \<open>The new first node is recognised by the place where it is hung.\<close>

lemma hole_first:
  assumes "distinct (addrs (plug fs Leaf))" "fs \<noteq> []"
  shows "hole root fs = (first_of (addrs (plug fs Leaf)), rb_left) \<longleftrightarrow> cpre fs = []"
proof (cases fs)
  case (Cons f gs)
  obtain d a c s where f: "f = Fr d a c s" by (cases f)
  from assms(1) have "distinct (cpre fs @ cpost fs)" by (simp add: addrs_plug)
  then show ?thesis
    unfolding addrs_plug Cons f by (cases d; cases "cpre gs") (auto simp: first_of_def)
qed (use assms(2) in simp)

subsection \<open>Insertion and removal\<close>

lemma rb_insert_place:
  assumes "tree_at root h (plug fs Leaf)" "rbt (plug fs Leaf)" "fresh_node n root (plug fs Leaf) h"
  shows "\<exists>h1 h2. rb_link_node n (cpar fs) (hole root fs) h = Some h1 \<and> rb_insert_color n root h1 = Some h2 \<and>
    rb_seq root h2 (cpre fs @ n # cpost fs) \<and> agree_off (region root (insert n (set (addrs (plug fs Leaf))))) h h2"
proof -
  from rb_insert_at_correct [OF assms] obtain h2 t where
    "rb_insert_at n (cpar fs) (hole root fs) root h = Some h2" and t: "tree_at root h2 t" "rbt t"
      "addrs t = cpre fs @ n # cpost fs" and ag: "agree_off (region root (insert n (caddrs fs))) h h2"
    by (auto simp: addrs_plug)
  then obtain h1 where "rb_link_node n (cpar fs) (hole root fs) h = Some h1" "rb_insert_color n root h1 = Some h2"
    by (auto simp: rb_insert_at_def bind_eq_Some_conv)
  with t ag show ?thesis by (auto simp: rb_seq_def)
qed

definition fresh_timer :: "addr \<Rightarrow> timers \<Rightarrow> addr list \<Rightarrow> bool" where
  "fresh_timer n ts xs \<longleftrightarrow> n \<noteq> NULL \<and> n \<noteq> fst (timeo_tree ts) \<and> n \<notin> set xs \<and> (\<forall>f. tmem ts (n, f) \<noteq> None)"

lemma insert_after_ends:
  assumes "ordered tm xs" "xs \<noteq> []"
  shows "first_of (insert_after tm n xs) = (if takeWhile (\<lambda>a. \<not> the (tm n) < the (tm a)) xs = [] then n else first_of xs)"
    "\<not> the (tm n) < the (tm (last xs)) \<Longrightarrow> insert_after tm n xs = xs @ [n]"
    "the (tm n) < the (tm (last xs)) \<Longrightarrow> last_of (insert_after tm n xs) = last_of xs"
proof -
  let ?P = "\<lambda>a. \<not> the (tm n) < the (tm a)"
  show "first_of (insert_after tm n xs) = (if takeWhile ?P xs = [] then n else first_of xs)"
    using assms(2) by (cases xs) (auto simp: insert_after_def)
  have "the (tm y) \<le> the (tm (last xs))" if "y \<in> set xs" for y
    using assms that append_butlast_last_id [OF assms(2)] ordered_append [of tm "butlast xs" "[last xs]"]
    by (metis in_set_conv_decomp_first last_appendR last_in_set list.set_intros(1) order_refl rotate1.simps(2) set_ConsD set_rotate1)
  then have all: "\<forall>y \<in> set xs. ?P y" if "\<not> the (tm n) < the (tm (last xs))"
    using that less_le_trans by blast
  then show "insert_after tm n xs = xs @ [n]" if "\<not> the (tm n) < the (tm (last xs))"
    using that by (simp add: insert_after_def takeWhile_eq_all_conv [THEN iffD2] dropWhile_eq_Nil_conv [THEN iffD2])
  show "last_of (insert_after tm n xs) = last_of xs" if "the (tm n) < the (tm (last xs))"
  proof -
    have "dropWhile ?P xs \<noteq> []" using that assms(2) by (auto simp: dropWhile_eq_Nil_conv)
    moreover have "last (dropWhile ?P xs) = last xs" using calculation by (metis last_appendR takeWhile_dropWhile_id)
    ultimately show ?thesis using assms(2) by (auto simp: insert_after_def last_of_def)
  qed
qed

text \<open>Hanging the node into its place, with the ends updated.\<close>

lemma hang_timer:
  assumes "tree_at (timeo_tree ts) (tmem ts) t" "rbt t" "ordered tm (addrs t)" "fresh_node n (timeo_tree ts) t (tmem ts)" "tm n = Some u" "valid_time u"
    "plug fs Leaf = t" "cpre fs @ n # cpost fs = insert_after tm n (addrs t)"
    "f = first_of (insert_after tm n (addrs t))" "l = last_of (insert_after tm n (addrs t))"
  shows "\<exists>ts'. (do { h \<leftarrow> rb_link_node n (cpar fs) (hole (timeo_tree ts) fs) (tmem ts); h \<leftarrow> rb_insert_color n (timeo_tree ts) h;
        Some (ts\<lparr>tree_first := f, tree_last := l, tmem := h\<rparr>) }) = Some ts' \<and> timers_at tm ts' (insert_after tm n (addrs t)) \<and>
      timeo_tree ts' = timeo_tree ts \<and> agree_off (region (timeo_tree ts) (insert n (set (addrs t)))) (tmem ts) (tmem ts')"
  using rb_insert_place [of "timeo_tree ts" "tmem ts" fs n] assms ordered_insert_after [OF assms(3,5,6)]
  by (auto simp: timers_at_def)

text \<open>The ends after an insertion before the last entry.\<close>

lemma ends_before_last:
  assumes "ordered tm xs" "xs \<noteq> []" "the (tm n) < the (tm (last xs))" "tree_at root h t" "addrs t = xs" "place tm n [] t fs"
  shows "plug fs Leaf = t" "cpre fs @ n # cpost fs = insert_after tm n xs"
    "(if hole root fs = (first_of xs, rb_left) then n else first_of xs) = first_of (insert_after tm n xs)"
    "last_of xs = last_of (insert_after tm n xs)"
proof -
  from assms(5,6) have fs: "fs \<noteq> []" "plug fs Leaf = t" "cpre fs @ n # cpost fs = insert_after tm n xs"
    "cpre fs = [] \<longleftrightarrow> takeWhile (\<lambda>a. \<not> the (tm n) < the (tm a)) xs = []" by (auto simp: place_def insert_after_def)
  then show "plug fs Leaf = t" "cpre fs @ n # cpost fs = insert_after tm n xs" by blast+
  have "hole root fs = (first_of xs, rb_left) \<longleftrightarrow> cpre fs = []"
    using hole_first [of fs root] fs(1,2) assms(4,5) by (auto simp: tree_at_def)
  then show "(if hole root fs = (first_of xs, rb_left) then n else first_of xs) = first_of (insert_after tm n xs)"
    "last_of xs = last_of (insert_after tm n xs)"
    using insert_after_ends(1,3) [OF assms(1,2), of n] fs(4) assms(3) by auto
qed

lemma poller_tree_insert_correct:
  assumes "timers_at tm ts xs" "fresh_timer n ts xs" "tm n = Some u" "valid_time u"
  shows "\<exists>ts'. poller_tree_insert tm n ts = Some ts' \<and> timers_at tm ts' (insert_after tm n xs) \<and>
    timeo_tree ts' = timeo_tree ts \<and> agree_off (region (timeo_tree ts) (insert n (set xs))) (tmem ts) (tmem ts')"
proof -
  let ?root = "timeo_tree ts" and ?h = "tmem ts"
  from assms(1) obtain t where t: "tree_at ?root ?h t" "rbt t" "addrs t = xs" and o: "ordered tm xs"
    and ends: "tree_first ts = first_of xs" "tree_last ts = last_of xs"
    by (auto simp: timers_at_def rb_seq_def)
  have upd: "ts\<lparr>tree_first := first_of xs, tree_last := l, tmem := h\<rparr> = ts\<lparr>tree_last := l, tmem := h\<rparr>"
    "ts\<lparr>tree_first := f, tree_last := last_of xs, tmem := h\<rparr> = ts\<lparr>tree_first := f, tmem := h\<rparr>"
    "ts\<lparr>tree_first := first_of xs, tmem := h\<rparr> = ts\<lparr>tmem := h\<rparr>" for f l h
    using ends by (cases ts; simp)+
  have fresh: "fresh_node n ?root t ?h" using assms(2) t(3) by (simp add: fresh_timer_def fresh_node_def)
  have top: "load ?root ?h = Some (ptr t)" "ptr t = NULL \<longleftrightarrow> xs = []"
    using t by (auto simp: tree_at_def load_def rep_ptr_eq_NULL)
  have "ordered tm (addrs t)" using o t(3) by simp
  note hang = hang_timer [OF t(1,2) this fresh assms(3,4), unfolded t(3)]
  show ?thesis
  proof (cases "xs = []")
    case True
    with t(3) hang [of "[]" n n] top show ?thesis
      by (simp add: poller_tree_insert_def insert_after_def last_of_def Let_def)
  next
    case False
    then have ne: "t \<noteq> Leaf" using t(3) by auto
    obtain v where "tm (last xs) = Some v" "valid_time v" using o last_in_set [OF False] by (auto simp: ordered_def)
    with cmp_ordered [of tm n u "last xs"] assms(3,4) obtain k where
      k: "cmp tm n (last xs) = Some k" "k < 0 \<longleftrightarrow> the (tm n) < the (tm (last xs))" by blast
    show ?thesis
    proof (cases "k < 0")
      case later: False
      from rightmost_place [OF ne] obtain fs where
        fs: "plug fs Leaf = t" "cpost fs = []" "cpre fs = xs" "cpar fs = last xs" "hole ?root fs = (last xs, rb_right)" using t(3) by blast
      have ia: "insert_after tm n xs = xs @ [n]" using insert_after_ends(2) [OF o False] k later by blast
      from hang [of fs "first_of xs" n] fs ia False top k later ends show ?thesis
        by (simp add: poller_tree_insert_def last_of_def Let_def upd)
    next
      case True
      from descend_correct [of ?root ?h "[]" t tm n u] t o ne assms(3,4) obtain fs where
        d: "descend tm n ?root ?h = Some (cpar fs, hole ?root fs)" and pl: "place tm n [] t fs" by (auto simp: focus_at_Nil)
      have "the (tm n) < the (tm (last xs))" using k(2) True by simp
      note e = ends_before_last [OF o False this t(1,3) pl]
      have "tree_last ts = last xs" using ends(2) False by (simp add: last_of_def)
      with hang [OF e] d top k(1) True ends(1) False show ?thesis
        by (auto simp: poller_tree_insert_def Let_def upd split: if_splits)
    qed
  qed
qed

lemma poller_tree_erase_correct:
  assumes "timers_at tm ts xs" "n \<in> set xs"
  shows "\<exists>ts'. poller_tree_erase n ts = Some ts' \<and> timers_at tm ts' (remove1 n xs) \<and> timeo_tree ts' = timeo_tree ts \<and>
    agree_off (region (timeo_tree ts) (set xs)) (tmem ts) (tmem ts')"
proof -
  let ?root = "timeo_tree ts" and ?h = "tmem ts"
  from assms(1) have s: "rb_seq ?root ?h xs" and o: "ordered tm xs" and ends: "tree_first ts = first_of xs" "tree_last ts = last_of xs"
    by (auto simp: timers_at_def)
  from split_list [OF assms(2)] obtain us vs where xs: "xs = us @ n # vs" by blast
  have d: "n \<notin> set us" "n \<notin> set vs" using rb.seq_nodes [OF s] by (auto simp: xs)
  from rb.nextn [of ?root ?h us n vs] rb.prevn [of ?root ?h us n vs] s xs have
    nx: "rb_next n ?h = Some (first_of vs)" "rb_prev n ?h = Some (last_of us)" by auto
  from rb.erase [OF s assms(2)] obtain h' where h': "rb_erase n ?root ?h = Some h'" "rb_seq ?root h' (us @ vs)"
      "agree_off (region ?root (set xs)) ?h h'" using d by (auto simp: xs remove1_append)
  have f: "n = first_of xs \<longleftrightarrow> us = []" "us \<noteq> [] \<Longrightarrow> first_of xs = first_of (us @ vs)"
    and l: "n = last_of xs \<longleftrightarrow> vs = []" "vs \<noteq> [] \<Longrightarrow> last_of xs = last_of (us @ vs)"
    using d by (cases us; cases vs rule: rev_cases; auto simp: xs last_of_def)+
  have "ordered tm (us @ vs)" using o unfolding xs ordered_append ordered_Cons by auto
  with h' f l nx ends d show ?thesis
    by (cases "us = []"; cases "vs = []") (auto simp: poller_tree_erase_def timers_at_def remove1_append xs)
qed

subsection \<open>The index the poller needs\<close>

text \<open>
  What the rest of the poller relies on: entries ordered by time, entries of equal time in
  the order of their insertion, the earliest one at hand, and removal of any entry.
\<close>

locale timer_index =
  fixes index_at :: "'s \<Rightarrow> addr list \<Rightarrow> bool"
    and key :: "addr \<Rightarrow> timespec"
    and usable :: "addr \<Rightarrow> 's \<Rightarrow> addr list \<Rightarrow> bool"
    and earliest :: "'s \<Rightarrow> addr"
    and add :: "addr \<Rightarrow> 's \<Rightarrow> 's option"
    and del :: "addr \<Rightarrow> 's \<Rightarrow> 's option"
  assumes keyed: "index_at s xs \<Longrightarrow> sorted (map key xs) \<and> distinct xs \<and> NULL \<notin> set xs"
    and earliest: "index_at s xs \<Longrightarrow> earliest s = first_of xs"
    and add: "index_at s xs \<Longrightarrow> usable n s xs \<Longrightarrow> \<exists>s' us vs. add n s = Some s' \<and> index_at s' (us @ n # vs) \<and> us @ vs = xs \<and>
      (\<forall>x \<in> set us. key x \<le> key n) \<and> (\<forall>x \<in> set vs. key n < key x)"
    and del: "index_at s xs \<Longrightarrow> n \<in> set xs \<Longrightarrow> \<exists>s'. del n s = Some s' \<and> index_at s' (remove1 n xs)"
begin

lemma earliest_min: "index_at s xs \<Longrightarrow> x \<in> set xs \<Longrightarrow> key (earliest s) \<le> key x"
  using keyed [of s xs] earliest [of s xs] by (cases xs) auto

lemma add_then_del:
  assumes "index_at s xs" "usable n s xs"
  shows "\<exists>s' s''. add n s = Some s' \<and> del n s' = Some s'' \<and> index_at s'' xs"
proof -
  from add [OF assms] obtain s' us vs where s': "add n s = Some s'" "index_at s' (us @ n # vs)" "us @ vs = xs" by blast
  have "n \<notin> set us" using keyed [OF s'(2)] by auto
  with del [OF s'(2), of n] s' show ?thesis by (auto simp: remove1_append)
qed

text \<open>The entries not later than \<open>limit\<close> are the first ones.\<close>

lemma expired_iff:
  assumes "index_at s xs" "x \<in> set xs"
  shows "x \<in> set (takeWhile (\<lambda>x. key x \<le> limit) xs) \<longleftrightarrow> key x \<le> limit"
proof -
  have "sorted (map key xs)" using keyed [OF assms(1)] by blast
  then show ?thesis
    using assms(2)
  proof (induction xs)
    case (Cons y ys)
    then show ?case by (cases "key y \<le> limit") (auto dest: order_trans)
  qed simp
qed

end

definition timer_key :: "times \<Rightarrow> addr \<Rightarrow> timespec" where
  "timer_key tm a = the (tm a)"

definition usable_timer :: "times \<Rightarrow> addr \<Rightarrow> timers \<Rightarrow> addr list \<Rightarrow> bool" where
  "usable_timer tm n ts xs \<longleftrightarrow> fresh_timer n ts xs \<and> (\<exists>u. tm n = Some u \<and> valid_time u)"

interpretation tree_timers: timer_index "timers_at tm" "timer_key tm" "usable_timer tm" tree_first
  "poller_tree_insert tm" poller_tree_erase for tm
proof
  fix s xs n
  show "timers_at tm s xs \<Longrightarrow> sorted (map (timer_key tm) xs) \<and> distinct xs \<and> NULL \<notin> set xs"
    using rb.seq_nodes [of "timeo_tree s" "tmem s" xs]
    unfolding timers_at_def ordered_def timer_key_def comp_def by blast
  show "timers_at tm s xs \<Longrightarrow> tree_first s = first_of xs" by (simp add: timers_at_def)
  show "timers_at tm s xs \<Longrightarrow> n \<in> set xs \<Longrightarrow> \<exists>s'. poller_tree_erase n s = Some s' \<and> timers_at tm s' (remove1 n xs)"
    using poller_tree_erase_correct by blast
  assume at: "timers_at tm s xs" and "usable_timer tm n s xs"
  then obtain s' where "poller_tree_insert tm n s = Some s'" "timers_at tm s' (insert_after tm n xs)"
    using poller_tree_insert_correct [OF at] by (auto simp: usable_timer_def)
  moreover have "\<forall>x \<in> set (dropWhile (\<lambda>a. \<not> the (tm n) < the (tm a)) xs). the (tm n) < the (tm x)"
    using at dropWhile_later by (auto simp: timers_at_def)
  moreover have "\<forall>x \<in> set (takeWhile (\<lambda>a. \<not> the (tm n) < the (tm a)) xs). the (tm x) \<le> the (tm n)"
    by (auto dest: set_takeWhileD)
  ultimately show "\<exists>s' us vs. poller_tree_insert tm n s = Some s' \<and> timers_at tm s' (us @ n # vs) \<and> us @ vs = xs \<and>
      (\<forall>x \<in> set us. timer_key tm x \<le> timer_key tm n) \<and> (\<forall>x \<in> set vs. timer_key tm n < timer_key tm x)"
    unfolding insert_after_def timer_key_def
    by (intro exI [of _ s'] exI [of _ "takeWhile (\<lambda>a. \<not> the (tm n) < the (tm a)) xs"]
        exI [of _ "dropWhile (\<lambda>a. \<not> the (tm n) < the (tm a)) xs"] conjI) (assumption | rule takeWhile_dropWhile_id)+
qed

subsection \<open>Properties\<close>

text \<open>Three entries with times, the tree of \<open>sample_heap\<close> and a free entry, for the witnesses.\<close>

definition sample_times :: times where
  "sample_times = map_of [(10, Timespec 1 0), (20, Timespec 2 0), (30, Timespec 3 0), (40, Timespec 2 0)]"

definition sample_timers :: timers where
  "sample_timers = \<lparr>timeo_tree = (1, W0), tree_first = 10, tree_last = 30, tmem = sample_heap\<rparr>"

lemma sample_timers_at: "timers_at sample_times sample_timers [10, 20, 30]"
proof -
  have "rb_seq (1, W0) sample_heap [10, 20, 30]" using sample_tree_at by (auto simp: rb_seq_def)
  then show ?thesis
    by (simp add: timers_at_def sample_timers_def ordered_def sample_times_def valid_time_def less_eq_timespec_def last_of_def)
qed

lemma sample_fresh_timer: "fresh_timer 40 sample_timers [10, 20, 30]"
  using sample_fresh by (simp add: fresh_timer_def fresh_node_def sample_timers_def sample_tree_at)

text \<open>
  C15: \<open>__poller_tree_insert\<close> keeps the tree of timeouts a valid red-black tree ordered by
  time, puts the entry after all entries with the same or an earlier time and before all
  later ones, and keeps \<open>tree_first\<close> and \<open>tree_last\<close> the ends of the tree.
\<close>

theorem tree_insert_ordered:
  assumes "timers_at tm ts xs" "fresh_timer n ts xs" "tm n = Some u" "valid_time u"
  shows "\<exists>ts' us vs. poller_tree_insert tm n ts = Some ts' \<and> timers_at tm ts' (us @ n # vs) \<and> us @ vs = xs \<and>
    (\<forall>x \<in> set us. the (tm x) \<le> u) \<and> (\<forall>x \<in> set vs. u < the (tm x))"
  using tree_timers.add [OF assms(1), of n] assms(2-4) by (simp add: usable_timer_def timer_key_def)

theorem tree_insert_ordered_witness:
  "\<exists>ts' us vs. poller_tree_insert sample_times 40 sample_timers = Some ts' \<and> timers_at sample_times ts' (us @ 40 # vs) \<and>
     us @ vs = [10, 20, 30] \<and> (\<forall>x \<in> set us. the (sample_times x) \<le> Timespec 2 0)"
proof -
  have "sample_times 40 = Some (Timespec 2 0)" "valid_time (Timespec 2 0)" by (simp_all add: sample_times_def valid_time_def)
  from tree_insert_ordered [OF sample_timers_at sample_fresh_timer this] show ?thesis by blast
qed

text \<open>
  \<open>__poller_tree_erase\<close> removes exactly the given entry and keeps the tree, its
  order and its two cached ends.
\<close>

theorem tree_erase_removes:
  assumes "timers_at tm ts xs" "n \<in> set xs"
  shows "\<exists>ts'. poller_tree_erase n ts = Some ts' \<and> timers_at tm ts' (remove1 n xs)"
  using tree_timers.del [OF assms] .

theorem tree_erase_removes_witness:
  "\<exists>ts'. poller_tree_erase 10 sample_timers = Some ts' \<and> timers_at sample_times ts' [20, 30] \<and> tree_first ts' = 20"
proof -
  from tree_erase_removes [OF sample_timers_at, of 10] obtain ts' where
    "poller_tree_erase 10 sample_timers = Some ts'" "timers_at sample_times ts' [20, 30]" by auto
  then show ?thesis by (auto simp: timers_at_def)
qed

end
