(* ===== verification/Poller.thy ===== *)
theory Poller
  imports Poller_Tree Kernel_List
begin

section \<open>The poller: descriptors and timers\<close>

text \<open>
  \<open>src/src/kernel/poller.h\<close> and the functions of \<open>poller.cc\<close> that other threads call:
  adding, changing and removing descriptors and timers. The event handlers and the
  thread of the poller are in \<open>Poller_Events\<close>.

  The state is the \<open>struct poller\<close> with the memory it uses: \<open>entries\<close> holds the members
  of the allocated \<open>struct __poller_node\<close>s except the union of \<open>list\<close> and \<open>rb\<close>, whose
  words are the cells of the heap in \<open>ptimers\<close> at the address of the node
  (\<open>list_entry\<close> and \<open>rb_entry\<close> are the identity). \<open>epoll\<close> is the interest list of the
  kernel, with the event mask and the pointer registered for a descriptor; \<open>timer\<close> the
  time the timer descriptor was last set to; \<open>pipe\<close> the pointers written to the pipe and
  not yet read; \<open>results\<close> the nodes given to the callback, with their members at that
  moment. Handing a node to the callback gives its memory away.

  \<open>malloc\<close>, \<open>clock_gettime\<close> and \<open>epoll_ctl\<close> are arguments: the addresses, the time and
  the result they give. \<open>None\<close> is undefined behaviour.
\<close>

subsection \<open>Types and constants\<close>

record poller_data =
  operation :: int
  iovcnt :: nat
  fd :: int
  message :: addr
  ctx :: nat

definition PD_OP_TIMER :: int where "PD_OP_TIMER = 0"
definition PD_OP_READ :: int where "PD_OP_READ = 1"
definition PD_OP_WRITE :: int where "PD_OP_WRITE = 2"
definition PD_OP_LISTEN :: int where "PD_OP_LISTEN = 3"
definition PD_OP_CONNECT :: int where "PD_OP_CONNECT = 4"
definition PD_OP_RECVFROM :: int where "PD_OP_RECVFROM = 5"
definition PD_OP_EVENT :: int where "PD_OP_EVENT = 9"
definition PD_OP_NOTIFY :: int where "PD_OP_NOTIFY = 10"

definition PR_ST_SUCCESS :: int where "PR_ST_SUCCESS = 0"
definition PR_ST_FINISHED :: int where "PR_ST_FINISHED = 1"
definition PR_ST_ERROR :: int where "PR_ST_ERROR = 2"
definition PR_ST_DELETED :: int where "PR_ST_DELETED = 3"
definition PR_ST_MODIFIED :: int where "PR_ST_MODIFIED = 4"
definition PR_ST_STOPPED :: int where "PR_ST_STOPPED = 5"

lemmas op_defs = PD_OP_TIMER_def PD_OP_READ_def PD_OP_WRITE_def PD_OP_LISTEN_def PD_OP_CONNECT_def PD_OP_RECVFROM_def
  PD_OP_EVENT_def PD_OP_NOTIFY_def
lemmas st_defs = PR_ST_SUCCESS_def PR_ST_FINISHED_def PR_ST_ERROR_def PR_ST_DELETED_def PR_ST_MODIFIED_def PR_ST_STOPPED_def

record poller_node =
  pstate :: int
  perror :: int
  pdata :: poller_data
  in_rbtree :: bool
  removed :: bool
  pevent :: nat
  ptimeout :: timespec
  pres :: addr

record poller =
  max_open_files :: "64 word"
  stopped :: bool
  ptimers :: timers
  timeo_list :: addr
  no_timeo_list :: addr
  nodes :: "int \<Rightarrow> addr"
  entries :: "addr \<Rightarrow> poller_node option"
  epoll :: "int \<Rightarrow> (nat \<times> addr) option"
  timer :: timespec
  pipe :: "addr list"
  results :: "(addr \<times> poller_node) list"
  errno :: int

datatype errno_name = EBADF | EMFILE | EINVAL | EEXIST | ENOENT | ETIMEDOUT | EAGAIN | ENFILE | ECONNABORTED

primrec errno_code :: "errno_name \<Rightarrow> int" where
  "errno_code EBADF = 9"
| "errno_code EMFILE = 24"
| "errno_code EINVAL = 22"
| "errno_code EEXIST = 17"
| "errno_code ENOENT = 2"
| "errno_code ETIMEDOUT = 110"
| "errno_code EAGAIN = 11"
| "errno_code ENFILE = 23"
| "errno_code ECONNABORTED = 103"

definition EPOLLIN :: nat where "EPOLLIN = 1"
definition EPOLLOUT :: nat where "EPOLLOUT = 4"
definition EPOLLET :: nat where "EPOLLET = 2 ^ 31"

subsection \<open>Small steps\<close>

definition pmem :: "poller \<Rightarrow> heap" where
  "pmem p = tmem (ptimers p)"

definition set_pmem :: "heap \<Rightarrow> poller \<Rightarrow> poller" where
  "set_pmem h p = p\<lparr>ptimers := (ptimers p)\<lparr>tmem := h\<rparr>\<rparr>"

definition node_times :: "poller \<Rightarrow> times" where
  "node_times p a = map_option ptimeout (entries p a)"

text \<open>Changing members of an allocated node.\<close>

definition upd_node :: "addr \<Rightarrow> (poller_node \<Rightarrow> poller_node) \<Rightarrow> poller \<Rightarrow> poller option" where
  "upd_node a f p = (case entries p a of None \<Rightarrow> None | Some n \<Rightarrow> Some (p\<lparr>entries := (entries p)(a \<mapsto> f n)\<rparr>))"

text \<open>\<open>malloc\<close> gives the node's words, with no particular contents; \<open>free\<close> takes them back.\<close>

definition alloc_cells :: "addr \<Rightarrow> heap \<Rightarrow> heap" where
  "alloc_cells a h = (\<lambda>l. if fst l = a then Some 0 else h l)"

definition drop_cells :: "addr \<Rightarrow> heap \<Rightarrow> heap" where
  "drop_cells a h = (\<lambda>l. if fst l = a then None else h l)"

definition new_entry :: "addr \<Rightarrow> poller_node \<Rightarrow> poller \<Rightarrow> poller" where
  "new_entry a n p = (set_pmem (alloc_cells a (pmem p)) p)\<lparr>entries := (entries p)(a \<mapsto> n)\<rparr>"

definition free_node_mem :: "addr \<Rightarrow> poller \<Rightarrow> poller" where
  "free_node_mem a p = (set_pmem (drop_cells a (pmem p)) p)\<lparr>entries := (entries p)(a := None)\<rparr>"

text \<open>\<open>poller->callback((struct poller_result *)node, poller->context)\<close>\<close>

definition callback :: "addr \<Rightarrow> poller \<Rightarrow> poller option" where
  "callback a p = (case entries p a of
       None \<Rightarrow> None
     | Some n \<Rightarrow> Some ((free_node_mem a p)\<lparr>results := results p @ [(a, n)]\<rparr>))"

definition poller_delete_fd :: "int \<Rightarrow> poller \<Rightarrow> poller" where
  "poller_delete_fd f p = p\<lparr>epoll := (epoll p)(f := None)\<rparr>"

text \<open>
  Where the system accepts the call of \<open>epoll_ctl\<close>: the descriptor with its events and the
  pointer to the node is in the interest list. These are rewritten to what they do.
\<close>

definition poller_add_fd :: "int \<Rightarrow> nat \<Rightarrow> addr \<Rightarrow> poller \<Rightarrow> poller" where
  [simp]: "poller_add_fd f ev node p = p\<lparr>epoll := (epoll p)(f \<mapsto> (ev, node))\<rparr>"

definition poller_modify_fd :: "int \<Rightarrow> nat \<Rightarrow> nat \<Rightarrow> addr \<Rightarrow> poller \<Rightarrow> poller" where
  [simp]: "poller_modify_fd f old_event ev node p = p\<lparr>epoll := (epoll p)(f \<mapsto> (ev, node))\<rparr>"

definition poller_set_timerfd :: "timespec \<Rightarrow> poller \<Rightarrow> poller" where
  "poller_set_timerfd t p = p\<lparr>timer := t\<rparr>"

text \<open>\<open>(size_t)fd >= poller->max_open_files\<close>, and the error it gives.\<close>

definition bad_fd :: "int \<Rightarrow> poller \<Rightarrow> bool" where
  "bad_fd f p \<longleftrightarrow> (of_int f :: 64 word) \<ge> max_open_files p"

definition bad_fd_errno :: "int \<Rightarrow> int" where
  "bad_fd_errno f = errno_code (if f < 0 then EBADF else EMFILE)"

text \<open>\<open>if (node->in_rbtree) __poller_tree_erase(node, poller); else list_delete(&node->list);\<close>\<close>

definition poller_unlink :: "addr \<Rightarrow> poller \<Rightarrow> poller option" where
  "poller_unlink a p = do {
     n \<leftarrow> entries p a;
     if in_rbtree n then do {
       ts \<leftarrow> poller_tree_erase a (ptimers p);
       upd_node a (\<lambda>n. n\<lparr>in_rbtree := False\<rparr>) (p\<lparr>ptimers := ts\<rparr>)
     } else do {
       h \<leftarrow> list_delete a (pmem p);
       Some (set_pmem h p)
     }
   }"

text \<open>\<open>list_add_tail(list->prev, &node->list)\<close>\<close>

definition poller_list_add :: "addr \<Rightarrow> addr \<Rightarrow> poller \<Rightarrow> poller option" where
  "poller_list_add l a p = do { h \<leftarrow> list_add_tail_prev l a (pmem p); Some (set_pmem h p) }"

definition poller_timers_insert :: "addr \<Rightarrow> poller \<Rightarrow> poller option" where
  "poller_timers_insert a p = do {
     ts \<leftarrow> poller_tree_insert (node_times p) a (ptimers p);
     upd_node a (\<lambda>n. n\<lparr>in_rbtree := True\<rparr>) (p\<lparr>ptimers := ts\<rparr>)
   }"

text \<open>
  \<open>__poller_insert_node\<close>: the chain of branches, which gives \<open>end\<close> and whether the function
  goes on, and the last statement.
\<close>

definition insert_branch :: "addr \<Rightarrow> poller \<Rightarrow> (addr \<times> poller \<times> bool) option" where
  "insert_branch a p = do {
     end \<leftarrow> load (timeo_list p, prevf) (pmem p);
     e \<leftarrow> list_empty (timeo_list p) (pmem p);
     if e then do {
       p \<leftarrow> poller_list_add (timeo_list p) a p;
       Some (tree_first (ptimers p), p, True)
     } else do {
       c \<leftarrow> cmp (node_times p) a end;
       if c \<ge> 0 then do { p \<leftarrow> poller_list_add (timeo_list p) a p; Some (end, p, False) }
       else do {
         p \<leftarrow> poller_timers_insert a p;
         if a \<noteq> tree_first (ptimers p) then Some (end, p, False)
         else do { end \<leftarrow> load (timeo_list p, nextf) (pmem p); Some (end, p, True) }
       }
     }
   }"

definition insert_arm :: "addr \<Rightarrow> addr \<Rightarrow> poller \<Rightarrow> poller option" where
  "insert_arm a end p =
     (if tree_first (ptimers p) = NULL then do {
        n \<leftarrow> entries p a;
        Some (poller_set_timerfd (ptimeout n) p)
      } else do {
        c \<leftarrow> cmp (node_times p) a end;
        n \<leftarrow> entries p a;
        Some (if c < 0 then poller_set_timerfd (ptimeout n) p else p)
      })"

definition poller_insert_node :: "addr \<Rightarrow> poller \<Rightarrow> poller option" where
  "poller_insert_node a p = do {
     (end, p, go_on) \<leftarrow> insert_branch a p;
     if go_on then insert_arm a end p else Some p
   }"

text \<open>The list or the timers, by the timeout.\<close>

definition poller_place :: "int \<Rightarrow> addr \<Rightarrow> poller \<Rightarrow> poller option" where
  "poller_place timeout a p = (if timeout \<ge> 0 then poller_insert_node a p else poller_list_add (no_timeo_list p) a p)"

subsection \<open>The operations of the interface\<close>

text \<open>\<open>__poller_data_get_event\<close>: whether a result node is needed (-1 on error) and the events.\<close>

definition poller_data_get_event :: "poller_data \<Rightarrow> int \<times> nat" where
  "poller_data_get_event d =
     (if operation d = PD_OP_READ then (if message d \<noteq> NULL then 1 else 0, Bit_Operations.or EPOLLIN EPOLLET)
      else if operation d = PD_OP_WRITE then (0, Bit_Operations.or EPOLLOUT EPOLLET)
      else if operation d = PD_OP_LISTEN then (1, EPOLLIN)
      else if operation d = PD_OP_CONNECT then (0, Bit_Operations.or EPOLLOUT EPOLLET)
      else if operation d = PD_OP_RECVFROM then (1, Bit_Operations.or EPOLLIN EPOLLET)
      else if operation d = PD_OP_EVENT then (1, Bit_Operations.or EPOLLIN EPOLLET)
      else if operation d = PD_OP_NOTIFY then (1, Bit_Operations.or EPOLLIN EPOLLET)
      else (-1, 0))"

definition blank_node :: poller_node where
  "blank_node = \<lparr>pstate = 0, perror = 0, pdata = \<lparr>operation = 0, iovcnt = 0, fd = 0, message = 0, ctx = 0\<rparr>,
     in_rbtree = False, removed = False, pevent = 0, ptimeout = Timespec 0 0, pres = NULL\<rparr>"

text \<open>
  \<open>__poller_new_node\<close>: the address of the node, \<open>NULL\<close> on failure. \<open>res_mem\<close> and
  \<open>node_mem\<close> are what the two calls of \<open>malloc\<close> give, \<open>now\<close> is the clock. The members
  that the code leaves unset are those of \<open>blank_node\<close>; no operation reads them.
\<close>

definition poller_new_node :: "poller_data \<Rightarrow> int \<Rightarrow> timespec \<Rightarrow> addr \<Rightarrow> addr \<Rightarrow> poller \<Rightarrow> addr \<times> poller" where
  "poller_new_node d timeout now res_mem node_mem p =
     (if bad_fd (fd d) p then (NULL, p\<lparr>errno := bad_fd_errno (fd d)\<rparr>)
      else case poller_data_get_event d of (need_res, ev) \<Rightarrow>
        if need_res < 0 then (NULL, p\<lparr>errno := errno_code EINVAL\<rparr>)
        else if need_res \<noteq> 0 \<and> res_mem = NULL then (NULL, p)
        else
          let p = (if need_res \<noteq> 0 then new_entry res_mem blank_node p else p);
              res = (if need_res \<noteq> 0 then res_mem else NULL)
          in if node_mem = NULL then (NULL, p)
             else (node_mem, new_entry node_mem (blank_node\<lparr>pdata := d, pevent := ev, pres := res,
                     ptimeout := if timeout \<ge> 0 then poller_node_set_timeout now timeout else ptimeout blank_node\<rparr>) p))"

text \<open>\<open>free(node->res); free(node);\<close> on the failing paths, and \<open>free(node->res)\<close> alone.\<close>

definition free_res :: "addr \<Rightarrow> poller \<Rightarrow> poller option" where
  "free_res a p = do { n \<leftarrow> entries p a; Some (if pres n = NULL then p else free_node_mem (pres n) p) }"

definition discard_node :: "addr \<Rightarrow> poller \<Rightarrow> poller option" where
  "discard_node a p = do { p \<leftarrow> free_res a p; Some (free_node_mem a p) }"

definition poller_add ::
  "poller_data \<Rightarrow> int \<Rightarrow> timespec \<Rightarrow> addr \<Rightarrow> addr \<Rightarrow> int \<Rightarrow> poller \<Rightarrow> (int \<times> poller) option" where
  "poller_add d timeout now res_mem node_mem ctl p =
     (case poller_new_node d timeout now res_mem node_mem p of (node, p) \<Rightarrow>
        if node = NULL then Some (-1, p)
        else if nodes p (fd d) = NULL then
          (if ctl \<ge> 0 then do {
             n \<leftarrow> entries p node;
             let p = poller_add_fd (fd d) (pevent n) node p;
             p \<leftarrow> poller_place timeout node p;
             Some (0, p\<lparr>nodes := (nodes p)(fd d := node)\<rparr>)
           } else do { p \<leftarrow> discard_node node p; Some (-1, p) })
        else do { p \<leftarrow> discard_node node (p\<lparr>errno := errno_code EEXIST\<rparr>); Some (-1, p) })"

text \<open>
  How \<open>poller_del\<close> and \<open>poller_mod\<close> pass on the node they took out: over the pipe to the
  thread of the poller, or directly when the poller is stopped.
\<close>

definition hand_over :: "addr \<Rightarrow> int \<Rightarrow> poller \<Rightarrow> poller option" where
  "hand_over a st p = do {
     p \<leftarrow> upd_node a (\<lambda>n. n\<lparr>perror := 0, pstate := st\<rparr>) p;
     if stopped p then Some p
     else do {
       p \<leftarrow> upd_node a (\<lambda>n. n\<lparr>removed := True\<rparr>) p;
       Some (p\<lparr>pipe := pipe p @ [a]\<rparr>)
     }
   }"

definition call_if_stopped :: "addr \<Rightarrow> poller \<Rightarrow> poller option" where
  "call_if_stopped a p = (if stopped p then do { p \<leftarrow> free_res a p; callback a p } else Some p)"

definition poller_del :: "int \<Rightarrow> poller \<Rightarrow> (int \<times> poller) option" where
  "poller_del f p =
     (if bad_fd f p then Some (-1, p\<lparr>errno := bad_fd_errno f\<rparr>)
      else if nodes p f = NULL then Some (-1, p\<lparr>errno := errno_code ENOENT\<rparr>)
      else do {
        let a = nodes p f;
        let p = p\<lparr>nodes := (nodes p)(f := NULL)\<rparr>;
        p \<leftarrow> poller_unlink a p;
        let p = poller_delete_fd f p;
        p \<leftarrow> hand_over a PR_ST_DELETED p;
        p \<leftarrow> call_if_stopped a p;
        Some (0, p)
      })"

definition poller_mod ::
  "poller_data \<Rightarrow> int \<Rightarrow> timespec \<Rightarrow> addr \<Rightarrow> addr \<Rightarrow> int \<Rightarrow> poller \<Rightarrow> (int \<times> poller) option" where
  "poller_mod d timeout now res_mem node_mem ctl p =
     (case poller_new_node d timeout now res_mem node_mem p of (node, p) \<Rightarrow>
        if node = NULL then Some (-1, p)
        else if nodes p (fd d) \<noteq> NULL then
          (if ctl \<ge> 0 then do {
             let orig = nodes p (fd d);
             n \<leftarrow> entries p node;
             old \<leftarrow> entries p orig;
             let p = poller_modify_fd (fd d) (pevent old) (pevent n) node p;
             p \<leftarrow> poller_unlink orig p;
             p \<leftarrow> hand_over orig PR_ST_MODIFIED p;
             p \<leftarrow> poller_place timeout node p;
             let p = p\<lparr>nodes := (nodes p)(fd d := node)\<rparr>;
             p \<leftarrow> call_if_stopped orig p;
             Some (0, p)
           } else do { p \<leftarrow> discard_node node p; Some (-1, p) })
        else do { p \<leftarrow> discard_node node (p\<lparr>errno := errno_code ENOENT\<rparr>); Some (-1, p) })"

definition poller_set_timeout :: "int \<Rightarrow> int \<Rightarrow> timespec \<Rightarrow> poller \<Rightarrow> (int \<times> poller) option" where
  "poller_set_timeout f timeout now p =
     (if bad_fd f p then Some (-1, p\<lparr>errno := bad_fd_errno f\<rparr>)
      else if nodes p f = NULL then Some (-1, p\<lparr>errno := errno_code ENOENT\<rparr>)
      else do {
        let a = nodes p f;
        p \<leftarrow> poller_unlink a p;
        p \<leftarrow> (if timeout \<ge> 0 then upd_node a (\<lambda>n. n\<lparr>ptimeout := poller_node_set_timeout now timeout\<rparr>) p else Some p);
        p \<leftarrow> poller_place timeout a p;
        Some (0, p)
      })"

text \<open>\<open>poller_add_timer\<close>: the result, the address stored in \<open>*timer\<close>, and the state.\<close>

definition poller_add_timer :: "timespec \<Rightarrow> nat \<Rightarrow> timespec \<Rightarrow> addr \<Rightarrow> poller \<Rightarrow> (int \<times> addr \<times> poller) option" where
  "poller_add_timer val c now node_mem p =
     (if node_mem = NULL then Some (-1, NULL, p)
      else do {
        let n = blank_node\<lparr>pdata := \<lparr>operation = PD_OP_TIMER, iovcnt = 0, fd = -1, message = NULL, ctx = c\<rparr>,
                           ptimeout := add_time now (tv_sec val) (tv_nsec val)\<rparr>;
        p \<leftarrow> poller_insert_node node_mem (new_entry node_mem n p);
        Some (0, node_mem, p)
      })"

definition poller_del_timer :: "addr \<Rightarrow> poller \<Rightarrow> (int \<times> poller) option" where
  "poller_del_timer a p = do {
     n \<leftarrow> entries p a;
     if removed n then Some (-1, p\<lparr>errno := errno_code ENOENT\<rparr>)
     else do {
       p \<leftarrow> upd_node a (\<lambda>n. n\<lparr>removed := True\<rparr>) p;
       p \<leftarrow> poller_unlink a p;
       p \<leftarrow> upd_node a (\<lambda>n. n\<lparr>perror := 0, pstate := PR_ST_DELETED\<rparr>) p;
       p \<leftarrow> callback a p;
       Some (0, p)
     }
   }"

subsection \<open>Creation\<close>

text \<open>
  \<open>__poller_create\<close> with the results of \<open>malloc\<close>, \<open>epoll_create\<close>, \<open>timerfd_create\<close> and
  \<open>epoll_ctl\<close>. The struct comes from \<open>malloc\<close>, and nothing sets the pointers \<open>timeo_list\<close>
  and \<open>no_timeo_list\<close> before \<open>list_init\<close> is called on them: \<open>l1\<close> and \<open>l2\<close> are the
  contents they happen to have. \<open>root\<close> is the address of \<open>timeo_tree.rb_node\<close>. The outer
  option is undefined behaviour, the inner one the null pointer of a failure.
\<close>

definition poller_create ::
  "bool \<Rightarrow> bool \<Rightarrow> int \<Rightarrow> int \<Rightarrow> int \<Rightarrow> 64 word \<Rightarrow> addr \<Rightarrow> addr \<Rightarrow> addr \<Rightarrow> heap \<Rightarrow> poller option option" where
  "poller_create nodes_mem poller_mem epfd tfd ctl maxfiles root l1 l2 h =
     (if \<not> nodes_mem \<or> \<not> poller_mem \<or> epfd < 0 \<or> tfd < 0 \<or> ctl < 0 then Some None
      else do {
        h \<leftarrow> store (root, W0) NULL h;
        h \<leftarrow> list_init l1 h;
        h \<leftarrow> list_init l2 h;
        Some (Some \<lparr>max_open_files = maxfiles, stopped = True,
          ptimers = \<lparr>timeo_tree = (root, W0), tree_first = NULL, tree_last = NULL, tmem = h\<rparr>,
          timeo_list = l1, no_timeo_list = l2, nodes = (\<lambda>_. NULL), entries = (\<lambda>_. None), epoll = (\<lambda>_. None),
          timer = Timespec 0 0, pipe = [], results = [], errno = 0\<rparr>)
      })"

text \<open>\<open>__poller_open_pipe\<close> and \<open>poller_start\<close>, with the results of the system calls.\<close>

definition poller_open_pipe :: "int \<Rightarrow> int \<Rightarrow> int" where
  "poller_open_pipe piped ctl = (if piped \<ge> 0 \<and> ctl \<ge> 0 then 0 else -1)"

definition poller_start :: "int \<Rightarrow> int \<Rightarrow> int \<Rightarrow> poller \<Rightarrow> int \<times> poller" where
  "poller_start piped ctl created p =
     (let p = (if poller_open_pipe piped ctl \<ge> 0
               then (if created = 0 then p\<lparr>stopped := False\<rparr> else p\<lparr>errno := created\<rparr>)
               else p)
      in (- (if stopped p then 1 else 0), p))"

subsection \<open>What the operations leave alone\<close>

text \<open>A node keeps its descriptor, its events and its marks.\<close>

definition core :: "poller_node \<Rightarrow> poller_data \<times> bool \<times> nat \<times> addr" where
  "core n = (pdata n, removed n, pevent n, pres n)"

definition same_table :: "poller \<Rightarrow> poller \<Rightarrow> bool" where
  "same_table p p' \<longleftrightarrow> nodes p' = nodes p \<and> epoll p' = epoll p \<and> max_open_files p' = max_open_files p \<and> stopped p' = stopped p \<and>
     timeo_list p' = timeo_list p \<and> no_timeo_list p' = no_timeo_list p \<and> pipe p' = pipe p \<and> results p' = results p \<and>
     map_option core \<circ> entries p' = map_option core \<circ> entries p"

lemma core_upd [simp]:
  "core (n\<lparr>in_rbtree := b\<rparr>) = core n" "core (n\<lparr>ptimeout := t\<rparr>) = core n" "core (n\<lparr>perror := e\<rparr>) = core n" "core (n\<lparr>pstate := e\<rparr>) = core n"
  by (simp_all add: core_def)

lemma same_table_refl [simp]: "same_table p p"
  by (simp add: same_table_def)

lemma same_table_trans [trans]: "same_table p p' \<Longrightarrow> same_table p' p'' \<Longrightarrow> same_table p p''"
  by (simp add: same_table_def)

lemma same_table_upd_node: "upd_node a f p = Some p' \<Longrightarrow> (\<And>n. core (f n) = core n) \<Longrightarrow> same_table p p'"
  by (auto simp: upd_node_def same_table_def fun_eq_iff split: option.splits)

lemma same_table_mem [simp]: "same_table p (set_pmem h p)" "same_table p (p\<lparr>ptimers := ts\<rparr>)" "same_table p (p\<lparr>errno := e\<rparr>)"
    "same_table p (poller_set_timerfd t p)"
  by (simp_all add: same_table_def set_pmem_def poller_set_timerfd_def)

lemma same_table_flag: "upd_node a (\<lambda>n. n\<lparr>in_rbtree := b\<rparr>) (p\<lparr>ptimers := ts\<rparr>) = Some p' \<Longrightarrow> same_table p p'"
  by (rule same_table_trans [OF same_table_mem(2)], erule same_table_upd_node) simp

lemma same_table_unlink: "poller_unlink a p = Some p' \<Longrightarrow> same_table p p'"
  by (auto simp: poller_unlink_def bind_eq_Some_conv split: if_splits dest: same_table_flag)

lemma same_table_list_add: "poller_list_add l a p = Some p' \<Longrightarrow> same_table p p'"
  by (auto simp: poller_list_add_def bind_eq_Some_conv)

lemma same_table_timers_insert: "poller_timers_insert a p = Some p' \<Longrightarrow> same_table p p'"
  by (auto simp: poller_timers_insert_def bind_eq_Some_conv dest: same_table_flag)

lemma same_table_timer [simp]: "same_table p (poller_set_timerfd t p') \<longleftrightarrow> same_table p p'"
  by (simp add: same_table_def poller_set_timerfd_def)

lemma same_table_branch: "insert_branch a p = Some (e, p', b) \<Longrightarrow> same_table p p'"
  by (auto simp: insert_branch_def bind_eq_Some_conv split: if_splits dest!: same_table_list_add same_table_timers_insert)

lemma same_table_arm: "insert_arm a e p = Some p' \<Longrightarrow> same_table p p'"
  by (auto simp: insert_arm_def bind_eq_Some_conv split: if_splits)

lemma same_table_insert_node: "poller_insert_node a p = Some p' \<Longrightarrow> same_table p p'"
  by (auto simp: poller_insert_node_def bind_eq_Some_conv split: if_splits
      dest!: same_table_branch same_table_arm intro: same_table_trans)

lemma same_table_place: "poller_place timeout a p = Some p' \<Longrightarrow> same_table p p'"
  by (auto simp: poller_place_def intro: same_table_insert_node same_table_list_add split: if_splits)

end
