(* ===== verification/Poller_Table.thy ===== *)
theory Poller_Table
  imports Poller
begin

section \<open>The table of descriptors and the kernel's interest list\<close>

text \<open>
  The invariant of \<open>poller->nodes\<close>: an entry for a descriptor is an allocated node of
  that descriptor, not marked removed, and registered with \<open>epoll\<close> under its own address
  and events; a descriptor without an entry is not registered; the result nodes belong
  to one entry each. Every call of the interface keeps it, on every branch.
\<close>

type_synonym cores = "addr \<Rightarrow> (poller_data \<times> bool \<times> nat \<times> addr) option"

definition cores :: "poller \<Rightarrow> cores" where
  "cores p = map_option core \<circ> entries p"

text \<open>\<open>a\<close> is the entry of \<open>f\<close>, \<open>r\<close> its result node.\<close>

definition owns :: "(int \<Rightarrow> addr) \<Rightarrow> cores \<Rightarrow> int \<Rightarrow> addr \<Rightarrow> addr \<Rightarrow> bool" where
  "owns N C f a r \<longleftrightarrow> N f = a \<and> a \<noteq> NULL \<and> (\<exists>d b ev. C a = Some (d, b, ev, r))"

definition tbl_ok :: "64 word \<Rightarrow> (int \<Rightarrow> addr) \<Rightarrow> (int \<Rightarrow> (nat \<times> addr) option) \<Rightarrow> cores \<Rightarrow> bool" where
  "tbl_ok m N E C \<longleftrightarrow>
     (\<forall>f. N f \<noteq> NULL \<longrightarrow> (of_int f :: 64 word) < m \<and>
        (\<exists>d ev r. C (N f) = Some (d, False, ev, r) \<and> fd d = f \<and> E f = Some (ev, N f))) \<and>
     (\<forall>f. N f = NULL \<longrightarrow> E f = None) \<and>
     (\<forall>f a r. owns N C f a r \<and> r \<noteq> NULL \<longrightarrow> C r \<noteq> None \<and> (\<forall>g. N g \<noteq> r)) \<and>
     (\<forall>f g a b r. owns N C f a r \<and> owns N C g b r \<and> r \<noteq> NULL \<longrightarrow> f = g)"

definition table_ok :: "poller \<Rightarrow> bool" where
  "table_ok p \<longleftrightarrow> tbl_ok (max_open_files p) (nodes p) (epoll p) (cores p)"

lemma same_table_ok: "same_table p p' \<Longrightarrow> table_ok p' \<longleftrightarrow> table_ok p"
  by (simp add: table_ok_def same_table_def cores_def)

lemma tbl_okI:
  assumes "\<And>f. N f \<noteq> NULL \<Longrightarrow> (of_int f :: 64 word) < m \<and> (\<exists>d ev r. C (N f) = Some (d, False, ev, r) \<and> fd d = f \<and> E f = Some (ev, N f))"
    "\<And>f. N f = NULL \<Longrightarrow> E f = None"
    "\<And>f a r. owns N C f a r \<Longrightarrow> r \<noteq> NULL \<Longrightarrow> C r \<noteq> None \<and> (\<forall>g. N g \<noteq> r)"
    "\<And>f g a b r. owns N C f a r \<Longrightarrow> owns N C g b r \<Longrightarrow> r \<noteq> NULL \<Longrightarrow> f = g"
  shows "tbl_ok m N E C"
  unfolding tbl_ok_def using assms by blast

lemma tbl_okD:
  assumes "tbl_ok m N E C"
  shows "N f \<noteq> NULL \<Longrightarrow> (of_int f :: 64 word) < m \<and> (\<exists>d ev r. C (N f) = Some (d, False, ev, r) \<and> fd d = f \<and> E f = Some (ev, N f))"
    "N f = NULL \<Longrightarrow> E f = None"
    "owns N C f a r \<Longrightarrow> r \<noteq> NULL \<Longrightarrow> C r \<noteq> None \<and> (\<forall>g. N g \<noteq> r)"
    "owns N C f a r \<Longrightarrow> owns N C g b r \<Longrightarrow> r \<noteq> NULL \<Longrightarrow> f = g"
  using assms unfolding tbl_ok_def by blast+

lemma tbl_inj: "tbl_ok m N E C \<Longrightarrow> N f = N g \<Longrightarrow> N f \<noteq> NULL \<Longrightarrow> f = g"
  using tbl_okD(1) [of m N E C f] tbl_okD(1) [of m N E C g] by (metis Pair_inject option.inject)

lemma tbl_remove:
  assumes "tbl_ok m N E C"
  shows "tbl_ok m (N(f := NULL)) (E(f := None)) C"
proof (rule tbl_okI)
  have o: "owns (N(f := NULL)) C g a r \<Longrightarrow> owns N C g a r" for g a r by (auto simp: owns_def split: if_splits)
  fix g h a b r
  show "(N(f := NULL)) g \<noteq> NULL \<Longrightarrow> (of_int g :: 64 word) < m \<and>
      (\<exists>d ev r. C ((N(f := NULL)) g) = Some (d, False, ev, r) \<and> fd d = g \<and> (E(f := None)) g = Some (ev, (N(f := NULL)) g))"
    using tbl_okD(1) [OF assms, of g] by (auto split: if_splits)
  show "(N(f := NULL)) g = NULL \<Longrightarrow> (E(f := None)) g = None" using tbl_okD(2) [OF assms, of g] by auto
  show "owns (N(f := NULL)) C g a r \<Longrightarrow> r \<noteq> NULL \<Longrightarrow> C r \<noteq> None \<and> (\<forall>g. (N(f := NULL)) g \<noteq> r)"
    using tbl_okD(3) [OF assms o] by auto
  show "owns (N(f := NULL)) C g a r \<Longrightarrow> owns (N(f := NULL)) C h b r \<Longrightarrow> r \<noteq> NULL \<Longrightarrow> g = h"
    using tbl_okD(4) [OF assms o o] by blast
qed

text \<open>A node that is neither an entry nor the result node of one.\<close>

definition outside :: "(int \<Rightarrow> addr) \<Rightarrow> cores \<Rightarrow> addr \<Rightarrow> bool" where
  "outside N C a \<longleftrightarrow> a = NULL \<or> (\<forall>g. N g \<noteq> a) \<and> (\<forall>f b. \<not> owns N C f b a)"

lemma tbl_other:
  assumes "tbl_ok m N E C" "outside N C a"
  shows "tbl_ok m N E (C(a := x))"
proof -
  have o: "owns N (C(a := x)) f b r \<longleftrightarrow> owns N C f b r" for f b r using assms(2) by (cases "b = a") (auto simp: owns_def outside_def)
  have C: "N f \<noteq> NULL \<Longrightarrow> (C(a := x)) (N f) = C (N f)" for f using assms(2) by (auto simp: outside_def)
  have r: "(C(a := x)) r = C r" if "owns N C f b r" "r \<noteq> NULL" for f b r
    using that assms(2) by (auto simp: outside_def)
  show ?thesis
  proof (rule tbl_okI)
    fix f g b c s
    show "N f \<noteq> NULL \<Longrightarrow> (of_int f :: 64 word) < m \<and>
        (\<exists>d ev r. (C(a := x)) (N f) = Some (d, False, ev, r) \<and> fd d = f \<and> E f = Some (ev, N f))"
      using tbl_okD(1) [OF assms(1), of f] C [of f] by simp
    show "N f = NULL \<Longrightarrow> E f = None" by (rule tbl_okD(2) [OF assms(1)])
    show "owns N (C(a := x)) f b s \<Longrightarrow> s \<noteq> NULL \<Longrightarrow> (C(a := x)) s \<noteq> None \<and> (\<forall>g. N g \<noteq> s)"
      using tbl_okD(3) [OF assms(1), of f b s] o r [of f b s] by simp
    show "owns N (C(a := x)) f b s \<Longrightarrow> owns N (C(a := x)) g c s \<Longrightarrow> s \<noteq> NULL \<Longrightarrow> f = g"
      using tbl_okD(4) [OF assms(1), of f b s g c] o by simp
  qed
qed

lemma tbl_fresh: "tbl_ok m N E C \<Longrightarrow> C a = None \<Longrightarrow> outside N C a"
  using tbl_okD(1) [of m N E C] tbl_okD(3) [of m N E C _ _ a] unfolding outside_def by force

lemma tbl_alloc: "tbl_ok m N E C \<Longrightarrow> C a = None \<Longrightarrow> tbl_ok m N E (C(a := x))"
  by (blast intro: tbl_other tbl_fresh)

lemma tbl_add:
  assumes "tbl_ok m N E C" "N (fd d) = NULL" "(of_int (fd d) :: 64 word) < m" "a \<noteq> NULL" "C a = Some (d, False, ev, r)"
    "outside N C a" "outside N C r" "r \<noteq> NULL \<Longrightarrow> r \<noteq> a \<and> C r \<noteq> None"
  shows "tbl_ok m (N(fd d := a)) (E(fd d \<mapsto> (ev, a))) C"
proof (rule tbl_okI)
  have o: "owns (N(fd d := a)) C f b s \<Longrightarrow> (f = fd d \<and> b = a \<and> s = r) \<or> (f \<noteq> fd d \<and> owns N C f b s)" for f b s
    using assms(5) by (auto simp: owns_def split: if_splits)
  fix g h b c s
  show "(N(fd d := a)) g \<noteq> NULL \<Longrightarrow> (of_int g :: 64 word) < m \<and> (\<exists>d' ev' r. C ((N(fd d := a)) g) = Some (d', False, ev', r) \<and>
      fd d' = g \<and> (E(fd d \<mapsto> (ev, a))) g = Some (ev', (N(fd d := a)) g))"
    using tbl_okD(1) [OF assms(1), of g] assms(3,5) by (cases "g = fd d") auto
  show "(N(fd d := a)) g = NULL \<Longrightarrow> (E(fd d \<mapsto> (ev, a))) g = None"
    using tbl_okD(2) [OF assms(1), of g] assms(4) by (auto split: if_splits)
  show "owns (N(fd d := a)) C g b s \<Longrightarrow> s \<noteq> NULL \<Longrightarrow> C s \<noteq> None \<and> (\<forall>g. (N(fd d := a)) g \<noteq> s)"
    using o [of g b s] tbl_okD(3) [OF assms(1), of g b s] assms(4,6,7,8) by (auto simp: outside_def)
  show "owns (N(fd d := a)) C g b s \<Longrightarrow> owns (N(fd d := a)) C h c s \<Longrightarrow> s \<noteq> NULL \<Longrightarrow> g = h"
    using o [of g b s] o [of h c s] tbl_okD(4) [OF assms(1), of g b s h c] assms(7) by (auto simp: outside_def)
qed

subsection \<open>Every call keeps the table\<close>

lemma cores_simps [simp]:
  "cores (p\<lparr>nodes := N\<rparr>) = cores p" "cores (p\<lparr>epoll := E\<rparr>) = cores p" "cores (p\<lparr>errno := e\<rparr>) = cores p"
  "cores (p\<lparr>pipe := q\<rparr>) = cores p" "cores (p\<lparr>results := r\<rparr>) = cores p" "cores (set_pmem h p) = cores p"
  "cores (new_entry a n p) = (cores p)(a \<mapsto> core n)" "cores (free_node_mem a p) = (cores p)(a := None)"
  by (auto simp: cores_def set_pmem_def new_entry_def free_node_mem_def)

lemma cores_entries: "entries p a = Some n \<Longrightarrow> cores p a = Some (core n)"
  by (simp add: cores_def)

lemma set_pmem_fields [simp]: "nodes (set_pmem h p) = nodes p" "epoll (set_pmem h p) = epoll p"
    "max_open_files (set_pmem h p) = max_open_files p" "stopped (set_pmem h p) = stopped p" "entries (set_pmem h p) = entries p"
  by (simp_all add: set_pmem_def)

lemma mem_fields [simp]: "nodes (new_entry a n p) = nodes p" "epoll (new_entry a n p) = epoll p"
    "max_open_files (new_entry a n p) = max_open_files p" "stopped (new_entry a n p) = stopped p"
    "nodes (free_node_mem a p) = nodes p" "epoll (free_node_mem a p) = epoll p"
    "max_open_files (free_node_mem a p) = max_open_files p" "stopped (free_node_mem a p) = stopped p"
  by (simp_all add: new_entry_def free_node_mem_def)

lemma upd_node_cores:
  assumes "upd_node a f p = Some p'"
  obtains n where "entries p a = Some n" "cores p' = (cores p)(a \<mapsto> core (f n))" "nodes p' = nodes p" "epoll p' = epoll p"
    "max_open_files p' = max_open_files p" "stopped p' = stopped p"
  using assms by (auto simp: upd_node_def cores_def fun_eq_iff split: option.splits)

lemma free_res_table:
  assumes "free_res a p = Some p'" "tbl_ok m N E (cores p)" "\<And>d b ev r. cores p a = Some (d, b, ev, r) \<Longrightarrow> outside N (cores p) r"
  shows "tbl_ok m N E (cores p') \<and> nodes p' = nodes p \<and> epoll p' = epoll p \<and> max_open_files p' = max_open_files p \<and> stopped p' = stopped p"
  using assms tbl_other [OF assms(2)] by (auto simp: free_res_def bind_eq_Some_conv cores_entries core_def split: if_splits)

lemma owns_upd: "(\<forall>g. N g \<noteq> a) \<or> a = NULL \<Longrightarrow> owns N (C(a := x)) f b r \<longleftrightarrow> owns N C f b r"
  by (cases "b = a") (auto simp: owns_def)

lemma outside_upd: "outside N C a \<Longrightarrow> outside N (C(a := x)) b \<longleftrightarrow> outside N C b"
  using owns_upd [of N a C x] by (auto simp: outside_def)

text \<open>A node that was the entry of a descriptor, with its result node, after it was taken out.\<close>

lemma tbl_take:
  assumes "tbl_ok m N E C" "N f = a" "a \<noteq> NULL" "C a = Some (d, b, ev, r)"
  shows "outside (N(f := NULL)) C a" "outside (N(f := NULL)) C r"
proof -
  have ow: "owns N C f a r" using assms(2-4) by (auto simp: owns_def)
  have o: "owns (N(f := NULL)) C g c s \<Longrightarrow> owns N C g c s \<and> g \<noteq> f" for g c s by (auto simp: owns_def split: if_splits)
  have "g = f" if "N g = a" for g using tbl_inj [OF assms(1), of g f] that assms(2,3) by simp
  moreover have "\<not> owns N C g c a" for g c using tbl_okD(3) [OF assms(1), of g c a] assms(2,3) by blast
  ultimately have "\<forall>g. (N(f := NULL)) g \<noteq> a" "\<forall>g c. \<not> owns (N(f := NULL)) C g c a"
    using o assms(3) by (auto, blast)
  then show "outside (N(f := NULL)) C a" by (simp add: outside_def)
  have "r \<noteq> NULL \<Longrightarrow> \<forall>g. N g \<noteq> r" using tbl_okD(3) [OF assms(1) ow] by blast
  moreover have "r \<noteq> NULL \<Longrightarrow> \<not> owns (N(f := NULL)) C g c r" for g c
    using o [of g c r] tbl_okD(4) [OF assms(1) ow, of g c] by blast
  ultimately show "outside (N(f := NULL)) C r" by (auto simp: outside_def)
qed

lemma hand_over_table:
  assumes "hand_over a st p = Some p'" "tbl_ok m N E (cores p)" "outside N (cores p) a"
  shows "tbl_ok m N E (cores p')" "nodes p' = nodes p" "epoll p' = epoll p" "max_open_files p' = max_open_files p"
    "stopped p' = stopped p" "\<exists>x. cores p' = (cores p)(a := x)"
    "cores p a = Some (d, b, ev, r) \<Longrightarrow> \<exists>b'. cores p' a = Some (d, b', ev, r)"
proof -
  from assms(1) obtain n where n: "entries p a = Some n" by (auto simp: hand_over_def upd_node_def split: option.splits)
  have *: "cores p' = (cores p)(a \<mapsto> (pdata n, stopped p \<longrightarrow> removed n, pevent n, pres n))" "nodes p' = nodes p" "epoll p' = epoll p"
      "max_open_files p' = max_open_files p" "stopped p' = stopped p"
    using assms(1) n by (auto simp: hand_over_def bind_eq_Some_conv upd_node_def cores_def fun_eq_iff core_def split: if_splits)
  then show "tbl_ok m N E (cores p')" "nodes p' = nodes p" "epoll p' = epoll p" "max_open_files p' = max_open_files p"
    "stopped p' = stopped p" "\<exists>x. cores p' = (cores p)(a := x)"
    "cores p a = Some (d, b, ev, r) \<Longrightarrow> \<exists>b'. cores p' a = Some (d, b', ev, r)"
    using tbl_other [OF assms(2,3)] by (auto simp: cores_entries [OF n] core_def)
qed

lemma call_if_stopped_table:
  assumes "call_if_stopped a p = Some p'" "tbl_ok m N E (cores p)" "outside N (cores p) a"
    "\<And>d b ev r. cores p a = Some (d, b, ev, r) \<Longrightarrow> outside N (cores p) r"
  shows "tbl_ok m N E (cores p') \<and> nodes p' = nodes p \<and> epoll p' = epoll p \<and> max_open_files p' = max_open_files p \<and> stopped p' = stopped p"
proof (cases "stopped p")
  case True
  with assms(1) obtain p1 where 1: "free_res a p = Some p1" "callback a p1 = Some p'" by (auto simp: call_if_stopped_def bind_eq_Some_conv)
  have f: "tbl_ok m N E (cores p1)" "nodes p1 = nodes p" "epoll p1 = epoll p"
    "max_open_files p1 = max_open_files p" "stopped p1 = stopped p"
    using free_res_table [OF 1(1) assms(2)] assms(4) by blast+
  have "outside N (cores p1) a"
    using 1(1) assms(3,4) outside_upd [of N "cores p" _ None a] by (auto simp: free_res_def bind_eq_Some_conv cores_entries core_def split: if_splits)
  with tbl_other [OF f(1)] 1(2) f(2-5) show ?thesis by (auto simp: callback_def split: option.splits)
qed (use assms in \<open>auto simp: call_if_stopped_def\<close>)

lemma poller_del_table:
  assumes "table_ok p" "poller_del f p = Some (r, p')"
  shows "table_ok p'"
proof (cases "bad_fd f p \<or> nodes p f = NULL")
  case True
  with assms show ?thesis by (auto simp: poller_del_def table_ok_def split: if_splits)
next
  case False
  let ?a = "nodes p f"
  from False assms(2) obtain p1 p2 where
    1: "poller_unlink ?a (p\<lparr>nodes := (nodes p)(f := NULL)\<rparr>) = Some p1"
    and 2: "hand_over ?a PR_ST_DELETED (poller_delete_fd f p1) = Some p2" and 3: "call_if_stopped ?a p2 = Some p'"
    by (auto simp: poller_del_def Let_def bind_eq_Some_conv)
  let ?N = "(nodes p)(f := NULL)" and ?E = "(epoll p)(f := None)" and ?m = "max_open_files p"
  from same_table_unlink [OF 1] have s: "cores (poller_delete_fd f p1) = cores p" "nodes (poller_delete_fd f p1) = ?N"
    "epoll (poller_delete_fd f p1) = ?E" "max_open_files (poller_delete_fd f p1) = ?m"
    by (auto simp: same_table_def poller_delete_fd_def cores_def)
  from assms(1) have t: "tbl_ok ?m (nodes p) (epoll p) (cores p)" by (simp add: table_ok_def)
  from tbl_okD(1) [OF t, of f] False obtain d ev r where c: "cores p ?a = Some (d, False, ev, r)" by blast
  from tbl_take [OF t refl _ c] False have out: "outside ?N (cores p) ?a" "outside ?N (cores p) r" by blast+
  note h = hand_over_table [OF 2, unfolded s, OF tbl_remove [OF t] out(1)]
  from h(6) obtain x where x: "cores p2 = (cores p)(?a := x)" by blast
  have o2: "outside ?N (cores p2) ?a" "outside ?N (cores p2) r" using out outside_upd [OF out(1)] by (simp_all add: x)
  from h(7) [OF c] obtain b' where "cores p2 ?a = Some (d, b', ev, r)" by blast
  then have "tbl_ok ?m ?N ?E (cores p') \<and> nodes p' = nodes p2 \<and> epoll p' = epoll p2 \<and> max_open_files p' = max_open_files p2"
    using call_if_stopped_table [OF 3 h(1) o2(1)] o2(2) by auto
  then show ?thesis by (simp add: table_ok_def h)
qed

text \<open>\<open>malloc\<close> gives memory that is not in use.\<close>

definition fresh_mem :: "addr \<Rightarrow> addr \<Rightarrow> poller \<Rightarrow> bool" where
  "fresh_mem rm nm p \<longleftrightarrow> entries p rm = None \<and> entries p nm = None \<and> (rm = nm \<longrightarrow> rm = NULL)"

lemma new_node_table:
  assumes "tbl_ok m (nodes p) E (cores p)" "fresh_mem rm nm p" "poller_new_node d timeout now rm nm p = (a, p1)" "m = max_open_files p"
  shows "tbl_ok m (nodes p) E (cores p1) \<and> nodes p1 = nodes p \<and> epoll p1 = epoll p \<and> max_open_files p1 = m \<and>
    (a \<noteq> NULL \<longrightarrow> (\<exists>ev r. cores p1 a = Some (d, False, ev, r) \<and> (of_int (fd d) :: 64 word) < m \<and>
       outside (nodes p) (cores p1) a \<and> outside (nodes p) (cores p1) r \<and> (r \<noteq> NULL \<longrightarrow> r \<noteq> a \<and> cores p1 r \<noteq> None)))"
proof -
  let ?N = "nodes p" and ?C = "cores p"
  have fr: "?C rm = None" "?C nm = None" using assms(2) by (simp_all add: fresh_mem_def cores_def)
  note alloc = tbl_alloc [OF assms(1)]
  have o: "outside ?N ?C rm" "outside ?N ?C nm" using tbl_fresh [OF assms(1)] fr by blast+
  have two: "tbl_ok m ?N E (?C(rm \<mapsto> x, nm \<mapsto> y))" if "rm \<noteq> nm" for x y
    using tbl_alloc [OF alloc [OF fr(1)], where a = nm] fr that by simp
  have out: "outside ?N (?C(nm \<mapsto> y)) z \<longleftrightarrow> outside ?N ?C z" "outside ?N (?C(rm \<mapsto> x, nm \<mapsto> y)) z \<longleftrightarrow> outside ?N ?C z" for x y z
    using outside_upd [OF o(1)] outside_upd [OF o(2)] outside_upd [where C = "?C(rm \<mapsto> x)" and a = nm] o by simp_all
  have null: "outside ?N ?C NULL" by (simp add: outside_def)
  obtain need ev where ev: "poller_data_get_event d = (need, ev)" by (cases "poller_data_get_event d")
  show ?thesis
  proof (cases "bad_fd (fd d) p \<or> need < 0 \<or> need \<noteq> 0 \<and> rm = NULL \<or> nm = NULL")
    case True
    then show ?thesis
      using assms(1,3,4) ev alloc [OF fr(1)] by (auto simp: poller_new_node_def Let_def split: if_splits)
  next
    case False
    then have lt: "(of_int (fd d) :: 64 word) < m" by (simp add: bad_fd_def assms(4) not_le)
    let ?r = "if need \<noteq> 0 then rm else NULL"
    have a: "a = nm" "nodes p1 = ?N" "epoll p1 = epoll p" "max_open_files p1 = m"
      and c: "cores p1 = (if need \<noteq> 0 then ?C(rm \<mapsto> core blank_node) else ?C)(nm \<mapsto> (d, False, ev, ?r))"
      using False assms(3,4) ev by (auto simp: poller_new_node_def Let_def core_def blank_node_def)
    have ne: "need \<noteq> 0 \<Longrightarrow> rm \<noteq> nm" using False assms(2) by (auto simp: fresh_mem_def)
    have "tbl_ok m ?N E (cores p1)" using c two ne alloc [OF fr(2)] by (cases "need = 0") auto
    moreover have "outside ?N (cores p1) a" "outside ?N (cores p1) ?r"
      using c a(1) o null by (cases "need = 0"; simp only: out if_True if_False not_True_eq_False not_False_eq_True simp_thms)+
    moreover have "cores p1 a = Some (d, False, ev, ?r)" using c a(1) by simp
    moreover have "?r \<noteq> NULL \<longrightarrow> ?r \<noteq> a \<and> cores p1 ?r \<noteq> None" using c a(1) ne by (auto simp: core_def)
    ultimately show ?thesis using a lt by blast
  qed
qed

lemma discard_table:
  assumes "discard_node a p = Some p'" "tbl_ok m N E (cores p)" "outside N (cores p) a"
    "\<And>d b ev r. cores p a = Some (d, b, ev, r) \<Longrightarrow> outside N (cores p) r"
  shows "tbl_ok m N E (cores p') \<and> nodes p' = nodes p \<and> epoll p' = epoll p \<and> max_open_files p' = max_open_files p"
proof -
  from assms(1) obtain p1 where 1: "free_res a p = Some p1" "p' = free_node_mem a p1" by (auto simp: discard_node_def bind_eq_Some_conv)
  have f: "tbl_ok m N E (cores p1)" "nodes p1 = nodes p" "epoll p1 = epoll p" "max_open_files p1 = max_open_files p"
    using free_res_table [OF 1(1) assms(2)] assms(4) by blast+
  have "outside N (cores p1) a"
    using 1(1) assms(3,4) outside_upd [of N "cores p" _ None a] by (auto simp: free_res_def bind_eq_Some_conv cores_entries core_def split: if_splits)
  with tbl_other [OF f(1)] 1(2) f(2-4) show ?thesis by simp
qed

lemma poller_add_table:
  assumes "table_ok p" "fresh_mem rm nm p" "poller_add d timeout now rm nm ctl p = Some (r, p')"
  shows "table_ok p'"
proof -
  obtain a p1 where n: "poller_new_node d timeout now rm nm p = (a, p1)" by (cases "poller_new_node d timeout now rm nm p")
  from new_node_table [OF assms(1) [unfolded table_ok_def] assms(2) n refl] have
    t: "tbl_ok (max_open_files p) (nodes p) (epoll p) (cores p1)"
    and s: "nodes p1 = nodes p" "epoll p1 = epoll p" "max_open_files p1 = max_open_files p"
    and x: "a \<noteq> NULL \<Longrightarrow> \<exists>ev r. cores p1 a = Some (d, False, ev, r) \<and> (of_int (fd d) :: 64 word) < max_open_files p \<and>
       outside (nodes p) (cores p1) a \<and> outside (nodes p) (cores p1) r \<and> (r \<noteq> NULL \<longrightarrow> r \<noteq> a \<and> cores p1 r \<noteq> None)" by blast+
  consider "a = NULL" | "a \<noteq> NULL" "nodes p (fd d) = NULL" "ctl \<ge> 0" | "a \<noteq> NULL" "\<not> (nodes p (fd d) = NULL \<and> ctl \<ge> 0)" by auto
  then show ?thesis
  proof cases
    case 1
    with assms(3) n t s show ?thesis by (auto simp: poller_add_def table_ok_def)
  next
    case 2
    from x [OF 2(1)] obtain ev rs where c: "cores p1 a = Some (d, False, ev, rs)" "(of_int (fd d) :: 64 word) < max_open_files p"
       "outside (nodes p) (cores p1) a" "outside (nodes p) (cores p1) rs" "rs \<noteq> NULL \<Longrightarrow> rs \<noteq> a \<and> cores p1 rs \<noteq> None" by blast
    have ok: "tbl_ok (max_open_files p) ((nodes p)(fd d := a)) ((epoll p)(fd d \<mapsto> (ev, a))) (cores p1)"
      by (rule tbl_add [OF t 2(2) c(2) 2(1) c(1,3,4,5)])
    from c(1) obtain nd where "entries p1 a = Some nd" "pevent nd = ev" by (auto simp: cores_def core_def)
    with assms(3) n 2 s obtain p2 where
      p2: "poller_place timeout a (p1\<lparr>epoll := (epoll p)(fd d \<mapsto> (ev, a))\<rparr>) = Some p2" "p' = p2\<lparr>nodes := (nodes p2)(fd d := a)\<rparr>"
      by (auto simp: poller_add_def Let_def bind_eq_Some_conv)
    from same_table_place [OF p2(1)] s ok p2(2) show ?thesis by (simp add: table_ok_def same_table_def cores_def)
  next
    case 3
    from x [OF 3(1)] have c: "outside (nodes p) (cores p1) a" "\<And>d b ev r. cores p1 a = Some (d, b, ev, r) \<Longrightarrow> outside (nodes p) (cores p1) r" by auto
    from 3 assms(3) n s obtain e where "discard_node a (p1\<lparr>errno := e\<rparr>) = Some p' \<or> discard_node a p1 = Some p'"
      by (auto simp: poller_add_def bind_eq_Some_conv split: if_splits)
    with discard_table [of a "p1\<lparr>errno := e\<rparr>" p'] discard_table [of a p1 p'] t c s show ?thesis by (auto simp: table_ok_def)
  qed
qed

lemma poller_set_timeout_table:
  assumes "table_ok p" "poller_set_timeout f timeout now p = Some (r, p')"
  shows "table_ok p'"
proof (cases "bad_fd f p \<or> nodes p f = NULL")
  case True
  with assms show ?thesis by (auto simp: poller_set_timeout_def table_ok_def split: if_splits)
next
  case False
  let ?a = "nodes p f" and ?g = "\<lambda>n. n\<lparr>ptimeout := poller_node_set_timeout now timeout\<rparr>"
  from False assms(2) obtain p1 p2 where 1: "poller_unlink ?a p = Some p1"
    and 2: "(if timeout \<ge> 0 then upd_node ?a ?g p1 else Some p1) = Some p2" and 3: "poller_place timeout ?a p2 = Some p'"
    by (auto simp: poller_set_timeout_def Let_def bind_eq_Some_conv)
  have "same_table p1 p2" using 2 same_table_upd_node [of ?a ?g p1 p2] by (auto split: if_splits)
  with same_table_unlink [OF 1] same_table_place [OF 3] have "same_table p p'" by (blast intro: same_table_trans)
  with assms(1) show ?thesis by (simp add: same_table_ok)
qed

lemma owns_del: "owns (N(f := NULL)) C g b z \<Longrightarrow> owns N C g b z"
  by (auto simp: owns_def split: if_splits)

lemma owns_add: "owns (N(f := a)) C g b z \<Longrightarrow> C a = Some (d, c, ev, r) \<Longrightarrow> z = r \<or> owns N C g b z"
  by (auto simp: owns_def split: if_splits)

lemma outside_del: "outside N C z \<Longrightarrow> outside (N(f := NULL)) C z"
  unfolding outside_def using owns_del by (metis fun_upd_apply)

lemma outside_add: "outside N C z \<Longrightarrow> a \<noteq> z \<Longrightarrow> C a = Some (d, b, ev, r) \<Longrightarrow> r \<noteq> z \<Longrightarrow> outside (N(f := a)) C z"
  unfolding outside_def using owns_add by (metis fun_upd_apply)

text \<open>Another node takes the place of the node of \<open>f\<close>, which changed only itself.\<close>

lemma tbl_replace:
  assumes "tbl_ok m N E C" "N (fd d) \<noteq> NULL" "C (N (fd d)) = Some (od, False, oev, ors)"
    and new: "C a = Some (d, False, ev, rs)" "a \<noteq> NULL" "(of_int (fd d) :: 64 word) < m" "outside N C a" "outside N C rs" "rs \<noteq> NULL \<Longrightarrow> rs \<noteq> a \<and> C rs \<noteq> None"
    and old: "tbl_ok m (N(fd d := NULL)) (E(fd d := None)) C'" "C' = C(N (fd d) := y)"
  shows "tbl_ok m (N(fd d := a)) (E(fd d \<mapsto> (ev, a))) C'" "outside (N(fd d := a)) C' (N (fd d))" "outside (N(fd d := a)) C' ors"
proof -
  let ?N = "N(fd d := NULL)"
  note out = tbl_take [OF assms(1) refl assms(2,3)]
  have "owns N C (fd d) (N (fd d)) ors" using assms(2,3) by (auto simp: owns_def)
  then have ne: "a \<noteq> N (fd d)" "a \<noteq> ors" "rs \<noteq> N (fd d)" "rs = ors \<Longrightarrow> ors = NULL"
    using new(2,4,5) assms(2) by (auto simp: outside_def)
  have o: "outside ?N C' z" if "outside ?N C z" for z using that outside_upd [OF out(1)] by (simp add: old(2))
  have c: "C' a = Some (d, False, ev, rs)" using new(1) ne(1) by (simp add: old(2))
  have "tbl_ok m (?N(fd d := a)) ((E(fd d := None))(fd d \<mapsto> (ev, a))) C'"
    using new(6) ne(3) by (intro tbl_add [OF old(1) _ new(3,2) c o [OF outside_del [OF new(4)]] o [OF outside_del [OF new(5)]]]) (auto simp: old(2))
  then show "tbl_ok m (N(fd d := a)) (E(fd d \<mapsto> (ev, a))) C'" by simp
  show "outside (N(fd d := a)) C' (N (fd d))" using outside_add [OF o [OF out(1)] ne(1) c ne(3), of "fd d"] by simp
  show "outside (N(fd d := a)) C' ors"
  proof (cases "rs = ors")
    case True
    with ne(4) have "ors = NULL" by blast
    then show ?thesis by (simp add: outside_def)
  next
    case False
    then show ?thesis using outside_add [OF o [OF out(2)] ne(2) c, of "fd d"] by simp
  qed
qed

lemma poller_mod_table:
  assumes "table_ok p" "fresh_mem rm nm p" "poller_mod d timeout now rm nm ctl p = Some (r, p')"
  shows "table_ok p'"
proof -
  obtain a p1 where n: "poller_new_node d timeout now rm nm p = (a, p1)" by (cases "poller_new_node d timeout now rm nm p")
  let ?m = "max_open_files p" and ?f = "fd d" and ?o = "nodes p (fd d)"
  from new_node_table [OF assms(1) [unfolded table_ok_def] assms(2) n refl] have
    t: "tbl_ok ?m (nodes p) (epoll p) (cores p1)"
    and s: "nodes p1 = nodes p" "epoll p1 = epoll p" "max_open_files p1 = ?m"
    and x: "a \<noteq> NULL \<Longrightarrow> \<exists>ev r. cores p1 a = Some (d, False, ev, r) \<and> (of_int ?f :: 64 word) < ?m \<and>
       outside (nodes p) (cores p1) a \<and> outside (nodes p) (cores p1) r \<and> (r \<noteq> NULL \<longrightarrow> r \<noteq> a \<and> cores p1 r \<noteq> None)" by blast+
  consider "a = NULL" | "a \<noteq> NULL" "?o \<noteq> NULL" "ctl \<ge> 0" | "a \<noteq> NULL" "\<not> (?o \<noteq> NULL \<and> ctl \<ge> 0)" by auto
  then show ?thesis
  proof cases
    case 1
    with assms(3) n t s show ?thesis by (auto simp: poller_mod_def table_ok_def)
  next
    case 2
    from x [OF 2(1)] obtain ev rs where c: "cores p1 a = Some (d, False, ev, rs)" "(of_int ?f :: 64 word) < ?m"
       "outside (nodes p) (cores p1) a" "outside (nodes p) (cores p1) rs" "rs \<noteq> NULL \<Longrightarrow> rs \<noteq> a \<and> cores p1 rs \<noteq> None" by blast
    from c(1) obtain nd where nd: "entries p1 a = Some nd" "pevent nd = ev" by (auto simp: cores_def core_def)
    let ?N = "(nodes p)(?f := NULL)" and ?E = "(epoll p)(?f := None)"
    from tbl_okD(1) [OF t 2(2)] obtain od oev ors where oc: "cores p1 ?o = Some (od, False, oev, ors)" by blast
    note out = tbl_take [OF t refl 2(2) oc]
    have a: "a \<noteq> NULL" and o: "?o \<noteq> NULL" using 2 by simp_all
    from assms(3) n 2 s nd obtain p2 p3 p4 where
      2: "poller_unlink ?o (p1\<lparr>epoll := (epoll p)(?f \<mapsto> (ev, a))\<rparr>) = Some p2" "hand_over ?o PR_ST_MODIFIED p2 = Some p3"
        "poller_place timeout a p3 = Some p4" "call_if_stopped ?o (p4\<lparr>nodes := (nodes p4)(?f := a)\<rparr>) = Some p'"
      by (auto simp: poller_mod_def Let_def bind_eq_Some_conv)
    have p2: "cores p2 = cores p1" "nodes p2 = nodes p" "epoll p2 = (epoll p)(?f \<mapsto> (ev, a))" "max_open_files p2 = ?m"
      using same_table_unlink [OF 2(1)] s by (auto simp: same_table_def cores_def)
    note h = hand_over_table [OF 2(2), unfolded p2, OF tbl_remove [OF t, of ?f] out(1)]
    from h(6) obtain y where y: "cores p3 = (cores p1)(?o := y)" by blast
    from h(7) [OF oc] obtain b' where b': "cores p3 ?o = Some (od, b', oev, ors)" by blast
    have p4: "cores p4 = cores p3" "nodes p4 = nodes p" "epoll p4 = (epoll p)(?f \<mapsto> (ev, a))" "max_open_files p4 = ?m"
      using same_table_place [OF 2(3)] h(2-4) p2 by (auto simp: same_table_def cores_def)
    from tbl_replace [OF t o oc c(1) a c(2-5) h(1) y] show ?thesis
      using call_if_stopped_table [OF 2(4), of ?m "(nodes p)(?f := a)" "(epoll p)(?f \<mapsto> (ev, a))"] b'
      by (auto simp: table_ok_def p4)
  next
    case 3
    from x [OF 3(1)] have c: "outside (nodes p) (cores p1) a" "\<And>d b ev r. cores p1 a = Some (d, b, ev, r) \<Longrightarrow> outside (nodes p) (cores p1) r" by auto
    from 3 assms(3) n s obtain e where "discard_node a (p1\<lparr>errno := e\<rparr>) = Some p' \<or> discard_node a p1 = Some p'"
      by (auto simp: poller_mod_def bind_eq_Some_conv split: if_splits)
    with discard_table [of a "p1\<lparr>errno := e\<rparr>" p'] discard_table [of a p1 p'] t c s show ?thesis by (auto simp: table_ok_def)
  qed
qed

lemma poller_add_timer_table:
  assumes "table_ok p" "fresh_mem NULL nm p" "poller_add_timer val c now nm p = Some (r, a, p')"
  shows "table_ok p'"
proof (cases "nm = NULL")
  case True
  with assms(1,3) show ?thesis by (simp add: poller_add_timer_def)
next
  case False
  with assms(3) obtain n where "poller_insert_node nm (new_entry nm n p) = Some p'"
    by (auto simp: poller_add_timer_def Let_def bind_eq_Some_conv)
  moreover have "table_ok (new_entry nm n p)"
  proof -
    have "cores p nm = None" using assms(2) by (simp add: fresh_mem_def cores_def)
    from tbl_alloc [OF assms(1) [unfolded table_ok_def] this] show ?thesis by (simp add: table_ok_def)
  qed
  ultimately show ?thesis using same_table_insert_node same_table_ok by blast
qed

text \<open>A timer node is no entry of the table, nor a result node of one.\<close>

lemma poller_del_timer_table:
  assumes "table_ok p" "outside (nodes p) (cores p) a" "poller_del_timer a p = Some (r, p')"
  shows "table_ok p'"
proof -
  from assms(3) obtain n where n: "entries p a = Some n" by (auto simp: poller_del_timer_def bind_eq_Some_conv)
  show ?thesis
  proof (cases "removed n")
    case True
    with assms(1,3) n show ?thesis by (auto simp: poller_del_timer_def table_ok_def)
  next
    case False
    with assms(3) n obtain p1 p2 p3 where
      1: "upd_node a (\<lambda>n. n\<lparr>removed := True\<rparr>) p = Some p1" "poller_unlink a p1 = Some p2"
        "upd_node a (\<lambda>n. n\<lparr>perror := 0, pstate := PR_ST_DELETED\<rparr>) p2 = Some p3" "callback a p3 = Some p'"
      by (auto simp: poller_del_timer_def bind_eq_Some_conv)
    from 1(1) obtain x where x: "cores p1 = (cores p)(a := x)" "nodes p1 = nodes p" "epoll p1 = epoll p" "max_open_files p1 = max_open_files p"
      by (rule upd_node_cores) auto
    have "same_table p1 p3"
      using same_table_trans [OF same_table_unlink [OF 1(2)] same_table_upd_node [OF 1(3)]] by simp
    then have p3: "cores p3 = (cores p)(a := x)" "nodes p3 = nodes p" "epoll p3 = epoll p" "max_open_files p3 = max_open_files p"
      using x by (auto simp: same_table_def cores_def)
    have "cores p' = (cores p)(a := None)" "nodes p' = nodes p" "epoll p' = epoll p" "max_open_files p' = max_open_files p"
      using 1(4) p3 by (auto simp: callback_def split: option.splits)
    with tbl_other [OF _ assms(2), of _ _ None] assms(1) show ?thesis by (simp add: table_ok_def)
  qed
qed

subsection \<open>Runs\<close>

inductive api_step :: "poller \<Rightarrow> poller \<Rightarrow> bool" where
  add: "fresh_mem rm nm p \<Longrightarrow> poller_add d timeout now rm nm ctl p = Some (r, p') \<Longrightarrow> api_step p p'"
| del: "poller_del f p = Some (r, p') \<Longrightarrow> api_step p p'"
| mod: "fresh_mem rm nm p \<Longrightarrow> poller_mod d timeout now rm nm ctl p = Some (r, p') \<Longrightarrow> api_step p p'"
| set_timeout: "poller_set_timeout f timeout now p = Some (r, p') \<Longrightarrow> api_step p p'"
| add_timer: "fresh_mem NULL nm p \<Longrightarrow> poller_add_timer val c now nm p = Some (r, a, p') \<Longrightarrow> api_step p p'"
| del_timer: "outside (nodes p) (cores p) a \<Longrightarrow> poller_del_timer a p = Some (r, p') \<Longrightarrow> api_step p p'"
| start: "poller_start piped ctl created p = (r, p') \<Longrightarrow> api_step p p'"

inductive api_run :: "poller \<Rightarrow> bool" where
  created: "poller_create True True epfd tfd ctl maxfiles root l1 l2 h = Some (Some p) \<Longrightarrow> api_run p"
| step: "api_run p \<Longrightarrow> api_step p p' \<Longrightarrow> api_run p'"

lemma api_step_table: "api_step p p' \<Longrightarrow> table_ok p \<Longrightarrow> table_ok p'"
proof (induction rule: api_step.induct)
  case (start piped ctl created p r p')
  then show ?case by (auto simp: poller_start_def Let_def table_ok_def cores_def split: if_splits)
qed (blast intro: poller_add_table poller_del_table poller_mod_table poller_set_timeout_table poller_add_timer_table
    poller_del_timer_table)+

lemma api_run_table: "api_run p \<Longrightarrow> table_ok p"
proof (induction rule: api_run.induct)
  case (created epfd tfd ctl maxfiles root l1 l2 h p)
  then show ?case
    by (auto simp: poller_create_def bind_eq_Some_conv table_ok_def tbl_ok_def cores_def owns_def split: if_splits)
qed (rule api_step_table)

subsection \<open>Properties\<close>

text \<open>A poller created over three list words and a root word, for the witnesses.\<close>

definition poller_heap :: heap where
  "poller_heap = map_of [((1, W0), 0), ((2, nextf), 0), ((2, prevf), 0), ((3, nextf), 0), ((3, prevf), 0)]"

definition poller_heap' :: heap where
  "poller_heap' = map_of [((1, W0), 0), ((2, nextf), 2), ((2, prevf), 2), ((3, nextf), 3), ((3, prevf), 3)]"

definition sample_poller :: poller where
  "sample_poller = \<lparr>max_open_files = 64, stopped = True,
     ptimers = \<lparr>timeo_tree = (1, W0), tree_first = NULL, tree_last = NULL, tmem = poller_heap'\<rparr>,
     timeo_list = 2, no_timeo_list = 3, nodes = (\<lambda>_. NULL), entries = (\<lambda>_. None), epoll = (\<lambda>_. None),
     timer = Timespec 0 0, pipe = [], results = [], errno = 0\<rparr>"

lemma sample_poller_created: "poller_create True True 3 4 0 64 1 2 3 poller_heap = Some (Some sample_poller)"
  by (auto simp: poller_create_def list_init_def store_def poller_heap_def poller_heap'_def sample_poller_def fun_eq_iff)

definition sample_data :: poller_data where
  "sample_data = \<lparr>operation = PD_OP_WRITE, iovcnt = 1, fd = 5, message = 500, ctx = 0\<rparr>"

lemma sample_add: "\<exists>p. poller_add sample_data (-1) (Timespec 0 0) 0 20 0 sample_poller = Some (0, p) \<and> nodes p 5 = 20"
  by (simp add: poller_add_def poller_new_node_def bad_fd_def sample_poller_def sample_data_def poller_data_get_event_def op_defs
      new_entry_def set_pmem_def pmem_def alloc_cells_def poller_place_def poller_list_add_def list_add_tail_prev_def list_add_tail_def
      list_empty_def add_to_empty_def load_def store_def poller_heap'_def Let_def)

lemma sample_api_run: "\<exists>p. api_run p \<and> nodes p 5 = 20"
proof -
  have "api_run sample_poller" by (rule created [OF sample_poller_created])
  moreover have "fresh_mem 0 20 sample_poller" by (simp add: fresh_mem_def sample_poller_def)
  ultimately show ?thesis using sample_add by (blast intro: api_run.step api_step.add)
qed

text \<open>
  \<open>poller_add\<close> on its failing branches returns -1 with the error of the branch and
  leaves the table, the registrations and all other nodes as they were: a descriptor out
  of range, an unknown operation, a descriptor that is already there.
\<close>

theorem poller_add_errors:
  assumes "fresh_mem rm nm p" "rm \<noteq> NULL" "nm \<noteq> NULL"
    "bad_fd (fd d) p \<or> fst (poller_data_get_event d) < 0 \<or> nodes p (fd d) \<noteq> NULL"
  shows "\<exists>p'. poller_add d timeout now rm nm ctl p = Some (-1, p') \<and> nodes p' = nodes p \<and> epoll p' = epoll p \<and>
    entries p' = entries p \<and>
    errno p' = (if bad_fd (fd d) p then errno_code (if fd d < 0 then EBADF else EMFILE)
      else errno_code (if fst (poller_data_get_event d) < 0 then EINVAL else EEXIST))"
proof -
  obtain need ev where ev: "poller_data_get_event d = (need, ev)" by (cases "poller_data_get_event d")
  have fr: "entries p rm = None" "entries p nm = None" "rm \<noteq> nm" using assms(1-3) by (auto simp: fresh_mem_def)
  show ?thesis
  proof (cases "bad_fd (fd d) p \<or> need < 0")
    case True
    with ev show ?thesis by (auto simp: poller_add_def poller_new_node_def bad_fd_errno_def)
  next
    case False
    with assms(4) ev have "nodes p (fd d) \<noteq> NULL" by simp
    with False ev assms(2,3) fr show ?thesis
      by (auto simp: poller_add_def poller_new_node_def Let_def discard_node_def free_res_def new_entry_def free_node_mem_def
          set_pmem_def blank_node_def fun_eq_iff)
  qed
qed

theorem poller_add_errors_witness:
  "\<exists>p'. poller_add (sample_data\<lparr>fd := -1\<rparr>) 0 (Timespec 0 0) 10 20 0 sample_poller = Some (-1, p') \<and> errno p' = 9"
proof -
  have "bad_fd (fd (sample_data\<lparr>fd := -1\<rparr>)) sample_poller" by (simp add: bad_fd_def sample_poller_def)
  moreover have "fresh_mem 10 20 sample_poller" by (simp add: fresh_mem_def sample_poller_def)
  ultimately show ?thesis using poller_add_errors [of 10 20 sample_poller "sample_data\<lparr>fd := -1\<rparr>" 0 "Timespec 0 0" 0] by auto
qed

text \<open>A poller with the three timers of \<open>sample_heap\<close> in its tree, for the witnesses.\<close>

definition timer_node :: "int \<Rightarrow> timespec \<Rightarrow> poller_node" where
  "timer_node f t = blank_node\<lparr>pdata := sample_data\<lparr>fd := f\<rparr>, in_rbtree := True, ptimeout := t\<rparr>"

definition tree_poller :: poller where
  "tree_poller = sample_poller\<lparr>stopped := False, ptimers := sample_timers,
     nodes := (\<lambda>f. if f = 5 then 10 else if f = 6 then 20 else if f = 7 then 30 else NULL),
     entries := [10 \<mapsto> timer_node 5 (Timespec 1 0), 20 \<mapsto> timer_node 6 (Timespec 2 0), 30 \<mapsto> timer_node 7 (Timespec 3 0),
       40 \<mapsto> timer_node 8 (Timespec 2 0)],
     epoll := [5 \<mapsto> (0, 10), 6 \<mapsto> (0, 20), 7 \<mapsto> (0, 30)]\<rparr>"

lemma tree_poller_times: "node_times tree_poller = sample_times"
  by (auto simp: fun_eq_iff node_times_def tree_poller_def timer_node_def sample_times_def)

lemma tree_poller_at: "timers_at (node_times tree_poller) (ptimers tree_poller) [10, 20, 30]"
  unfolding tree_poller_times using sample_timers_at by (simp add: tree_poller_def)

text \<open>
  \<open>poller_del\<close> on a running poller, for a descriptor whose node is in the tree of
  timeouts: it returns 0, clears the entry and the registration, takes the node (and no
  other) out of the tree, and sends it over the pipe once, marked removed and with state
  \<open>PR_ST_DELETED\<close>.
\<close>

theorem poller_del_sends_deleted:
  assumes "\<not> bad_fd f p" "nodes p f = a" "a \<noteq> NULL" "\<not> stopped p" "entries p a = Some n" "in_rbtree n"
    "timers_at (node_times p) (ptimers p) xs" "a \<in> set xs"
  shows "\<exists>p'. poller_del f p = Some (0, p') \<and> nodes p' = (nodes p)(f := NULL) \<and> epoll p' = (epoll p)(f := None) \<and>
    pipe p' = pipe p @ [a] \<and> results p' = results p \<and>
    entries p' a = Some (n\<lparr>in_rbtree := False, perror := 0, pstate := PR_ST_DELETED, removed := True\<rparr>) \<and>
    timers_at (node_times p') (ptimers p') (remove1 a xs)"
proof -
  from poller_tree_erase_correct [OF assms(7,8)] obtain ts where
    ts: "poller_tree_erase a (ptimers p) = Some ts" "timers_at (node_times p) ts (remove1 a xs)" by blast
  let ?n = "n\<lparr>in_rbtree := False, perror := 0, pstate := PR_ST_DELETED, removed := True\<rparr>"
  let ?p = "p\<lparr>nodes := (nodes p)(f := NULL), ptimers := ts, entries := (entries p)(a \<mapsto> ?n), epoll := (epoll p)(f := None),
     pipe := pipe p @ [a]\<rparr>"
  have "poller_del f p = Some (0, ?p)"
    using assms(1-6) ts(1)
    by (simp add: poller_del_def Let_def poller_unlink_def upd_node_def poller_delete_fd_def hand_over_def call_if_stopped_def)
  moreover have "node_times ?p = node_times p" using assms(5) by (auto simp: node_times_def fun_eq_iff)
  ultimately show ?thesis using ts(2) by simp
qed

theorem poller_del_sends_deleted_witness:
  "\<exists>p'. poller_del 6 tree_poller = Some (0, p') \<and> pipe p' = [20] \<and> nodes p' 6 = NULL \<and> tree_first (ptimers p') = 10"
proof -
  have "\<not> bad_fd 6 tree_poller" "nodes tree_poller 6 = 20" "\<not> stopped tree_poller" "entries tree_poller 20 = Some (timer_node 6 (Timespec 2 0))"
    by (simp_all add: bad_fd_def tree_poller_def sample_poller_def)
  moreover have "in_rbtree (timer_node 6 (Timespec 2 0))" by (simp add: timer_node_def)
  ultimately obtain p' where "poller_del 6 tree_poller = Some (0, p')" "pipe p' = pipe tree_poller @ [20]"
      "nodes p' = (nodes tree_poller)(6 := NULL)" "timers_at (node_times p') (ptimers p') (remove1 20 [10, 20, 30])"
    using poller_del_sends_deleted [of 6 tree_poller 20 _ "[10, 20, 30]"] tree_poller_at by auto
  then show ?thesis by (auto simp: timers_at_def tree_poller_def sample_poller_def)
qed

end
