(* ===== verification/Poller_Own.thy ===== *)
theory Poller_Own
  imports Poller_Table
begin

section \<open>Who holds a node\<close>

text \<open>
  A node that was given to \<open>poller_add\<close> or \<open>poller_mod\<close> is afterwards in exactly one place: in
  the table, in the pipe, or handed to the callback for good. This theory has the invariant
  and shows that the calls of the interface keep it; \<open>Poller_Runs\<close> adds the thread of the
  poller.
\<close>

subsection \<open>What a node is marked with\<close>

definition marks :: "poller \<Rightarrow> addr \<Rightarrow> ((poller_data \<times> bool \<times> nat \<times> addr) \<times> int) option" where
  "marks p a = map_option (\<lambda>n. (core n, pstate n)) (entries p a)"

lemma cores_marks: "cores p a = map_option fst (marks p a)"
  by (simp add: cores_def marks_def option.map_comp comp_def)

lemma marks_None [simp]: "marks p a = None \<longleftrightarrow> entries p a = None"
  by (simp add: marks_def)

lemma marks_simps [simp]:
  "marks (p\<lparr>nodes := N\<rparr>) = marks p" "marks (p\<lparr>epoll := E\<rparr>) = marks p" "marks (p\<lparr>errno := e\<rparr>) = marks p"
  "marks (p\<lparr>pipe := q\<rparr>) = marks p" "marks (p\<lparr>results := r\<rparr>) = marks p" "marks (set_pmem h p) = marks p" "marks (p\<lparr>ptimers := ts\<rparr>) = marks p"
  "marks (p\<lparr>timer := t\<rparr>) = marks p" "marks (poller_set_timerfd t p) = marks p" "marks (poller_delete_fd f p) = marks p"
  "marks (new_entry a n p) = (marks p)(a \<mapsto> (core n, pstate n))" "marks (free_node_mem a p) = (marks p)(a := None)"
  by (auto simp: marks_def fun_eq_iff set_pmem_def new_entry_def free_node_mem_def poller_set_timerfd_def poller_delete_fd_def)

lemma pipe_results_simps [simp]:
  "pipe (set_pmem h p) = pipe p" "pipe (new_entry a n p) = pipe p" "pipe (free_node_mem a p) = pipe p" "pipe (poller_delete_fd f p) = pipe p"
  "results (set_pmem h p) = results p" "results (new_entry a n p) = results p" "results (free_node_mem a p) = results p"
  "results (poller_delete_fd f p) = results p" "nodes (poller_delete_fd f p) = nodes p" "nodes (poller_set_timerfd t p) = nodes p"
  "stopped (poller_set_timerfd t p) = stopped p" "stopped (poller_delete_fd f p) = stopped p"
  "pipe (poller_set_timerfd t p) = pipe p" "results (poller_set_timerfd t p) = results p"
  by (simp_all add: set_pmem_def new_entry_def free_node_mem_def poller_delete_fd_def poller_set_timerfd_def)

lemma mem_entries [simp]: "entries (free_node_mem a p) = (entries p)(a := None)" "entries (new_entry a n p) = (entries p)(a \<mapsto> n)"
  by (simp_all add: free_node_mem_def new_entry_def)

lemma upd_node_marks:
  assumes "upd_node a f p = Some p'"
  obtains n where "entries p a = Some n" "marks p' = (marks p)(a \<mapsto> (core (f n), pstate (f n)))" "nodes p' = nodes p" "pipe p' = pipe p"
    "results p' = results p" "epoll p' = epoll p" "stopped p' = stopped p"
  using assms by (auto simp: upd_node_def marks_def fun_eq_iff split: option.splits)

definition same_marks :: "poller \<Rightarrow> poller \<Rightarrow> bool" where
  "same_marks p p' \<longleftrightarrow> nodes p' = nodes p \<and> pipe p' = pipe p \<and> results p' = results p \<and> stopped p' = stopped p \<and> marks p' = marks p"

lemma same_marks_refl [simp]: "same_marks p p"
  by (simp add: same_marks_def)

lemma same_marks_trans [trans]: "same_marks p p' \<Longrightarrow> same_marks p' p'' \<Longrightarrow> same_marks p p''"
  by (simp add: same_marks_def)

lemma same_marks_mem [simp]: "same_marks p (set_pmem h p)" "same_marks p (p\<lparr>ptimers := ts\<rparr>)" "same_marks p (p\<lparr>errno := e\<rparr>)"
    "same_marks p (poller_set_timerfd t p)"
  by (simp_all add: same_marks_def poller_set_timerfd_def)

lemma same_marks_upd: "upd_node a f p = Some p' \<Longrightarrow> (\<And>n. core (f n) = core n \<and> pstate (f n) = pstate n) \<Longrightarrow> same_marks p p'"
  by (auto simp: upd_node_def same_marks_def marks_def fun_eq_iff split: option.splits)

lemma same_marks_flag: "upd_node a (\<lambda>n. n\<lparr>in_rbtree := b\<rparr>) (p\<lparr>ptimers := ts\<rparr>) = Some p' \<Longrightarrow> same_marks p p'"
  by (rule same_marks_trans [OF same_marks_mem(2)], erule same_marks_upd) simp

lemma same_marks_unlink: "poller_unlink a p = Some p' \<Longrightarrow> same_marks p p'"
  by (auto simp: poller_unlink_def bind_eq_Some_conv split: if_splits dest: same_marks_flag)

lemma same_marks_list_add: "poller_list_add l a p = Some p' \<Longrightarrow> same_marks p p'"
  by (auto simp: poller_list_add_def bind_eq_Some_conv)

lemma same_marks_timers_insert: "poller_timers_insert a p = Some p' \<Longrightarrow> same_marks p p'"
  by (auto simp: poller_timers_insert_def bind_eq_Some_conv dest: same_marks_flag)

lemma same_marks_branch: "insert_branch a p = Some (e, p', b) \<Longrightarrow> same_marks p p'"
  by (auto simp: insert_branch_def bind_eq_Some_conv split: if_splits dest!: same_marks_list_add same_marks_timers_insert)

lemma same_marks_arm: "insert_arm a e p = Some p' \<Longrightarrow> same_marks p p'"
  by (auto simp: insert_arm_def bind_eq_Some_conv same_marks_def split: if_splits)

lemma same_marks_insert_node: "poller_insert_node a p = Some p' \<Longrightarrow> same_marks p p'"
  by (auto simp: poller_insert_node_def bind_eq_Some_conv split: if_splits dest!: same_marks_branch same_marks_arm intro: same_marks_trans)

lemma same_marks_place: "poller_place timeout a p = Some p' \<Longrightarrow> same_marks p p'"
  by (auto simp: poller_place_def intro: same_marks_insert_node same_marks_list_add split: if_splits)

subsection \<open>Ownership of result nodes\<close>

text \<open>The result node of \<open>a\<close>, and a set of nodes that hold result nodes of their own.\<close>

definition res_of :: "cores \<Rightarrow> addr \<Rightarrow> addr" where
  "res_of C a = (case C a of Some (d, b, ev, r) \<Rightarrow> r | None \<Rightarrow> NULL)"

definition own :: "addr set \<Rightarrow> cores \<Rightarrow> bool" where
  "own A C \<longleftrightarrow> (\<forall>a \<in> A. a \<noteq> NULL \<and> (\<exists>d b ev r. C a = Some (d, b, ev, r) \<and> operation d \<noteq> PD_OP_TIMER)) \<and>
     (\<forall>a \<in> A. res_of C a \<noteq> NULL \<longrightarrow> C (res_of C a) \<noteq> None \<and> res_of C a \<notin> A) \<and>
     (\<forall>a \<in> A. \<forall>b \<in> A. res_of C a = res_of C b \<and> res_of C a \<noteq> NULL \<longrightarrow> a = b)"

definition loose :: "addr set \<Rightarrow> cores \<Rightarrow> addr \<Rightarrow> bool" where
  "loose A C z \<longleftrightarrow> z \<notin> A \<and> (\<forall>a \<in> A. res_of C a = z \<longrightarrow> z = NULL)"

lemma ownI:
  assumes "\<And>a. a \<in> A \<Longrightarrow> a \<noteq> NULL \<and> (\<exists>d b ev r. C a = Some (d, b, ev, r) \<and> operation d \<noteq> PD_OP_TIMER)"
    "\<And>a. a \<in> A \<Longrightarrow> res_of C a \<noteq> NULL \<Longrightarrow> C (res_of C a) \<noteq> None \<and> res_of C a \<notin> A"
    "\<And>a b. a \<in> A \<Longrightarrow> b \<in> A \<Longrightarrow> res_of C a = res_of C b \<Longrightarrow> res_of C a \<noteq> NULL \<Longrightarrow> a = b"
  shows "own A C"
  unfolding own_def using assms by blast

lemma ownD:
  assumes "own A C" "a \<in> A"
  shows "a \<noteq> NULL" "\<exists>d b ev r. C a = Some (d, b, ev, r) \<and> operation d \<noteq> PD_OP_TIMER" "C a \<noteq> None"
    "res_of C a \<noteq> NULL \<Longrightarrow> C (res_of C a) \<noteq> None" "res_of C a \<noteq> NULL \<Longrightarrow> res_of C a \<notin> A"
    "b \<in> A \<Longrightarrow> res_of C a = res_of C b \<Longrightarrow> res_of C a \<noteq> NULL \<Longrightarrow> a = b"
proof -
  have k: "a \<noteq> NULL \<and> (\<exists>d b ev r. C a = Some (d, b, ev, r) \<and> operation d \<noteq> PD_OP_TIMER)"
    "res_of C a \<noteq> NULL \<longrightarrow> C (res_of C a) \<noteq> None \<and> res_of C a \<notin> A"
    "\<forall>b \<in> A. res_of C a = res_of C b \<and> res_of C a \<noteq> NULL \<longrightarrow> a = b"
    using assms unfolding own_def by simp_all
  show "a \<noteq> NULL" "\<exists>d b ev r. C a = Some (d, b, ev, r) \<and> operation d \<noteq> PD_OP_TIMER" "C a \<noteq> None" using k(1) by auto
  show "res_of C a \<noteq> NULL \<Longrightarrow> C (res_of C a) \<noteq> None" "res_of C a \<noteq> NULL \<Longrightarrow> res_of C a \<notin> A" using k(2) by simp_all
  show "b \<in> A \<Longrightarrow> res_of C a = res_of C b \<Longrightarrow> res_of C a \<noteq> NULL \<Longrightarrow> a = b" using k(3) by simp
qed

lemma own_subset:
  assumes "own A C" "B \<subseteq> A"
  shows "own B C"
proof (rule ownI)
  fix a b
  assume "a \<in> B"
  then have a: "a \<in> A" using assms(2) by blast
  show "a \<noteq> NULL \<and> (\<exists>d b ev r. C a = Some (d, b, ev, r) \<and> operation d \<noteq> PD_OP_TIMER)" using ownD(1,2) [OF assms(1) a] by blast
  show "res_of C a \<noteq> NULL \<Longrightarrow> C (res_of C a) \<noteq> None \<and> res_of C a \<notin> B" using ownD(4,5) [OF assms(1) a] assms(2) by blast
  assume "b \<in> B"
  then have "b \<in> A" using assms(2) by blast
  then show "res_of C a = res_of C b \<Longrightarrow> res_of C a \<noteq> NULL \<Longrightarrow> a = b" by (rule ownD(6) [OF assms(1) a])
qed

lemma loose_subset: "loose A C z \<Longrightarrow> B \<subseteq> A \<Longrightarrow> loose B C z"
  by (auto simp: loose_def)

lemma loose_fresh: "own A C \<Longrightarrow> C z = None \<Longrightarrow> loose A C z"
  unfolding loose_def using ownD(3) [of A C z] ownD(4) [of A C] by blast

lemma res_of_cong: "C' a = C a \<Longrightarrow> res_of C' a = res_of C a"
  by (simp add: res_of_def)

text \<open>Changes that leave the owners and their result nodes alone.\<close>

lemma own_cong:
  assumes "own A C" "\<And>a. a \<in> A \<Longrightarrow> C' a = C a" "\<And>a. a \<in> A \<Longrightarrow> res_of C a \<noteq> NULL \<Longrightarrow> C' (res_of C a) \<noteq> None"
  shows "own A C'"
proof (rule ownI)
  fix a b
  assume a: "a \<in> A"
  have r: "res_of C' a = res_of C a" using assms(2) [OF a] by (rule res_of_cong)
  show "a \<noteq> NULL \<and> (\<exists>d b ev r. C' a = Some (d, b, ev, r) \<and> operation d \<noteq> PD_OP_TIMER)" using ownD(1,2) [OF assms(1) a] assms(2) [OF a] by simp
  show "res_of C' a \<noteq> NULL \<Longrightarrow> C' (res_of C' a) \<noteq> None \<and> res_of C' a \<notin> A" using assms(3) [OF a] ownD(5) [OF assms(1) a] r by simp
  assume b: "b \<in> A"
  have "res_of C' b = res_of C b" using assms(2) [OF b] by (rule res_of_cong)
  then show "res_of C' a = res_of C' b \<Longrightarrow> res_of C' a \<noteq> NULL \<Longrightarrow> a = b" using ownD(6) [OF assms(1) a b] r by simp
qed

lemma own_loose:
  assumes "own A C" "\<And>z. C' z \<noteq> C z \<Longrightarrow> loose A C z"
  shows "own A C'"
  using assms(1)
proof (rule own_cong)
  fix a
  assume a: "a \<in> A"
  show "C' a = C a" using assms(2) [of a] a by (auto simp: loose_def)
  assume n: "res_of C a \<noteq> NULL"
  have "\<not> loose A C (res_of C a)" using a n by (auto simp: loose_def)
  then have "C' (res_of C a) = C (res_of C a)" using assms(2) by (rule contrapos_np)
  then show "C' (res_of C a) \<noteq> None" using ownD(4) [OF assms(1) a n] by simp
qed

text \<open>A node joins the owners.\<close>

lemma own_insert:
  assumes "own A C" "C a = Some (d, b, ev, r)" "operation d \<noteq> PD_OP_TIMER" "a \<noteq> NULL" "loose A C a" "loose A C r" "r \<noteq> NULL \<Longrightarrow> r \<noteq> a \<and> C r \<noteq> None"
  shows "own (insert a A) C"
proof (rule ownI)
  have r: "res_of C a = r" using assms(2) by (simp add: res_of_def)
  have o: "res_of C x \<noteq> a \<and> (res_of C x = r \<longrightarrow> r = NULL) \<and> x \<noteq> a" if "x \<in> A" for x
    using assms(4) assms(5,6) [unfolded loose_def] that by (intro conjI) auto
  fix x y
  assume x: "x \<in> insert a A"
  show "x \<noteq> NULL \<and> (\<exists>d b ev r. C x = Some (d, b, ev, r) \<and> operation d \<noteq> PD_OP_TIMER)"
    using x assms(2-4) ownD(1,2) [OF assms(1)] by (cases "x = a") auto
  show "res_of C x \<noteq> NULL \<Longrightarrow> C (res_of C x) \<noteq> None \<and> res_of C x \<notin> insert a A"
  proof (cases "x = a")
    case True
    assume "res_of C x \<noteq> NULL"
    then show ?thesis using True r assms(6,7) by (auto simp: loose_def)
  next
    case False
    assume "res_of C x \<noteq> NULL"
    then show ?thesis using False x o [of x] ownD(4,5) [OF assms(1), of x] by auto
  qed
  assume "y \<in> insert a A"
  then show "res_of C x = res_of C y \<Longrightarrow> res_of C x \<noteq> NULL \<Longrightarrow> x = y"
    using x r o [of x] o [of y] ownD(6) [OF assms(1), of x y] by auto
qed

text \<open>An owner changes, and exchanges its result node for another or for none.\<close>

lemma own_swap:
  assumes "own A C" "a \<in> A" "C' a = Some (d, b, ev, r)" "operation d \<noteq> PD_OP_TIMER" "\<And>z. z \<in> A \<Longrightarrow> z \<noteq> a \<Longrightarrow> C' z = C z"
    "\<And>z. z \<in> A \<Longrightarrow> z \<noteq> a \<Longrightarrow> res_of C z \<noteq> NULL \<Longrightarrow> C' (res_of C z) \<noteq> None"
    "r \<noteq> NULL \<Longrightarrow> C' r \<noteq> None \<and> r \<notin> A \<and> (\<forall>z \<in> A. z \<noteq> a \<longrightarrow> res_of C z \<noteq> r)"
  shows "own A C'"
proof -
  have "own (A - {a}) C" by (rule own_subset [OF assms(1)]) blast
  then have "own (A - {a}) C'" by (rule own_cong) (use assms(5,6) in auto)
  moreover have z: "res_of C' z = res_of C z" if "z \<in> A - {a}" for z using assms(5) [of z] that by (intro res_of_cong) auto
  have "loose (A - {a}) C' a" using z ownD(5) [OF assms(1)] assms(2) by (auto simp: loose_def)
  moreover have "loose (A - {a}) C' r" using z assms(7) by (cases "r = NULL") (auto simp: loose_def dest: ownD(1) [OF assms(1)])
  moreover have "r \<noteq> NULL \<Longrightarrow> r \<noteq> a \<and> C' r \<noteq> None" using assms(2,7) by auto
  ultimately have "own (insert a (A - {a})) C'" using own_insert [of "A - {a}" C' a d b ev r] assms(3,4) ownD(1) [OF assms(1,2)] by blast
  then show ?thesis using assms(2) by (simp add: insert_absorb)
qed

lemma own_mark:
  assumes "own A C" "a \<in> A" "C a = Some (d, b, ev, r)" "operation d' \<noteq> PD_OP_TIMER"
  shows "own A (C(a \<mapsto> (d', b', ev', r)))"
proof (rule own_swap [OF assms(1,2) _ assms(4)])
  have r: "res_of C a = r" using assms(3) by (simp add: res_of_def)
  show "(C(a \<mapsto> (d', b', ev', r))) a = Some (d', b', ev', r)" by simp
  show "z \<in> A \<Longrightarrow> z \<noteq> a \<Longrightarrow> (C(a \<mapsto> (d', b', ev', r))) z = C z" for z by simp
  show "z \<in> A \<Longrightarrow> res_of C z \<noteq> NULL \<Longrightarrow> (C(a \<mapsto> (d', b', ev', r))) (res_of C z) \<noteq> None" for z using ownD(4) [OF assms(1)] by simp
  assume n: "r \<noteq> NULL"
  have "res_of C z \<noteq> r" if "z \<in> A" "z \<noteq> a" for z using ownD(6) [OF assms(1,2) that(1)] that(2) n r by auto
  then show "(C(a \<mapsto> (d', b', ev', r))) r \<noteq> None \<and> r \<notin> A \<and> (\<forall>z \<in> A. z \<noteq> a \<longrightarrow> res_of C z \<noteq> r)"
    using n r ownD(4,5) [OF assms(1,2)] by simp
qed

text \<open>An owner leaves, with its result node.\<close>

lemma own_release:
  assumes "own A C" "a \<in> A" "\<And>z. z \<noteq> a \<Longrightarrow> z \<noteq> res_of C a \<Longrightarrow> C' z = C z"
  shows "own (A - {a}) C'"
proof (rule own_loose)
  show "own (A - {a}) C" by (rule own_subset [OF assms(1)]) blast
  have "loose (A - {a}) C a" using ownD(5) [OF assms(1)] assms(2) by (auto simp: loose_def)
  moreover have "loose (A - {a}) C (res_of C a)"
  proof (cases "res_of C a = NULL")
    case True
    then show ?thesis using ownD(1) [OF assms(1)] by (auto simp: loose_def)
  next
    case False
    have "res_of C b \<noteq> res_of C a" if "b \<in> A - {a}" for b using ownD(6) [OF assms(1,2), of b] that False by auto
    then show ?thesis using ownD(5) [OF assms(1,2) False] by (simp add: loose_def)
  qed
  ultimately show "loose (A - {a}) C z" if "C' z \<noteq> C z" for z using that assms(3) [of z] by blast
qed

subsection \<open>The invariant\<close>

text \<open>
  The nodes that the poller holds: those of the table and those in the pipe. A result that
  was handed over for good has a state other than \<open>PR_ST_SUCCESS\<close>; the results of timers,
  which the table does not hold, are not counted.
\<close>

definition in_pipe :: "poller \<Rightarrow> addr list" where
  "in_pipe p = filter (\<lambda>a. a \<noteq> NULL) (pipe p)"

definition taken_fds :: "poller \<Rightarrow> int set" where
  "taken_fds p = {f. nodes p f \<noteq> NULL}"

definition owners :: "poller \<Rightarrow> addr set" where
  "owners p = nodes p ` taken_fds p \<union> set (in_pipe p)"

definition final :: "poller_node \<Rightarrow> bool" where
  "final m \<longleftrightarrow> pstate m \<noteq> PR_ST_SUCCESS \<and> operation (pdata m) \<noteq> PD_OP_TIMER"

definition finals :: "poller \<Rightarrow> nat" where
  "finals p = length (filter (\<lambda>r. final (snd r)) (results p))"

text \<open>\<open>n\<close> is the number of nodes that were registered.\<close>

definition tracked :: "nat \<Rightarrow> poller \<Rightarrow> bool" where
  "tracked n p \<longleftrightarrow> table_ok p \<and> own (owners p) (cores p) \<and> distinct (in_pipe p) \<and> finite (taken_fds p) \<and>
     (\<forall>a \<in> set (in_pipe p). \<exists>d ev r st. marks p a = Some ((d, True, ev, r), st) \<and> st \<noteq> PR_ST_SUCCESS) \<and>
     n = card (taken_fds p) + length (in_pipe p) + finals p"

lemma trackedD:
  assumes "tracked n p"
  shows "table_ok p" "own (owners p) (cores p)" "distinct (in_pipe p)" "finite (taken_fds p)"
    "a \<in> set (in_pipe p) \<Longrightarrow> \<exists>d ev r st. marks p a = Some ((d, True, ev, r), st) \<and> st \<noteq> PR_ST_SUCCESS"
    "n = card (taken_fds p) + length (in_pipe p) + finals p"
  using assms by (auto simp: tracked_def)

lemma table_node: "table_ok p \<Longrightarrow> f \<in> taken_fds p \<Longrightarrow> \<exists>d ev r. cores p (nodes p f) = Some (d, False, ev, r) \<and> fd d = f \<and> epoll p f = Some (ev, nodes p f)"
  using tbl_okD(1) [of "max_open_files p" "nodes p" "epoll p" "cores p" f] by (auto simp: table_ok_def taken_fds_def)

lemma nodes_inj: "table_ok p \<Longrightarrow> f \<in> taken_fds p \<Longrightarrow> nodes p g = nodes p f \<Longrightarrow> g = f"
  using tbl_inj [of "max_open_files p" "nodes p" "epoll p" "cores p" g f] by (auto simp: table_ok_def taken_fds_def)

text \<open>No node of the table is in the pipe.\<close>

lemma table_piped: "tracked n p \<Longrightarrow> f \<in> taken_fds p \<Longrightarrow> nodes p f \<notin> set (in_pipe p)"
  using table_node [of p f] trackedD(5) [of n p "nodes p f"] by (auto simp: trackedD(1) cores_marks)

lemma owners_node: "f \<in> taken_fds p \<Longrightarrow> nodes p f \<in> owners p"
  by (simp add: owners_def)

lemma owners_pipe: "a \<in> set (in_pipe p) \<Longrightarrow> a \<in> owners p"
  by (simp add: owners_def)

text \<open>A change of memory that nobody holds.\<close>

lemma tracked_touch:
  assumes "tracked n p" "table_ok p'" "nodes p' = nodes p" "pipe p' = pipe p" "finals p' = finals p"
    "\<And>z. marks p' z \<noteq> marks p z \<Longrightarrow> loose (owners p) (cores p) z"
  shows "tracked n p'"
proof -
  have o: "owners p' = owners p" "taken_fds p' = taken_fds p" "in_pipe p' = in_pipe p" using assms(3,4) by (simp_all add: owners_def taken_fds_def in_pipe_def)
  have "own (owners p) (cores p')"
    using trackedD(2) [OF assms(1)] by (rule own_loose, intro assms(6)) (auto simp: cores_marks)
  moreover have "marks p' a = marks p a" if "a \<in> set (in_pipe p)" for a
    using assms(6) [of a] owners_pipe [OF that] by (auto simp: loose_def)
  ultimately show ?thesis using trackedD [OF assms(1)] assms(2,5) by (simp add: tracked_def o)
qed

lemma taken_del: "taken_fds p' = taken_fds p - {f}" if "nodes p' = (nodes p)(f := NULL)"
  using that by (auto simp: taken_fds_def)

text \<open>No new owner, and the result nodes of the others stay.\<close>

definition quiet :: "poller \<Rightarrow> poller \<Rightarrow> bool" where
  "quiet p p' \<longleftrightarrow> owners p' \<subseteq> owners p \<and> (\<forall>a \<in> owners p'. res_of (cores p') a = res_of (cores p) a)"

lemma quiet_loose: "quiet p p' \<Longrightarrow> loose (owners p) (cores p) z \<Longrightarrow> loose (owners p') (cores p') z"
  by (auto simp: quiet_def loose_def)

text \<open>A node of the table goes into the pipe.\<close>

lemma tracked_queue:
  assumes "tracked n p" "table_ok p'" "f \<in> taken_fds p" "nodes p' = (nodes p)(f := NULL)" "pipe p' = pipe p @ [nodes p f]" "finals p' = finals p"
    "cores p (nodes p f) = Some (d, b, ev, r)" "marks p' = (marks p)(nodes p f \<mapsto> ((d, True, ev, r), st))" "st \<noteq> PR_ST_SUCCESS"
  shows "tracked n p' \<and> quiet p p'"
proof -
  let ?a = "nodes p f"
  have a: "?a \<noteq> NULL" using assms(3) by (simp add: taken_fds_def)
  have t: "taken_fds p' = taken_fds p - {f}" using assms(4) by (rule taken_del)
  have q: "in_pipe p' = in_pipe p @ [?a]" using assms(5) a by (simp add: in_pipe_def)
  have im: "nodes p' ` taken_fds p' = nodes p ` taken_fds p - {?a}"
    using nodes_inj [OF trackedD(1) [OF assms(1)] assms(3)] by (auto simp: t assms(4))
  have o: "owners p' = owners p" using owners_node [OF assms(3)] by (auto simp: owners_def q im)
  have c: "cores p' = (cores p)(?a \<mapsto> (d, True, ev, r))" using assms(8) by (auto simp: cores_marks fun_eq_iff)
  have r: "res_of (cores p) ?a = r" using assms(7) by (simp add: res_of_def)
  note w = trackedD(2) [OF assms(1)] and oa = owners_node [OF assms(3)]
  have op: "operation d \<noteq> PD_OP_TIMER" using ownD(2) [OF w oa] assms(7) by auto
  have "own (owners p) (cores p')" unfolding c by (rule own_mark [OF w oa assms(7) op])
  moreover have "\<exists>d ev r st. marks p' x = Some ((d, True, ev, r), st) \<and> st \<noteq> PR_ST_SUCCESS" if "x \<in> set (in_pipe p')" for x
    using that trackedD(5) [OF assms(1), of x] assms(8,9) by (auto simp: q)
  moreover have "card (taken_fds p) = Suc (card (taken_fds p'))" using card_Suc_Diff1 [OF trackedD(4) [OF assms(1)] assms(3)] by (simp add: t)
  ultimately have "tracked n p'" using trackedD [OF assms(1)] assms(2,6) table_piped [OF assms(1,3)] by (simp add: tracked_def o q t)
  moreover have "quiet p p'" using r by (simp add: quiet_def o) (simp add: c res_of_def)
  ultimately show ?thesis ..
qed

lemma image_del:
  assumes "tracked n p" "f \<in> taken_fds p" "nodes p' = (nodes p)(f := NULL)"
  shows "nodes p' ` taken_fds p' = nodes p ` taken_fds p - {nodes p f}" "card (taken_fds p) = Suc (card (taken_fds p'))"
proof -
  have t: "taken_fds p' = taken_fds p - {f}" using assms(3) by (rule taken_del)
  show "nodes p' ` taken_fds p' = nodes p ` taken_fds p - {nodes p f}"
    using nodes_inj [OF trackedD(1) [OF assms(1)] assms(2)] by (auto simp: t assms(3))
  show "card (taken_fds p) = Suc (card (taken_fds p'))" using card_Suc_Diff1 [OF trackedD(4) [OF assms(1)] assms(2)] by (simp add: t)
qed

text \<open>A node of the table is handed over for good.\<close>

lemma tracked_hand:
  assumes "tracked n p" "table_ok p'" "f \<in> taken_fds p" "nodes p' = (nodes p)(f := NULL)" "pipe p' = pipe p" "finals p' = Suc (finals p)"
    "\<And>z. z \<noteq> nodes p f \<Longrightarrow> z \<noteq> res_of (cores p) (nodes p f) \<Longrightarrow> marks p' z = marks p z"
  shows "tracked n p' \<and> quiet p p'"
proof -
  let ?a = "nodes p f"
  note im = image_del [OF assms(1,3,4)] and w = trackedD(2) [OF assms(1)] and oa = owners_node [OF assms(3)]
  have q: "in_pipe p' = in_pipe p" using assms(5) by (simp add: in_pipe_def)
  have o: "owners p' = owners p - {?a}" using table_piped [OF assms(1,3)] by (auto simp: owners_def q im)
  have "own (owners p') (cores p')" unfolding o by (rule own_release [OF w oa]) (use assms(7) in \<open>simp add: cores_marks\<close>)
  moreover have m: "marks p' x = marks p x" if "x \<in> owners p" "x \<noteq> ?a" for x
    using assms(7) [of x] that ownD(5) [OF w oa] ownD(1) [OF w that(1)] by (cases "res_of (cores p) ?a = NULL") auto
  then have "marks p' x = marks p x" if "x \<in> set (in_pipe p)" for x using table_piped [OF assms(1,3)] that owners_pipe [OF that] by metis
  moreover have "finite (taken_fds p')" using trackedD(4) [OF assms(1)] taken_del [OF assms(4)] by simp
  ultimately have "tracked n p'" using trackedD [OF assms(1)] assms(2,6) im(2) by (simp add: tracked_def q)
  moreover have "res_of (cores p') x = res_of (cores p) x" if "x \<in> owners p'" for x
    using m [of x] that by (intro res_of_cong) (simp add: o cores_marks)
  then have "quiet p p'" by (auto simp: quiet_def o)
  ultimately show ?thesis ..
qed

text \<open>A node enters the table.\<close>

lemma tracked_enter:
  assumes "tracked n p" "table_ok p'" "nodes p f = NULL" "nodes p' = (nodes p)(f := a)" "pipe p' = pipe p" "finals p' = finals p" "marks p' = marks p"
    "cores p a = Some (d, b, ev, r)" "operation d \<noteq> PD_OP_TIMER" "a \<noteq> NULL" "loose (owners p) (cores p) a" "loose (owners p) (cores p) r"
    "r \<noteq> NULL \<Longrightarrow> r \<noteq> a \<and> cores p r \<noteq> None"
  shows "tracked (Suc n) p'"
proof -
  have f: "f \<notin> taken_fds p" using assms(3) by (simp add: taken_fds_def)
  have t: "taken_fds p' = insert f (taken_fds p)" using assms(4,10) by (auto simp: taken_fds_def)
  have q: "in_pipe p' = in_pipe p" using assms(5) by (simp add: in_pipe_def)
  have "nodes p' ` taken_fds p' = insert a (nodes p ` taken_fds p)" using f by (auto simp: t assms(4))
  then have o: "owners p' = insert a (owners p)" by (auto simp: owners_def q)
  have c: "cores p' = cores p" using assms(7) by (auto simp: cores_marks fun_eq_iff)
  have "own (owners p') (cores p')" unfolding o c by (rule own_insert [OF trackedD(2) [OF assms(1)] assms(8-13)])
  moreover have "card (taken_fds p') = Suc (card (taken_fds p))" using f trackedD(4) [OF assms(1)] by (simp add: t)
  ultimately show ?thesis using trackedD [OF assms(1)] assms(2,6,7) by (simp add: tracked_def q t)
qed

subsection \<open>The calls of the interface\<close>

lemma same_marks_tracked: "tracked n p \<Longrightarrow> same_marks p p' \<Longrightarrow> table_ok p' \<Longrightarrow> tracked n p'"
  by (erule tracked_touch) (simp_all add: same_marks_def finals_def)

text \<open>The end of \<open>poller_del\<close> and \<open>poller_mod\<close>: over the pipe, or to the callback when stopped.\<close>

lemma hand_over_marks:
  assumes "hand_over a st p = Some p'" "cores p a = Some (d, b, ev, r)"
  shows "nodes p' = nodes p" "results p' = results p" "stopped p' = stopped p"
    "pipe p' = (if stopped p then pipe p else pipe p @ [a])" "marks p' = (marks p)(a \<mapsto> ((d, if stopped p then b else True, ev, r), st))"
proof -
  obtain p1 where 1: "upd_node a (\<lambda>n. n\<lparr>perror := 0, pstate := st\<rparr>) p = Some p1"
    "(if stopped p1 then Some p1 else do { p \<leftarrow> upd_node a (\<lambda>n. n\<lparr>removed := True\<rparr>) p1; Some (p\<lparr>pipe := pipe p @ [a]\<rparr>) }) = Some p'"
    using assms(1) by (auto simp: hand_over_def bind_eq_Some_conv)
  from upd_node_marks [OF 1(1)] obtain n where n: "entries p a = Some n" "marks p1 = (marks p)(a \<mapsto> (core n, st))" "nodes p1 = nodes p"
    "pipe p1 = pipe p" "results p1 = results p" "stopped p1 = stopped p" by auto
  have core: "core n = (d, b, ev, r)" using assms(2) n(1) by (simp add: cores_def)
  show "nodes p' = nodes p" "results p' = results p" "stopped p' = stopped p" "pipe p' = (if stopped p then pipe p else pipe p @ [a])"
    using 1(2) n(3-6) by (auto simp: bind_eq_Some_conv upd_node_def split: if_splits option.splits)
  show "marks p' = (marks p)(a \<mapsto> ((d, if stopped p then b else True, ev, r), st))"
  proof (cases "stopped p")
    case True
    then show ?thesis using 1(2) n(2,6) core by simp
  next
    case False
    then obtain p2 where p2: "upd_node a (\<lambda>n. n\<lparr>removed := True\<rparr>) p1 = Some p2" "p' = p2\<lparr>pipe := pipe p2 @ [a]\<rparr>"
      using 1(2) n(6) by (auto simp: bind_eq_Some_conv)
    from upd_node_marks [OF p2(1)] obtain k where k: "entries p1 a = Some k" "marks p2 = (marks p1)(a \<mapsto> (core (k\<lparr>removed := True\<rparr>), pstate k))" by auto
    have "core k = core n \<and> pstate k = st" using k(1) n(2) by (auto simp: marks_def fun_eq_iff dest: spec [of _ a])
    then show ?thesis using False p2(2) k(2) n(2) core by (simp add: core_def)
  qed
qed

lemma call_if_stopped_marks:
  assumes "call_if_stopped a p = Some p'" "marks p a = Some ((d, b, ev, r), st)"
  shows "nodes p' = nodes p" "pipe p' = pipe p" "\<not> stopped p \<Longrightarrow> results p' = results p \<and> marks p' = marks p"
    "stopped p \<Longrightarrow> r \<noteq> a \<Longrightarrow> z \<noteq> a \<Longrightarrow> z \<noteq> r \<Longrightarrow> marks p' z = marks p z"
    "stopped p \<Longrightarrow> r \<noteq> a \<Longrightarrow> \<exists>m. results p' = results p @ [(a, m)] \<and> pdata m = d \<and> pstate m = st"
proof -
  obtain n where n: "entries p a = Some n" "core n = (d, b, ev, r)" "pstate n = st" using assms(2) by (auto simp: marks_def)
  show "nodes p' = nodes p" "pipe p' = pipe p" "\<not> stopped p \<Longrightarrow> results p' = results p \<and> marks p' = marks p"
    using assms(1) n(1) by (auto simp: call_if_stopped_def callback_def free_res_def bind_eq_Some_conv split: if_splits option.splits)
  assume s: "stopped p" "r \<noteq> a"
  let ?p = "if r = NULL then p else free_node_mem r p"
  have "entries ?p a = Some n" using n(1) s(2) by simp
  then have p': "p' = (free_node_mem a ?p)\<lparr>results := results p @ [(a, n)]\<rparr>"
    using assms(1) s n by (auto simp: call_if_stopped_def callback_def free_res_def core_def)
  show "\<exists>m. results p' = results p @ [(a, m)] \<and> pdata m = d \<and> pstate m = st" using p' n(2,3) by (simp add: core_def)
  show "z \<noteq> a \<Longrightarrow> z \<noteq> r \<Longrightarrow> marks p' z = marks p z" using p' by simp
qed

lemma table_marks:
  assumes "tracked n p" "f \<in> taken_fds p"
  obtains d ev r st where "cores p (nodes p f) = Some (d, False, ev, r)" "marks p (nodes p f) = Some ((d, False, ev, r), st)" "fd d = f"
    "operation d \<noteq> PD_OP_TIMER" "r \<noteq> nodes p f" "res_of (cores p) (nodes p f) = r"
proof -
  from table_node [OF trackedD(1) [OF assms(1)] assms(2)] obtain d ev r where c: "cores p (nodes p f) = Some (d, False, ev, r)" "fd d = f" by blast
  note w = trackedD(2) [OF assms(1)] and oa = owners_node [OF assms(2)]
  have r: "res_of (cores p) (nodes p f) = r" using c(1) by (simp add: res_of_def)
  moreover have "operation d \<noteq> PD_OP_TIMER" using ownD(2) [OF w oa] c(1) by auto
  moreover have "r \<noteq> nodes p f" using ownD(1,5) [OF w oa] oa r by (cases "r = NULL") auto
  ultimately show ?thesis using that c by (auto simp: cores_marks)
qed

text \<open>Taking the node of \<open>f\<close> out of the table and handing it over.\<close>

lemma take_out_tracked:
  assumes "tracked n p" "f \<in> taken_fds p" "table_ok p'" "st \<noteq> PR_ST_SUCCESS"
    "hand_over (nodes p f) st p1 = Some p2" "marks p1 = marks p" "pipe p1 = pipe p" "results p1 = results p" "stopped p1 = stopped p"
    "call_if_stopped (nodes p f) p3 = Some p4" "same_marks p2 (p3\<lparr>nodes := nodes p2\<rparr>)"
    "nodes p' = (nodes p)(f := NULL)" "marks p' = marks p4" "pipe p' = pipe p4" "results p' = results p4"
  shows "tracked n p' \<and> quiet p p' \<and> (\<forall>z. z \<noteq> nodes p f \<longrightarrow> z \<noteq> res_of (cores p) (nodes p f) \<longrightarrow> marks p' z = marks p z)"
proof -
  from table_marks [OF assms(1,2)] obtain d ev r st0 where c: "cores p (nodes p f) = Some (d, False, ev, r)" "operation d \<noteq> PD_OP_TIMER"
    "r \<noteq> nodes p f" "res_of (cores p) (nodes p f) = r" by metis
  have c1: "cores p1 (nodes p f) = Some (d, False, ev, r)" using c(1) assms(6) by (simp add: cores_marks)
  note h = hand_over_marks [OF assms(5) c1]
  have p3: "marks p3 = marks p2" "pipe p3 = pipe p2" "results p3 = results p2" "stopped p3 = stopped p"
    using assms(9,11) h(3) by (simp_all add: same_marks_def)
  have m: "marks p3 (nodes p f) = Some ((d, if stopped p then False else True, ev, r), st)" using h(5) assms(9) by (simp add: p3)
  note k = call_if_stopped_marks [OF assms(10) m]
  show ?thesis
  proof (cases "stopped p")
    case True
    then obtain m where "results p' = results p @ [(nodes p f, m)]" "pdata m = d" "pstate m = st"
      using k(5) c(3) p3(3,4) h(2) assms(8,15) by auto
    then have "finals p' = Suc (finals p)" using c(2) assms(4) by (simp add: finals_def final_def)
    moreover have z: "marks p' z = marks p z" if "z \<noteq> nodes p f" "z \<noteq> r" for z
      using k(4) that True c(3) p3(1,4) h(5) assms(6,13) by simp
    ultimately show ?thesis using tracked_hand [OF assms(1,3,2,12)] k(2) p3(2) h(4) True assms(7,9,14) c(4) by (simp add: z)
  next
    case False
    then have "finals p' = finals p" using k(3) p3(3,4) h(2) assms(8,15) by (simp add: finals_def)
    moreover have z: "marks p' = (marks p)(nodes p f \<mapsto> ((d, True, ev, r), st))" using k(3) False p3 h(5) assms(6,9,13) by simp
    moreover have "pipe p' = pipe p @ [nodes p f]" using k(2) p3(2) h(4) False assms(7,9,14) by simp
    ultimately show ?thesis using tracked_queue [OF assms(1,3,2,12) _ _ c(1)] assms(4) by (simp add: z)
  qed
qed

lemma poller_del_tracked:
  assumes "tracked n p" "poller_del f p = Some (r, p')"
  shows "tracked n p'"
proof -
  note t = poller_del_table [OF trackedD(1) [OF assms(1)] assms(2)]
  show ?thesis
  proof (cases "bad_fd f p \<or> nodes p f = NULL")
    case True
    then obtain e where "p' = p\<lparr>errno := e\<rparr>" using assms(2) by (auto simp: poller_del_def split: if_splits)
    then show ?thesis using same_marks_tracked [OF assms(1) _ t] by simp
  next
    case False
    let ?a = "nodes p f"
    from False assms(2) obtain p1 p2 where
      1: "poller_unlink ?a (p\<lparr>nodes := (nodes p)(f := NULL)\<rparr>) = Some p1"
        "hand_over ?a PR_ST_DELETED (poller_delete_fd f p1) = Some p2" "call_if_stopped ?a p2 = Some p'"
      by (auto simp: poller_del_def Let_def bind_eq_Some_conv)
    from same_marks_unlink [OF 1(1)] have s: "marks p1 = marks p" "nodes p1 = (nodes p)(f := NULL)" "pipe p1 = pipe p" "results p1 = results p"
      "stopped p1 = stopped p" by (simp_all add: same_marks_def)
    have f: "f \<in> taken_fds p" using False by (simp add: taken_fds_def)
    have "nodes p' = nodes p2" using 1(3) by (auto simp: call_if_stopped_def free_res_def callback_def bind_eq_Some_conv split: if_splits option.splits)
    also have "nodes p2 = (nodes p)(f := NULL)"
      using 1(2) s(2) by (auto simp: hand_over_def bind_eq_Some_conv upd_node_def split: if_splits option.splits)
    finally have "nodes p' = (nodes p)(f := NULL)" .
    then have "tracked n p' \<and> quiet p p' \<and> (\<forall>z. z \<noteq> ?a \<longrightarrow> z \<noteq> res_of (cores p) ?a \<longrightarrow> marks p' z = marks p z)"
      by (intro take_out_tracked [OF assms(1) f t _ 1(2) _ _ _ _ 1(3)]) (use s in \<open>simp_all add: st_defs\<close>)
    then show ?thesis ..
  qed
qed

text \<open>A node that a call makes, and gives back when it fails.\<close>

lemma new_node_tracked:
  assumes "tracked n p" "fresh_mem rm nm p" "poller_new_node d timeout now rm nm p = (a, p1)"
  shows "tracked n p1" "nodes p1 = nodes p" "pipe p1 = pipe p" "results p1 = results p" "stopped p1 = stopped p" "owners p1 = owners p" "epoll p1 = epoll p"
    "a \<noteq> NULL \<Longrightarrow> \<exists>ev r st. marks p1 a = Some ((d, False, ev, r), st) \<and> operation d \<noteq> PD_OP_TIMER \<and> loose (owners p1) (cores p1) a \<and>
       loose (owners p1) (cores p1) r \<and> (r \<noteq> NULL \<longrightarrow> r \<noteq> a \<and> cores p1 r \<noteq> None)"
proof -
  obtain need ev where ev: "poller_data_get_event d = (need, ev)" by (cases "poller_data_get_event d")
  have fr: "cores p rm = None" "cores p nm = None" using assms(2) by (simp_all add: fresh_mem_def cores_def)
  note w = trackedD(2) [OF assms(1)] and t = new_node_table [OF trackedD(1) [OF assms(1), unfolded table_ok_def] assms(2,3) refl]
  show f: "nodes p1 = nodes p" "pipe p1 = pipe p" "results p1 = results p" "stopped p1 = stopped p" "epoll p1 = epoll p"
    using assms(3) ev by (auto simp: poller_new_node_def Let_def split: if_splits)
  then show o: "owners p1 = owners p" by (simp add: owners_def taken_fds_def in_pipe_def)
  have ch: "marks p1 z \<noteq> marks p z \<Longrightarrow> z = rm \<or> z = nm" for z
    using assms(3) ev by (auto simp: poller_new_node_def Let_def split: if_splits)
  have "table_ok p1" using t by (simp add: table_ok_def)
  then show k: "tracked n p1"
  proof (rule tracked_touch [OF assms(1) _ f(1,2)])
    show "finals p1 = finals p" using f(3) by (simp add: finals_def)
    show "marks p1 z \<noteq> marks p z \<Longrightarrow> loose (owners p) (cores p) z" for z using ch [of z] loose_fresh [OF w] fr by metis
  qed
  assume a: "a \<noteq> NULL"
  have m: "marks p1 a = Some ((d, False, ev, if need \<noteq> 0 then rm else NULL), 0)" "a = nm" "need \<ge> 0" "need \<noteq> 0 \<Longrightarrow> rm \<noteq> NULL \<and> rm \<noteq> nm"
    "need \<noteq> 0 \<Longrightarrow> cores p1 rm \<noteq> None"
    using a assms(2,3) ev by (auto simp: poller_new_node_def Let_def fresh_mem_def core_def blank_node_def split: if_splits)
  have op: "operation d \<noteq> PD_OP_TIMER" using ev m(3) by (auto simp: poller_data_get_event_def op_defs split: if_splits)
  have same: "cores p1 z = cores p z" if "z \<in> owners p" for z
  proof -
    have "z \<noteq> rm \<and> z \<noteq> nm" using ownD(3) [OF w that] fr by metis
    then have "marks p1 z = marks p z" using ch by blast
    then show ?thesis by (simp add: cores_marks)
  qed
  have l: "loose (owners p1) (cores p1) z" if "loose (owners p) (cores p) z" for z
    using that same res_of_cong [of "cores p1" _ "cores p"] by (auto simp: loose_def o)
  have "loose (owners p) (cores p) NULL" using ownD(1) [OF w] by (auto simp: loose_def)
  then show "\<exists>ev r st. marks p1 a = Some ((d, False, ev, r), st) \<and> operation d \<noteq> PD_OP_TIMER \<and> loose (owners p1) (cores p1) a \<and>
       loose (owners p1) (cores p1) r \<and> (r \<noteq> NULL \<longrightarrow> r \<noteq> a \<and> cores p1 r \<noteq> None)"
    using m op l loose_fresh [OF w] fr by (cases "need = 0") auto
qed

lemma discard_tracked:
  assumes "tracked n p1" "discard_node a p1 = Some p'" "table_ok p'" "marks p1 a = Some ((d, b, ev, r), st)" "loose (owners p1) (cores p1) a"
    "loose (owners p1) (cores p1) r"
  shows "tracked n p'"
proof (rule tracked_touch [OF assms(1,3)])
  have "res_of (cores p1) a = r" using assms(4) by (simp add: res_of_def cores_marks)
  obtain k where k: "entries p1 a = Some k" "pres k = r" using assms(4) by (auto simp: marks_def core_def)
  then have p': "p' = free_node_mem a (if r = NULL then p1 else free_node_mem r p1)" using assms(2) by (auto simp: discard_node_def free_res_def)
  then show "nodes p' = nodes p1" "pipe p' = pipe p1" "finals p' = finals p1" by (simp_all add: finals_def)
  show "marks p' z \<noteq> marks p1 z \<Longrightarrow> loose (owners p1) (cores p1) z" for z using p' assms(5,6) by (auto split: if_splits)
qed

lemma give_back_tracked:
  assumes "tracked n p1" "same_marks p1 q" "epoll q = epoll p1" "max_open_files q = max_open_files p1" "discard_node a q = Some p'" "table_ok p'"
    "marks p1 a = Some ((d, b, ev, r), st)" "loose (owners p1) (cores p1) a" "loose (owners p1) (cores p1) r"
  shows "tracked n p'"
proof -
  have "cores q = cores p1" by (rule ext) (use assms(2) in \<open>simp add: cores_marks same_marks_def\<close>)
  moreover have s: "nodes q = nodes p1" "pipe q = pipe p1" "marks q = marks p1" using assms(2) by (simp_all add: same_marks_def)
  ultimately have "table_ok q" "owners q = owners p1" "cores q = cores p1"
    using trackedD(1) [OF assms(1)] assms(3,4) by (simp_all add: table_ok_def owners_def taken_fds_def in_pipe_def)
  moreover have "tracked n q" using same_marks_tracked [OF assms(1,2)] calculation(1) .
  ultimately show ?thesis using discard_tracked [OF _ assms(5,6)] assms(7-9) s(3) by simp
qed

lemma poller_add_tracked:
  assumes "tracked n p" "fresh_mem rm nm p" "poller_add d timeout now rm nm ctl p = Some (r, p')"
  shows "tracked (if r = 0 then Suc n else n) p'"
proof -
  obtain a p1 where nn: "poller_new_node d timeout now rm nm p = (a, p1)" by (cases "poller_new_node d timeout now rm nm p")
  note k = new_node_tracked [OF assms(1,2) nn] and t = poller_add_table [OF trackedD(1) [OF assms(1)] assms(2,3)]
  consider "a = NULL" | "a \<noteq> NULL" "nodes p (fd d) = NULL" "ctl \<ge> 0" | "a \<noteq> NULL" "\<not> (nodes p (fd d) = NULL \<and> ctl \<ge> 0)" by auto
  then show ?thesis
  proof cases
    case 1
    with assms(3) nn have "r = -1 \<and> p' = p1" by (auto simp: poller_add_def)
    then show ?thesis using k(1) by simp
  next
    case 2
    from k(8) [OF 2(1)] obtain ev rs st where m: "marks p1 a = Some ((d, False, ev, rs), st)" "operation d \<noteq> PD_OP_TIMER"
      "loose (owners p1) (cores p1) a" "loose (owners p1) (cores p1) rs" "rs \<noteq> NULL \<longrightarrow> rs \<noteq> a \<and> cores p1 rs \<noteq> None" by blast
    from assms(3) nn 2 k(2) obtain n1 :: poller_node and p2 where "r = 0" and
      p2: "poller_place timeout a (p1\<lparr>epoll := (epoll p1)(fd d \<mapsto> (pevent n1, a))\<rparr>) = Some p2" "p' = p2\<lparr>nodes := (nodes p2)(fd d := a)\<rparr>"
      by (auto simp: poller_add_def Let_def bind_eq_Some_conv)
    from same_marks_place [OF p2(1)] have s: "nodes p' = (nodes p1)(fd d := a)" "pipe p' = pipe p1" "results p' = results p1" "marks p' = marks p1"
      by (simp_all add: p2(2) same_marks_def)
    have c: "cores p1 a = Some (d, False, ev, rs)" using m(1) by (simp add: cores_marks)
    have "tracked (Suc n) p'"
      by (rule tracked_enter [OF k(1) t _ s(1,2) _ s(4) c m(2) 2(1) m(3,4)]) (use 2 k(2) s(3) m(5) in \<open>simp_all add: finals_def\<close>)
    then show ?thesis using \<open>r = 0\<close> by simp
  next
    case 3
    from k(8) [OF 3(1)] obtain ev rs st where m: "marks p1 a = Some ((d, False, ev, rs), st)" "loose (owners p1) (cores p1) a"
      "loose (owners p1) (cores p1) rs" by blast
    from 3 assms(3) nn k(2) obtain q where d: "r = -1" "discard_node a q = Some p'" "same_marks p1 q" "epoll q = epoll p1" "max_open_files q = max_open_files p1"
      by (auto simp: poller_add_def bind_eq_Some_conv split: if_splits)
    show ?thesis using give_back_tracked [OF k(1) d(3-5,2) t m] d(1) by simp
  qed
qed

lemma loose_owner: "loose A C z \<Longrightarrow> b \<in> A \<Longrightarrow> z \<noteq> b"
  by (auto simp: loose_def)

text \<open>The node of a descriptor is exchanged for another one.\<close>

lemma exchange_tracked:
  assumes "a \<noteq> NULL" "tracked n (p'\<lparr>nodes := N, epoll := E\<rparr>)" "quiet p1 (p'\<lparr>nodes := N, epoll := E\<rparr>)" "table_ok p'"
    "fd d \<in> taken_fds p1" "nodes p' = (nodes p1)(fd d := a)" "N = (nodes p1)(fd d := NULL)" "E = (epoll p')(fd d := None)"
    and m: "marks p1 a = Some ((d, False, ev, r), st)" "loose (owners p1) (cores p1) a" "loose (owners p1) (cores p1) r"
      "r \<noteq> NULL \<longrightarrow> r \<noteq> a \<and> cores p1 r \<noteq> None" "operation d \<noteq> PD_OP_TIMER"
    and keep: "\<And>z. z \<noteq> nodes p1 (fd d) \<Longrightarrow> z \<noteq> res_of (cores p1) (nodes p1 (fd d)) \<Longrightarrow> marks p' z = marks p1 z"
  shows "tracked (Suc n) p'"
proof -
  let ?mid = "p'\<lparr>nodes := N, epoll := E\<rparr>" and ?o = "nodes p1 (fd d)"
  note l = quiet_loose [OF assms(3) m(2)] quiet_loose [OF assms(3) m(3)]
  have o: "?o \<in> owners p1" using owners_node [OF assms(5)] by simp
  have ne: "a \<noteq> ?o" "a \<noteq> res_of (cores p1) ?o" using m(2) o assms(1) by (auto simp: loose_def)
  have c: "cores ?mid a = Some (d, False, ev, r)" using keep [OF ne] m(1) by (simp add: cores_marks)
  have "r \<noteq> a \<and> cores ?mid r \<noteq> None" if "r \<noteq> NULL"
  proof -
    have "r \<noteq> ?o \<and> r \<noteq> res_of (cores p1) ?o" using m(3) o that by (auto simp: loose_def)
    then have "marks ?mid r = marks p1 r" using keep by simp
    then show ?thesis using m(4) that by (simp add: cores_marks)
  qed
  then show ?thesis
    by (intro tracked_enter [OF assms(2,4), of "fd d" a d False ev r]) (use c m(5) assms(1,6-8) l in \<open>simp_all add: finals_def\<close>)
qed

lemma poller_mod_tracked:
  assumes "tracked n p" "fresh_mem rm nm p" "poller_mod d timeout now rm nm ctl p = Some (r, p')"
  shows "tracked (if r = 0 then Suc n else n) p'"
proof -
  obtain a p1 where nn: "poller_new_node d timeout now rm nm p = (a, p1)" by (cases "poller_new_node d timeout now rm nm p")
  note k = new_node_tracked [OF assms(1,2) nn] and t = poller_mod_table [OF trackedD(1) [OF assms(1)] assms(2,3)]
  let ?o = "nodes p (fd d)"
  consider "a = NULL" | "a \<noteq> NULL" "?o \<noteq> NULL" "ctl \<ge> 0" | "a \<noteq> NULL" "\<not> (?o \<noteq> NULL \<and> ctl \<ge> 0)" by auto
  then show ?thesis
  proof cases
    case 1
    with assms(3) nn have "r = -1 \<and> p' = p1" by (auto simp: poller_mod_def)
    then show ?thesis using k(1) by simp
  next
    case 2
    note a = 2(1)
    from k(8) [OF a] obtain ev rs st where m: "marks p1 a = Some ((d, False, ev, rs), st)" "operation d \<noteq> PD_OP_TIMER"
      "loose (owners p1) (cores p1) a" "loose (owners p1) (cores p1) rs" "rs \<noteq> NULL \<longrightarrow> rs \<noteq> a \<and> cores p1 rs \<noteq> None" by blast
    have f: "fd d \<in> taken_fds p1" using 2(2) k(2) by (simp add: taken_fds_def)
    from assms(3) nn 2 k(2) obtain n1 :: poller_node and p2 p3 p4 where "r = 0" and
      s: "poller_unlink ?o (p1\<lparr>epoll := (epoll p1)(fd d \<mapsto> (pevent n1, a))\<rparr>) = Some p2" "hand_over ?o PR_ST_MODIFIED p2 = Some p3"
        "poller_place timeout a p3 = Some p4" "call_if_stopped ?o (p4\<lparr>nodes := (nodes p4)(fd d := a)\<rparr>) = Some p'"
      using 2 by (auto simp: poller_mod_def Let_def bind_eq_Some_conv)
    have s2: "marks p2 = marks p1" "nodes p2 = nodes p1" "pipe p2 = pipe p1" "results p2 = results p1" "stopped p2 = stopped p1"
      using same_marks_unlink [OF s(1)] by (simp_all add: same_marks_def)
    have n3: "nodes p3 = nodes p2" using s(2) by (auto simp: hand_over_def bind_eq_Some_conv upd_node_def split: if_splits option.splits)
    have s4: "same_marks p3 ((p4\<lparr>nodes := (nodes p4)(fd d := a)\<rparr>)\<lparr>nodes := nodes p3\<rparr>)" "nodes p4 = nodes p3"
      using same_marks_place [OF s(3)] by (auto simp: same_marks_def)
    have n': "nodes p' = (nodes p)(fd d := a)"
      using s(4) s4(2) n3 s2(2) k(2) by (auto simp: call_if_stopped_def free_res_def callback_def bind_eq_Some_conv split: if_splits option.splits)
    define mid where "mid = p'\<lparr>nodes := (nodes p)(fd d := NULL), epoll := (epoll p')(fd d := None)\<rparr>"
    have tm: "table_ok mid" using tbl_remove [OF t [unfolded table_ok_def], of "fd d"] by (simp add: mid_def table_ok_def n')
    have "tracked n mid \<and> quiet p1 mid \<and> (\<forall>z. z \<noteq> nodes p1 (fd d) \<longrightarrow> z \<noteq> res_of (cores p1) (nodes p1 (fd d)) \<longrightarrow> marks mid z = marks p1 z)"
      by (rule take_out_tracked [OF k(1) f tm, of PR_ST_MODIFIED p2 p3 "p4\<lparr>nodes := (nodes p4)(fd d := a)\<rparr>" p'])
        (use s s2 s4 k(2) in \<open>simp_all add: mid_def st_defs\<close>)
    then have mid: "tracked n mid" "quiet p1 mid" and keep: "\<And>z. z \<noteq> ?o \<Longrightarrow> z \<noteq> res_of (cores p1) ?o \<Longrightarrow> marks p' z = marks p1 z"
      by (auto simp: k(2) mid_def)
    have "tracked (Suc n) p'"
      by (rule exchange_tracked [OF a mid [unfolded mid_def] t f _ _ _ m(1,3,4,5,2) keep]) (simp_all add: k(2) n')
    then show ?thesis using \<open>r = 0\<close> by simp
  next
    case 3
    from k(8) [OF 3(1)] obtain ev rs st where m: "marks p1 a = Some ((d, False, ev, rs), st)" "loose (owners p1) (cores p1) a"
      "loose (owners p1) (cores p1) rs" by blast
    from 3 assms(3) nn k(2) obtain q where d: "r = -1" "discard_node a q = Some p'" "same_marks p1 q" "epoll q = epoll p1" "max_open_files q = max_open_files p1"
      by (auto simp: poller_mod_def bind_eq_Some_conv split: if_splits)
    show ?thesis using give_back_tracked [OF k(1) d(3-5,2) t m] d(1) by simp
  qed
qed

lemma poller_set_timeout_tracked:
  assumes "tracked n p" "poller_set_timeout f timeout now p = Some (r, p')"
  shows "tracked n p'"
proof -
  note t = poller_set_timeout_table [OF trackedD(1) [OF assms(1)] assms(2)]
  have "same_marks p p'"
  proof (cases "bad_fd f p \<or> nodes p f = NULL")
    case True
    with assms(2) show ?thesis by (auto simp: poller_set_timeout_def split: if_splits)
  next
    case False
    let ?a = "nodes p f" and ?g = "\<lambda>n. n\<lparr>ptimeout := poller_node_set_timeout now timeout\<rparr>"
    from False assms(2) obtain p1 p2 where 1: "poller_unlink ?a p = Some p1"
      and 2: "(if timeout \<ge> 0 then upd_node ?a ?g p1 else Some p1) = Some p2" and 3: "poller_place timeout ?a p2 = Some p'"
      by (auto simp: poller_set_timeout_def Let_def bind_eq_Some_conv)
    have "same_marks p1 p2" using 2 same_marks_upd [of ?a ?g p1 p2] by (auto split: if_splits)
    with same_marks_unlink [OF 1] same_marks_place [OF 3] show ?thesis by (blast intro: same_marks_trans)
  qed
  then show ?thesis by (rule same_marks_tracked [OF assms(1) _ t])
qed

lemma poller_add_timer_tracked:
  assumes "tracked n p" "fresh_mem NULL nm p" "poller_add_timer val c now nm p = Some (r, a, p')"
  shows "tracked n p'"
proof (cases "nm = NULL")
  case True
  then show ?thesis using assms(1,3) by (simp add: poller_add_timer_def)
next
  case False
  then obtain k where k: "poller_insert_node nm (new_entry nm k p) = Some p'"
    using assms(3) by (auto simp: poller_add_timer_def Let_def bind_eq_Some_conv)
  have fr: "cores p nm = None" using assms(2) by (simp add: fresh_mem_def cores_def)
  show ?thesis
  proof (rule tracked_touch [OF assms(1) poller_add_timer_table [OF trackedD(1) [OF assms(1)] assms(2,3)]])
    have s: "same_marks (new_entry nm k p) p'" using k by (rule same_marks_insert_node)
    then show "nodes p' = nodes p" "pipe p' = pipe p" "finals p' = finals p" by (simp_all add: same_marks_def finals_def)
    show "marks p' z \<noteq> marks p z \<Longrightarrow> loose (owners p) (cores p) z" for z
      using s loose_fresh [OF trackedD(2) [OF assms(1)] fr] by (auto simp: same_marks_def split: if_splits)
  qed
qed

text \<open>A timer is a node that nobody holds.\<close>

lemma poller_del_timer_tracked:
  assumes "tracked n p" "loose (owners p) (cores p) a" "outside (nodes p) (cores p) a" "entries p a = Some k" "operation (pdata k) = PD_OP_TIMER"
    "poller_del_timer a p = Some (r, p')"
  shows "tracked n p'"
proof (rule tracked_touch [OF assms(1) poller_del_timer_table [OF trackedD(1) [OF assms(1)] assms(3,6)]])
  have "nodes p' = nodes p \<and> pipe p' = pipe p \<and> finals p' = finals p \<and> (\<forall>z. z \<noteq> a \<longrightarrow> marks p' z = marks p z)"
  proof (cases "removed k")
    case True
    then show ?thesis using assms(4,6) by (auto simp: poller_del_timer_def finals_def)
  next
    case False
    with assms(4,6) obtain p1 p2 p3 where
      1: "upd_node a (\<lambda>n. n\<lparr>removed := True\<rparr>) p = Some p1" "poller_unlink a p1 = Some p2"
        "upd_node a (\<lambda>n. n\<lparr>perror := 0, pstate := PR_ST_DELETED\<rparr>) p2 = Some p3" "callback a p3 = Some p'"
      by (auto simp: poller_del_timer_def bind_eq_Some_conv)
    from 1(1) have m1: "marks p1 = (marks p)(a \<mapsto> (core (k\<lparr>removed := True\<rparr>), pstate k))" "nodes p1 = nodes p" "pipe p1 = pipe p" "results p1 = results p"
      using assms(4) by (auto simp: upd_node_def marks_def fun_eq_iff split: option.splits)
    have m2: "same_marks p1 p2" using 1(2) by (rule same_marks_unlink)
    from upd_node_marks [OF 1(3)] obtain j where j: "entries p2 a = Some j" "marks p3 = (marks p2)(a \<mapsto> (core j, PR_ST_DELETED))"
      "nodes p3 = nodes p2" "pipe p3 = pipe p2" "results p3 = results p2" by auto
    obtain q where q: "entries p3 a = Some q" "p' = (free_node_mem a p3)\<lparr>results := results p3 @ [(a, q)]\<rparr>"
      using 1(4) by (auto simp: callback_def split: option.splits)
    have "core j = core (k\<lparr>removed := True\<rparr>)" using j(1) m1(1) m2 by (auto simp: same_marks_def marks_def fun_eq_iff dest: spec [of _ a])
    moreover have "core q = core j" using q(1) j(2) by (auto simp: marks_def fun_eq_iff dest: spec [of _ a])
    ultimately have "\<not> final q" using assms(5) by (simp add: final_def core_def)
    then show ?thesis using q(2) j(2-5) m1 m2 by (auto simp: same_marks_def finals_def)
  qed
  then show "nodes p' = nodes p" "pipe p' = pipe p" "finals p' = finals p" "marks p' z \<noteq> marks p z \<Longrightarrow> loose (owners p) (cores p) z" for z
    using assms(2) by (simp, simp, simp, metis)
qed

lemma poller_start_tracked: "tracked n p \<Longrightarrow> poller_start piped ctl created p = (r, p') \<Longrightarrow> tracked n p'"
  by (auto simp: poller_start_def Let_def tracked_def table_ok_def owners_def taken_fds_def in_pipe_def finals_def cores_def comp_def marks_def split: if_splits)

lemma poller_create_tracked: "poller_create True True epfd tfd ctl maxfiles root l1 l2 h = Some (Some p) \<Longrightarrow> tracked 0 p"
  using api_run_table [OF created, of epfd tfd ctl maxfiles root l1 l2 h p]
  by (auto simp: poller_create_def bind_eq_Some_conv tracked_def owners_def taken_fds_def in_pipe_def finals_def own_def split: if_splits)

end
