(* ===== verification/Poller_Events.thy ===== *)
theory Poller_Events
  imports Poller_Table
begin

section \<open>The event handlers of the poller\<close>

text \<open>
  The functions of \<open>poller.cc\<close> that the poller's own thread runs. The answers of the
  system calls and of the user's functions (\<open>accept\<close>, \<open>partial_written\<close>, ...) are
  arguments, in the order in which the handler asks for them; a list that is too short
  gives \<open>None\<close>.
\<close>

subsection \<open>Taking a node out\<close>

text \<open>
  \<open>__poller_remove_node\<close>: the flag \<open>removed\<close> is read before the lock is taken; the
  critical section uses the value read.
\<close>

definition remove_section :: "addr \<Rightarrow> bool \<Rightarrow> poller \<Rightarrow> poller option" where
  "remove_section a was_removed p =
     (if was_removed then Some p
      else do {
        n \<leftarrow> entries p a;
        p \<leftarrow> poller_unlink a (p\<lparr>nodes := (nodes p)(fd (pdata n) := NULL)\<rparr>);
        Some (poller_delete_fd (fd (pdata n)) p)
      })"

definition poller_remove_node :: "addr \<Rightarrow> poller \<Rightarrow> (bool \<times> poller) option" where
  "poller_remove_node a p = do {
     n \<leftarrow> entries p a;
     p \<leftarrow> remove_section a (removed n) p;
     Some (removed n, p)
   }"

text \<open>The end of the handlers: the node goes to the callback with its state and error.\<close>

definition finish_node :: "bool \<Rightarrow> addr \<Rightarrow> int \<Rightarrow> int \<Rightarrow> poller \<Rightarrow> poller option" where
  "finish_node frees a st err p = do {
     p \<leftarrow> upd_node a (\<lambda>n. n\<lparr>perror := err, pstate := st\<rparr>) p;
     p \<leftarrow> (if frees then free_res a p else Some p);
     callback a p
   }"

definition remove_and_finish :: "bool \<Rightarrow> addr \<Rightarrow> int \<Rightarrow> int \<Rightarrow> poller \<Rightarrow> poller option" where
  "remove_and_finish frees a st err p = do {
     (was_removed, p) \<leftarrow> poller_remove_node a p;
     if was_removed then Some p else finish_node frees a st err p
   }"

text \<open>A result node \<open>res\<close> with the data of \<open>a\<close> and a result, given to the callback.\<close>

definition deliver :: "addr \<Rightarrow> addr \<Rightarrow> addr \<Rightarrow> poller \<Rightarrow> poller option" where
  "deliver a res result p = do {
     n \<leftarrow> entries p a;
     p \<leftarrow> upd_node res (\<lambda>r. r\<lparr>pdata := (pdata n)\<lparr>message := result\<rparr>, perror := 0, pstate := PR_ST_SUCCESS\<rparr>) p;
     callback res p
   }"

text \<open>\<open>res = malloc(...); node->res = res;\<close>\<close>

definition renew_res :: "addr \<Rightarrow> addr \<Rightarrow> poller \<Rightarrow> poller option" where
  "renew_res a res p = upd_node a (\<lambda>n. n\<lparr>pres := res\<rparr>) (if res = NULL then p else new_entry res blank_node p)"

subsection \<open>Writing\<close>

text \<open>
  The remaining buffers are the byte lists \<open>iov\<close>, one for each of the \<open>iovcnt\<close>
  vectors. The inner loop takes \<open>nleft\<close> written bytes off them.
\<close>

fun iov_advance :: "nat \<Rightarrow> nat list list \<Rightarrow> nat list list" where
  "iov_advance nleft [] = []"
| "iov_advance nleft (v # vs) = (if nleft \<ge> length v then iov_advance (nleft - length v) vs else drop nleft v # vs)"

text \<open>The outer loop: \<open>Inl e\<close> is a failing \<open>writev\<close> with \<open>errno = e\<close>, \<open>Inr n\<close> one that wrote \<open>n\<close> bytes.\<close>

fun write_loop :: "(int + nat) list \<Rightarrow> nat list list \<Rightarrow> nat \<Rightarrow> int \<Rightarrow> (int \<times> nat list list \<times> nat \<times> int) option" where
  "write_loop ws [] count err = Some (0, [], count, err)"
| "write_loop [] (v # vs) count err = None"
| "write_loop (Inl e # ws) (v # vs) count err = Some (if e = errno_code EAGAIN then 0 else -1, v # vs, count, e)"
| "write_loop (Inr n # ws) (v # vs) count err = write_loop ws (iov_advance n (v # vs)) (count + n) err"

definition poller_handle_write ::
  "(int + nat) list \<Rightarrow> int \<Rightarrow> nat list list \<Rightarrow> addr \<Rightarrow> poller \<Rightarrow> (nat list list \<times> poller) option" where
  "poller_handle_write ws partial_written iov a p = do {
     (ret, rest, count, err) \<leftarrow> write_loop ws iov 0 (errno p);
     let p = p\<lparr>errno := err\<rparr>;
     p \<leftarrow> upd_node a (\<lambda>n. n\<lparr>pdata := (pdata n)\<lparr>iovcnt := length rest,
            message := message (pdata n) + 16 * (length iov - length rest)\<rparr>\<rparr>) p;
     if rest \<noteq> [] \<and> ret \<ge> 0 \<and> (count = 0 \<or> partial_written \<ge> 0) then Some (rest, p)
     else do {
       p \<leftarrow> (if rest = [] then remove_and_finish False a PR_ST_FINISHED 0 p
             else remove_and_finish False a PR_ST_ERROR (errno p) p);
       Some (rest, p)
     }
   }"

subsection \<open>Connecting\<close>

text \<open>\<open>Inl e\<close>: \<open>getsockopt\<close> failed with \<open>errno = e\<close>; \<open>Inr e\<close>: the pending error of the socket.\<close>

definition poller_handle_connect :: "int + int \<Rightarrow> addr \<Rightarrow> poller \<Rightarrow> poller option" where
  "poller_handle_connect so a p =
     (let error = (case so of Inl e \<Rightarrow> e | Inr e \<Rightarrow> e)
      in if error = 0 then remove_and_finish False a PR_ST_FINISHED 0 p
         else remove_and_finish False a PR_ST_ERROR error p)"

subsection \<open>Listening, receiving datagrams\<close>

text \<open>
  One list for the answers of the system call and of the user's function: \<open>Inl e\<close> is a
  failing call, \<open>Inr (result, mem)\<close> a successful one for which the user's \<open>accept\<close> or
  \<open>recvfrom\<close> returned \<open>result\<close> and the following \<open>malloc\<close> \<open>mem\<close>. \<open>retry e\<close> and
  \<open>give_up e\<close> say for which errors the loop goes round again or the handler returns.
  The result is whether the handler returned in the loop.
\<close>

fun accept_loop ::
  "(int \<Rightarrow> bool) \<Rightarrow> (int \<Rightarrow> bool) \<Rightarrow> (int + addr \<times> addr) list \<Rightarrow> addr \<Rightarrow> addr \<Rightarrow> poller \<Rightarrow> (bool \<times> poller) option" where
  "accept_loop retry give_up [] a res p = None"
| "accept_loop retry give_up (Inl e # evs) a res p =
     (let p = p\<lparr>errno := e\<rparr>
      in if give_up e then Some (True, p)
         else if retry e then accept_loop retry give_up evs a res p
         else Some (False, p))"
| "accept_loop retry give_up (Inr (result, mem) # evs) a res p =
     (if result = NULL then Some (False, p)
      else do {
        p \<leftarrow> deliver a res result p;
        p \<leftarrow> renew_res a mem p;
        if mem = NULL then Some (False, p) else accept_loop retry give_up evs a mem p
      })"

definition handle_with :: "(int \<Rightarrow> bool) \<Rightarrow> (int \<Rightarrow> bool) \<Rightarrow> (int + addr \<times> addr) list \<Rightarrow> addr \<Rightarrow> poller \<Rightarrow> poller option" where
  "handle_with retry give_up evs a p = do {
     n \<leftarrow> entries p a;
     (returned, p) \<leftarrow> accept_loop retry give_up evs a (pres n) p;
     if returned then Some p else remove_and_finish True a PR_ST_ERROR (errno p) p
   }"

definition poller_handle_listen :: "(int + addr \<times> addr) list \<Rightarrow> addr \<Rightarrow> poller \<Rightarrow> poller option" where
  "poller_handle_listen = handle_with (\<lambda>e. e = errno_code ECONNABORTED)
     (\<lambda>e. e \<in> {errno_code EAGAIN, errno_code EMFILE, errno_code ENFILE})"

definition poller_handle_recvfrom :: "(int + addr \<times> addr) list \<Rightarrow> addr \<Rightarrow> poller \<Rightarrow> poller option" where
  "poller_handle_recvfrom = handle_with (\<lambda>e. False) (\<lambda>e. e = errno_code EAGAIN)"

subsection \<open>Event descriptors\<close>

text \<open>
  The counter values read, up to the error that ends the reading (\<open>EINVAL\<close> for a short
  read), and the loop over the events with the user's results and the following \<open>malloc\<close>s.
  \<open>Inl cnt\<close> is leaving the loop with \<open>cnt\<close> events left, \<open>Inr\<close> returning from the handler.
\<close>

fun event_loop :: "nat \<Rightarrow> (addr \<times> addr) list \<Rightarrow> addr \<Rightarrow> addr \<Rightarrow> poller \<Rightarrow> (nat + unit) option \<times> poller" where
  "event_loop 0 evs a res p = (Some (Inr ()), p)"
| "event_loop (Suc cnt) [] a res p = (None, p)"
| "event_loop (Suc cnt) ((result, mem) # evs) a res p =
     (if result = NULL then (Some (Inl cnt), p)
      else case deliver a res result p of
          None \<Rightarrow> (None, p)
        | Some p \<Rightarrow>
            (case renew_res a mem p of
               None \<Rightarrow> (None, p)
             | Some p \<Rightarrow> if mem = NULL then (Some (Inl cnt), p) else event_loop cnt evs a mem p))"

text \<open>The handler gives the count written back to the descriptor, if any.\<close>

definition poller_handle_event ::
  "64 word list \<Rightarrow> int \<Rightarrow> (addr \<times> addr) list \<Rightarrow> addr \<Rightarrow> poller \<Rightarrow> (64 word option \<times> poller) option" where
  "poller_handle_event values err evs a p = do {
     n \<leftarrow> entries p a;
     let cnt = sum_list values;
     let p = p\<lparr>errno := err\<rparr>;
     if err = errno_code EAGAIN then
       (case event_loop (unat cnt) evs a (pres n) p of
          (None, _) \<Rightarrow> None
        | (Some (Inr _), p) \<Rightarrow> Some (None, p)
        | (Some (Inl remaining), p) \<Rightarrow> do {
            q \<leftarrow> remove_and_finish True a PR_ST_ERROR (errno p) p;
            Some (if remaining \<noteq> 0 then Some (of_nat remaining) else None, q)
          })
     else do {
       q \<leftarrow> remove_and_finish True a PR_ST_ERROR (errno p) p;
       Some (if cnt \<noteq> 0 then Some cnt else None, q)
     }
   }"

subsection \<open>The pipe\<close>

fun pipe_loop :: "addr list \<Rightarrow> bool \<Rightarrow> poller \<Rightarrow> (bool \<times> poller) option" where
  "pipe_loop [] stop p = Some (stop, p)"
| "pipe_loop (a # as) stop p =
     (if a \<noteq> NULL then do { p \<leftarrow> free_res a p; p \<leftarrow> callback a p; pipe_loop as stop p }
      else pipe_loop as True p)"

definition POLLER_BUFSIZE :: nat where "POLLER_BUFSIZE = 256 * 1024"

text \<open>The read takes at most as many pointers of 8 bytes as the buffer holds.\<close>

definition poller_handle_pipe :: "poller \<Rightarrow> (bool \<times> poller) option" where
  "poller_handle_pipe p =
     (let n = POLLER_BUFSIZE div 8
      in pipe_loop (take n (pipe p)) False (p\<lparr>pipe := drop n (pipe p)\<rparr>))"

subsection \<open>Reading\<close>

text \<open>
  \<open>__poller_append_message\<close>. \<open>app\<close> is the answer of the message's \<open>append\<close> (its result
  and the number of bytes it took), \<open>mem\<close> that of \<open>malloc\<close>, \<open>msg\<close> that of
  \<open>create_message\<close>, when they are called.
\<close>

record append_answer =
  app_ret :: int
  app_n :: nat
  app_mem :: addr
  app_msg :: addr

definition poller_append_message :: "append_answer \<Rightarrow> addr \<Rightarrow> poller \<Rightarrow> (int \<times> poller) option" where
  "poller_append_message ans a p = do {
     n \<leftarrow> entries p a;
     if message (pdata n) = NULL \<and> (app_mem ans = NULL \<or> app_msg ans = NULL) then Some (-1, p)
     else do {
       p \<leftarrow> (if message (pdata n) = NULL then
               upd_node a (\<lambda>n. n\<lparr>pdata := (pdata n)\<lparr>message := app_msg ans\<rparr>, pres := app_mem ans\<rparr>)
                 (new_entry (app_mem ans) blank_node p)
             else Some p);
       if app_ret ans > 0 then do {
         n \<leftarrow> entries p a;
         p \<leftarrow> deliver a (pres n) (message (pdata n)) p;
         p \<leftarrow> upd_node a (\<lambda>n. n\<lparr>pdata := (pdata n)\<lparr>message := NULL\<rparr>, pres := NULL\<rparr>) p;
         Some (app_ret ans, p)
       } else Some (app_ret ans, p)
     }
   }"

text \<open>
  The inner loop over the bytes of one \<open>read\<close>: the value of \<open>nleft\<close> at its end, the answers not
  yet asked for, and the bytes the messages took.
\<close>

fun feed_loop :: "append_answer list \<Rightarrow> nat list \<Rightarrow> addr \<Rightarrow> poller \<Rightarrow> (int \<times> append_answer list \<times> nat list \<times> poller) option" where
  "feed_loop [] bs a p = None"
| "feed_loop (ans # as) bs a p = do {
     (ret, p) \<leftarrow> poller_append_message ans a p;
     if ret < 0 then Some (-1, as, [], p)
     else if app_n ans < length bs then do {
       (nleft, as, fed, p) \<leftarrow> feed_loop as (drop (app_n ans) bs) a p;
       Some (nleft, as, take (app_n ans) bs @ fed, p)
     } else Some (int (length bs) - int (app_n ans), as, bs, p)
   }"

text \<open>
  The outer loop: \<open>Inl e\<close> is a failing \<open>read\<close>, \<open>Inr bs\<close> the bytes read (none at the end of
  the stream). The result is \<open>None\<close> for returning because of \<open>EAGAIN\<close>, else the final \<open>nleft\<close>.
\<close>

fun read_loop :: "append_answer list \<Rightarrow> (int + nat list) list \<Rightarrow> addr \<Rightarrow> poller \<Rightarrow> (int option \<times> nat list \<times> poller) option" where
  "read_loop as [] a p = None"
| "read_loop as (Inl e # rs) a p =
     (let p = p\<lparr>errno := e\<rparr> in if e = errno_code EAGAIN then Some (None, [], p) else Some (Some (-1), [], p))"
| "read_loop as (Inr bs # rs) a p =
     (if bs = [] then Some (Some 0, [], p)
      else do {
        (nleft, as, fed, p) \<leftarrow> feed_loop as bs a p;
        if nleft < 0 then Some (Some nleft, fed, p)
        else do {
          (r, fed', p) \<leftarrow> read_loop as rs a p;
          Some (r, fed @ fed', p)
        }
      })"

definition poller_handle_read ::
  "append_answer list \<Rightarrow> (int + nat list) list \<Rightarrow> addr \<Rightarrow> poller \<Rightarrow> (nat list \<times> poller) option" where
  "poller_handle_read as rs a p = do {
     (r, fed, p) \<leftarrow> read_loop as rs a p;
     case r of
       None \<Rightarrow> Some (fed, p)
     | Some nleft \<Rightarrow> do {
         p \<leftarrow> (if nleft = 0 then remove_and_finish True a PR_ST_FINISHED 0 p
               else remove_and_finish True a PR_ST_ERROR (errno p) p);
         Some (fed, p)
       }
   }"

subsection \<open>Timeouts\<close>

text \<open>\<open>__poller_set_timer\<close>: the earlier of the first node of the list and the first of the tree.\<close>

definition poller_set_timer :: "poller \<Rightarrow> poller option" where
  "poller_set_timer p = do {
     e \<leftarrow> list_empty (timeo_list p) (pmem p);
     node \<leftarrow> (if e then Some NULL else load (timeo_list p, nextf) (pmem p));
     let first = tree_first (ptimers p);
     node \<leftarrow> (if first \<noteq> NULL then
                (if node = NULL then Some first
                 else do { c \<leftarrow> cmp (node_times p) first node; Some (if c < 0 then first else node) })
              else Some node);
     if node \<noteq> NULL then do { n \<leftarrow> entries p node; Some (poller_set_timerfd (ptimeout n) p) }
     else Some (poller_set_timerfd (Timespec 0 0) p)
   }"

text \<open>What \<open>__poller_handle_timeout\<close> does to an expired node in either loop.\<close>

definition expire_node :: "addr \<Rightarrow> poller \<Rightarrow> poller option" where
  "expire_node a p = do {
     n \<leftarrow> entries p a;
     if fd (pdata n) \<ge> 0 then Some (poller_delete_fd (fd (pdata n)) (p\<lparr>nodes := (nodes p)(fd (pdata n) := NULL)\<rparr>))
     else upd_node a (\<lambda>n. n\<lparr>removed := True\<rparr>) p
   }"

text \<open>The loop over \<open>poller->timeo_list\<close>; \<open>l\<close> is the local list.\<close>

partial_function (option) timeout_list_loop :: "timespec \<Rightarrow> addr \<Rightarrow> addr \<Rightarrow> poller \<Rightarrow> poller option" where
  "timeout_list_loop now l pos p =
     (if pos = timeo_list p then Some p
      else do {
        n \<leftarrow> entries p pos;
        if timeout_cmp (ptimeout n) now > 0 then Some p
        else do {
          p \<leftarrow> expire_node pos p;
          p \<leftarrow> poller_list_add l pos p;
          pos \<leftarrow> load (pos, nextf) (pmem p);
          timeout_list_loop now l pos p
        }
      })"

text \<open>The loop over the tree.\<close>

definition tree_pop :: "poller \<Rightarrow> poller option" where
  "tree_pop p = do {
     let a = tree_first (ptimers p);
     nx \<leftarrow> rb_next a (pmem p);
     h \<leftarrow> rb_erase a (timeo_tree (ptimers p)) (pmem p);
     Some (p\<lparr>ptimers := (ptimers p)\<lparr>tree_first := nx, tmem := h\<rparr>\<rparr>)
   }"

partial_function (option) timeout_tree_loop :: "timespec \<Rightarrow> addr \<Rightarrow> poller \<Rightarrow> poller option" where
  "timeout_tree_loop now l p =
     (let a = tree_first (ptimers p)
      in if a = NULL then Some p
         else do {
           n \<leftarrow> entries p a;
           if timeout_cmp (ptimeout n) now > 0 then Some p
           else do {
             p \<leftarrow> expire_node a p;
             p \<leftarrow> tree_pop p;
             p \<leftarrow> poller_list_add l a p;
             timeout_tree_loop now l
               (if tree_first (ptimers p) = NULL then p\<lparr>ptimers := (ptimers p)\<lparr>tree_last := NULL\<rparr>\<rparr> else p)
           }
         })"

text \<open>The loop that calls back, after the lock is released.\<close>

partial_function (option) timeout_call_loop :: "addr \<Rightarrow> addr \<Rightarrow> poller \<Rightarrow> poller option" where
  "timeout_call_loop l pos p =
     (if pos = l then Some p
      else do {
        n \<leftarrow> entries p pos;
        p \<leftarrow> (if fd (pdata n) \<ge> 0 then finish_node True pos PR_ST_ERROR (errno_code ETIMEDOUT) p
              else finish_node True pos PR_ST_FINISHED 0 p);
        pos \<leftarrow> load (pos, nextf) (pmem p);
        timeout_call_loop l pos p
      })"

definition poller_handle_timeout :: "timespec \<Rightarrow> addr \<Rightarrow> poller \<Rightarrow> poller option" where
  "poller_handle_timeout now l p = do {
     h \<leftarrow> list_init l (pmem p);
     let p = set_pmem h p;
     pos \<leftarrow> load (timeo_list p, nextf) (pmem p);
     p \<leftarrow> timeout_list_loop now l pos p;
     p \<leftarrow> timeout_tree_loop now l p;
     pos \<leftarrow> load (l, nextf) (pmem p);
     timeout_call_loop l pos p
   }"

subsection \<open>The thread of the poller\<close>

text \<open>The answers one handler may ask for.\<close>

record answers =
  ans_app :: "append_answer list"
  ans_read :: "(int + nat list) list"
  ans_write :: "(int + nat) list"
  ans_partial :: int
  ans_iov :: "nat list list"
  ans_accept :: "(int + addr \<times> addr) list"
  ans_sockerr :: "int + int"
  ans_counters :: "64 word list"
  ans_errno :: int
  ans_events :: "(addr \<times> addr) list"

definition poller_dispatch :: "answers \<Rightarrow> addr \<Rightarrow> poller \<Rightarrow> poller option" where
  "poller_dispatch ans a p = do {
     n \<leftarrow> entries p a;
     let oper = operation (pdata n);
     if oper = PD_OP_READ then map_option snd (poller_handle_read (ans_app ans) (ans_read ans) a p)
     else if oper = PD_OP_WRITE then map_option snd (poller_handle_write (ans_write ans) (ans_partial ans) (ans_iov ans) a p)
     else if oper = PD_OP_LISTEN then poller_handle_listen (ans_accept ans) a p
     else if oper = PD_OP_CONNECT then poller_handle_connect (ans_sockerr ans) a p
     else if oper = PD_OP_RECVFROM then poller_handle_recvfrom (ans_accept ans) a p
     else if oper = PD_OP_EVENT then map_option snd (poller_handle_event (ans_counters ans) (ans_errno ans) (ans_events ans) a p)
     else Some p
   }"

text \<open>The loop over the events: pointer 0 is the timer descriptor, pointer 1 the pipe.\<close>

fun events_loop :: "(addr \<times> answers) list \<Rightarrow> bool \<Rightarrow> poller \<Rightarrow> (bool \<times> poller) option" where
  "events_loop [] has_pipe p = Some (has_pipe, p)"
| "events_loop ((a, ans) # evs) has_pipe p =
     (if a \<le> 1 then events_loop evs (has_pipe \<or> a = 1) p
      else do { p \<leftarrow> poller_dispatch ans a p; events_loop evs has_pipe p })"

text \<open>One round of \<open>__poller_thread_routine\<close>: whether it was the last one, and the state.\<close>

definition poller_thread_round :: "timespec \<Rightarrow> addr \<Rightarrow> (addr \<times> answers) list \<Rightarrow> poller \<Rightarrow> (bool \<times> poller) option" where
  "poller_thread_round now l evs p = do {
     p \<leftarrow> poller_set_timer p;
     (has_pipe, p) \<leftarrow> events_loop evs False p;
     (stop, p) \<leftarrow> (if has_pipe then poller_handle_pipe p else Some (False, p));
     if stop then Some (True, p)
     else do { p \<leftarrow> poller_handle_timeout now l p; Some (False, p) }
   }"

subsection \<open>Stopping\<close>

partial_function (option) stop_tree_loop :: "addr \<Rightarrow> poller \<Rightarrow> poller option" where
  "stop_tree_loop l p = do {
     a \<leftarrow> load (timeo_tree (ptimers p)) (pmem p);
     if a = NULL then Some p
     else do {
       h \<leftarrow> rb_erase a (timeo_tree (ptimers p)) (pmem p);
       h \<leftarrow> list_add_tail l a h;
       stop_tree_loop l (set_pmem h p)
     }
   }"

partial_function (option) stop_mark_loop :: "addr \<Rightarrow> addr \<Rightarrow> poller \<Rightarrow> poller option" where
  "stop_mark_loop l pos p =
     (if pos = l then Some p
      else do {
        p \<leftarrow> expire_node pos p;
        pos \<leftarrow> load (pos, nextf) (pmem p);
        stop_mark_loop l pos p
      })"

partial_function (option) stop_call_loop :: "addr \<Rightarrow> addr \<Rightarrow> poller \<Rightarrow> poller option" where
  "stop_call_loop l pos p =
     (if pos = l then Some p
      else do {
        p \<leftarrow> finish_node True pos PR_ST_STOPPED 0 p;
        pos \<leftarrow> load (pos, nextf) (pmem p);
        stop_call_loop l pos p
      })"

text \<open>\<open>poller_stop\<close> after the thread was joined; \<open>l\<close> is the local \<open>node_list\<close>.\<close>

definition poller_stop :: "addr \<Rightarrow> poller \<Rightarrow> poller option" where
  "poller_stop l p = do {
     h \<leftarrow> list_init l (pmem p);
     let p = (set_pmem h p)\<lparr>stopped := True\<rparr>;
     (_, p) \<leftarrow> poller_handle_pipe p;
     let p = p\<lparr>ptimers := (ptimers p)\<lparr>tree_first := NULL, tree_last := NULL\<rparr>\<rparr>;
     p \<leftarrow> stop_tree_loop l p;
     h \<leftarrow> list_add_list l (timeo_list p) (pmem p);
     h \<leftarrow> list_add_list l (no_timeo_list p) h;
     let p = set_pmem h p;
     pos \<leftarrow> load (l, nextf) (pmem p);
     p \<leftarrow> stop_mark_loop l pos p;
     pos \<leftarrow> load (l, nextf) (pmem p);
     stop_call_loop l pos p
   }"

end
