(* ===== verification/Poller_Streams.thy ===== *)
theory Poller_Streams
  imports Poller_Events
begin

section \<open>Bytes in and out, and the pipe\<close>

text \<open>
  The byte accounting of the write and read handlers, and what the pipe delivers.
\<close>

subsection \<open>Taking a node out of the tree\<close>

text \<open>The result node that is freed with \<open>a\<close> is another node, not in the tree.\<close>

definition res_apart :: "addr \<Rightarrow> poller_node \<Rightarrow> addr list \<Rightarrow> poller \<Rightarrow> bool" where
  "res_apart a n xs p \<longleftrightarrow> pres n = NULL \<or> pres n \<noteq> a \<and> pres n \<notin> set xs \<and> pres n \<noteq> fst (timeo_tree (ptimers p))"

definition tree_node :: "addr \<Rightarrow> poller_node \<Rightarrow> addr list \<Rightarrow> poller \<Rightarrow> bool" where
  "tree_node a n xs p \<longleftrightarrow> entries p a = Some n \<and> \<not> removed n \<and> in_rbtree n \<and>
     timers_at (node_times p) (ptimers p) xs \<and> a \<in> set xs \<and> res_apart a n xs p"

lemma free_node_mem_fields [simp]:
  "results (free_node_mem a p) = results p" "errno (free_node_mem a p) = errno p" "pipe (free_node_mem a p) = pipe p"
  "entries (free_node_mem a p) = (entries p)(a := None)" "timeo_tree (ptimers (free_node_mem a p)) = timeo_tree (ptimers p)"
  "tree_first (ptimers (free_node_mem a p)) = tree_first (ptimers p)" "tree_last (ptimers (free_node_mem a p)) = tree_last (ptimers p)"
  "tmem (ptimers (free_node_mem a p)) = drop_cells a (tmem (ptimers p))"
  by (simp_all add: free_node_mem_def set_pmem_def pmem_def)

lemma node_times_fields [simp]: "node_times (p\<lparr>results := r\<rparr>) = node_times p" "node_times (p\<lparr>errno := e\<rparr>) = node_times p"
  by (simp_all add: node_times_def fun_eq_iff)

lemma timers_at_free:
  assumes "timers_at (node_times p) (ptimers p) xs" "a \<notin> set xs" "a \<noteq> fst (timeo_tree (ptimers p))"
  shows "timers_at (node_times (free_node_mem a p)) (ptimers (free_node_mem a p)) xs"
  using assms(1) by (rule timers_at_cong) (use assms(2,3) in \<open>auto simp: drop_cells_def node_times_def\<close>)

lemma tree_root_apart: "timers_at tm ts xs \<Longrightarrow> a \<in> set xs \<Longrightarrow> a \<noteq> fst (timeo_tree ts)"
  by (auto simp: timers_at_def rb_seq_def tree_at_def)

lemma remove_and_finish_correct:
  assumes "tree_node a n xs p"
  shows "\<exists>p'. remove_and_finish frees a st err p = Some p' \<and>
    results p' = results p @ [(a, n\<lparr>in_rbtree := False, perror := err, pstate := st\<rparr>)] \<and>
    nodes p' = (nodes p)(fd (pdata n) := NULL) \<and> epoll p' = (epoll p)(fd (pdata n) := None) \<and> entries p' a = None \<and>
    timers_at (node_times p') (ptimers p') (remove1 a xs)"
proof -
  from assms have n: "entries p a = Some n" "\<not> removed n" "in_rbtree n" and at: "timers_at (node_times p) (ptimers p) xs"
    and a: "a \<in> set xs" and ra: "res_apart a n xs p" by (auto simp: tree_node_def)
  from poller_tree_erase_correct [OF at a] obtain ts where
    ts: "poller_tree_erase a (ptimers p) = Some ts" "timers_at (node_times p) ts (remove1 a xs)" "timeo_tree ts = timeo_tree (ptimers p)" by blast
  define n1 where "n1 = n\<lparr>in_rbtree := False, perror := err, pstate := st\<rparr>"
  define p1 where "p1 = p\<lparr>nodes := (nodes p)(fd (pdata n) := NULL), ptimers := ts, epoll := (epoll p)(fd (pdata n) := None),
    entries := (entries p)(a \<mapsto> n1)\<rparr>"
  define p2 where "p2 = (if frees \<and> pres n \<noteq> NULL then free_node_mem (pres n) p1 else p1)"
  have "node_times p1 = node_times p" using n(1) by (auto simp: p1_def n1_def node_times_def fun_eq_iff)
  then have t1: "timers_at (node_times p1) (ptimers p1) (remove1 a xs)" using ts(2) by (simp add: p1_def)
  have sub: "set (remove1 a xs) \<subseteq> set xs" by (rule set_remove1_subset)
  have t2: "timers_at (node_times p2) (ptimers p2) (remove1 a xs)"
    using t1 timers_at_free [OF t1, of "pres n"] ra sub ts(3) by (auto simp: p2_def res_apart_def p1_def)
  have e2: "entries p2 a = Some n1" "results p2 = results p" "nodes p2 = nodes p1" "epoll p2 = epoll p1"
      "timeo_tree (ptimers p2) = timeo_tree (ptimers p)"
    using ra ts(3) by (auto simp: p2_def p1_def res_apart_def)
  have "distinct xs" using rb.seq_nodes [of "timeo_tree (ptimers p)" "tmem (ptimers p)" xs] at by (simp add: timers_at_def)
  then have "a \<notin> set (remove1 a xs)" by simp
  from timers_at_free [OF t2 this] tree_root_apart [OF at a] e2(5)
  have t3: "timers_at (node_times (free_node_mem a p2)) (ptimers (free_node_mem a p2)) (remove1 a xs)" by simp
  have "remove_and_finish frees a st err p = callback a p2"
    using n ts(1) by (auto simp: remove_and_finish_def poller_remove_node_def remove_section_def poller_unlink_def upd_node_def
        poller_delete_fd_def finish_node_def free_res_def p2_def p1_def n1_def)
  also have "\<dots> = Some ((free_node_mem a p2)\<lparr>results := results p @ [(a, n1)]\<rparr>)" using e2 by (simp add: callback_def)
  finally show ?thesis using t3 e2 by (auto simp: p1_def n1_def node_times_def cong: if_cong)
qed

subsection \<open>Writing\<close>

lemma concat_iov_advance: "concat (iov_advance n vs) = drop n (concat vs)"
  by (induction n vs rule: iov_advance.induct) auto

lemma iov_advance_Nil: "iov_advance n vs = [] \<longleftrightarrow> length (concat vs) \<le> n"
proof (induction n vs rule: iov_advance.induct)
  case (2 n v vs)
  then show ?case by (cases "length v \<le> n") auto
qed simp

text \<open>The bytes that the calls of \<open>writev\<close> reported, up to the failing one.\<close>

fun written :: "(int + nat) list \<Rightarrow> nat" where
  "written (Inr n # ws) = n + written ws"
| "written _ = 0"

text \<open>The \<open>errno\<close> of the call that failed.\<close>

fun first_error :: "(int + 'a) list \<Rightarrow> int" where
  "first_error (Inl e # ws) = e"
| "first_error (Inr n # ws) = first_error ws"
| "first_error [] = 0"

lemma write_loop_accounts:
  "write_loop ws iov c e = Some (ret, rest, c', e') \<Longrightarrow>
   c \<le> c' \<and> c' \<le> c + written ws \<and> concat rest = drop (c' - c) (concat iov) \<and> (rest = [] \<longrightarrow> length (concat iov) \<le> c' - c)"
proof (induction ws iov c e rule: write_loop.induct)
  case (4 n ws v vs c e)
  let ?iov = "iov_advance n (v # vs)"
  from 4 have ih: "c + n \<le> c'" "c' \<le> c + n + written ws" "concat rest = drop (c' - (c + n)) (concat ?iov)"
    "rest = [] \<Longrightarrow> length (concat ?iov) \<le> c' - (c + n)" by auto
  have "drop (c' - (c + n)) (drop n (concat (v # vs))) = drop (c' - c) (concat (v # vs))"
    using ih(1) by (simp only: drop_drop) (simp add: add.commute)
  with ih show ?case unfolding concat_iov_advance by auto
qed (auto split: if_splits)

lemma write_loop_outcome:
  "write_loop ws iov c e = Some (ret, rest, c', e') \<Longrightarrow>
   if rest = [] then ret = 0 else c' = c + written ws \<and> e' = first_error ws \<and> ret = (if e' = errno_code EAGAIN then 0 else -1)"
  by (induction ws iov c e rule: write_loop.induct) (auto split: if_splits)

lemma write_loop_rest:
  assumes "write_loop ws iov c e = Some (ret, rest, c', e')"
  shows "concat rest = drop (written ws) (concat iov)"
proof (cases "rest = []")
  case True
  with write_loop_accounts [OF assms] have "length (concat iov) \<le> written ws" by linarith
  with True show ?thesis by simp
next
  case False
  with write_loop_accounts [OF assms] write_loop_outcome [OF assms] show ?thesis by simp
qed

lemma write_loop_returns: "\<exists>e. Inl e \<in> set ws \<Longrightarrow> write_loop ws iov c err \<noteq> None"
  by (induction ws iov c err rule: write_loop.induct) auto

text \<open>The node after the write loop: fewer vectors, and the pointer moved past the written ones.\<close>

definition after_write :: "nat list list \<Rightarrow> nat list list \<Rightarrow> poller_node \<Rightarrow> poller_node" where
  "after_write iov rest n = n\<lparr>pdata := (pdata n)\<lparr>iovcnt := length rest, message := message (pdata n) + 16 * (length iov - length rest)\<rparr>\<rparr>"

lemma after_write_fields [simp]: "removed (after_write iov rest n) = removed n" "in_rbtree (after_write iov rest n) = in_rbtree n"
    "pres (after_write iov rest n) = pres n" "ptimeout (after_write iov rest n) = ptimeout n" "fd (pdata (after_write iov rest n)) = fd (pdata n)"
  by (simp_all add: after_write_def)

lemma tree_node_cong:
  assumes "tree_node a n xs p" "entries p' a = Some n'" "removed n' = removed n" "in_rbtree n' = in_rbtree n" "res_apart a n' xs p"
    "\<And>x. x \<in> set xs \<Longrightarrow> node_times p' x = node_times p x" "timeo_tree (ptimers p') = timeo_tree (ptimers p)"
    "tree_first (ptimers p') = tree_first (ptimers p)" "tree_last (ptimers p') = tree_last (ptimers p)"
    "\<And>l. l = timeo_tree (ptimers p) \<or> fst l \<in> set xs \<Longrightarrow> tmem (ptimers p') l = tmem (ptimers p) l"
  shows "tree_node a n' xs p'"
proof -
  from assms(1) have "timers_at (node_times p) (ptimers p) xs" by (simp add: tree_node_def)
  from timers_at_cong [OF this assms(7-10,6)] assms(1-5,7) show ?thesis by (auto simp: tree_node_def res_apart_def)
qed

lemma tree_node_upd:
  assumes "tree_node a n xs p" "entries p' = (entries p)(a \<mapsto> n')" "ptimers p' = ptimers p"
    "removed n' = removed n" "in_rbtree n' = in_rbtree n" "pres n' = pres n" "ptimeout n' = ptimeout n"
  shows "tree_node a n' xs p'"
  using assms(1) by (rule tree_node_cong) (use assms in \<open>auto simp: node_times_def tree_node_def res_apart_def\<close>)

text \<open>When the handler keeps the node.\<close>

definition write_goes_on :: "(int + nat) list \<Rightarrow> int \<Rightarrow> nat list list \<Rightarrow> bool" where
  "write_goes_on ws partial_written rest \<longleftrightarrow>
     rest \<noteq> [] \<and> first_error ws = errno_code EAGAIN \<and> (written ws = 0 \<or> partial_written \<ge> 0)"

lemma handle_write_cases:
  assumes "tree_node a n xs p" "\<exists>e. Inl e \<in> set ws"
  obtains rest p1 where "concat rest = drop (written ws) (concat iov)" "tree_node a (after_write iov rest n) xs p1"
    "results p1 = results p" "nodes p1 = nodes p" "epoll p1 = epoll p" "entries p1 a = Some (after_write iov rest n)"
    "rest \<noteq> [] \<Longrightarrow> errno p1 = first_error ws"
    "poller_handle_write ws pw iov a p =
       (if write_goes_on ws pw rest then Some (rest, p1)
        else map_option (Pair rest) (if rest = [] then remove_and_finish False a PR_ST_FINISHED 0 p1
               else remove_and_finish False a PR_ST_ERROR (errno p1) p1))"
proof -
  from write_loop_returns [OF assms(2), of iov 0 "errno p"] obtain ret rest c e where
    w: "write_loop ws iov 0 (errno p) = Some (ret, rest, c, e)" by auto
  define p1 where "p1 = p\<lparr>errno := e, entries := (entries p)(a \<mapsto> after_write iov rest n)\<rparr>"
  have e: "entries p a = Some n" using assms(1) by (simp add: tree_node_def)
  have "tree_node a (after_write iov rest n) xs p1" using assms(1) by (rule tree_node_upd) (simp_all add: p1_def)
  moreover have "(rest \<noteq> [] \<and> ret \<ge> 0 \<and> (c = 0 \<or> pw \<ge> 0)) = write_goes_on ws pw rest"
    using write_loop_outcome [OF w] by (auto simp: write_goes_on_def split: if_splits)
  then have "poller_handle_write ws pw iov a p =
       (if write_goes_on ws pw rest then Some (rest, p1)
        else map_option (Pair rest) (if rest = [] then remove_and_finish False a PR_ST_FINISHED 0 p1
               else remove_and_finish False a PR_ST_ERROR (errno p1) p1))"
    using w e by (simp add: poller_handle_write_def Let_def upd_node_def p1_def after_write_def map_option_case bind_eq_Some_conv
        split: option.splits)
  ultimately show ?thesis
    using that [of rest p1] write_loop_rest [OF w] write_loop_outcome [OF w] by (auto simp: p1_def)
qed

subsection \<open>Reading\<close>

text \<open>The bytes that the calls of \<open>read\<close> gave, up to the end of the stream or the failing call.\<close>

fun received :: "(int + nat list) list \<Rightarrow> nat list" where
  "received (Inr bs # rs) = (if bs = [] then [] else bs @ received rs)"
| "received _ = []"

lemma feed_loop_feeds:
  "feed_loop as bs a p = Some (nleft, as', fed, p') \<Longrightarrow> (\<exists>ys. bs = fed @ ys) \<and> (0 \<le> nleft \<longrightarrow> fed = bs \<and> nleft = 0)"
proof (induction as bs a p arbitrary: nleft as' fed p' rule: feed_loop.induct)
  case (2 ans as bs a p)
  from 2(2) obtain ret p1 where 1: "poller_append_message ans a p = Some (ret, p1)" by (auto simp: bind_eq_Some_conv)
  show ?case
  proof (cases "ret < 0 \<or> length bs \<le> app_n ans")
    case True
    with 2(2) 1 show ?thesis by (auto split: if_splits)
  next
    case False
    with 2(2) 1 obtain fed1 where f: "feed_loop as (drop (app_n ans) bs) a p1 = Some (nleft, as', fed1, p')" "fed = take (app_n ans) bs @ fed1"
      by (auto simp: bind_eq_Some_conv)
    from 2(1) [OF 1 refl _ _ f(1)] False obtain ys where "drop (app_n ans) bs = fed1 @ ys" "0 \<le> nleft \<longrightarrow> fed1 = drop (app_n ans) bs \<and> nleft = 0"
      by auto
    with f(2) show ?thesis by (metis append.assoc append_take_drop_id)
  qed
qed simp

lemma read_loop_feeds:
  "read_loop as rs a p = Some (r, fed, p') \<Longrightarrow> (\<exists>ys. received rs = fed @ ys) \<and> (r = None \<or> r = Some 0 \<longrightarrow> fed = received rs)"
proof (induction as rs a p arbitrary: r fed p' rule: read_loop.induct)
  case (3 as bs rs a p)
  show ?case
  proof (cases "bs = []")
    case True
    with 3(2) show ?thesis by auto
  next
    case False
    with 3(2) obtain nleft as1 fed1 p1 where 1: "feed_loop as bs a p = Some (nleft, as1, fed1, p1)" by (auto simp: bind_eq_Some_conv)
    note f = feed_loop_feeds [OF 1]
    show ?thesis
    proof (cases "nleft < 0")
      case True
      with 3(2) 1 False f show ?thesis by auto
    next
      case nn: False
      with 3(2) 1 False obtain fed2 where 2: "read_loop as1 rs a p1 = Some (r, fed2, p')" "fed = fed1 @ fed2"
        by (auto simp: bind_eq_Some_conv)
      from 3(1) [OF False 1 refl refl refl nn 2(1)] f nn 2(2) False show ?thesis by auto
    qed
  qed
qed (auto simp: Let_def split: if_splits)

text \<open>A node that is read from: it has a result node when it has a message.\<close>

definition read_ready :: "addr \<Rightarrow> addr list \<Rightarrow> poller \<Rightarrow> bool" where
  "read_ready a xs p \<longleftrightarrow>
     (\<exists>n. tree_node a n xs p \<and> (message (pdata n) \<noteq> NULL \<longrightarrow> pres n \<noteq> NULL \<and> entries p (pres n) \<noteq> None))"

definition fresh_res :: "addr \<Rightarrow> addr list \<Rightarrow> loc \<Rightarrow> addr \<Rightarrow> bool" where
  "fresh_res a xs root m \<longleftrightarrow> m \<noteq> a \<and> m \<notin> set xs \<and> m \<noteq> fst root"

lemma new_entry_fields [simp]:
  "results (new_entry a n p) = results p" "errno (new_entry a n p) = errno p"
  "entries (new_entry a n p) = (entries p)(a \<mapsto> n)" "timeo_tree (ptimers (new_entry a n p)) = timeo_tree (ptimers p)"
  "tree_first (ptimers (new_entry a n p)) = tree_first (ptimers p)" "tree_last (ptimers (new_entry a n p)) = tree_last (ptimers p)"
  "tmem (ptimers (new_entry a n p)) = alloc_cells a (tmem (ptimers p))"
  by (simp_all add: new_entry_def set_pmem_def pmem_def)

lemma new_message_node:
  assumes "tree_node a n xs p" "fresh_res a xs (timeo_tree (ptimers p)) m"
  shows "\<exists>p'. upd_node a (\<lambda>n. n\<lparr>pdata := (pdata n)\<lparr>message := msg\<rparr>, pres := m\<rparr>) (new_entry m blank_node p) = Some p' \<and>
    tree_node a (n\<lparr>pdata := (pdata n)\<lparr>message := msg\<rparr>, pres := m\<rparr>) xs p' \<and> entries p' m \<noteq> None \<and> timeo_tree (ptimers p') = timeo_tree (ptimers p)"
proof -
  have e: "entries p a = Some n" "m \<noteq> a" using assms by (simp_all add: tree_node_def fresh_res_def)
  define n' where "n' = n\<lparr>pdata := (pdata n)\<lparr>message := msg\<rparr>, pres := m\<rparr>"
  define p' where "p' = (new_entry m blank_node p)\<lparr>entries := (entries p)(m \<mapsto> blank_node, a \<mapsto> n')\<rparr>"
  have "tree_node a n' xs p'" using assms(1)
    by (rule tree_node_cong) (use assms e in \<open>auto simp: p'_def n'_def node_times_def res_apart_def fresh_res_def alloc_cells_def\<close>)
  then show ?thesis using e by (auto simp: upd_node_def p'_def n'_def)
qed

lemma deliver_node:
  assumes "tree_node a n xs p" "pres n \<noteq> NULL" "entries p (pres n) \<noteq> None"
  shows "\<exists>p'. deliver a (pres n) msg p = Some p' \<and> tree_node a n xs p' \<and> timeo_tree (ptimers p') = timeo_tree (ptimers p)"
proof -
  have e: "entries p a = Some n" "pres n \<noteq> a" "pres n \<notin> set xs" "pres n \<noteq> fst (timeo_tree (ptimers p))"
    using assms(1,2) by (auto simp: tree_node_def res_apart_def)
  from assms(3) obtain r where r: "entries p (pres n) = Some r" by blast
  define p' where "p' = (free_node_mem (pres n) (p\<lparr>entries := (entries p)(pres n \<mapsto>
     r\<lparr>pdata := (pdata n)\<lparr>message := msg\<rparr>, perror := 0, pstate := PR_ST_SUCCESS\<rparr>)\<rparr>))\<lparr>results := results p @
     [(pres n, r\<lparr>pdata := (pdata n)\<lparr>message := msg\<rparr>, perror := 0, pstate := PR_ST_SUCCESS\<rparr>)]\<rparr>"
  have "tree_node a n xs p'" using assms(1)
    by (rule tree_node_cong) (use assms e in \<open>auto simp: p'_def node_times_def tree_node_def drop_cells_def\<close>)
  then show ?thesis using e r by (auto simp: deliver_def upd_node_def callback_def p'_def)
qed

lemma clear_message_node:
  assumes "tree_node a n xs p"
  shows "\<exists>p'. upd_node a (\<lambda>n. n\<lparr>pdata := (pdata n)\<lparr>message := NULL\<rparr>, pres := NULL\<rparr>) p = Some p' \<and> read_ready a xs p' \<and>
    timeo_tree (ptimers p') = timeo_tree (ptimers p)"
proof -
  have e: "entries p a = Some n" using assms by (simp add: tree_node_def)
  define n' where "n' = n\<lparr>pdata := (pdata n)\<lparr>message := NULL\<rparr>, pres := NULL\<rparr>"
  have "tree_node a n' xs (p\<lparr>entries := (entries p)(a \<mapsto> n')\<rparr>)" using assms
    by (rule tree_node_cong) (use e in \<open>auto simp: n'_def node_times_def res_apart_def\<close>)
  then show ?thesis using e by (auto simp: upd_node_def n'_def read_ready_def)
qed

lemma append_message_keeps:
  assumes "read_ready a xs p" "fresh_res a xs (timeo_tree (ptimers p)) (app_mem ans)"
  shows "\<exists>ret p'. poller_append_message ans a p = Some (ret, p') \<and> read_ready a xs p' \<and> timeo_tree (ptimers p') = timeo_tree (ptimers p)"
proof -
  from assms(1) obtain n where n: "tree_node a n xs p" "message (pdata n) \<noteq> NULL \<longrightarrow> pres n \<noteq> NULL \<and> entries p (pres n) \<noteq> None"
    by (auto simp: read_ready_def)
  have e: "entries p a = Some n" using n(1) by (simp add: tree_node_def)
  show ?thesis
  proof (cases "message (pdata n) = NULL \<and> (app_mem ans = NULL \<or> app_msg ans = NULL)")
    case True
    with assms(1) e show ?thesis by (auto simp: poller_append_message_def)
  next
    case False
    have "\<exists>p1 n1. (if message (pdata n) = NULL then
               upd_node a (\<lambda>n. n\<lparr>pdata := (pdata n)\<lparr>message := app_msg ans\<rparr>, pres := app_mem ans\<rparr>)
                 (new_entry (app_mem ans) blank_node p)
             else Some p) = Some p1 \<and> tree_node a n1 xs p1 \<and> pres n1 \<noteq> NULL \<and> entries p1 (pres n1) \<noteq> None \<and>
        timeo_tree (ptimers p1) = timeo_tree (ptimers p)"
      using new_message_node [OF n(1) assms(2), of "app_msg ans"] n False
      by (cases "message (pdata n) = NULL") (fastforce, auto)
    then obtain p1 n1 where
      1: "(if message (pdata n) = NULL then
               upd_node a (\<lambda>n. n\<lparr>pdata := (pdata n)\<lparr>message := app_msg ans\<rparr>, pres := app_mem ans\<rparr>)
                 (new_entry (app_mem ans) blank_node p)
             else Some p) = Some p1"
      and t1: "tree_node a n1 xs p1" "pres n1 \<noteq> NULL" "entries p1 (pres n1) \<noteq> None" "timeo_tree (ptimers p1) = timeo_tree (ptimers p)"
      by blast
    have e1: "entries p1 a = Some n1" using t1(1) by (simp add: tree_node_def)
    from deliver_node [OF t1(1-3), of "message (pdata n1)"] obtain p2 where
      2: "deliver a (pres n1) (message (pdata n1)) p1 = Some p2" "tree_node a n1 xs p2" "timeo_tree (ptimers p2) = timeo_tree (ptimers p1)" by blast
    from clear_message_node [OF 2(2)] obtain p3 where
      3: "upd_node a (\<lambda>n. n\<lparr>pdata := (pdata n)\<lparr>message := NULL\<rparr>, pres := NULL\<rparr>) p2 = Some p3" "read_ready a xs p3"
        "timeo_tree (ptimers p3) = timeo_tree (ptimers p2)" by blast
    have "poller_append_message ans a p = Some (app_ret ans, if app_ret ans > 0 then p3 else p1)"
      unfolding poller_append_message_def using e False 1 e1 2(1) 3(1) by (auto split: if_splits)
    moreover have "read_ready a xs p1" using t1 by (auto simp: read_ready_def)
    ultimately show ?thesis using 2(3) 3(2,3) t1(4) by auto
  qed
qed

text \<open>
  Enough answers: every call of \<open>append\<close> takes a byte at least, and there is an answer for
  every byte.
\<close>

definition good_answers :: "addr \<Rightarrow> addr list \<Rightarrow> loc \<Rightarrow> append_answer list \<Rightarrow> bool" where
  "good_answers a xs root as \<longleftrightarrow> (\<forall>ans \<in> set as. app_n ans \<ge> 1 \<and> fresh_res a xs root (app_mem ans))"

lemma feed_loop_returns:
  assumes "read_ready a xs p" "good_answers a xs (timeo_tree (ptimers p)) as" "length bs \<le> length as" "bs \<noteq> []"
  shows "\<exists>nleft as' fed p'. feed_loop as bs a p = Some (nleft, as', fed, p') \<and> read_ready a xs p' \<and>
    timeo_tree (ptimers p') = timeo_tree (ptimers p) \<and> good_answers a xs (timeo_tree (ptimers p)) as' \<and> length as \<le> length as' + length bs"
  using assms
proof (induction as arbitrary: bs p)
  case (Cons ans as)
  have g: "app_n ans \<ge> 1" "fresh_res a xs (timeo_tree (ptimers p)) (app_mem ans)" "good_answers a xs (timeo_tree (ptimers p)) as"
    using Cons.prems(2) by (auto simp: good_answers_def)
  from append_message_keeps [OF Cons.prems(1) g(2)] obtain ret p1 where
    1: "poller_append_message ans a p = Some (ret, p1)" "read_ready a xs p1" "timeo_tree (ptimers p1) = timeo_tree (ptimers p)" by blast
  have b: "length bs \<ge> 1" using Cons.prems(4) by (cases bs) auto
  show ?case
  proof (cases "ret < 0 \<or> length bs \<le> app_n ans")
    case True
    with 1 g(3) b show ?thesis by auto
  next
    case False
    then have "length (drop (app_n ans) bs) \<le> length as" "drop (app_n ans) bs \<noteq> []" using Cons.prems(3) g(1) by auto
    from Cons.IH [OF 1(2) _ this] g(3) 1(3) obtain nleft as' fed p' where
      2: "feed_loop as (drop (app_n ans) bs) a p1 = Some (nleft, as', fed, p')" "read_ready a xs p'"
        "timeo_tree (ptimers p') = timeo_tree (ptimers p)" "good_answers a xs (timeo_tree (ptimers p)) as'"
        "length as \<le> length as' + length (drop (app_n ans) bs)" by auto
    have "length (ans # as) \<le> length as' + length bs" using 2(5) g(1) False unfolding length_drop length_Cons by linarith
    moreover have "feed_loop (ans # as) bs a p = Some (nleft, as', take (app_n ans) bs @ fed, p')" using 1(1) 2(1) False by simp
    ultimately show ?thesis using 2(2-4) by blast
  qed
qed simp

lemma read_loop_returns:
  assumes "read_ready a xs p" "good_answers a xs (timeo_tree (ptimers p)) as" "length (received rs) \<le> length as" "\<exists>x \<in> set rs. isl x \<or> x = Inr []"
  shows "\<exists>r fed p'. read_loop as rs a p = Some (r, fed, p') \<and> read_ready a xs p'"
  using assms
proof (induction rs arbitrary: as p)
  case (Cons x rs)
  have err: "read_ready a xs (p\<lparr>errno := e\<rparr>)" for e
    using Cons.prems(1) by (auto simp: read_ready_def tree_node_def res_apart_def)
  show ?case
  proof (cases "isl x \<or> x = Inr []")
    case True
    then show ?thesis using Cons.prems(1) err by (cases x) (auto simp: Let_def)
  next
    case False
    then obtain bs where x: "x = Inr bs" "bs \<noteq> []" by (cases x) auto
    from feed_loop_returns [OF Cons.prems(1,2), of bs] Cons.prems(3) x obtain nleft as' fed p1 where
      1: "feed_loop as bs a p = Some (nleft, as', fed, p1)" "read_ready a xs p1" "timeo_tree (ptimers p1) = timeo_tree (ptimers p)"
        "good_answers a xs (timeo_tree (ptimers p)) as'" "length as \<le> length as' + length bs" by auto
    have "length (received rs) \<le> length as'" "\<exists>x \<in> set rs. isl x \<or> x = Inr []" using Cons.prems(3,4) x 1(5) by auto
    from Cons.IH [OF 1(2) _ this] 1(3,4) obtain r fed' p' where "read_loop as' rs a p1 = Some (r, fed', p')" "read_ready a xs p'" by auto
    with 1 x show ?thesis by auto
  qed
qed simp

subsection \<open>Properties\<close>


text \<open>The node of descriptor 6 in the sample poller.\<close>

lemma sample_tree_node: "tree_node 20 (timer_node 6 (Timespec 2 0)) [10, 20, 30] tree_poller"
  using tree_poller_at by (simp add: tree_node_def tree_poller_def timer_node_def blank_node_def res_apart_def)



definition sample_answer :: append_answer where
  "sample_answer = \<lparr>app_ret = 0, app_n = 1, app_mem = 70, app_msg = 71\<rparr>"


end
