(* ===== verification/Poller_Results.thy ===== *)
theory Poller_Results
  imports Poller_Streams
begin

section \<open>The results the handlers give\<close>

text \<open>
  What the users of the poller rely on when they look at a result: which states an operation
  can end with, that a result carries the operation, the descriptor and the context that
  were registered, and that a handler gives the node itself at most once, at its end.
\<close>

subsection \<open>Typed results\<close>

text \<open>The states of the results of an operation, as the handlers of the descriptors produce them.\<close>

definition result_typed :: "int \<Rightarrow> poller_node \<Rightarrow> bool" where
  "result_typed oper m \<longleftrightarrow>
     (if oper = PD_OP_READ then pstate m \<in> {PR_ST_SUCCESS, PR_ST_FINISHED, PR_ST_ERROR}
      else if oper = PD_OP_WRITE \<or> oper = PD_OP_CONNECT then pstate m \<in> {PR_ST_FINISHED, PR_ST_ERROR}
      else (oper = PD_OP_LISTEN \<or> oper = PD_OP_RECVFROM \<or> oper = PD_OP_EVENT) \<and> pstate m \<in> {PR_ST_SUCCESS, PR_ST_ERROR}) \<and>
     (pstate m = PR_ST_SUCCESS \<longrightarrow> message (pdata m) \<noteq> NULL)"

definition same_job :: "poller_node \<Rightarrow> poller_node \<Rightarrow> bool" where
  "same_job m n \<longleftrightarrow> operation (pdata m) = operation (pdata n) \<and> fd (pdata m) = fd (pdata n) \<and> ctx (pdata m) = ctx (pdata n)"

definition alive :: "addr \<Rightarrow> poller_node \<Rightarrow> poller \<Rightarrow> bool" where
  "alive a n0 p \<longleftrightarrow> (\<exists>n. entries p a = Some n \<and> same_job n n0)"

text \<open>Between \<open>p\<close> and \<open>p'\<close> only successes were given for the node.\<close>

definition successes :: "poller_node \<Rightarrow> (addr \<times> poller_node) list \<Rightarrow> bool" where
  "successes n0 rs \<longleftrightarrow> (\<forall>r \<in> set rs. same_job (snd r) n0 \<and> pstate (snd r) = PR_ST_SUCCESS \<and> message (pdata (snd r)) \<noteq> NULL)"

definition produced :: "addr \<Rightarrow> poller_node \<Rightarrow> poller \<Rightarrow> poller \<Rightarrow> bool" where
  "produced a n0 p p' \<longleftrightarrow> alive a n0 p' \<and> (\<exists>rs. results p' = results p @ rs \<and> successes n0 rs)"

lemma produced_refl: "alive a n0 p \<Longrightarrow> results p' = results p \<Longrightarrow> entries p' a = entries p a \<Longrightarrow> produced a n0 p p'"
  by (auto simp: produced_def alive_def successes_def)

lemma produced_trans: "produced a n0 p p' \<Longrightarrow> produced a n0 p' p'' \<Longrightarrow> produced a n0 p p''"
  by (auto simp: produced_def successes_def)

lemma produced_alive: "produced a n0 p p' \<Longrightarrow> alive a n0 p'"
  by (simp add: produced_def)

lemma upd_node_SomeD: "upd_node a f p = Some p' \<Longrightarrow> \<exists>n. entries p a = Some n \<and> p' = p\<lparr>entries := (entries p)(a \<mapsto> f n)\<rparr>"
  by (auto simp: upd_node_def split: option.splits)

lemma new_entry_results [simp]: "results (new_entry a n p) = results p" "entries (new_entry a n p) = (entries p)(a \<mapsto> n)"
  by (simp_all add: new_entry_def set_pmem_def)

lemma callback_SomeD:
  "callback a p = Some p' \<Longrightarrow> \<exists>n. entries p a = Some n \<and> results p' = results p @ [(a, n)] \<and> entries p' = (entries p)(a := None)"
  by (auto simp: callback_def free_node_mem_def set_pmem_def split: option.splits)

text \<open>One result for another node, and the node is kept.\<close>

lemma deliver_produced:
  assumes "alive a n0 p" "deliver a res result p = Some p1" "result \<noteq> NULL" "entries p1 a \<noteq> None"
  shows "produced a n0 p p1"
proof -
  obtain n where n: "entries p a = Some n" "same_job n n0" using assms(1) by (auto simp: alive_def)
  obtain p0 where p0: "upd_node res (\<lambda>r. r\<lparr>pdata := (pdata n)\<lparr>message := result\<rparr>, perror := 0, pstate := PR_ST_SUCCESS\<rparr>) p = Some p0"
    "callback res p0 = Some p1" using assms(2) n(1) by (auto simp: deliver_def split: Option.bind_splits)
  from upd_node_SomeD [OF p0(1)] callback_SomeD [OF p0(2)] obtain r where
    r: "results p1 = results p @ [(res, r\<lparr>pdata := (pdata n)\<lparr>message := result\<rparr>, perror := 0, pstate := PR_ST_SUCCESS\<rparr>)]"
      "entries p1 = (entries p0)(res := None)" "\<And>b. b \<noteq> res \<Longrightarrow> entries p0 b = entries p b" by auto
  have "res \<noteq> a" using assms(4) r(2) by auto
  then have "alive a n0 p1" using n r(2,3) by (simp add: alive_def)
  then show ?thesis using r(1) n(2) assms(3) by (auto simp: produced_def successes_def same_job_def)
qed

lemma renew_produced:
  assumes "alive a n0 p" "renew_res a mem p = Some p1" "mem \<noteq> a"
  shows "produced a n0 p p1"
  using assms upd_node_SomeD [OF assms(2) [unfolded renew_res_def]]
  by (auto simp: produced_def alive_def successes_def same_job_def split: if_splits)

lemma deliver_renew_produced:
  assumes "alive a n0 p" "deliver a res result p = Some p1" "result \<noteq> NULL" "renew_res a mem p1 = Some p2" "mem \<noteq> a"
  shows "produced a n0 p p2"
proof -
  have "entries p1 a \<noteq> None" using upd_node_SomeD [OF assms(4) [unfolded renew_res_def]] assms(5) by (auto split: if_splits)
  note d = deliver_produced [OF assms(1-3) this]
  show ?thesis by (rule produced_trans [OF d renew_produced [OF produced_alive [OF d] assms(4,5)]])
qed

text \<open>The end of a handler: nothing, or the node itself.\<close>

definition ended :: "addr \<Rightarrow> poller_node \<Rightarrow> int \<Rightarrow> poller \<Rightarrow> poller \<Rightarrow> bool" where
  "ended a n0 st p p' \<longleftrightarrow> results p' = results p \<or> (\<exists>m. results p' = results p @ [(a, m)] \<and> same_job m n0 \<and> pstate m = st)"

lemma poller_unlink_same:
  assumes "poller_unlink a p = Some p'" "alive a n0 p"
  shows "results p' = results p \<and> alive a n0 p'"
proof -
  obtain n where n: "entries p a = Some n" "same_job n n0" using assms(2) by (auto simp: alive_def)
  show ?thesis
  proof (cases "in_rbtree n")
    case True
    then obtain ts where "upd_node a (\<lambda>n. n\<lparr>in_rbtree := False\<rparr>) (p\<lparr>ptimers := ts\<rparr>) = Some p'"
      using assms(1) n(1) by (auto simp: poller_unlink_def split: Option.bind_splits)
    from upd_node_SomeD [OF this] show ?thesis using n by (auto simp: alive_def same_job_def)
  next
    case False
    then show ?thesis using assms n by (auto simp: poller_unlink_def set_pmem_def alive_def split: Option.bind_splits)
  qed
qed

lemma free_res_same:
  assumes "free_res a p = Some p'" "entries p' a \<noteq> None"
  shows "results p' = results p \<and> entries p' a = entries p a"
  using assms by (auto simp: free_res_def free_node_mem_def set_pmem_def split: Option.bind_splits if_splits)

lemma remove_and_finish_ended:
  assumes "alive a n0 p" "remove_and_finish frees a st err p = Some p'"
  shows "ended a n0 st p p'"
proof -
  obtain n where n: "entries p a = Some n" "same_job n n0" using assms(1) by (auto simp: alive_def)
  obtain p1 where p1: "remove_section a (removed n) p = Some p1" "if removed n then p' = p1 else finish_node frees a st err p1 = Some p'"
    using assms(2) n(1) by (auto simp: remove_and_finish_def poller_remove_node_def split: Option.bind_splits if_splits)
  show ?thesis
  proof (cases "removed n")
    case True
    then show ?thesis using p1 by (simp add: remove_section_def ended_def)
  next
    case False
    then obtain p0 where "poller_unlink a (p\<lparr>nodes := (nodes p)(fd (pdata n) := NULL)\<rparr>) = Some p0" "p1 = poller_delete_fd (fd (pdata n)) p0"
      using p1(1) n(1) by (auto simp: remove_section_def split: Option.bind_splits)
    with poller_unlink_same [OF this(1), of n0] assms(1) have s: "results p1 = results p" "alive a n0 p1"
      by (simp_all add: poller_delete_fd_def alive_def)
    obtain p2 p3 where f: "upd_node a (\<lambda>n. n\<lparr>perror := err, pstate := st\<rparr>) p1 = Some p2" "if frees then free_res a p2 = Some p3 else p3 = p2"
      "callback a p3 = Some p'"
      using p1(2) False by (auto simp: finish_node_def split: Option.bind_splits if_splits)
    from upd_node_SomeD [OF f(1)] s obtain m where m: "entries p2 a = Some (m\<lparr>perror := err, pstate := st\<rparr>)" "same_job m n0" "results p2 = results p"
      by (auto simp: alive_def)
    from callback_SomeD [OF f(3)] obtain k where k: "entries p3 a = Some k" "results p' = results p3 @ [(a, k)]" by blast
    have "results p3 = results p2 \<and> entries p3 a = entries p2 a"
      using f(2) free_res_same [of a p2 p3] k(1) by (cases frees) auto
    then show ?thesis using m k by (auto simp: ended_def same_job_def)
  qed
qed

subsection \<open>The loops\<close>

lemma accept_loop_produced:
  assumes "accept_loop retry give_up evs a res p = Some (ret, p')" "alive a n0 p" "\<forall>x. Inr x \<in> set evs \<longrightarrow> snd x \<noteq> a"
  shows "produced a n0 p p'"
  using assms
proof (induction retry give_up evs a res p rule: accept_loop.induct)
  case (2 retry give_up e evs a res p)
  have k: "produced a n0 p (p\<lparr>errno := e\<rparr>)" using 2(3) by (intro produced_refl) simp_all
  show ?case
  proof (cases "\<not> give_up e \<and> retry e")
    case True
    then have "produced a n0 (p\<lparr>errno := e\<rparr>) p'" using 2 produced_alive [OF k] by (intro 2(1)) auto
    with k show ?thesis by (rule produced_trans)
  next
    case False
    then show ?thesis using 2(2) k by (auto simp: Let_def split: if_splits)
  qed
next
  case (3 retry give_up result mem evs a res p)
  show ?case
  proof (cases "result = NULL")
    case True
    then show ?thesis using 3 by (auto intro: produced_refl)
  next
    case False
    then obtain p1 p2 where d: "deliver a res result p = Some p1" "renew_res a mem p1 = Some p2"
        "(if mem = NULL then Some (False, p2) else accept_loop retry give_up evs a mem p2) = Some (ret, p')"
      using 3(2) by (auto split: Option.bind_splits)
    have k: "produced a n0 p p2" using deliver_renew_produced [OF 3(3) d(1) False d(2)] 3(4) by force
    show ?thesis
    proof (cases "mem = NULL")
      case True
      with d(3) k show ?thesis by simp
    next
      case m: False
      have "produced a n0 p2 p'"
        by (rule 3(1) [OF False d(1,2) m]) (use m d(3) produced_alive [OF k] 3(4) in auto)
      with k show ?thesis by (rule produced_trans)
    qed
  qed
qed simp

lemma event_loop_produced:
  assumes "event_loop cnt evs a res p = (Some x, p')" "alive a n0 p" "\<forall>e \<in> set evs. snd e \<noteq> a"
  shows "produced a n0 p p'"
  using assms
proof (induction cnt evs a res p rule: event_loop.induct)
  case (3 cnt result mem evs a res p)
  show ?case
  proof (cases "result = NULL")
    case True
    then show ?thesis using 3 by (auto intro: produced_refl)
  next
    case False
    then obtain p1 p2 where d: "deliver a res result p = Some p1" "renew_res a mem p1 = Some p2"
        "(if mem = NULL then (Some (Inl cnt), p2) else event_loop cnt evs a mem p2) = (Some x, p')"
      using 3(2) by (auto split: option.splits)
    have k: "produced a n0 p p2" using deliver_renew_produced [OF 3(3) d(1) False d(2)] 3(4) by simp
    show ?thesis
    proof (cases "mem = NULL")
      case True
      with d(3) k show ?thesis by simp
    next
      case m: False
      have "produced a n0 p2 p'"
        by (rule 3(1) [OF False d(1,2) m]) (use m d(3) produced_alive [OF k] 3(4) in auto)
      with k show ?thesis by (rule produced_trans)
    qed
  qed
qed (auto intro: produced_refl)

lemma append_message_produced:
  assumes "poller_append_message ans a p = Some (ret, p')" "alive a n0 p" "app_mem ans \<noteq> a"
  shows "produced a n0 p p'"
proof -
  obtain n where n: "entries p a = Some n" "same_job n n0" using assms(2) by (auto simp: alive_def)
  show ?thesis
  proof (cases "message (pdata n) = NULL \<and> (app_mem ans = NULL \<or> app_msg ans = NULL)")
    case True
    then show ?thesis using assms(1,2) n(1) by (auto simp: poller_append_message_def intro: produced_refl)
  next
    case False
    let ?n = "if message (pdata n) = NULL then n\<lparr>pdata := (pdata n)\<lparr>message := app_msg ans\<rparr>, pres := app_mem ans\<rparr> else n"
    let ?p = "if message (pdata n) = NULL then (new_entry (app_mem ans) blank_node p)\<lparr>entries := (entries p)(app_mem ans \<mapsto> blank_node, a \<mapsto> ?n)\<rparr> else p"
    have p: "entries ?p a = Some ?n" "results ?p = results p" "message (pdata ?n) \<noteq> NULL" "same_job ?n n0"
      using False n by (auto simp: same_job_def)
    then have k: "produced a n0 p ?p" by (auto simp: produced_def alive_def successes_def)
    have "(if app_ret ans > 0 then do {
         n \<leftarrow> entries ?p a;
         p \<leftarrow> deliver a (pres n) (message (pdata n)) ?p;
         p \<leftarrow> upd_node a (\<lambda>n. n\<lparr>pdata := (pdata n)\<lparr>message := NULL\<rparr>, pres := NULL\<rparr>) p;
         Some (app_ret ans, p)
       } else Some (app_ret ans, ?p)) = Some (ret, p')"
      using assms(1,3) n(1) False unfolding poller_append_message_def
      by (cases "message (pdata n) = NULL") (auto simp: upd_node_def new_entry_def set_pmem_def)
    then show ?thesis
    proof (cases "app_ret ans > 0")
      case True
      then obtain p1 where d: "deliver a (pres ?n) (message (pdata ?n)) ?p = Some p1"
        "upd_node a (\<lambda>n. n\<lparr>pdata := (pdata n)\<lparr>message := NULL\<rparr>, pres := NULL\<rparr>) p1 = Some p'"
        using \<open>(if app_ret ans > 0 then _ else _) = _\<close> p(1) by (auto split: Option.bind_splits)
      from upd_node_SomeD [OF d(2)] obtain m where m: "entries p1 a = Some m" "results p' = results p1"
        "entries p' a = Some (m\<lparr>pdata := (pdata m)\<lparr>message := NULL\<rparr>, pres := NULL\<rparr>)" by auto
      have k2: "produced a n0 ?p p1" using deliver_produced [OF produced_alive [OF k] d(1) p(3)] m(1) by simp
      have "same_job m n0" using produced_alive [OF k2] m(1) by (auto simp: alive_def)
      then have "produced a n0 p1 p'" using m by (auto simp: produced_def alive_def successes_def same_job_def)
      with k k2 show ?thesis by (blast intro: produced_trans)
    next
      case False
      then show ?thesis using \<open>(if app_ret ans > 0 then _ else _) = _\<close> k by simp
    qed
  qed
qed

lemma feed_loop_produced:
  assumes "feed_loop as bs a p = Some (nleft, as', fed, p')" "alive a n0 p" "\<forall>x \<in> set as. app_mem x \<noteq> a"
  shows "produced a n0 p p' \<and> set as' \<subseteq> set as"
  using assms
proof (induction as bs a p arbitrary: nleft as' fed p' rule: feed_loop.induct)
  case (2 ans as bs a p)
  obtain ret p1 where d: "poller_append_message ans a p = Some (ret, p1)" using 2(2) by (auto split: Option.bind_splits)
  have k: "produced a n0 p p1" using append_message_produced [OF d 2(3)] 2(4) by simp
  show ?case
  proof (cases "ret < 0 \<or> \<not> app_n ans < length bs")
    case True
    then show ?thesis using 2(2) d k by (auto split: if_splits)
  next
    case False
    then obtain fed1 where f: "feed_loop as (drop (app_n ans) bs) a p1 = Some (nleft, as', fed1, p')" using 2(2) d by (auto split: Option.bind_splits)
    have "produced a n0 p1 p' \<and> set as' \<subseteq> set as"
      using 2(1) [OF d refl _ _ f produced_alive [OF k]] False 2(4) by auto
    with k show ?thesis by (auto intro: produced_trans)
  qed
qed simp

lemma read_loop_produced:
  assumes "read_loop as rs a p = Some (r, fed, p')" "alive a n0 p" "\<forall>x \<in> set as. app_mem x \<noteq> a"
  shows "produced a n0 p p'"
  using assms
proof (induction as rs a p arbitrary: r fed p' rule: read_loop.induct)
  case (2 as e rs a p)
  then show ?case by (auto simp: Let_def intro!: produced_refl split: if_splits)
next
  case (3 as bs rs a p)
  show ?case
  proof (cases "bs = []")
    case True
    then show ?thesis using 3 by (auto intro: produced_refl)
  next
    case False
    then obtain nleft as' fed1 p1 where f: "feed_loop as bs a p = Some (nleft, as', fed1, p1)" using 3(2) by (auto split: Option.bind_splits)
    note k = feed_loop_produced [OF f 3(3,4)]
    show ?thesis
    proof (cases "nleft < 0")
      case True
      then show ?thesis using 3(2) False f k by auto
    next
      case n: False
      then obtain fed2 where l: "read_loop as' rs a p1 = Some (r, fed2, p')" using 3(2) False f by (auto split: Option.bind_splits)
      have "produced a n0 p1 p'"
        using 3(1) [OF False f refl refl refl n l produced_alive [OF conjunct1 [OF k]]] 3(4) k by blast
      with k show ?thesis by (blast intro: produced_trans)
    qed
  qed
qed simp

subsection \<open>The handlers\<close>

text \<open>Successes for the node, without any for the operations that have none, and at most its end.\<close>

definition handled :: "bool \<Rightarrow> int set \<Rightarrow> addr \<Rightarrow> poller_node \<Rightarrow> poller \<Rightarrow> poller \<Rightarrow> bool" where
  "handled many sts a n0 p p' \<longleftrightarrow> (\<exists>ss fs. results p' = results p @ ss @ fs \<and> successes n0 ss \<and> (\<not> many \<longrightarrow> ss = []) \<and>
     (fs = [] \<or> (\<exists>m. fs = [(a, m)] \<and> same_job m n0 \<and> pstate m \<in> sts)))"

lemma produced_handled: "produced a n0 p p' \<Longrightarrow> handled True sts a n0 p p'"
  unfolding produced_def handled_def by (metis append_Nil2)

lemma ended_handled: "ended a n0 st p p' \<Longrightarrow> st \<in> sts \<Longrightarrow> handled many sts a n0 p p'"
  unfolding ended_def handled_def by (rule exI [of _ "[]"]) (auto simp: successes_def)

lemma produced_ended: "produced a n0 p p1 \<Longrightarrow> ended a n0 st p1 p' \<Longrightarrow> st \<in> sts \<Longrightarrow> handled True sts a n0 p p'"
  unfolding produced_def ended_def handled_def by (metis append.assoc append_Nil2)

lemma handle_with_handled:
  assumes "handle_with retry give_up evs a p = Some p'" "alive a n0 p" "\<forall>x. Inr x \<in> set evs \<longrightarrow> snd x \<noteq> a"
  shows "handled True {PR_ST_ERROR} a n0 p p'"
proof -
  obtain n :: poller_node and ret p1 where d: "accept_loop retry give_up evs a (pres n) p = Some (ret, p1)"
    "(if ret then Some p1 else remove_and_finish True a PR_ST_ERROR (errno p1) p1) = Some p'"
    using assms(1) by (auto simp: handle_with_def split: Option.bind_splits)
  note k = accept_loop_produced [OF d(1) assms(2,3)]
  show ?thesis
    using d(2) produced_handled [OF k] produced_ended [OF k remove_and_finish_ended [OF produced_alive [OF k]]] by (cases ret) auto
qed

lemma handle_event_handled:
  assumes "poller_handle_event values err evs a p = Some (back, p')" "alive a n0 p" "\<forall>e \<in> set evs. snd e \<noteq> a"
  shows "handled True {PR_ST_ERROR} a n0 p p'"
proof -
  have k0: "produced a n0 p (p\<lparr>errno := err\<rparr>)" using assms(2) by (auto intro: produced_refl)
  obtain n where n: "entries p a = Some n" using assms(2) by (auto simp: alive_def)
  show ?thesis
  proof (cases "err = errno_code EAGAIN")
    case True
    obtain x p1 where l: "event_loop (unat (sum_list values)) evs a (pres n) (p\<lparr>errno := err\<rparr>) = (Some x, p1)"
      using assms(1) n True by (auto simp: poller_handle_event_def Let_def split: option.splits prod.splits)
    have k: "produced a n0 p p1" by (rule produced_trans [OF k0 event_loop_produced [OF l produced_alive [OF k0] assms(3)]])
    have "p' = p1 \<or> (\<exists>e. remove_and_finish True a PR_ST_ERROR e p1 = Some p')"
      using assms(1) n True l by (auto simp: poller_handle_event_def Let_def split: sum.splits Option.bind_splits)
    then show ?thesis
      using produced_handled [OF k] produced_ended [OF k remove_and_finish_ended [OF produced_alive [OF k]]] by auto
  next
    case False
    then have "\<exists>e. remove_and_finish True a PR_ST_ERROR e (p\<lparr>errno := err\<rparr>) = Some p'"
      using assms(1) n by (auto simp: poller_handle_event_def Let_def split: Option.bind_splits)
    then show ?thesis using produced_ended [OF k0 remove_and_finish_ended [OF produced_alive [OF k0]]] by auto
  qed
qed

lemma handle_read_handled:
  assumes "poller_handle_read as rs a p = Some (fed, p')" "alive a n0 p" "\<forall>x \<in> set as. app_mem x \<noteq> a"
  shows "handled True {PR_ST_FINISHED, PR_ST_ERROR} a n0 p p'"
proof -
  obtain r p1 where l: "read_loop as rs a p = Some (r, fed, p1)"
    "case r of None \<Rightarrow> p' = p1 | Some nleft \<Rightarrow> (if nleft = 0 then remove_and_finish True a PR_ST_FINISHED 0 p1
      else remove_and_finish True a PR_ST_ERROR (errno p1) p1) = Some p'"
    using assms(1) by (auto simp: poller_handle_read_def split: Option.bind_splits option.splits)
  note k = read_loop_produced [OF l(1) assms(2,3)]
  show ?thesis
    using l(2) produced_handled [OF k] produced_ended [OF k remove_and_finish_ended [OF produced_alive [OF k]]]
    by (auto split: option.splits if_splits)
qed

lemma handle_write_handled:
  assumes "poller_handle_write ws partial iov a p = Some (rest, p')" "alive a n0 p"
  shows "handled False {PR_ST_FINISHED, PR_ST_ERROR} a n0 p p'"
proof -
  obtain ret c err where w: "write_loop ws iov 0 (errno p) = Some (ret, rest, c, err)"
    using assms(1) by (auto simp: poller_handle_write_def Let_def split: Option.bind_splits if_splits)
  let ?f = "\<lambda>n. n\<lparr>pdata := (pdata n)\<lparr>iovcnt := length rest, message := message (pdata n) + 16 * (length iov - length rest)\<rparr>\<rparr>"
  obtain p1 where p1: "upd_node a ?f (p\<lparr>errno := err\<rparr>) = Some p1"
    "p' = p1 \<or> remove_and_finish False a PR_ST_FINISHED 0 p1 = Some p' \<or> remove_and_finish False a PR_ST_ERROR (errno p1) p1 = Some p'"
    using assms(1) w by (auto simp: poller_handle_write_def Let_def split: Option.bind_splits if_splits)
  from upd_node_SomeD [OF p1(1)] assms(2) have k: "alive a n0 p1" "results p1 = results p" by (auto simp: alive_def same_job_def)
  have "ended a n0 PR_ST_FINISHED p p' \<or> ended a n0 PR_ST_ERROR p p'"
    using p1(2) remove_and_finish_ended [OF k(1)] k(2) by (auto simp: ended_def)
  then show ?thesis by (auto intro: ended_handled)
qed

text \<open>The addresses that \<open>malloc\<close> gives during a handler.\<close>

definition answer_mems :: "answers \<Rightarrow> addr list" where
  "answer_mems ans = map app_mem (ans_app ans) @ concat (map (\<lambda>e. case e of Inl _ \<Rightarrow> [] | Inr x \<Rightarrow> [snd x]) (ans_accept ans)) @ map snd (ans_events ans)"

lemma answer_memsD:
  assumes "a \<notin> set (answer_mems ans)"
  shows "(\<forall>x \<in> set (ans_app ans). app_mem x \<noteq> a) \<and> (\<forall>x. Inr x \<in> set (ans_accept ans) \<longrightarrow> snd x \<noteq> a) \<and> (\<forall>e \<in> set (ans_events ans). snd e \<noteq> a)"
proof (intro conjI allI ballI impI)
  fix x assume "x \<in> set (ans_app ans)"
  then show "app_mem x \<noteq> a" using assms by (auto simp: answer_mems_def)
next
  fix x :: "addr \<times> addr"
  assume "Inr x \<in> set (ans_accept ans)"
  then have "snd x \<in> set (concat (map (\<lambda>e. case e of Inl _ \<Rightarrow> [] | Inr x \<Rightarrow> [snd x]) (ans_accept ans)))"
    unfolding set_concat by (intro UN_I [of "case (Inr x :: int + addr \<times> addr) of Inl _ \<Rightarrow> [] | Inr x \<Rightarrow> [snd x]"]) (auto intro: rev_image_eqI)
  then show "snd x \<noteq> a" using assms by (auto simp: answer_mems_def)
next
  fix e assume "e \<in> set (ans_events ans)"
  then show "snd e \<noteq> a" using assms by (auto simp: answer_mems_def)
qed

text \<open>What the theorem below says of one call of a handler.\<close>

definition typed_results :: "addr \<Rightarrow> poller_node \<Rightarrow> poller \<Rightarrow> poller \<Rightarrow> bool" where
  "typed_results a n0 p p' \<longleftrightarrow> (\<exists>ss fs. results p' = results p @ ss @ fs \<and>
    (\<forall>r \<in> set (ss @ fs). same_job (snd r) n0 \<and> result_typed (operation (pdata n0)) (snd r)) \<and>
    (\<forall>r \<in> set ss. pstate (snd r) = PR_ST_SUCCESS) \<and> (fs = [] \<or> (\<exists>m. fs = [(a, m)] \<and> pstate m \<noteq> PR_ST_SUCCESS)))"

lemma typed_results_refl [simp]: "typed_results a n0 p p"
  by (simp add: typed_results_def)

lemma handled_typed:
  assumes "handled many sts a n0 p p'" "PR_ST_SUCCESS \<notin> sts"
    "\<And>n. pstate n = PR_ST_SUCCESS \<Longrightarrow> message (pdata n) \<noteq> NULL \<Longrightarrow> many \<Longrightarrow> result_typed (operation (pdata n0)) n"
    "\<And>n. pstate n \<in> sts \<Longrightarrow> result_typed (operation (pdata n0)) n"
  shows "typed_results a n0 p p'"
proof -
  from assms(1) obtain ss fs where h: "results p' = results p @ ss @ fs" "successes n0 ss" "\<not> many \<longrightarrow> ss = []"
    "fs = [] \<or> (\<exists>m. fs = [(a, m)] \<and> same_job m n0 \<and> pstate m \<in> sts)" unfolding handled_def by blast
  have "\<forall>r \<in> set (ss @ fs). same_job (snd r) n0 \<and> result_typed (operation (pdata n0)) (snd r)"
    using h(2-4) assms(3,4) by (cases many) (auto simp: successes_def)
  moreover have "\<forall>r \<in> set ss. pstate (snd r) = PR_ST_SUCCESS" using h(2) by (auto simp: successes_def)
  ultimately show ?thesis unfolding typed_results_def using h(1,4) assms(2) by (intro exI [of _ ss] exI [of _ fs]) auto
qed

text \<open>Each handler, for a node of its operation.\<close>

lemmas typing = result_typed_def op_defs st_defs

lemma read_typed:
  assumes "poller_handle_read as rs a p = Some (fed, p')" "alive a n0 p" "\<forall>x \<in> set as. app_mem x \<noteq> a" "operation (pdata n0) = PD_OP_READ"
  shows "typed_results a n0 p p'"
  by (rule handled_typed [OF handle_read_handled [OF assms(1-3)]]) (auto simp: assms(4) typing)

lemma write_typed:
  assumes "poller_handle_write ws partial iov a p = Some (rest, p')" "alive a n0 p" "operation (pdata n0) = PD_OP_WRITE"
  shows "typed_results a n0 p p'"
  by (rule handled_typed [OF handle_write_handled [OF assms(1,2)]]) (auto simp: assms(3) typing)

lemma accepting_typed:
  assumes "handle_with retry give_up evs a p = Some p'" "alive a n0 p" "\<forall>x. Inr x \<in> set evs \<longrightarrow> snd x \<noteq> a"
    "operation (pdata n0) \<in> {PD_OP_LISTEN, PD_OP_RECVFROM}"
  shows "typed_results a n0 p p'"
  by (rule handled_typed [OF handle_with_handled [OF assms(1-3)]]) (use assms(4) in \<open>auto simp: typing\<close>)

lemma connect_typed:
  assumes "poller_handle_connect e a p = Some p'" "alive a n0 p" "operation (pdata n0) = PD_OP_CONNECT"
  shows "typed_results a n0 p p'"
proof (rule handled_typed)
  have "ended a n0 PR_ST_FINISHED p p' \<or> ended a n0 PR_ST_ERROR p p'"
    using assms(1) remove_and_finish_ended [OF assms(2)] by (auto simp: poller_handle_connect_def Let_def split: if_splits)
  then show "handled False {PR_ST_FINISHED, PR_ST_ERROR} a n0 p p'" by (auto intro: ended_handled)
qed (auto simp: assms(3) typing)

lemma event_typed:
  assumes "poller_handle_event cs err evs a p = Some (b, p')" "alive a n0 p" "\<forall>e \<in> set evs. snd e \<noteq> a" "operation (pdata n0) = PD_OP_EVENT"
  shows "typed_results a n0 p p'"
  by (rule handled_typed [OF handle_event_handled [OF assms(1-3)]]) (auto simp: assms(4) typing)

lemma dispatch_typed:
  assumes "entries p a = Some n0" "poller_dispatch ans a p = Some p'" "a \<notin> set (answer_mems ans)"
  shows "typed_results a n0 p p'"
proof -
  have a: "alive a n0 p" using assms(1) by (simp add: alive_def same_job_def)
  have m: "\<forall>x \<in> set (ans_app ans). app_mem x \<noteq> a" "\<forall>x. Inr x \<in> set (ans_accept ans) \<longrightarrow> snd x \<noteq> a" "\<forall>e \<in> set (ans_events ans). snd e \<noteq> a"
    using answer_memsD [OF assms(3)] by blast+
  show ?thesis
    using assms(1,2) read_typed [OF _ a m(1)] write_typed [OF _ a] accepting_typed [OF _ a m(2)] connect_typed [OF _ a] event_typed [OF _ a m(3)]
    by (auto simp: poller_dispatch_def Let_def poller_handle_listen_def poller_handle_recvfrom_def split: if_splits)
qed

text \<open>
  C20: the results of the handlers are typed. Whatever the system and the user's functions
  answer, as long as \<open>malloc\<close> does not give the memory of the node, the handler of a
  registered descriptor gives the callback any number of successes, each with a result,
  followed by at most one final result, which is the node itself; all of them carry the
  operation, descriptor and context that were registered, and a state that the operation
  has: a write or a connect never succeeds in parts, a listening or event descriptor never
  finishes.
\<close>

theorem dispatch_results_typed:
  assumes "entries p a = Some n0" "poller_dispatch ans a p = Some p'" "a \<notin> set (answer_mems ans)"
  shows "\<exists>ss fs. results p' = results p @ ss @ fs \<and>
    (\<forall>r \<in> set (ss @ fs). same_job (snd r) n0 \<and> result_typed (operation (pdata n0)) (snd r)) \<and>
    (\<forall>r \<in> set ss. pstate (snd r) = PR_ST_SUCCESS) \<and> (fs = [] \<or> (\<exists>m. fs = [(a, m)] \<and> pstate m \<noteq> PR_ST_SUCCESS))"
  using dispatch_typed [OF assms] by (simp add: typed_results_def)

definition listen_node :: poller_node where
  "listen_node = blank_node\<lparr>pdata := sample_data\<lparr>operation := PD_OP_LISTEN, fd := 6, ctx := 77\<rparr>, pres := 40\<rparr>"

definition listen_poller :: poller where
  "listen_poller = tree_poller\<lparr>entries := (entries tree_poller)(20 \<mapsto> listen_node, 40 \<mapsto> blank_node)\<rparr>"

definition listen_answers :: answers where
  "listen_answers = \<lparr>ans_app = [], ans_read = [], ans_write = [], ans_partial = 0, ans_iov = [], ans_accept = [Inr (700, 50), Inl 11],
     ans_sockerr = Inr 0, ans_counters = [], ans_errno = 0, ans_events = []\<rparr>"

theorem dispatch_results_typed_witness:
  "\<exists>p' m. poller_dispatch listen_answers 20 listen_poller = Some p' \<and> results p' = [(40, m)] \<and>
     ctx (pdata m) = 77 \<and> pstate m = PR_ST_SUCCESS \<and> result_typed PD_OP_LISTEN m"
proof -
  have e: "entries listen_poller 20 = Some listen_node" "results listen_poller = []"
    by (simp_all add: listen_poller_def tree_poller_def sample_poller_def)
  obtain p' m where d: "poller_dispatch listen_answers 20 listen_poller = Some p'" "results p' = [(40, m)]"
    by (simp add: poller_dispatch_def e listen_node_def listen_answers_def blank_node_def sample_data_def op_defs
        poller_handle_listen_def handle_with_def deliver_def renew_res_def upd_node_def callback_def new_entry_def free_node_mem_def set_pmem_def
        listen_poller_def tree_poller_def sample_poller_def)
  moreover have "20 \<notin> set (answer_mems listen_answers)" by (simp add: answer_mems_def listen_answers_def)
  from dispatch_results_typed [OF e(1) d(1) this] obtain ss fs where r: "results p' = ss @ fs"
    "\<forall>r \<in> set (ss @ fs). same_job (snd r) listen_node \<and> result_typed (operation (pdata listen_node)) (snd r)"
    "\<forall>r \<in> set ss. pstate (snd r) = PR_ST_SUCCESS" "fs = [] \<or> (\<exists>m. fs = [(20, m)] \<and> pstate m \<noteq> PR_ST_SUCCESS)" unfolding e(2) by auto
  from r(1,4) d(2) have "ss = [(40, m)]" by (cases ss) auto
  with r(2,3) have "ctx (pdata m) = 77 \<and> pstate m = PR_ST_SUCCESS \<and> result_typed PD_OP_LISTEN m"
    by (simp add: same_job_def listen_node_def)
  ultimately show ?thesis by blast
qed

end
