(* ===== verification/Poller_Timeout.thy ===== *)
theory Poller_Timeout
  imports Poller_Streams
begin

section \<open>Expiry and stopping\<close>

text \<open>
  What \<open>__poller_handle_timeout\<close> and \<open>poller_stop\<close> of \<open>poller.cc\<close> do with the lists and
  the tree. The loop over the tree takes exactly the expired entries; the callbacks that
  follow read the links of nodes that were already handed over.
\<close>

subsection \<open>The callbacks\<close>

text \<open>A node that was given to the callback is gone.\<close>

lemma finish_node_gone: "finish_node b a st err p = Some p' \<Longrightarrow> load (a, f) (pmem p') = None"
  by (auto simp: finish_node_def bind_eq_Some_conv callback_def pmem_def load_def drop_cells_def split: option.splits)

text \<open>So both loops over the callbacks are defined for the empty list only.\<close>

lemma timeout_call_loop_eq: "timeout_call_loop l pos p = (if pos = l then Some p else None)"
proof (cases "pos = l")
  case False
  have "Option.bind (finish_node b pos st err p) (\<lambda>p. Option.bind (load (pos, nextf) (pmem p)) (\<lambda>pos. timeout_call_loop l pos p)) = None" for b st err
    by (cases "finish_node b pos st err p") (simp_all add: finish_node_gone)
  then show ?thesis using False by (subst timeout_call_loop.simps) (simp split: if_split cong: if_cong add: bind_eq_None_conv)
qed (simp add: timeout_call_loop.simps)

lemma stop_call_loop_eq: "stop_call_loop l pos p = (if pos = l then Some p else None)"
proof (cases "pos = l")
  case False
  have "Option.bind (finish_node b pos st err p) (\<lambda>p. Option.bind (load (pos, nextf) (pmem p)) (\<lambda>pos. stop_call_loop l pos p)) = None" for b st err
    by (cases "finish_node b pos st err p") (simp_all add: finish_node_gone)
  then show ?thesis using False by (subst stop_call_loop.simps) simp
qed (simp add: stop_call_loop.simps)

subsection \<open>The local list\<close>

text \<open>What a traversal sees of the entries added with \<open>list_add_tail(timeo_list.prev, .)\<close>.\<close>

fun kept :: "addr list \<Rightarrow> addr list" where
  "kept [] = []"
| "kept [x] = [x]"
| "kept (x # ys) = [last ys, x]"

definition local_list :: "heap \<Rightarrow> addr \<Rightarrow> addr list \<Rightarrow> bool" where
  "local_list h l ds \<longleftrightarrow> l \<noteq> NULL \<and> NULL \<notin> set ds \<and> l \<notin> set ds \<and> forward h l (kept ds) \<and> h (l, prevf) = Some (first_of (ds @ [l])) \<and>
     h (first_of (ds @ [l]), prevf) = Some l"

lemma set_kept: "set (kept ds) \<subseteq> set ds"
  by (induction ds rule: kept.induct) auto

lemma kept_snoc: "ds \<noteq> [] \<Longrightarrow> kept (ds @ [e]) = [e, first_of ds] \<and> (\<exists>zs. kept ds = zs @ [first_of ds])"
  by (induction ds rule: kept.induct) auto

lemma path_cong: "(\<And>x. x \<in> insert a (set xs) \<Longrightarrow> h' (x, nextf) = h (x, nextf)) \<Longrightarrow> path h' a xs b \<longleftrightarrow> path h a xs b"
  by (induction xs arbitrary: a) auto

lemma local_list_cong:
  assumes "local_list h l ds" "\<And>x f. x \<in> insert l (set ds) \<Longrightarrow> h' (x, f) = h (x, f)"
  shows "local_list h' l ds"
proof -
  have "path h' l (kept ds) l \<longleftrightarrow> path h l (kept ds) l" using set_kept [of ds] by (intro path_cong assms(2)) auto
  moreover have "first_of (ds @ [l]) \<in> insert l (set ds)" by (cases ds) auto
  ultimately show ?thesis using assms by (auto simp: local_list_def forward_def)
qed

lemma local_list_Nil: "local_list h l [] \<longleftrightarrow> list_at h l []"
  by (auto simp: local_list_def list_at_def forward_def)

lemma local_list_add:
  assumes "local_list h l ds" "free_node h e" "e \<notin> insert l (set ds)"
  shows "\<exists>h'. list_add_tail_prev l e h = Some h' \<and> local_list h' l (ds @ [e]) \<and> agree_off ({l, e} \<times> {nextf, prevf}) h h'"
proof (cases ds)
  case Nil
  with assms have at: "list_at h l []" "e \<noteq> l" by (auto simp: local_list_Nil)
  from add_to_empty_correct(1) [OF at(1) assms(2) at(2)] obtain h' where
    h': "list_add_tail l e h = Some h'" "list_at h' l [e]" "agree_off ({l, e} \<times> {nextf, prevf}) h h'" by auto
  have "list_add_tail_prev l e h = Some h'" using h'(1) at(1) by (auto simp: list_add_tail_prev_def list_at_def load_def)
  with h' Nil list_at_forward [OF h'(2)] show ?thesis by (auto simp: local_list_def list_at_def)
next
  case (Cons x ys)
  from kept_snoc [of ds e] Cons obtain zs where k: "kept ds = zs @ [x]" "kept (ds @ [e]) = [e, x]" by auto
  have x: "x \<noteq> NULL" "x \<noteq> l" "x \<noteq> e" "h (l, prevf) = Some x" "h (x, prevf) = Some l" using assms(1,3) Cons by (auto simp: local_list_def)
  have "forward h l ([] @ zs @ [x])" using assms(1) by (simp add: local_list_def k(1))
  from list_add_tail_prev_nonempty [OF this x(4), of e] x assms(2,3) obtain h' where
    "list_add_tail_prev l e h = Some h'" "forward h' l [e, x]" "h' (l, prevf) = Some x" "h' (x, prevf) = Some l"
    "agree_off ({l, e} \<times> {nextf, prevf}) h h'" by auto
  with assms k Cons show ?thesis by (auto simp: local_list_def free_node_def)
qed

subsection \<open>The loop over the tree\<close>

lemma rb_seq_cells: "rb_seq root h xs \<Longrightarrow> x \<in> set xs \<Longrightarrow> x \<noteq> NULL \<and> h (x, f) \<noteq> None"
proof -
  have "rep h par t \<Longrightarrow> x \<in> set (addrs t) \<Longrightarrow> x \<noteq> NULL \<and> h (x, f) \<noteq> None" for par t
    by (induction h par t rule: rep.induct) (cases f; auto)+
  then show "rb_seq root h xs \<Longrightarrow> x \<in> set xs \<Longrightarrow> x \<noteq> NULL \<and> h (x, f) \<noteq> None" by (auto simp: rb_seq_def tree_at_def)
qed

lemma rb_seq_agree:
  assumes "rb_seq root h xs" "agree_off X h h'" "\<And>l. l \<in> X \<Longrightarrow> l \<noteq> root \<and> fst l \<notin> set xs"
  shows "rb_seq root h' xs"
proof -
  from assms(1) obtain t where t: "tree_at root h t" "rbt t" "addrs t = xs" by (auto simp: rb_seq_def)
  have "root \<notin> X" using assms(3) by blast
  with assms(2) have "h' root = h root" by (rule agree_offD)
  moreover have "rep h' NULL t" using t assms(2,3) by (auto simp: tree_at_def intro: rep_agree)
  ultimately show ?thesis using t by (auto simp: rb_seq_def tree_at_def)
qed

text \<open>Taking the first entry off the tree.\<close>

lemma tree_pop_correct:
  assumes "timers_at tm (ptimers p) (a # xs)"
  shows "\<exists>p'. tree_pop p = Some p' \<and> p' = p\<lparr>ptimers := ptimers p'\<rparr> \<and> rb_seq (timeo_tree (ptimers p)) (pmem p') xs \<and>
    timeo_tree (ptimers p') = timeo_tree (ptimers p) \<and> tree_first (ptimers p') = first_of xs \<and>
    tree_last (ptimers p') = tree_last (ptimers p) \<and> agree_off (region (timeo_tree (ptimers p)) (set (a # xs))) (pmem p) (pmem p')"
proof -
  from assms have s: "rb_seq (timeo_tree (ptimers p)) (pmem p) ([] @ a # xs)" and f: "tree_first (ptimers p) = a"
    by (simp_all add: timers_at_def pmem_def)
  from rb.erase [OF s, of a] obtain h' where h': "rb_erase a (timeo_tree (ptimers p)) (pmem p) = Some h'"
    "rb_seq (timeo_tree (ptimers p)) h' xs" "agree_off (region (timeo_tree (ptimers p)) (set (a # xs))) (pmem p) h'" by auto
  with rb.nextn [OF s] f show ?thesis by (auto simp: tree_pop_def pmem_def)
qed

text \<open>Marking an expired node: the descriptors it clears.\<close>

definition fds_of :: "poller \<Rightarrow> addr set \<Rightarrow> int set" where
  "fds_of p A = {f. \<exists>x n. x \<in> A \<and> entries p x = Some n \<and> f = fd (pdata n) \<and> f \<ge> 0}"

definition clear_nodes :: "int set \<Rightarrow> (int \<Rightarrow> addr) \<Rightarrow> int \<Rightarrow> addr" where
  "clear_nodes F N = (\<lambda>f. if f \<in> F then NULL else N f)"

definition clear_epoll :: "int set \<Rightarrow> (int \<Rightarrow> (nat \<times> addr) option) \<Rightarrow> int \<Rightarrow> (nat \<times> addr) option" where
  "clear_epoll F E = (\<lambda>f. if f \<in> F then None else E f)"

lemma clear_clear [simp]: "clear_nodes F (clear_nodes G N) = clear_nodes (G \<union> F) N" "clear_epoll F (clear_epoll G E) = clear_epoll (G \<union> F) E"
    "clear_nodes {} N = N" "clear_epoll {} E = E"
  by (auto simp: clear_nodes_def clear_epoll_def fun_eq_iff)

lemma fds_of_empty [simp]: "fds_of p {} = {}"
  by (simp add: fds_of_def)

lemma fds_of_cong: "(\<And>x. x \<in> A \<Longrightarrow> entries p' x = entries p x) \<Longrightarrow> fds_of p' A = fds_of p A"
  by (simp add: fds_of_def cong: conj_cong)

lemma fds_of_insert: "fds_of p (insert a A) = fds_of p {a} \<union> fds_of p A"
  by (auto simp: fds_of_def)

lemma expire_node_correct:
  assumes "entries p a = Some n"
  shows "\<exists>p'. expire_node a p = Some p' \<and> ptimers p' = ptimers p \<and> node_times p' = node_times p \<and> timeo_list p' = timeo_list p \<and>
    results p' = results p \<and> nodes p' = clear_nodes (fds_of p {a}) (nodes p) \<and> epoll p' = clear_epoll (fds_of p {a}) (epoll p) \<and>
    (\<forall>x. x \<noteq> a \<longrightarrow> entries p' x = entries p x) \<and> entries p' a = Some (if fd (pdata n) \<ge> 0 then n else n\<lparr>removed := True\<rparr>)"
  using assms by (auto simp: expire_node_def upd_node_def fds_of_def clear_nodes_def clear_epoll_def poller_delete_fd_def node_times_def fun_eq_iff)

definition loop_inv :: "addr \<Rightarrow> addr list \<Rightarrow> addr list \<Rightarrow> poller \<Rightarrow> bool" where
  "loop_inv l ds xs p \<longleftrightarrow> timers_at (node_times p) (ptimers p) xs \<and> local_list (pmem p) l ds \<and>
     set (l # ds) \<inter> set xs = {} \<and> fst (timeo_tree (ptimers p)) \<notin> set (l # ds)"

text \<open>One round on an expired entry.\<close>

definition tree_round :: "addr \<Rightarrow> addr \<Rightarrow> poller \<Rightarrow> poller option" where
  "tree_round l a p = do {
     p \<leftarrow> expire_node a p;
     p \<leftarrow> tree_pop p;
     p \<leftarrow> poller_list_add l a p;
     Some (if tree_first (ptimers p) = NULL then p\<lparr>ptimers := (ptimers p)\<lparr>tree_last := NULL\<rparr>\<rparr> else p)
   }"

lemma timeout_tree_loop_unfold:
  "timeout_tree_loop now l p =
     (let a = tree_first (ptimers p)
      in if a = NULL then Some p
         else do {
           n \<leftarrow> entries p a;
           if timeout_cmp (ptimeout n) now > 0 then Some p
           else do { p \<leftarrow> tree_round l a p; timeout_tree_loop now l p }
         })"
  unfolding tree_round_def by (subst timeout_tree_loop.simps) (simp add: Let_def bind_assoc cong: if_cong)

lemma tree_round_correct:
  assumes "loop_inv l ds (a # xs) p"
  shows "\<exists>p'. tree_round l a p = Some p' \<and> loop_inv l (ds @ [a]) xs p' \<and> results p' = results p \<and>
    nodes p' = clear_nodes (fds_of p {a}) (nodes p) \<and> epoll p' = clear_epoll (fds_of p {a}) (epoll p) \<and>
    node_times p' = node_times p \<and> (\<forall>x. x \<noteq> a \<longrightarrow> entries p' x = entries p x)"
proof -
  from assms have at: "timers_at (node_times p) (ptimers p) (a # xs)" and ll: "local_list (pmem p) l ds"
    and dj: "set (l # ds) \<inter> set (a # xs) = {}" "fst (timeo_tree (ptimers p)) \<notin> set (l # ds)" by (auto simp: loop_inv_def)
  note cells = at [unfolded timers_at_def, THEN conjunct1, THEN rb_seq_cells]
  have roota: "fst (timeo_tree (ptimers p)) \<notin> set (a # xs)" and dis: "distinct (a # xs)"
    using at by (auto simp: timers_at_def rb_seq_def tree_at_def)
  from at obtain n where n: "entries p a = Some n" by (auto simp: timers_at_def ordered_def node_times_def)
  from expire_node_correct [OF n] obtain p1 where
    1: "expire_node a p = Some p1" "ptimers p1 = ptimers p" "node_times p1 = node_times p" "results p1 = results p"
      "nodes p1 = clear_nodes (fds_of p {a}) (nodes p)" "epoll p1 = clear_epoll (fds_of p {a}) (epoll p)"
      "\<forall>x. x \<noteq> a \<longrightarrow> entries p1 x = entries p x" by blast
  have "timers_at (node_times p1) (ptimers p1) (a # xs)" using at 1 by simp
  from tree_pop_correct [OF this] 1(2) obtain p2 where
    2: "tree_pop p1 = Some p2" "p2 = p1\<lparr>ptimers := ptimers p2\<rparr>" "rb_seq (timeo_tree (ptimers p)) (pmem p2) xs"
      "timeo_tree (ptimers p2) = timeo_tree (ptimers p)" "tree_first (ptimers p2) = first_of xs"
      "tree_last (ptimers p2) = tree_last (ptimers p)" "agree_off (region (timeo_tree (ptimers p)) (set (a # xs))) (pmem p) (pmem p2)"
    by (auto simp: pmem_def)
  have "local_list (pmem p2) l ds"
    using ll by (rule local_list_cong) (use dj in \<open>auto intro!: agree_offD [OF 2(7)] simp: region_def prod_eq_iff disjoint_iff\<close>)
  moreover have "free_node (pmem p2) a"
    using free_node_agree [OF 2(7), of a] cells [of a] by (auto simp: free_node_def pmem_def)
  ultimately obtain h3 where
    3: "list_add_tail_prev l a (pmem p2) = Some h3" "local_list h3 l (ds @ [a])" "agree_off ({l, a} \<times> {nextf, prevf}) (pmem p2) h3"
    using local_list_add [of "pmem p2" l ds a] dj by auto
  define p3 where "p3 = set_pmem h3 p2"
  define p4 where "p4 = (if tree_first (ptimers p3) = NULL then p3\<lparr>ptimers := (ptimers p3)\<lparr>tree_last := NULL\<rparr>\<rparr> else p3)"
  have f2: "node_times p2 = node_times p1" "entries p2 = entries p1" "nodes p2 = nodes p1" "epoll p2 = epoll p1" "results p2 = results p1"
    by (subst 2(2), simp add: node_times_def fun_eq_iff)+
  then have f4: "node_times p4 = node_times p" "entries p4 = entries p1" "nodes p4 = nodes p1" "epoll p4 = epoll p1" "results p4 = results p"
      "pmem p4 = h3" "timeo_tree (ptimers p4) = timeo_tree (ptimers p)" "tree_first (ptimers p4) = first_of xs"
    using 1 2(4,5) by (auto simp: p4_def p3_def set_pmem_def pmem_def node_times_def fun_eq_iff)
  have "rb_seq (timeo_tree (ptimers p)) h3 xs"
    using 2(3) 3(3) by (rule rb_seq_agree) (use dj dis roota in \<open>auto simp: prod_eq_iff\<close>)
  moreover have "tree_last (ptimers p4) = last_of xs"
    using at 2(5,6) rb.seq_nodes [OF 2(3)] by (cases xs) (auto simp: p4_def p3_def set_pmem_def timers_at_def last_of_def)
  moreover have "ordered (node_times p) xs" using at by (simp add: timers_at_def ordered_Cons)
  ultimately have "timers_at (node_times p4) (ptimers p4) xs" using f4 by (simp add: timers_at_def pmem_def)
  then have "loop_inv l (ds @ [a]) xs p4" using 3(2) dj dis roota f4 by (auto simp: loop_inv_def)
  moreover have "tree_round l a p = Some p4"
    using 1(1) 2(1) 3(1) by (simp add: tree_round_def poller_list_add_def p4_def p3_def)
  ultimately show ?thesis using f4 1 by auto
qed

lemma loop_inv_first:
  assumes "loop_inv l ds (a # xs) p"
  obtains n where "entries p a = Some n" "valid_time (ptimeout n)" "node_times p a = Some (ptimeout n)"
    "tree_first (ptimers p) = a" "a \<noteq> NULL" "a \<notin> set xs"
proof -
  from assms have at: "timers_at (node_times p) (ptimers p) (a # xs)" by (simp add: loop_inv_def)
  then obtain n where "entries p a = Some n" "valid_time (ptimeout n)" "node_times p a = Some (ptimeout n)"
    by (auto simp: timers_at_def ordered_def node_times_def)
  moreover have "tree_first (ptimers p) = a" "a \<noteq> NULL" "a \<notin> set xs"
    using at rb.seq_nodes [of "timeo_tree (ptimers p)" "tmem (ptimers p)" "a # xs"] by (auto simp: timers_at_def)
  ultimately show ?thesis using that by blast
qed

lemma tree_loop_stops:
  assumes "loop_inv l ds xs p" "valid_time now" "takeWhile (\<lambda>x. the (node_times p x) \<le> now) xs = []"
  shows "timeout_tree_loop now l p = Some p"
proof (cases xs)
  case Nil
  with assms(1) have "tree_first (ptimers p) = NULL" by (simp add: loop_inv_def timers_at_def)
  then show ?thesis by (subst timeout_tree_loop_unfold) simp
next
  case (Cons a ys)
  with assms(1) have "loop_inv l ds (a # ys) p" by simp
  then obtain n where n: "entries p a = Some n" "valid_time (ptimeout n)" "node_times p a = Some (ptimeout n)" "tree_first (ptimers p) = a" "a \<noteq> NULL"
    by (rule loop_inv_first)
  with assms(3) Cons have "now < ptimeout n" by (simp add: not_le split: if_splits)
  then have "0 < timeout_cmp (ptimeout n) now" using timeout_cmp_order(2) [OF n(2) assms(2)] by simp
  with n show ?thesis by (subst timeout_tree_loop_unfold) simp
qed

lemma timeout_tree_loop_correct:
  assumes "loop_inv l ds xs p" "valid_time now"
  shows "\<exists>p'. timeout_tree_loop now l p = Some p' \<and>
    loop_inv l (ds @ takeWhile (\<lambda>x. the (node_times p x) \<le> now) xs) (dropWhile (\<lambda>x. the (node_times p x) \<le> now) xs) p' \<and>
    results p' = results p \<and>
    nodes p' = clear_nodes (fds_of p (set (takeWhile (\<lambda>x. the (node_times p x) \<le> now) xs))) (nodes p) \<and>
    epoll p' = clear_epoll (fds_of p (set (takeWhile (\<lambda>x. the (node_times p x) \<le> now) xs))) (epoll p)"
  using assms(1)
proof (induction xs arbitrary: ds p)
  case Nil
  with tree_loop_stops [OF Nil assms(2)] show ?case by simp
next
  case (Cons a xs)
  from Cons.prems obtain n where n: "entries p a = Some n" "valid_time (ptimeout n)" "node_times p a = Some (ptimeout n)"
    and a: "tree_first (ptimers p) = a" "a \<noteq> NULL" "a \<notin> set xs" by (rule loop_inv_first)
  show ?case
  proof (cases "ptimeout n \<le> now")
    case False
    with tree_loop_stops [OF Cons.prems assms(2)] Cons.prems n(3) show ?thesis by simp
  next
    case True
    from tree_round_correct [OF Cons.prems] obtain p1 where
      1: "tree_round l a p = Some p1" "loop_inv l (ds @ [a]) xs p1" "results p1 = results p"
        "nodes p1 = clear_nodes (fds_of p {a}) (nodes p)" "epoll p1 = clear_epoll (fds_of p {a}) (epoll p)"
        "node_times p1 = node_times p" "\<forall>x. x \<noteq> a \<longrightarrow> entries p1 x = entries p x" by blast
    have fds: "fds_of p1 (set (takeWhile P xs)) = fds_of p (set (takeWhile P xs))" for P
      by (rule fds_of_cong) (use 1(7) a(3) in \<open>auto dest: set_takeWhileD\<close>)
    have "\<not> 0 < timeout_cmp (ptimeout n) now" using True timeout_cmp_order(2) [OF n(2) assms(2)] by simp
    then have "timeout_tree_loop now l p = timeout_tree_loop now l p1" using a 1(1) n by (subst timeout_tree_loop_unfold) simp
    with Cons.IH [OF 1(2)] 1(3-6) fds True n(3) show ?thesis by (simp add: fds_of_insert [of p a "set (takeWhile _ xs)"])
  qed
qed

subsection \<open>The whole handler\<close>

text \<open>
  The lists and the tree of a poller, as the handler expects them: entries of \<open>timeo_list\<close>
  are nodes with a time, and the local list head \<open>l\<close> is other memory and no node.
\<close>

definition expiry_ready :: "addr \<Rightarrow> addr list \<Rightarrow> addr list \<Rightarrow> poller \<Rightarrow> bool" where
  "expiry_ready l ys xs p \<longleftrightarrow> timers_at (node_times p) (ptimers p) xs \<and> list_at (pmem p) (timeo_list p) ys \<and>
     (\<forall>y \<in> set ys. \<exists>t. node_times p y = Some t \<and> valid_time t) \<and> free_node (pmem p) l \<and> entries p l = None \<and>
     l \<notin> set (timeo_list p # ys @ xs) \<and> l \<noteq> fst (timeo_tree (ptimers p))"

lemma expiry_start:
  assumes "expiry_ready l ys xs p"
  obtains h where "list_init l (pmem p) = Some h" "loop_inv l [] xs (set_pmem h p)" "list_at h l []"
    "load (timeo_list p, nextf) h = Some (hd (ys @ [timeo_list p]))" "\<And>y f. y \<in> set ys \<Longrightarrow> h (y, f) = pmem p (y, f)"
proof -
  from assms have r: "timers_at (node_times p) (ptimers p) xs" "list_at (pmem p) (timeo_list p) ys" "free_node (pmem p) l"
    "l \<notin> set (timeo_list p # ys @ xs)" "l \<noteq> fst (timeo_tree (ptimers p))" by (simp_all add: expiry_ready_def)
  from list_init_correct [of l "pmem p"] r(3) obtain h where
    h: "list_init l (pmem p) = Some h" "list_at h l []" "agree_off ({l} \<times> {nextf, prevf}) (pmem p) h" by (auto simp: free_node_def)
  have "timers_at (node_times (set_pmem h p)) (ptimers (set_pmem h p)) xs"
    using r(1) by (rule timers_at_cong)
      (use r(4,5) in \<open>auto simp: set_pmem_def node_times_def prod_eq_iff pmem_def [symmetric] intro!: agree_offD [OF h(3)]\<close>)
  then have "loop_inv l [] xs (set_pmem h p)"
    using r(4,5) h(2) by (auto simp: loop_inv_def local_list_Nil pmem_def set_pmem_def)
  moreover have "h (timeo_list p, nextf) = pmem p (timeo_list p, nextf)" using r(4) by (auto intro!: agree_offD [OF h(3)])
  then have "load (timeo_list p, nextf) h = Some (hd (ys @ [timeo_list p]))"
    using list_at_head(2) [OF r(2)] r(2) by (simp add: load_def list_at_def)
  moreover have "h (y, f) = pmem p (y, f)" if "y \<in> set ys" for y f using r(4) that by (auto intro!: agree_offD [OF h(3)])
  ultimately show ?thesis using that h(1,2) by blast
qed

text \<open>The list loop: it goes on past the first entry only into the local list's head.\<close>

lemma timeout_list_loop_first:
  assumes "list_at (pmem p) l []" "entries p l = None" "l \<noteq> timeo_list p" "entries p y = Some n" "valid_time (ptimeout n)" "valid_time now"
    "y \<noteq> timeo_list p" "y \<noteq> l" "free_node (pmem p) y"
  shows "timeout_list_loop now l y p = (if now < ptimeout n then Some p else None)"
proof (cases "now < ptimeout n")
  case True
  with assms show ?thesis by (subst timeout_list_loop.simps) (simp add: timeout_cmp_order)
next
  case False
  from expire_node_correct [OF assms(4)] obtain p1 where
    1: "expire_node y p = Some p1" "ptimers p1 = ptimers p" "timeo_list p1 = timeo_list p" "\<forall>x. x \<noteq> y \<longrightarrow> entries p1 x = entries p x" by blast
  have "local_list (pmem p1) l []" using assms(1) 1(2) by (simp add: local_list_Nil pmem_def)
  with assms(8,9) 1(2) obtain h where
    2: "list_add_tail_prev l y (pmem p1) = Some h" "local_list h l [y]"
    using local_list_add [of "pmem p1" l "[]" y] by (auto simp: pmem_def)
  have "load (y, nextf) h = Some l" using 2(2) by (simp add: local_list_def forward_def load_def)
  moreover have "timeout_list_loop now l l (set_pmem h p1) = None"
    using assms(2,3,8) 1 by (subst timeout_list_loop.simps) (simp add: set_pmem_def)
  ultimately show ?thesis
    using False assms 1 2(1) by (subst timeout_list_loop.simps) (simp add: timeout_cmp_order poller_list_add_def pmem_def set_pmem_def)
qed

lemma list_loop_outcome:
  assumes "expiry_ready l ys xs p" "valid_time now" "list_init l (pmem p) = Some h" "list_at h l []"
    "\<And>y f. y \<in> set ys \<Longrightarrow> h (y, f) = pmem p (y, f)"
  shows "timeout_list_loop now l (hd (ys @ [timeo_list p])) (set_pmem h p) =
    (if \<forall>y \<in> set (take 1 ys). now < the (node_times p y) then Some (set_pmem h p) else None)"
proof (cases ys)
  case Nil
  then show ?thesis by (subst timeout_list_loop.simps) (simp add: set_pmem_def)
next
  case (Cons y ys')
  from assms(1) Cons have r: "list_at (pmem p) (timeo_list p) ([] @ y # ys')" "entries p l = None" "l \<noteq> timeo_list p" "l \<noteq> y" by (auto simp: expiry_ready_def)
  from assms(1) Cons obtain n where n: "entries p y = Some n" "valid_time (ptimeout n)" by (auto simp: expiry_ready_def node_times_def)
  have "free_node h y" using list_at_neighbours [OF r(1)] r(1) assms(5) [of y] Cons by (simp add: free_node_def list_at_def)
  moreover have "y \<noteq> timeo_list p" using r(1) by (auto simp: list_at_def)
  ultimately show ?thesis
    using timeout_list_loop_first [of "set_pmem h p" l y n now] n r(2-4) assms(2,4) Cons by (simp add: set_pmem_def pmem_def node_times_def)
qed

lemma hd_kept: "hd (kept ds @ [l]) = l \<longleftrightarrow> ds = []" if "l \<notin> set ds"
  using that by (induction ds rule: kept.induct) auto

lemma handle_timeout_outcome:
  assumes "expiry_ready l ys xs p" "valid_time now"
  shows "\<exists>h. list_init l (pmem p) = Some h \<and> poller_handle_timeout now l p =
    (if \<forall>x \<in> set (take 1 ys) \<union> set (take 1 xs). now < the (node_times p x) then Some (set_pmem h p) else None)"
proof -
  obtain h where h: "list_init l (pmem p) = Some h" "loop_inv l [] xs (set_pmem h p)" "list_at h l []"
    "load (timeo_list p, nextf) h = Some (hd (ys @ [timeo_list p]))" "\<And>y f. y \<in> set ys \<Longrightarrow> h (y, f) = pmem p (y, f)"
    using expiry_start [OF assms(1)] by blast
  note ll = list_loop_outcome [OF assms h(1,3,5)]
  have nt: "node_times (set_pmem h p) = node_times p" by (simp add: node_times_def fun_eq_iff)
  define due where "due = takeWhile (\<lambda>x. the (node_times p x) \<le> now) xs"
  from timeout_tree_loop_correct [OF h(2) assms(2), unfolded nt] obtain p' where
    p': "timeout_tree_loop now l (set_pmem h p) = Some p'" "local_list (pmem p') l due"
    unfolding due_def loop_inv_def by auto
  have "load (l, nextf) (pmem p') = Some (hd (kept due @ [l]))"
    using p'(2) by (cases "kept due") (auto simp: local_list_def forward_def load_def)
  moreover have "due = [] \<longleftrightarrow> (\<forall>x \<in> set (take 1 xs). now < the (node_times p x))" by (cases xs) (auto simp: due_def)
  moreover have "p' = set_pmem h p" if "due = []"
    using p'(1) that tree_loop_stops [OF h(2) assms(2), unfolded nt] by (simp add: due_def)
  ultimately show ?thesis
    using h(1,4) ll p' hd_kept [of l due]
    by (auto simp: poller_handle_timeout_def Let_def timeout_call_loop_eq local_list_def set_pmem_def pmem_def)
qed

subsection \<open>Properties\<close>

text \<open>
  C17: the loop over the tree in \<open>__poller_handle_timeout\<close> ends, takes exactly the entries
  whose time has come out of the tree and leaves the tree ordered with the others, and
  clears the table entry and the registration of exactly the descriptors of those nodes.
  Of the entries put on the local list a traversal sees the last and the first only.
\<close>

theorem timeout_tree_takes_due:
  assumes "timers_at (node_times p) (ptimers p) xs" "list_at (pmem p) l []" "l \<notin> set xs" "l \<noteq> fst (timeo_tree (ptimers p))" "valid_time now"
  shows "\<exists>p' due rest. timeout_tree_loop now l p = Some p' \<and> xs = due @ rest \<and>
    (\<forall>x \<in> set xs. x \<in> set due \<longleftrightarrow> the (node_times p x) \<le> now) \<and>
    timers_at (node_times p') (ptimers p') rest \<and> results p' = results p \<and>
    nodes p' = clear_nodes (fds_of p (set due)) (nodes p) \<and> epoll p' = clear_epoll (fds_of p (set due)) (epoll p) \<and>
    forward (pmem p') l (kept due)"
proof -
  have "loop_inv l [] xs p" using assms(1-4) by (auto simp: loop_inv_def local_list_Nil)
  from timeout_tree_loop_correct [OF this assms(5)] tree_timers.expired_iff [OF assms(1), of _ now]
  show ?thesis unfolding loop_inv_def local_list_def timer_key_def
    by (intro exI [of _ "the (timeout_tree_loop now l p)"] exI [of _ "takeWhile (\<lambda>x. the (node_times p x) \<le> now) xs"]
        exI [of _ "dropWhile (\<lambda>x. the (node_times p x) \<le> now) xs"]) auto
qed

text \<open>The sample poller with memory for the local list at address 50.\<close>

definition expiry_poller :: poller where
  "expiry_poller = set_pmem ((tmem sample_timers)((50, nextf) \<mapsto> 50, (50, prevf) \<mapsto> 50, (60, nextf) \<mapsto> 60, (60, prevf) \<mapsto> 60))
     (tree_poller\<lparr>timeo_list := 60\<rparr>)"

lemma expiry_poller_times: "node_times expiry_poller = sample_times" "ptimers expiry_poller = sample_timers\<lparr>tmem := pmem expiry_poller\<rparr>"
  using tree_poller_times
  by (auto simp: expiry_poller_def node_times_def fun_eq_iff set_pmem_def pmem_def tree_poller_def)

lemma expiry_poller_at: "timers_at (node_times expiry_poller) (ptimers expiry_poller) [10, 20, 30]"
  unfolding expiry_poller_times
  using sample_timers_at by (rule timers_at_cong) (auto simp: expiry_poller_def pmem_def set_pmem_def sample_timers_def)

lemma expiry_poller_lists: "list_at (pmem expiry_poller) 50 []" "list_at (pmem expiry_poller) 60 []"
    "timeo_list expiry_poller = 60" "entries expiry_poller 50 = None" "timeo_tree (ptimers expiry_poller) = (1, W0)"
  by (simp_all add: expiry_poller_def list_at_def set_pmem_def pmem_def tree_poller_def sample_timers_def)

theorem timeout_tree_takes_due_witness:
  "\<exists>p'. timeout_tree_loop (Timespec 2 5) 50 expiry_poller = Some p' \<and> timers_at (node_times p') (ptimers p') [30] \<and> forward (pmem p') 50 [20, 10]"
proof -
  have v: "valid_time (Timespec 2 5)" by (simp add: valid_time_def)
  have "50 \<notin> set [10, 20, 30 :: addr]" "50 \<noteq> fst (timeo_tree (ptimers expiry_poller))" by (simp_all add: expiry_poller_lists(5))
  from timeout_tree_takes_due [OF expiry_poller_at expiry_poller_lists(1) this v] obtain p' due rest where
    p': "timeout_tree_loop (Timespec 2 5) 50 expiry_poller = Some p'" "[10, 20, 30] = due @ rest"
      "\<forall>x \<in> set [10, 20, 30]. x \<in> set due \<longleftrightarrow> the (sample_times x) \<le> Timespec 2 5"
      "timers_at (node_times p') (ptimers p') rest" "forward (pmem p') 50 (kept due)"
    unfolding expiry_poller_times(1) by blast
  have "10 \<in> set due" "20 \<in> set due" "30 \<notin> set due" using p'(3) by (simp_all add: sample_times_def less_eq_timespec_def)
  with p'(2) have "due = [10, 20]" "rest = [30]" by (auto simp: append_eq_Cons_conv Cons_eq_append_conv)
  with p' show ?thesis by auto
qed

text \<open>
  C38: \<open>__poller_handle_timeout\<close> has defined behaviour only when nothing has expired. If the
  first entry of \<open>timeo_list\<close> has, the loop goes on to the head of the local list as if it
  were a node; if the first entry of the tree has, the callbacks read the link of a node
  they have given away. If neither has, the handler changes only its local list.
\<close>

theorem handle_timeout_defined_iff_none_due:
  assumes "expiry_ready l ys xs p" "valid_time now"
  shows "if \<forall>x \<in> set (take 1 ys) \<union> set (take 1 xs). now < the (node_times p x)
    then \<exists>h. list_init l (pmem p) = Some h \<and> poller_handle_timeout now l p = Some (set_pmem h p)
    else poller_handle_timeout now l p = None"
  using handle_timeout_outcome [OF assms] by presburger

theorem handle_timeout_defined_iff_none_due_witness:
  "poller_handle_timeout (Timespec 1 0) 50 expiry_poller = None \<and> (\<exists>p'. poller_handle_timeout (Timespec 0 5) 50 expiry_poller = Some p')"
proof -
  have "free_node (pmem expiry_poller) 50" by (simp add: free_node_def expiry_poller_def pmem_def set_pmem_def)
  then have r: "expiry_ready 50 [] [10, 20, 30] expiry_poller"
    using expiry_poller_at expiry_poller_lists by (simp add: expiry_ready_def)
  have "valid_time (Timespec 1 0)" "valid_time (Timespec 0 5)" by (simp_all add: valid_time_def)
  from this [THEN handle_timeout_defined_iff_none_due [OF r]] show ?thesis
    by (auto simp: expiry_poller_times sample_times_def less_timespec_def)
qed

text \<open>
  \<open>poller_stop\<close> with an empty tree: both list heads are spliced into the local list
  instead of their entries, and the second replaces the first.
\<close>

lemma list_add_lists_heads:
  assumes "list_at h l []" "free_node h t" "free_node h u" "t \<noteq> l" "u \<noteq> l" "t \<noteq> u"
  shows "\<exists>h1 h2. list_add_list l t h = Some h1 \<and> list_add_list l u h1 = Some h2 \<and> load (l, nextf) h2 = Some u"
proof -
  from assms(1) have c: "l \<noteq> NULL" "h (l, nextf) = Some l" "h (l, prevf) = Some l" by (auto simp: list_at_def)
  define h1 where "h1 = h((l, nextf) \<mapsto> t, (t, nextf) \<mapsto> l, (t, prevf) \<mapsto> l)"
  have 1: "list_add_list l t h = Some h1"
    using c assms(2,4) by (auto simp: list_add_list_def load_def store_def h1_def free_node_def)
  have "\<exists>h2. list_add_list l u h1 = Some h2 \<and> load (l, nextf) h2 = Some u"
    using c assms(3-6) by (auto simp: list_add_list_def load_def store_def h1_def free_node_def)
  with 1 show ?thesis by blast
qed

text \<open>
  \<open>poller_stop\<close> on a poller with no entry in the tree and nothing in the pipe has no
  defined behaviour, whatever is on its two lists: \<open>list_add_list\<close> links the head of
  \<open>no_timeo_list\<close> into the local list, and the loop takes that head for a node.
\<close>

theorem poller_stop_undefined:
  assumes "load (timeo_tree (ptimers p)) (pmem p) = Some NULL" "pipe p = []" "free_node (pmem p) l"
    "list_at (pmem p) (timeo_list p) xs" "list_at (pmem p) (no_timeo_list p) ys" "timeo_list p \<noteq> no_timeo_list p"
    "l \<notin> {timeo_list p, no_timeo_list p, fst (timeo_tree (ptimers p))}" "entries p (no_timeo_list p) = None"
  shows "poller_stop l p = None"
proof -
  from list_init_correct [of l "pmem p"] assms(3) obtain h where
    h: "list_init l (pmem p) = Some h" "list_at h l []" "agree_off ({l} \<times> {nextf, prevf}) (pmem p) h" by (auto simp: free_node_def)
  have f: "free_node h (timeo_list p)" "free_node h (no_timeo_list p)"
    using list_at_head(3) assms(4,5) free_node_agree [OF h(3)] by blast+
  obtain h1 h2 where l: "list_add_list l (timeo_list p) h = Some h1" "list_add_list l (no_timeo_list p) h1 = Some h2"
    "load (l, nextf) h2 = Some (no_timeo_list p)"
    using list_add_lists_heads [OF h(2) f] assms(6,7) by auto
  have root: "load (timeo_tree (ptimers p)) h = Some NULL"
    using assms(1,7) agree_offD [OF h(3), of "timeo_tree (ptimers p)"] by (auto simp: load_def prod_eq_iff split: if_splits)
  have "stop_mark_loop l (no_timeo_list p) q = None" if "entries q = entries p" for q
    using assms(7,8) that by (subst stop_mark_loop.simps) (simp add: expire_node_def)
  with h(1) l root assms(2) show ?thesis
    by (simp add: poller_stop_def Let_def poller_handle_pipe_def stop_tree_loop.simps set_pmem_def pmem_def)
qed

theorem poller_stop_undefined_witness:
  "poller_stop 50 (set_pmem (poller_heap'((50, nextf) \<mapsto> 0, (50, prevf) \<mapsto> 0)) sample_poller) = None"
  by (rule poller_stop_undefined [of _ _ "[]" "[]"])
    (simp_all add: sample_poller_def set_pmem_def pmem_def poller_heap'_def free_node_def list_at_def load_def)

text \<open>Deleting an entry that is already out of its list writes the same links again.\<close>

lemma list_delete_again:
  assumes "list_at h head (xs @ a # ys)" "list_delete a h = Some h'"
  shows "list_delete a h' = Some h'"
proof -
  define u v where "u = last (head # xs)" and "v = hd (ys @ [head])"
  have n: "h (a, prevf) = Some u" "h (a, nextf) = Some v" using list_at_neighbours [OF assms(1)] by (simp_all add: u_def v_def)
  have "u \<in> set (head # xs)" "v \<in> set (head # ys)" unfolding u_def v_def by (auto simp: hd_append)
  with assms(1) have ne: "u \<noteq> a" "v \<noteq> a" by (auto simp: list_at_def)
  have h': "h' = h((u, nextf) \<mapsto> v, (v, prevf) \<mapsto> u)" "u \<noteq> NULL" "v \<noteq> NULL" "a \<noteq> NULL"
    using assms(2) n ne by (auto simp: list_delete_def load_def bind_eq_Some_conv dest!: store_eq_SomeD split: if_splits)
  then show ?thesis
    using n ne by (auto simp: list_delete_def load_def store_def fun_upd_idem_iff)
qed

text \<open>
  C39: the handlers read \<open>node->removed\<close> before they take the mutex. When \<open>poller_del\<close> runs
  in between, the handler takes the node out a second time and calls back with it, while
  \<open>poller_del\<close> has already sent it over the pipe: the node is handed over twice, and reading
  the pipe then touches memory that was given away.
\<close>

theorem stale_removed_hands_over_twice:
  assumes "\<not> stopped p" "\<not> bad_fd f p" "nodes p f = a" "a \<noteq> NULL" "entries p a = Some n" "\<not> in_rbtree n" "\<not> removed n" "fd (pdata n) = f"
    "pres n = NULL" "pipe p = []" "list_at (pmem p) head (xs @ a # ys)"
  shows "\<exists>p1 p2 p3. poller_del f p = Some (0, p1) \<and> pipe p1 = [a] \<and> remove_section a (removed n) p1 = Some p2 \<and>
    finish_node True a PR_ST_ERROR err p2 = Some p3 \<and> a \<in> fst ` set (results p3) \<and> pipe p3 = [a] \<and> poller_handle_pipe p3 = None"
proof -
  from list_delete_correct [OF assms(11)] obtain h where h: "list_delete a (pmem p) = Some h" by blast
  define n1 where "n1 = n\<lparr>perror := 0, pstate := PR_ST_DELETED, removed := True\<rparr>"
  define p1 where "p1 = (set_pmem h p)\<lparr>nodes := (nodes p)(f := NULL), epoll := (epoll p)(f := None), entries := (entries p)(a \<mapsto> n1), pipe := [a]\<rparr>"
  have 1: "poller_del f p = Some (0, p1)"
    using assms(1-6,10) h
    by (simp add: poller_del_def Let_def poller_unlink_def upd_node_def poller_delete_fd_def hand_over_def call_if_stopped_def
        p1_def n1_def set_pmem_def pmem_def)
  have "pmem p1 = h" by (simp add: p1_def pmem_def set_pmem_def)
  then have 2: "remove_section a (removed n) p1 = Some p1"
    using list_delete_again [OF assms(11) h] assms(6-8)
    by (simp add: remove_section_def poller_unlink_def poller_delete_fd_def p1_def n1_def set_pmem_def pmem_def)
  have "\<exists>p3. finish_node True a PR_ST_ERROR err p1 = Some p3 \<and> a \<in> fst ` set (results p3) \<and> pipe p3 = [a] \<and> entries p3 a = None"
    using assms(9) by (simp add: finish_node_def upd_node_def free_res_def callback_def p1_def n1_def set_pmem_def free_node_mem_def pmem_def)
  then obtain p3 where 3: "finish_node True a PR_ST_ERROR err p1 = Some p3" "a \<in> fst ` set (results p3)" "pipe p3 = [a]" "entries p3 a = None" by blast
  have "poller_handle_pipe p3 = None" using 3(3,4) assms(4) by (simp add: poller_handle_pipe_def free_res_def POLLER_BUFSIZE_def)
  with 1 2 3 show ?thesis by (auto simp: p1_def)
qed

definition list_poller :: poller where
  "list_poller = sample_poller\<lparr>stopped := False, nodes := (\<lambda>f. if f = 5 then 20 else NULL), epoll := [5 \<mapsto> (0, 20)],
     entries := [20 \<mapsto> blank_node\<lparr>pdata := sample_data\<rparr>],
     ptimers := (ptimers sample_poller)\<lparr>tmem := poller_heap'((3, nextf) \<mapsto> 20, (3, prevf) \<mapsto> 20, (20, nextf) \<mapsto> 3, (20, prevf) \<mapsto> 3)\<rparr>\<rparr>"

theorem stale_removed_hands_over_twice_witness:
  "\<exists>p1 p2 p3. poller_del 5 list_poller = Some (0, p1) \<and> remove_section 20 False p1 = Some p2 \<and>
     finish_node True 20 PR_ST_ERROR 104 p2 = Some p3 \<and> poller_handle_pipe p3 = None"
proof -
  have "list_at (pmem list_poller) 3 ([] @ 20 # [])" "\<not> bad_fd 5 list_poller"
    by (simp_all add: list_poller_def sample_poller_def pmem_def list_at_def bad_fd_def)
  with stale_removed_hands_over_twice [of list_poller 5 20 "blank_node\<lparr>pdata := sample_data\<rparr>" 3 "[]" "[]" 104] show ?thesis
    by (auto simp: list_poller_def sample_poller_def blank_node_def sample_data_def)
qed

end
