(* ===== verification/Poller_Runs.thy ===== *)
theory Poller_Runs
  imports Poller_Own Poller_Results Poller_Timeout
begin

section \<open>The poller with its thread\<close>

text \<open>
  Runs of the interface together with the handlers of the poller's thread, in any order:
  the table agrees with \<open>epoll\<close> all the time, and every node that was registered is in
  exactly one place, the table, the pipe, or handed to the callback for good.
\<close>

subsection \<open>The table from the owners\<close>

lemma tbl_frame:
  assumes "tbl_ok m N E C" "\<And>z. C' z \<noteq> C z \<Longrightarrow> outside N C z"
  shows "tbl_ok m N E C'"
proof -
  have N: "C' (N f) = C (N f)" if "N f \<noteq> NULL" for f using assms(2) [of "N f"] that by (auto simp: outside_def)
  have o: "owns N C' f a r \<longleftrightarrow> owns N C f a r" for f a r using N [of f] unfolding owns_def by metis
  have R: "C' r = C r" if "owns N C f a r" "r \<noteq> NULL" for f a r using assms(2) [of r] that by (auto simp: outside_def)
  show ?thesis
  proof (rule tbl_okI)
    show "N f \<noteq> NULL \<Longrightarrow> (of_int f :: 64 word) < m \<and> (\<exists>d ev r. C' (N f) = Some (d, False, ev, r) \<and> fd d = f \<and> E f = Some (ev, N f))" for f
      using tbl_okD(1) [OF assms(1), of f] N by simp
    show "N f = NULL \<Longrightarrow> E f = None" for f by (rule tbl_okD(2) [OF assms(1)])
    show "owns N C' f a r \<Longrightarrow> r \<noteq> NULL \<Longrightarrow> C' r \<noteq> None \<and> (\<forall>g. N g \<noteq> r)" for f a r
      using tbl_okD(3) [OF assms(1), of f a r] R [of f a r] by (simp add: o)
    show "owns N C' f a r \<Longrightarrow> owns N C' g b r \<Longrightarrow> r \<noteq> NULL \<Longrightarrow> f = g" for f g a b r
      using tbl_okD(4) [OF assms(1), of f a r g b] by (simp add: o)
  qed
qed

lemma tbl_from_own:
  assumes "own A C" "\<And>f. N f \<noteq> NULL \<Longrightarrow> N f \<in> A"
    "\<And>f. N f \<noteq> NULL \<Longrightarrow> (of_int f :: 64 word) < m \<and> (\<exists>d ev r. C (N f) = Some (d, False, ev, r) \<and> fd d = f \<and> E f = Some (ev, N f))"
    "\<And>f. N f = NULL \<Longrightarrow> E f = None"
  shows "tbl_ok m N E C"
proof (rule tbl_okI)
  have o: "N f \<noteq> NULL \<and> a = N f \<and> res_of C (N f) = r" if "owns N C f a r" for f a r using that by (auto simp: owns_def res_of_def)
  show "N f \<noteq> NULL \<Longrightarrow> (of_int f :: 64 word) < m \<and> (\<exists>d ev r. C (N f) = Some (d, False, ev, r) \<and> fd d = f \<and> E f = Some (ev, N f))" for f by (rule assms(3))
  show "N f = NULL \<Longrightarrow> E f = None" for f by (rule assms(4))
  fix f g a b r
  assume r: "owns N C f a r" "r \<noteq> NULL"
  note f = o [OF r(1)] and A = assms(2) [of f]
  show "C r \<noteq> None \<and> (\<forall>g. N g \<noteq> r)"
    using ownD(4,5) [OF assms(1) A] f r(2) assms(2) by metis
  assume s: "owns N C g b r"
  have "N f = N g" using ownD(6) [OF assms(1) A, of "N g"] assms(2) [of g] f o [OF s] r(2) by auto
  moreover from assms(3) [of f] f obtain d ev x where "C (N f) = Some (d, False, ev, x)" "fd d = f" by blast
  moreover from assms(3) [of g] o [OF s] obtain d' ev' x' where "C (N g) = Some (d', False, ev', x')" "fd d' = g" by blast
  ultimately show "f = g" by simp
qed

text \<open>The node of a handler changes, and exchanges its result node.\<close>

lemma tracked_swap:
  assumes "tracked n p" "a \<in> owners p" "nodes p' = nodes p" "pipe p' = pipe p" "epoll p' = epoll p" "max_open_files p' = max_open_files p"
    "finals p' = finals p" "marks p a = Some ((d, b, ev, r), st)" "marks p' a = Some ((d', b, ev, r'), st)" "operation d' = operation d" "fd d' = fd d"
    "\<And>z. z \<noteq> a \<Longrightarrow> z \<noteq> r \<Longrightarrow> z \<noteq> r' \<Longrightarrow> marks p' z = marks p z" "r' \<noteq> NULL \<Longrightarrow> cores p' r' \<noteq> None \<and> (r' = r \<or> loose (owners p) (cores p) r')"
  shows "tracked n p' \<and> owners p' = owners p"
proof -
  have o: "owners p' = owners p" "taken_fds p' = taken_fds p" "in_pipe p' = in_pipe p" using assms(3,4) by (simp_all add: owners_def taken_fds_def in_pipe_def)
  note w = trackedD(2) [OF assms(1)]
  have c: "cores p a = Some (d, b, ev, r)" "cores p' a = Some (d', b, ev, r')" using assms(8,9) by (simp_all add: cores_marks)
  have r: "res_of (cores p) a = r" using c(1) by (simp add: res_of_def)
  have r': "r' \<notin> owners p \<and> (\<forall>z \<in> owners p. z \<noteq> a \<longrightarrow> res_of (cores p) z \<noteq> r')" if "r' \<noteq> NULL"
  proof (cases "r' = r")
    case True
    have "res_of (cores p) z \<noteq> r" if "z \<in> owners p" "z \<noteq> a" for z
      using ownD(6) [OF w assms(2) that(1)] that(2) r True \<open>r' \<noteq> NULL\<close> by metis
    then show ?thesis using True that ownD(5) [OF w assms(2)] r by simp
  next
    case False
    then show ?thesis using assms(13) [OF that] that by (auto simp: loose_def)
  qed
  have z: "marks p' z = marks p z" if "z \<in> owners p" "z \<noteq> a" for z
    using assms(12) [OF that(2)] ownD(5) [OF w assms(2)] r r' ownD(1) [OF w that(1)] that by metis
  have z2: "cores p' (res_of (cores p) z) \<noteq> None" if "z \<in> owners p" "z \<noteq> a" "res_of (cores p) z \<noteq> NULL" for z
  proof -
    have "res_of (cores p) z \<noteq> a" using ownD(5) [OF w that(1,3)] assms(2) by auto
    moreover have "res_of (cores p) z \<noteq> r" using ownD(6) [OF w that(1) assms(2)] that(2,3) r by auto
    moreover have "res_of (cores p) z \<noteq> r'" using r' that by metis
    ultimately show ?thesis using assms(12) ownD(4) [OF w that(1,3)] by (simp add: cores_marks)
  qed
  have "own (owners p) (cores p')"
  proof (rule own_swap [OF w assms(2), of "cores p'" d' b ev r', OF c(2)])
    show "operation d' \<noteq> PD_OP_TIMER" using ownD(2) [OF w assms(2)] c(1) assms(10) by auto
    show "cores p' z = cores p z" if "z \<in> owners p" "z \<noteq> a" for z using z [OF that] by (simp add: cores_marks)
    show "cores p' (res_of (cores p) z) \<noteq> None" if "z \<in> owners p" "z \<noteq> a" "res_of (cores p) z \<noteq> NULL" for z using that by (rule z2)
    show "r' \<noteq> NULL \<Longrightarrow> cores p' r' \<noteq> None \<and> r' \<notin> owners p \<and> (\<forall>z \<in> owners p. z \<noteq> a \<longrightarrow> res_of (cores p) z \<noteq> r')" using assms(13) r' by blast
  qed
  moreover from this have "table_ok p'"
    unfolding table_ok_def o(1) [symmetric]
  proof (rule tbl_from_own)
    note t = trackedD(1) [OF assms(1), unfolded table_ok_def]
    show "nodes p' f \<noteq> NULL \<Longrightarrow> nodes p' f \<in> owners p'" for f by (auto simp: owners_def taken_fds_def)
    show "nodes p' f = NULL \<Longrightarrow> epoll p' f = None" for f using tbl_okD(2) [OF t, of f] assms(3,5) by simp
    fix f
    assume f: "nodes p' f \<noteq> NULL"
    then have "nodes p f \<in> owners p" using assms(3) by (auto simp: owners_def taken_fds_def)
    then show "(of_int f :: 64 word) < max_open_files p' \<and>
        (\<exists>d ev r. cores p' (nodes p' f) = Some (d, False, ev, r) \<and> fd d = f \<and> epoll p' f = Some (ev, nodes p' f))"
      using tbl_okD(1) [OF t, of f] f assms(3,5,6,11) z c by (cases "nodes p f = a") (auto simp: cores_marks)
  qed
  moreover have "\<exists>d ev r st. marks p' x = Some ((d, True, ev, r), st) \<and> st \<noteq> PR_ST_SUCCESS" if "x \<in> set (in_pipe p)" for x
    using trackedD(5) [OF assms(1) that] z [OF owners_pipe [OF that]] assms(8,9) by (cases "x = a") auto
  ultimately show ?thesis using trackedD [OF assms(1)] assms(7) by (simp add: tracked_def o)
qed

subsection \<open>What a handler does to its node\<close>

lemma owner_entry:
  assumes "tracked n p" "a \<in> owners p"
  obtains k where "entries p a = Some k" "pres k \<noteq> a" "a \<noteq> NULL" "operation (pdata k) \<noteq> PD_OP_TIMER" "cores p a = Some (core k)" "marks p a = Some (core k, pstate k)"
proof -
  note w = trackedD(2) [OF assms(1)]
  obtain k where k: "entries p a = Some k" using ownD(3) [OF w assms(2)] by (auto simp: cores_def)
  then have c: "cores p a = Some (core k)" "res_of (cores p) a = pres k" by (simp_all add: cores_def res_of_def core_def)
  have "pres k \<noteq> a" using ownD(1,5) [OF w assms(2)] assms(2) c(2) by (cases "pres k = NULL") auto
  moreover have "operation (pdata k) \<noteq> PD_OP_TIMER" using ownD(2) [OF w assms(2)] c(1) by (auto simp: core_def)
  ultimately show ?thesis using that k c(1) ownD(1) [OF w assms(2)] by (simp add: marks_def)
qed

text \<open>A result node with a message goes to the callback.\<close>

lemma deliver_SomeD:
  assumes "deliver a r result p = Some p1" "entries p a = Some k"
  shows "\<exists>m. p1 = (free_node_mem r (p\<lparr>entries := (entries p)(r \<mapsto> m)\<rparr>))\<lparr>results := results p @ [(r, m)]\<rparr> \<and> pstate m = PR_ST_SUCCESS \<and> entries p r \<noteq> None"
proof -
  obtain p0 where p0: "upd_node r (\<lambda>r. r\<lparr>pdata := (pdata k)\<lparr>message := result\<rparr>, perror := 0, pstate := PR_ST_SUCCESS\<rparr>) p = Some p0" "callback r p0 = Some p1"
    using assms by (auto simp: deliver_def split: Option.bind_splits)
  from upd_node_SomeD [OF p0(1)] obtain x where x: "entries p r = Some x"
    "p0 = p\<lparr>entries := (entries p)(r \<mapsto> x\<lparr>pdata := (pdata k)\<lparr>message := result\<rparr>, perror := 0, pstate := PR_ST_SUCCESS\<rparr>)\<rparr>" by blast
  with p0(2) show ?thesis by (auto simp: callback_def)
qed

lemma finals_snoc: "results p' = results p @ [(r, m)] \<Longrightarrow> finals p' = (if final m then Suc (finals p) else finals p)"
  by (simp add: finals_def)

text \<open>Fresh memory for what a handler still allocates.\<close>

definition fresh_list :: "addr list \<Rightarrow> poller \<Rightarrow> bool" where
  "fresh_list xs p \<longleftrightarrow> distinct (filter (\<lambda>x. x \<noteq> NULL) xs) \<and> (\<forall>x \<in> set xs. x \<noteq> NULL \<longrightarrow> entries p x = None)"

lemma fresh_list_Cons: "fresh_list (x # xs) p \<Longrightarrow> (x \<noteq> NULL \<longrightarrow> entries p x = None) \<and> fresh_list xs p"
  by (auto simp: fresh_list_def split: if_splits)

lemma fresh_list_next:
  assumes "fresh_list (xs @ ys) p" "dom (entries p') \<subseteq> set xs \<union> dom (entries p)"
  shows "fresh_list ys p'"
proof -
  have "entries p' y = None" if "y \<in> set ys" "y \<noteq> NULL" for y
    using that assms by (auto simp: fresh_list_def dom_def subset_eq)
  then show ?thesis using assms(1) by (auto simp: fresh_list_def)
qed

text \<open>The handler keeps its node, which stays marked as it was.\<close>

definition going :: "nat \<Rightarrow> addr \<Rightarrow> addr list \<Rightarrow> poller \<Rightarrow> poller \<Rightarrow> bool" where
  "going n a xs p p' \<longleftrightarrow> tracked n p' \<and> a \<in> owners p' \<and> dom (entries p') \<subseteq> set xs \<union> dom (entries p)"

lemma going_refl: "tracked n p \<Longrightarrow> a \<in> owners p \<Longrightarrow> going n a xs p p"
  by (auto simp: going_def)

lemma going_trans: "going n a xs p p' \<Longrightarrow> going n a ys p' p'' \<Longrightarrow> going n a (xs @ ys) p p''"
  unfolding going_def set_append by blast

lemma going_errno: "going n a xs p p' \<Longrightarrow> going n a xs p (p'\<lparr>errno := e\<rparr>)"
  using same_marks_tracked [of n p' "p'\<lparr>errno := e\<rparr>"] trackedD(1) [of n p']
  by (auto simp: going_def table_ok_def owners_def taken_fds_def in_pipe_def)

lemma deliver_renew_going:
  assumes "tracked n p" "a \<in> owners p" "entries p a = Some k" "deliver a (pres k) result p = Some p1" "renew_res a mem p1 = Some p2" "fresh_list [mem] p"
  shows "going n a [mem] p p2 \<and> (\<exists>k'. entries p2 a = Some k' \<and> pres k' = mem)"
proof -
  from owner_entry [OF assms(1,2)] assms(3) have k: "pres k \<noteq> a" "a \<noteq> NULL" "marks p a = Some (core k, pstate k)" by auto
  from deliver_SomeD [OF assms(4,3)] obtain m where m: "p1 = (free_node_mem (pres k) (p\<lparr>entries := (entries p)(pres k \<mapsto> m)\<rparr>))\<lparr>results := results p @ [(pres k, m)]\<rparr>"
    "pstate m = PR_ST_SUCCESS" "entries p (pres k) \<noteq> None" by blast
  have mem: "mem \<noteq> NULL \<longrightarrow> entries p mem = None" "mem \<noteq> a" using assms(3,6) k(2) by (auto simp: fresh_list_def)
  have e1: "entries p1 = (entries p)(pres k := None)" by (simp add: m(1))
  define q where "q = (if mem = NULL then p1 else new_entry mem blank_node p1)"
  have q: "entries q a = Some k" "nodes q = nodes p" "pipe q = pipe p" "epoll q = epoll p" "max_open_files q = max_open_files p"
      "results q = results p @ [(pres k, m)]" "entries q = (if mem = NULL then entries p1 else (entries p1)(mem \<mapsto> blank_node))"
    using assms(3) k(1) mem(2) by (simp_all add: q_def m(1))
  have p2: "p2 = q\<lparr>entries := (entries q)(a \<mapsto> k\<lparr>pres := mem\<rparr>)\<rparr>" using assms(5) q(1) by (simp add: renew_res_def upd_node_def q_def)
  have s: "tracked n p2 \<and> owners p2 = owners p"
  proof (rule tracked_swap [OF assms(1,2), of p2 "pdata k" "removed k" "pevent k" "pres k" "pstate k" "pdata k" mem])
    show "finals p2 = finals p" using finals_snoc [of p2 p "pres k" m] m(2) q(6) by (simp add: p2 final_def)
    show "marks p a = Some ((pdata k, removed k, pevent k, pres k), pstate k)" using k(3) by (simp add: core_def)
    show "marks p2 a = Some ((pdata k, removed k, pevent k, mem), pstate k)" by (simp add: p2 marks_def core_def)
    show "z \<noteq> a \<Longrightarrow> z \<noteq> pres k \<Longrightarrow> z \<noteq> mem \<Longrightarrow> marks p2 z = marks p z" for z by (simp add: p2 q(7) e1 marks_def)
    show "mem \<noteq> NULL \<Longrightarrow> cores p2 mem \<noteq> None \<and> (mem = pres k \<or> loose (owners p) (cores p) mem)"
      using loose_fresh [OF trackedD(2) [OF assms(1)], of mem] mem by (simp add: p2 q(7) cores_def)
  qed (simp_all add: p2 q)
  moreover have "dom (entries p2) \<subseteq> set [mem] \<union> dom (entries p)" using assms(3) by (auto simp: p2 q(7) e1 split: if_splits)
  ultimately show ?thesis using assms(2) by (simp add: going_def) (simp add: p2)
qed

lemma going_next:
  assumes "going n a [x] p p1" "fresh_list (x # ys) p"
  shows "tracked n p1" "a \<in> owners p1" "fresh_list ys p1"
  using assms(1) fresh_list_next [of "[x]" ys p p1] assms(2) by (simp_all add: going_def)

definition accept_mems :: "(int + addr \<times> addr) list \<Rightarrow> addr list" where
  "accept_mems evs = concat (map (\<lambda>e. case e of Inl _ \<Rightarrow> [] | Inr x \<Rightarrow> [snd x]) evs)"

lemma accept_mems_simps [simp]: "accept_mems [] = []" "accept_mems (Inl e # evs) = accept_mems evs" "accept_mems (Inr (result, mem) # evs) = mem # accept_mems evs"
  by (simp_all add: accept_mems_def)

lemma accept_loop_going:
  assumes "accept_loop retry give_up evs a res p = Some (ret, p')" "tracked n p" "a \<in> owners p" "map_option pres (entries p a) = Some res"
    "fresh_list (accept_mems evs) p"
  shows "going n a (accept_mems evs) p p'"
  using assms
proof (induction retry give_up evs a res p rule: accept_loop.induct)
  case (2 retry give_up e evs a res p)
  have k: "going n a [] p (p\<lparr>errno := e\<rparr>)" by (rule going_errno [OF going_refl [OF 2(3,4)]])
  show ?case
  proof (cases "\<not> give_up e \<and> retry e")
    case True
    have "going n a (accept_mems evs) (p\<lparr>errno := e\<rparr>) p'"
      by (rule 2(1)) (use 2 True k in \<open>auto simp: going_def fresh_list_def\<close>)
    with going_trans [OF k this] show ?thesis by simp
  next
    case False
    then show ?thesis using 2(2) k by (auto simp: Let_def going_def split: if_splits)
  qed
next
  case (3 retry give_up result mem evs a res p)
  obtain k0 where k0: "entries p a = Some k0" "pres k0 = res" using 3(5) by auto
  show ?case
  proof (cases "result = NULL")
    case True
    then show ?thesis using 3 going_refl by auto
  next
    case False
    then obtain p1 p2 where d: "deliver a res result p = Some p1" "renew_res a mem p1 = Some p2"
        "(if mem = NULL then Some (False, p2) else accept_loop retry give_up evs a mem p2) = Some (ret, p')"
      using 3(2) by (auto split: Option.bind_splits)
    have f: "fresh_list (mem # accept_mems evs) p" using 3(6) by simp
    have "fresh_list [mem] p" using f by (auto simp: fresh_list_def)
    from deliver_renew_going [OF 3(3,4) k0(1) d(1) [folded k0(2)] d(2) this]
    have k: "going n a [mem] p p2" "map_option pres (entries p2 a) = Some mem" by auto
    note nx = going_next [OF k(1) f]
    show ?thesis
    proof (cases "mem = NULL")
      case True
      then show ?thesis using d(3) k(1) by (auto simp: going_def)
    next
      case m: False
      have "going n a (accept_mems evs) p2 p'"
        by (rule 3(1) [OF False d(1,2) m]) (use m d(3) nx k(2) in auto)
      with going_trans [OF k(1) this] show ?thesis by simp
    qed
  qed
qed simp

lemma event_loop_going:
  assumes "event_loop cnt evs a res p = (Some x, p')" "tracked n p" "a \<in> owners p" "map_option pres (entries p a) = Some res"
    "fresh_list (map snd evs) p"
  shows "going n a (map snd evs) p p'"
  using assms
proof (induction cnt evs a res p rule: event_loop.induct)
  case (3 cnt result mem evs a res p)
  obtain k0 where k0: "entries p a = Some k0" "pres k0 = res" using 3(5) by auto
  show ?case
  proof (cases "result = NULL")
    case True
    then show ?thesis using 3 going_refl by auto
  next
    case False
    then obtain p1 p2 where d: "deliver a res result p = Some p1" "renew_res a mem p1 = Some p2"
        "(if mem = NULL then (Some (Inl cnt), p2) else event_loop cnt evs a mem p2) = (Some x, p')"
      using 3(2) by (auto split: option.splits)
    have f: "fresh_list (mem # map snd evs) p" using 3(6) by simp
    have "fresh_list [mem] p" using f by (auto simp: fresh_list_def)
    from deliver_renew_going [OF 3(3,4) k0(1) d(1) [folded k0(2)] d(2) this]
    have k: "going n a [mem] p p2" "map_option pres (entries p2 a) = Some mem" by auto
    note nx = going_next [OF k(1) f]
    show ?thesis
    proof (cases "mem = NULL")
      case True
      then show ?thesis using d(3) k(1) by (auto simp: going_def)
    next
      case m: False
      have "going n a (map snd evs) p2 p'"
        by (rule 3(1) [OF False d(1,2) m]) (use m d(3) nx k(2) in auto)
      with going_trans [OF k(1) this] show ?thesis by simp
    qed
  qed
qed (auto intro: going_refl)

text \<open>Reading.\<close>

lemma append_start_going:
  assumes "tracked n p" "a \<in> owners p" "entries p a = Some k" "mem \<noteq> NULL" "entries p mem = None"
    "upd_node a (\<lambda>n. n\<lparr>pdata := (pdata n)\<lparr>message := msg\<rparr>, pres := mem\<rparr>) (new_entry mem blank_node p) = Some p'"
  shows "going n a [mem] p p'"
proof -
  from owner_entry [OF assms(1,2)] assms(3) have k: "a \<noteq> NULL" "marks p a = Some (core k, pstate k)" by auto
  let ?k = "k\<lparr>pdata := (pdata k)\<lparr>message := msg\<rparr>, pres := mem\<rparr>"
  have p': "p' = (new_entry mem blank_node p)\<lparr>entries := (entries p)(mem \<mapsto> blank_node, a \<mapsto> ?k)\<rparr>"
    using assms(3,5,6) by (auto simp: upd_node_def split: if_splits)
  have "tracked n p' \<and> owners p' = owners p"
  proof (rule tracked_swap [OF assms(1,2), of p' "pdata k" "removed k" "pevent k" "pres k" "pstate k" "pdata ?k" mem])
    show "finals p' = finals p" by (simp add: p' finals_def)
    show "marks p a = Some ((pdata k, removed k, pevent k, pres k), pstate k)" using k(2) by (simp add: core_def)
    show "marks p' a = Some ((pdata ?k, removed k, pevent k, mem), pstate k)" by (simp add: p' marks_def core_def)
    show "z \<noteq> a \<Longrightarrow> z \<noteq> pres k \<Longrightarrow> z \<noteq> mem \<Longrightarrow> marks p' z = marks p z" for z by (simp add: p' marks_def)
    show "mem \<noteq> NULL \<Longrightarrow> cores p' mem \<noteq> None \<and> (mem = pres k \<or> loose (owners p) (cores p) mem)"
      using loose_fresh [OF trackedD(2) [OF assms(1)], of mem] assms(5) by (simp add: p' cores_def core_def)
  qed (simp_all add: p')
  then show ?thesis using assms(2,3) by (auto simp: going_def p')
qed

lemma append_end_going:
  assumes "tracked n p" "a \<in> owners p" "entries p a = Some k" "deliver a (pres k) result p = Some p1"
    "upd_node a (\<lambda>n. n\<lparr>pdata := (pdata n)\<lparr>message := NULL\<rparr>, pres := NULL\<rparr>) p1 = Some p'"
  shows "going n a [] p p'"
proof -
  from owner_entry [OF assms(1,2)] assms(3) have k: "pres k \<noteq> a" "marks p a = Some (core k, pstate k)" by auto
  from deliver_SomeD [OF assms(4,3)] obtain m where m: "p1 = (free_node_mem (pres k) (p\<lparr>entries := (entries p)(pres k \<mapsto> m)\<rparr>))\<lparr>results := results p @ [(pres k, m)]\<rparr>"
    "pstate m = PR_ST_SUCCESS" "entries p (pres k) \<noteq> None" by blast
  let ?k = "k\<lparr>pdata := (pdata k)\<lparr>message := NULL\<rparr>, pres := NULL\<rparr>"
  have p': "p' = p1\<lparr>entries := (entries p1)(a \<mapsto> ?k)\<rparr>" using assms(3,5) k(1) by (simp add: upd_node_def m(1))
  have "tracked n p' \<and> owners p' = owners p"
  proof (rule tracked_swap [OF assms(1,2), of p' "pdata k" "removed k" "pevent k" "pres k" "pstate k" "pdata ?k" NULL])
    show "finals p' = finals p" using finals_snoc [of p' p "pres k" m] m(2) by (simp add: p' m(1) final_def)
    show "marks p a = Some ((pdata k, removed k, pevent k, pres k), pstate k)" using k(2) by (simp add: core_def)
    show "marks p' a = Some ((pdata ?k, removed k, pevent k, NULL), pstate k)" by (simp add: p' marks_def core_def)
    show "z \<noteq> a \<Longrightarrow> z \<noteq> pres k \<Longrightarrow> z \<noteq> NULL \<Longrightarrow> marks p' z = marks p z" for z by (simp add: p' m(1) marks_def)
  qed (simp_all add: p' m(1))
  then show ?thesis using assms(2,3) by (auto simp: going_def p' m(1) split: if_splits)
qed

lemma going_mono: "going n a xs p p' \<Longrightarrow> set xs \<subseteq> set ys \<Longrightarrow> going n a ys p p'"
  by (auto simp: going_def)

lemma append_message_going:
  assumes "poller_append_message ans a p = Some (ret, p')" "tracked n p" "a \<in> owners p" "fresh_list [app_mem ans] p"
  shows "going n a [app_mem ans] p p'"
proof -
  from owner_entry [OF assms(2,3)] obtain k where k: "entries p a = Some k" by blast
  show ?thesis
  proof (cases "message (pdata k) = NULL \<and> (app_mem ans = NULL \<or> app_msg ans = NULL)")
    case True
    then show ?thesis using assms(1) k going_refl [OF assms(2,3)] by (simp add: poller_append_message_def)
  next
    case False
    then obtain p1 where 1: "(if message (pdata k) = NULL
          then upd_node a (\<lambda>n. n\<lparr>pdata := (pdata n)\<lparr>message := app_msg ans\<rparr>, pres := app_mem ans\<rparr>) (new_entry (app_mem ans) blank_node p)
          else Some p) = Some p1"
      "(if app_ret ans > 0 then do {
         n \<leftarrow> entries p1 a;
         p \<leftarrow> deliver a (pres n) (message (pdata n)) p1;
         p \<leftarrow> upd_node a (\<lambda>n. n\<lparr>pdata := (pdata n)\<lparr>message := NULL\<rparr>, pres := NULL\<rparr>) p;
         Some (app_ret ans, p)
       } else Some (app_ret ans, p1)) = Some (ret, p')"
      using assms(1) k by (auto simp: poller_append_message_def bind_eq_Some_conv split: if_splits)
    have k1: "going n a [app_mem ans] p p1"
    proof (cases "message (pdata k) = NULL")
      case True
      then show ?thesis using append_start_going [OF assms(2,3) k, of "app_mem ans" "app_msg ans" p1] 1(1) False assms(4) by (simp add: fresh_list_def)
    next
      case m: False
      then show ?thesis using 1(1) going_refl [OF assms(2,3)] by simp
    qed
    show ?thesis
    proof (cases "app_ret ans > 0")
      case True
      then obtain j p2 where j: "entries p1 a = Some j" "deliver a (pres j) (message (pdata j)) p1 = Some p2"
        "upd_node a (\<lambda>n. n\<lparr>pdata := (pdata n)\<lparr>message := NULL\<rparr>, pres := NULL\<rparr>) p2 = Some p'"
        using 1(2) by (auto simp: bind_eq_Some_conv)
      have "going n a [] p1 p'" by (rule append_end_going [OF _ _ j]) (use k1 in \<open>simp_all add: going_def\<close>)
      with going_trans [OF k1 this] show ?thesis by simp
    next
      case False
      then show ?thesis using 1(2) k1 by simp
    qed
  qed
qed

lemma feed_loop_going:
  assumes "feed_loop as bs a p = Some (nleft, as', fed, p')" "tracked n p" "a \<in> owners p" "fresh_list (map app_mem as) p"
  shows "going n a (map app_mem as) p p' \<and> fresh_list (map app_mem as') p'"
  using assms
proof (induction as bs a p arbitrary: nleft as' fed p' rule: feed_loop.induct)
  case (2 ans as bs a p)
  obtain ret p1 where d: "poller_append_message ans a p = Some (ret, p1)" using 2(2) by (auto split: Option.bind_splits)
  have f: "fresh_list (app_mem ans # map app_mem as) p" using 2(5) by simp
  then have "fresh_list [app_mem ans] p" by (auto simp: fresh_list_def)
  note k = append_message_going [OF d 2(3,4) this]
  note nx = going_next [OF k f]
  show ?case
  proof (cases "ret < 0 \<or> \<not> app_n ans < length bs")
    case True
    then have "p' = p1 \<and> as' = as" using 2(2) d by (auto split: if_splits)
    then show ?thesis using going_mono [OF k, of "map app_mem (ans # as)"] nx(3) by auto
  next
    case False
    then obtain fed1 where l: "feed_loop as (drop (app_n ans) bs) a p1 = Some (nleft, as', fed1, p')" using 2(2) d by (auto split: Option.bind_splits)
    have "going n a (map app_mem as) p1 p' \<and> fresh_list (map app_mem as') p'"
      using 2(1) [OF d refl _ _ l nx(1,2,3)] False by simp
    then show ?thesis using going_trans [OF k] by auto
  qed
qed simp

lemma read_loop_going:
  assumes "read_loop as rs a p = Some (r, fed, p')" "tracked n p" "a \<in> owners p" "fresh_list (map app_mem as) p"
  shows "tracked n p' \<and> a \<in> owners p'"
  using assms
proof (induction as rs a p arbitrary: r fed p' rule: read_loop.induct)
  case (2 as e rs a p)
  then show ?case using going_errno [OF going_refl [OF 2(2,3)], of "[]" e] by (auto simp: Let_def going_def split: if_splits)
next
  case (3 as bs rs a p)
  show ?case
  proof (cases "bs = []")
    case True
    then show ?thesis using 3 by auto
  next
    case False
    then obtain nleft as' fed1 p1 where f: "feed_loop as bs a p = Some (nleft, as', fed1, p1)" using 3(2) by (auto split: Option.bind_splits)
    note k = feed_loop_going [OF f 3(3,4,5)]
    show ?thesis
    proof (cases "nleft < 0")
      case True
      then show ?thesis using 3(2) False f k by (auto simp: going_def)
    next
      case n: False
      then obtain fed2 where l: "read_loop as' rs a p1 = Some (r, fed2, p')" using 3(2) False f by (auto split: Option.bind_splits)
      show ?thesis by (rule 3(1) [OF False f refl refl refl n l]) (use k in \<open>simp_all add: going_def\<close>)
    qed
  qed
qed simp

text \<open>Taking the node out at the end: it goes to the callback for good.\<close>

lemma finish_node_SomeD:
  assumes "finish_node frees a st err p = Some p'" "entries p a = Some k" "pres k \<noteq> a"
  shows "\<exists>m. results p' = results p @ [(a, m)] \<and> pstate m = st \<and> pdata m = pdata k \<and> nodes p' = nodes p \<and> epoll p' = epoll p \<and> pipe p' = pipe p \<and>
    max_open_files p' = max_open_files p \<and> (\<forall>z. z \<noteq> a \<longrightarrow> z \<noteq> pres k \<longrightarrow> marks p' z = marks p z)"
proof -
  let ?k = "k\<lparr>perror := err, pstate := st\<rparr>"
  define q where "q = p\<lparr>entries := (entries p)(a \<mapsto> ?k)\<rparr>"
  define q2 where "q2 = (if frees \<and> pres k \<noteq> NULL then free_node_mem (pres k) q else q)"
  have "upd_node a (\<lambda>n. n\<lparr>perror := err, pstate := st\<rparr>) p = Some q" using assms(2) by (simp add: upd_node_def q_def)
  moreover have "(if frees then free_res a q else Some q) = Some q2" by (simp add: free_res_def q_def q2_def)
  moreover have "entries q2 a = Some ?k" using assms(3) by (simp add: q2_def q_def)
  ultimately have "p' = (free_node_mem a q2)\<lparr>results := results q2 @ [(a, ?k)]\<rparr>" using assms(1) by (simp add: finish_node_def callback_def)
  then show ?thesis by (auto simp: q2_def q_def marks_def)
qed

lemma remove_and_finish_tracked:
  assumes "remove_and_finish frees a st err p = Some p'" "tracked n p" "a \<in> owners p" "st \<noteq> PR_ST_SUCCESS"
  shows "tracked n p'"
proof -
  from owner_entry [OF assms(2,3)] obtain k where k: "entries p a = Some k" "pres k \<noteq> a" "a \<noteq> NULL" "operation (pdata k) \<noteq> PD_OP_TIMER"
    "cores p a = Some (core k)" "marks p a = Some (core k, pstate k)" by blast
  show ?thesis
  proof (cases "removed k")
    case True
    then have "p' = p" using assms(1) k(1) by (auto simp: remove_and_finish_def poller_remove_node_def remove_section_def)
    then show ?thesis using assms(2) by simp
  next
    case False
    have "a \<notin> set (in_pipe p)" using trackedD(5) [OF assms(2), of a] k(6) False by (auto simp: core_def)
    then obtain f where f: "f \<in> taken_fds p" "nodes p f = a" using assms(3) by (auto simp: owners_def)
    from table_node [OF trackedD(1) [OF assms(2)] f(1)] have fd: "fd (pdata k) = f" using k(5) f(2) by (auto simp: core_def)
    obtain p1 where p1: "poller_unlink a (p\<lparr>nodes := (nodes p)(f := NULL)\<rparr>) = Some p1" "finish_node frees a st err (poller_delete_fd f p1) = Some p'"
      using assms(1) k(1) False by (auto simp: remove_and_finish_def poller_remove_node_def remove_section_def fd bind_eq_Some_conv)
    have s: "marks p1 = marks p" "nodes p1 = (nodes p)(f := NULL)" "pipe p1 = pipe p" "results p1 = results p" "epoll p1 = epoll p"
        "max_open_files p1 = max_open_files p"
      using same_marks_unlink [OF p1(1)] same_table_unlink [OF p1(1)] by (simp_all add: same_marks_def same_table_def)
    have "marks p1 a = Some (core k, pstate k)" using s(1) k(6) by simp
    then obtain j where j: "entries p1 a = Some j" "core j = core k" by (auto simp: marks_def)
    have jr: "pres j = pres k" "pdata j = pdata k" using j(2) by (simp_all add: core_def)
    have e: "entries (poller_delete_fd f p1) a = Some j" using j(1) by (simp add: poller_delete_fd_def)
    from finish_node_SomeD [OF p1(2) e] k(2) jr obtain m where m: "results p' = results p @ [(a, m)]" "pstate m = st" "pdata m = pdata k"
      "nodes p' = (nodes p)(f := NULL)" "epoll p' = (epoll p)(f := None)" "pipe p' = pipe p" "max_open_files p' = max_open_files p"
      "\<And>z. z \<noteq> a \<Longrightarrow> z \<noteq> pres k \<Longrightarrow> marks p' z = marks p z"
      using s by (auto simp: poller_delete_fd_def)
    have r: "res_of (cores p) a = pres k" using k(5) by (simp add: res_of_def core_def)
    note t = trackedD(1) [OF assms(2), unfolded table_ok_def]
    have "table_ok p'"
      unfolding table_ok_def m(4,5,7)
    proof (rule tbl_frame [OF tbl_remove [OF t]])
      fix z
      assume "cores p' z \<noteq> cores p z"
      then have "marks p' z \<noteq> marks p z" by (auto simp: cores_marks)
      then have "z = a \<or> z = pres k" using m(8) by blast
      then show "outside ((nodes p)(f := NULL)) (cores p) z"
        using tbl_take [OF t f(2) k(3)] k(5) by (auto simp: core_def)
    qed
    moreover have "finals p' = Suc (finals p)" using finals_snoc [OF m(1)] m(2,3) assms(4) k(4) by (simp add: final_def)
    ultimately show ?thesis using tracked_hand [OF assms(2) _ f(1) m(4,6)] m(8) f(2) r by simp
  qed
qed

subsection \<open>The handlers\<close>

lemma handle_with_tracked:
  assumes "handle_with retry give_up evs a p = Some p'" "tracked n p" "a \<in> owners p" "fresh_list (accept_mems evs) p"
  shows "tracked n p'"
proof -
  obtain k :: poller_node and ret p1 where d: "entries p a = Some k" "accept_loop retry give_up evs a (pres k) p = Some (ret, p1)"
    "(if ret then Some p1 else remove_and_finish True a PR_ST_ERROR (errno p1) p1) = Some p'"
    using assms(1) by (auto simp: handle_with_def split: Option.bind_splits)
  have "going n a (accept_mems evs) p p1" by (rule accept_loop_going [OF d(2) assms(2,3) _ assms(4)]) (simp add: d(1))
  then show ?thesis using d(3) remove_and_finish_tracked [of True a PR_ST_ERROR _ p1 p' n] by (cases ret) (auto simp: going_def st_defs)
qed

lemma handle_event_tracked:
  assumes "poller_handle_event values err evs a p = Some (b, p')" "tracked n p" "a \<in> owners p" "fresh_list (map snd evs) p"
  shows "tracked n p'"
proof -
  obtain k where k: "entries p a = Some k" using owner_entry [OF assms(2,3)] by blast
  have e: "going n a [] p (p\<lparr>errno := err\<rparr>)" by (rule going_errno [OF going_refl [OF assms(2,3)]])
  note f = remove_and_finish_tracked [of True a PR_ST_ERROR _ _ p' n]
  show ?thesis
  proof (cases "err = errno_code EAGAIN")
    case True
    obtain x p1 where l: "event_loop (unat (sum_list values)) evs a (pres k) (p\<lparr>errno := err\<rparr>) = (Some x, p1)"
      "p' = p1 \<or> remove_and_finish True a PR_ST_ERROR (errno p1) p1 = Some p'"
      using assms(1) k True by (auto simp: poller_handle_event_def Let_def split: option.splits prod.splits sum.splits Option.bind_splits)
    have "going n a (map snd evs) (p\<lparr>errno := err\<rparr>) p1"
      by (rule event_loop_going [OF l(1)]) (use e k assms(4) in \<open>simp_all add: going_def fresh_list_def\<close>)
    then show ?thesis using l(2) f by (auto simp: going_def st_defs)
  next
    case False
    then have "remove_and_finish True a PR_ST_ERROR err (p\<lparr>errno := err\<rparr>) = Some p'"
      using assms(1) k by (auto simp: poller_handle_event_def Let_def split: Option.bind_splits)
    then show ?thesis using f e by (auto simp: going_def st_defs)
  qed
qed

lemma handle_read_tracked:
  assumes "poller_handle_read as rs a p = Some (fed, p')" "tracked n p" "a \<in> owners p" "fresh_list (map app_mem as) p"
  shows "tracked n p'"
proof -
  obtain r p1 where l: "read_loop as rs a p = Some (r, fed, p1)"
    "case r of None \<Rightarrow> p' = p1 | Some nleft \<Rightarrow> (if nleft = 0 then remove_and_finish True a PR_ST_FINISHED 0 p1
      else remove_and_finish True a PR_ST_ERROR (errno p1) p1) = Some p'"
    using assms(1) by (auto simp: poller_handle_read_def split: Option.bind_splits option.splits)
  have k: "tracked n p1" "a \<in> owners p1" using read_loop_going [OF l(1) assms(2-4)] by blast+
  note f = remove_and_finish_tracked [OF _ k]
  show ?thesis
  proof (cases r)
    case None
    then show ?thesis using l(2) k by simp
  next
    case (Some nleft)
    then show ?thesis using l(2) f by (auto simp: st_defs split: if_splits)
  qed
qed

lemma handle_write_tracked:
  assumes "poller_handle_write ws partial iov a p = Some (rest, p')" "tracked n p" "a \<in> owners p"
  shows "tracked n p'"
proof -
  obtain k where k: "entries p a = Some k" "marks p a = Some (core k, pstate k)" using owner_entry [OF assms(2,3)] by metis
  obtain ret c err where w: "write_loop ws iov 0 (errno p) = Some (ret, rest, c, err)"
    using assms(1) by (auto simp: poller_handle_write_def Let_def split: Option.bind_splits if_splits)
  let ?d = "(pdata k)\<lparr>iovcnt := length rest, message := message (pdata k) + 16 * (length iov - length rest)\<rparr>"
  define p1 where "p1 = p\<lparr>errno := err, entries := (entries p)(a \<mapsto> k\<lparr>pdata := ?d\<rparr>)\<rparr>"
  have fin: "p' = p1 \<or> remove_and_finish False a PR_ST_FINISHED 0 p1 = Some p' \<or> remove_and_finish False a PR_ST_ERROR (errno p1) p1 = Some p'"
    using assms(1) w k(1) by (auto simp: poller_handle_write_def Let_def upd_node_def p1_def split: Option.bind_splits if_splits)
  have "tracked n p1 \<and> owners p1 = owners p"
  proof (rule tracked_swap [OF assms(2,3), of p1 "pdata k" "removed k" "pevent k" "pres k" "pstate k" ?d "pres k"])
    show "finals p1 = finals p" by (simp add: p1_def finals_def)
    show "marks p a = Some ((pdata k, removed k, pevent k, pres k), pstate k)" using k(2) by (simp add: core_def)
    show "marks p1 a = Some ((?d, removed k, pevent k, pres k), pstate k)" by (simp add: p1_def marks_def core_def)
    show "z \<noteq> a \<Longrightarrow> z \<noteq> pres k \<Longrightarrow> z \<noteq> pres k \<Longrightarrow> marks p1 z = marks p z" for z by (simp add: p1_def marks_def)
    have "res_of (cores p) a = pres k" using k(1) by (simp add: res_of_def cores_def core_def)
    then show "pres k \<noteq> NULL \<Longrightarrow> cores p1 (pres k) \<noteq> None \<and> (pres k = pres k \<or> loose (owners p) (cores p) (pres k))"
      using ownD(4) [OF trackedD(2) [OF assms(2)] assms(3)] by (auto simp: p1_def cores_def core_def)
  qed (simp_all add: p1_def)
  then have p1: "tracked n p1" "a \<in> owners p1" using assms(3) by simp_all
  show ?thesis using fin p1(1) remove_and_finish_tracked [OF _ p1] by (auto simp: st_defs)
qed

text \<open>The memory that a handler is given is not in use.\<close>

lemma fresh_answers:
  assumes "fresh_list (answer_mems ans) p"
  shows "fresh_list (map app_mem (ans_app ans)) p" "fresh_list (accept_mems (ans_accept ans)) p" "fresh_list (map snd (ans_events ans)) p"
  using assms by (simp_all add: answer_mems_def accept_mems_def fresh_list_def)

lemma poller_dispatch_tracked:
  assumes "poller_dispatch ans a p = Some p'" "tracked n p" "a \<in> owners p" "fresh_list (answer_mems ans) p"
  shows "tracked n p'"
proof -
  obtain k where k: "entries p a = Some k" using owner_entry [OF assms(2,3)] by blast
  note m = fresh_answers [OF assms(4)]
  let ?op = "operation (pdata k)"
  consider (rd) "?op = PD_OP_READ" | (wr) "?op = PD_OP_WRITE" | (listen) "?op = PD_OP_LISTEN" | (con) "?op = PD_OP_CONNECT"
    | (recv) "?op = PD_OP_RECVFROM" | (ev) "?op = PD_OP_EVENT" | (other) "p' = p"
    using assms(1) k by (auto simp: poller_dispatch_def Let_def split: if_splits)
  then show ?thesis
  proof cases
    case rd
    then obtain fed where "poller_handle_read (ans_app ans) (ans_read ans) a p = Some (fed, p')" using assms(1) k by (auto simp: poller_dispatch_def)
    from handle_read_tracked [OF this assms(2,3) m(1)] show ?thesis .
  next
    case wr
    then obtain rest where "poller_handle_write (ans_write ans) (ans_partial ans) (ans_iov ans) a p = Some (rest, p')"
      using assms(1) k by (auto simp: poller_dispatch_def op_defs)
    from handle_write_tracked [OF this assms(2,3)] show ?thesis .
  next
    case listen
    then have "poller_handle_listen (ans_accept ans) a p = Some p'" using assms(1) k by (simp add: poller_dispatch_def op_defs)
    from handle_with_tracked [OF this [unfolded poller_handle_listen_def] assms(2,3) m(2)] show ?thesis .
  next
    case con
    then have "poller_handle_connect (ans_sockerr ans) a p = Some p'" using assms(1) k by (simp add: poller_dispatch_def op_defs)
    then show ?thesis using remove_and_finish_tracked [OF _ assms(2,3)]
      by (auto simp: poller_handle_connect_def Let_def st_defs split: if_splits)
  next
    case recv
    then have "poller_handle_recvfrom (ans_accept ans) a p = Some p'" using assms(1) k by (simp add: poller_dispatch_def op_defs)
    from handle_with_tracked [OF this [unfolded poller_handle_recvfrom_def] assms(2,3) m(2)] show ?thesis .
  next
    case ev
    then obtain b where "poller_handle_event (ans_counters ans) (ans_errno ans) (ans_events ans) a p = Some (b, p')"
      using assms(1) k by (auto simp: poller_dispatch_def op_defs)
    from handle_event_tracked [OF this assms(2,3) m(3)] show ?thesis .
  qed (simp add: assms(2))
qed

text \<open>The pipe: a node that comes out of it goes to the callback for good.\<close>

lemma tracked_unpipe:
  assumes "tracked n p" "a \<in> set (in_pipe p)" "in_pipe p = a # in_pipe p'" "nodes p' = nodes p" "epoll p' = epoll p" "max_open_files p' = max_open_files p"
    "finals p' = Suc (finals p)" "\<And>z. z \<noteq> a \<Longrightarrow> z \<noteq> res_of (cores p) a \<Longrightarrow> marks p' z = marks p z"
  shows "tracked n p'"
proof -
  note w = trackedD(2) [OF assms(1)] and oa = owners_pipe [OF assms(2)] and t = trackedD(1) [OF assms(1)]
  have tf: "taken_fds p' = taken_fds p" using assms(4) by (simp add: taken_fds_def)
  have na: "nodes p f \<noteq> a" if "f \<in> taken_fds p" for f using table_piped [OF assms(1) that] assms(2) by auto
  have o: "owners p' = owners p - {a}"
    using trackedD(3) [OF assms(1)] na by (auto simp: owners_def tf assms(3,4))
  have z: "marks p' x = marks p x" if "x \<in> owners p'" for x
  proof -
    have "x \<in> owners p" "x \<noteq> a" using that o by auto
    moreover have "x \<noteq> res_of (cores p) a" using ownD(5) [OF w oa] ownD(1) [OF w \<open>x \<in> owners p\<close>] \<open>x \<in> owners p\<close> by metis
    ultimately show ?thesis using assms(8) by blast
  qed
  have own: "own (owners p') (cores p')" unfolding o by (rule own_release [OF w oa]) (use assms(8) in \<open>simp add: cores_marks\<close>)
  moreover have "table_ok p'"
    unfolding table_ok_def
  proof (rule tbl_from_own [OF own])
    note t = trackedD(1) [OF assms(1), unfolded table_ok_def]
    show "nodes p' f = NULL \<Longrightarrow> epoll p' f = None" for f using tbl_okD(2) [OF t, of f] assms(4,5) by simp
    fix f
    assume f: "nodes p' f \<noteq> NULL"
    then show on: "nodes p' f \<in> owners p'" by (auto simp: owners_def taken_fds_def)
    show "(of_int f :: 64 word) < max_open_files p' \<and>
        (\<exists>d ev r. cores p' (nodes p' f) = Some (d, False, ev, r) \<and> fd d = f \<and> epoll p' f = Some (ev, nodes p' f))"
      using tbl_okD(1) [OF t, of f] f assms(4,5,6) z [OF on] by (simp add: cores_marks)
  qed
  moreover have "\<exists>d ev r st. marks p' x = Some ((d, True, ev, r), st) \<and> st \<noteq> PR_ST_SUCCESS" if "x \<in> set (in_pipe p')" for x
    using trackedD(5) [OF assms(1), of x] that z [OF owners_pipe [OF that]] assms(3) by auto
  ultimately show ?thesis using trackedD [OF assms(1)] assms(3,7) by (simp add: tracked_def tf)
qed

lemma same_pipe_tracked: "tracked n p \<Longrightarrow> in_pipe p' = in_pipe p \<Longrightarrow> nodes p' = nodes p \<Longrightarrow> epoll p' = epoll p \<Longrightarrow>
    max_open_files p' = max_open_files p \<Longrightarrow> results p' = results p \<Longrightarrow> marks p' = marks p \<Longrightarrow> cores p' = cores p \<Longrightarrow> tracked n p'"
  by (simp add: tracked_def table_ok_def owners_def taken_fds_def finals_def)

lemma pipe_loop_tracked:
  assumes "pipe_loop as stop p = Some (s, p')" "tracked n (p\<lparr>pipe := as @ pipe p\<rparr>)"
  shows "tracked n p'"
  using assms
proof (induction as stop p rule: pipe_loop.induct)
  case (1 stop p)
  then show ?case by simp
next
  case (2 a as stop p)
  let ?p = "p\<lparr>pipe := (a # as) @ pipe p\<rparr>"
  show ?case
  proof (cases "a = NULL")
    case True
    then have "tracked n (p\<lparr>pipe := as @ pipe p\<rparr>)" using same_pipe_tracked [OF 2(4)] by (simp add: in_pipe_def)
    then show ?thesis using 2(2,3) True by simp
  next
    case False
    then obtain p1 p2 where s: "free_res a p = Some p1" "callback a p1 = Some p2" "pipe_loop as stop p2 = Some (s, p')"
      using 2(3) by (auto simp: bind_eq_Some_conv)
    have a: "a \<in> set (in_pipe ?p)" using False by (simp add: in_pipe_def)
    from owner_entry [OF 2(4) owners_pipe [OF a]] obtain k where k: "entries p a = Some k" "pres k \<noteq> a" "operation (pdata k) \<noteq> PD_OP_TIMER"
      "marks ?p a = Some (core k, pstate k)" "cores ?p a = Some (core k)" by auto
    define q where "q = (if pres k = NULL then p else free_node_mem (pres k) p)"
    have "p1 = q" "entries q a = Some k" using s(1) k(1,2) by (auto simp: free_res_def q_def)
    then have p2: "p2 = (free_node_mem a q)\<lparr>results := results p @ [(a, k)]\<rparr>" using s(2) by (auto simp: callback_def q_def)
    have st: "pstate k \<noteq> PR_ST_SUCCESS" using trackedD(5) [OF 2(4) a] k(4) by auto
    have r: "res_of (cores ?p) a = pres k" using k(5) by (simp add: res_of_def core_def)
    have "tracked n (p2\<lparr>pipe := as @ pipe p2\<rparr>)"
    proof (rule tracked_unpipe [OF 2(4) a])
      show "in_pipe ?p = a # in_pipe (p2\<lparr>pipe := as @ pipe p2\<rparr>)" using False by (simp add: in_pipe_def p2 q_def)
      show "finals (p2\<lparr>pipe := as @ pipe p2\<rparr>) = Suc (finals ?p)" using st k(3) by (simp add: p2 finals_def final_def)
      show "z \<noteq> a \<Longrightarrow> z \<noteq> res_of (cores ?p) a \<Longrightarrow> marks (p2\<lparr>pipe := as @ pipe p2\<rparr>) z = marks ?p z" for z using r by (auto simp: p2 q_def)
    qed (simp_all add: p2 q_def)
    then show ?thesis using 2(1) [OF False s(1,2,3)] by simp
  qed
qed

lemma poller_handle_pipe_tracked:
  assumes "poller_handle_pipe p = Some (stop, p')" "tracked n p"
  shows "tracked n p'"
proof (rule pipe_loop_tracked)
  let ?n = "POLLER_BUFSIZE div 8"
  show "pipe_loop (take ?n (pipe p)) False (p\<lparr>pipe := drop ?n (pipe p)\<rparr>) = Some (stop, p')"
    using assms(1) by (simp add: poller_handle_pipe_def Let_def)
  show "tracked n ((p\<lparr>pipe := drop ?n (pipe p)\<rparr>)\<lparr>pipe := take ?n (pipe p) @ pipe (p\<lparr>pipe := drop ?n (pipe p)\<rparr>)\<rparr>)"
    using assms(2) by simp
qed

lemma handle_timeout_tracked:
  assumes "expiry_ready l ys xs p" "valid_time now" "poller_handle_timeout now l p = Some p'" "tracked n p"
  shows "tracked n p'"
proof -
  from handle_timeout_outcome [OF assms(1,2)] assms(3) obtain h where "p' = set_pmem h p" by (auto split: if_splits)
  then show ?thesis using same_marks_tracked [OF assms(4), of p'] trackedD(1) [OF assms(4)] by (simp add: table_ok_def)
qed

lemma set_timer_tracked: "poller_set_timer p = Some p' \<Longrightarrow> tracked n p \<Longrightarrow> tracked n p'"
proof -
  assume t: "tracked n p" and "poller_set_timer p = Some p'"
  then obtain x where "p' = poller_set_timerfd x p" by (auto simp: poller_set_timer_def bind_eq_Some_conv Let_def split: if_splits)
  moreover from this have "table_ok p'" using same_table_ok [of p p'] trackedD(1) [OF t] by simp
  ultimately show ?thesis using same_marks_tracked [OF t, of p'] by simp
qed

lemma loose_outside:
  assumes "loose (owners p) (cores p) a"
  shows "outside (nodes p) (cores p) a"
proof -
  have o: "nodes p f \<in> owners p" if "nodes p f \<noteq> NULL" for f using that by (simp add: owners_def taken_fds_def)
  have l: "a = NULL" if "x \<in> owners p" "res_of (cores p) x = a" for x using assms that by (auto simp: loose_def)
  have "a = NULL" if "owns (nodes p) (cores p) f b a" for f b
  proof -
    have "nodes p f \<noteq> NULL" "res_of (cores p) (nodes p f) = a" using that by (auto simp: owns_def res_of_def)
    then show ?thesis using l [OF o] by simp
  qed
  then show ?thesis using assms o by (auto simp: outside_def loose_def)
qed

subsection \<open>Runs\<close>

text \<open>
  A run of the interface and of the steps of the poller's thread, with the number of nodes
  that were registered. An event is one of a node that was registered when \<open>epoll_wait\<close>
  returned: it is in the table, or a call took it out and it waits in the pipe, which the
  thread reads after the events. A timer is a node that \<open>poller_add_timer\<close> gave out. Of the
  timeout handler only the case in which it is defined is a step.
\<close>

inductive poller_run :: "nat \<Rightarrow> poller \<Rightarrow> bool" where
  run_create: "poller_create True True epfd tfd ctl maxfiles root l1 l2 h = Some (Some p) \<Longrightarrow> poller_run 0 p"
| run_add: "poller_run n p \<Longrightarrow> fresh_mem rm nm p \<Longrightarrow> poller_add d timeout now rm nm ctl p = Some (r, p') \<Longrightarrow> poller_run (if r = 0 then Suc n else n) p'"
| run_mod: "poller_run n p \<Longrightarrow> fresh_mem rm nm p \<Longrightarrow> poller_mod d timeout now rm nm ctl p = Some (r, p') \<Longrightarrow> poller_run (if r = 0 then Suc n else n) p'"
| run_del: "poller_run n p \<Longrightarrow> poller_del f p = Some (r, p') \<Longrightarrow> poller_run n p'"
| run_set_timeout: "poller_run n p \<Longrightarrow> poller_set_timeout f timeout now p = Some (r, p') \<Longrightarrow> poller_run n p'"
| run_add_timer: "poller_run n p \<Longrightarrow> fresh_mem NULL nm p \<Longrightarrow> poller_add_timer val c now nm p = Some (r, a, p') \<Longrightarrow> poller_run n p'"
| run_del_timer: "poller_run n p \<Longrightarrow> loose (owners p) (cores p) a \<Longrightarrow> entries p a = Some k \<Longrightarrow> operation (pdata k) = PD_OP_TIMER \<Longrightarrow>
    poller_del_timer a p = Some (r, p') \<Longrightarrow> poller_run n p'"
| run_start: "poller_run n p \<Longrightarrow> poller_start opened ctl created p = (r, p') \<Longrightarrow> poller_run n p'"
| run_event: "poller_run n p \<Longrightarrow> a \<in> owners p \<Longrightarrow> fresh_list (answer_mems ans) p \<Longrightarrow> poller_dispatch ans a p = Some p' \<Longrightarrow> poller_run n p'"
| run_pipe: "poller_run n p \<Longrightarrow> poller_handle_pipe p = Some (stop, p') \<Longrightarrow> poller_run n p'"
| run_set_timer: "poller_run n p \<Longrightarrow> poller_set_timer p = Some p' \<Longrightarrow> poller_run n p'"
| run_timeout: "poller_run n p \<Longrightarrow> expiry_ready l ys xs p \<Longrightarrow> valid_time now \<Longrightarrow> poller_handle_timeout now l p = Some p' \<Longrightarrow> poller_run n p'"

lemma poller_run_tracked: "poller_run n p \<Longrightarrow> tracked n p"
proof (induction rule: poller_run.induct)
  case (run_del_timer n p a k r p')
  then show ?case using poller_del_timer_tracked loose_outside by metis
next
  case (run_start n p opened ctl created r p')
  then show ?case using poller_start_tracked by metis
qed (blast intro: poller_create_tracked poller_add_tracked poller_mod_tracked poller_del_tracked poller_set_timeout_tracked poller_add_timer_tracked
    poller_dispatch_tracked poller_handle_pipe_tracked set_timer_tracked handle_timeout_tracked)+

subsection \<open>Properties\<close>

text \<open>
  C5: in every state that the interface and the handlers of the poller's thread lead to, in
  any order, the entry of a descriptor in \<open>poller->nodes\<close> is a live node of that descriptor,
  not marked removed, and the descriptor is registered with \<open>epoll\<close> for exactly that node
  and its events; a descriptor without an entry is not registered.
\<close>

theorem poller_run_matches_epoll:
  assumes "poller_run n p"
  shows "if nodes p f = NULL then epoll p f = None
    else \<exists>k. entries p (nodes p f) = Some k \<and> fd (pdata k) = f \<and> \<not> removed k \<and> epoll p f = Some (pevent k, nodes p f) \<and> \<not> bad_fd f p"
proof -
  note t = trackedD(1) [OF poller_run_tracked [OF assms], unfolded table_ok_def]
  show ?thesis
  proof (cases "nodes p f = NULL")
    case True
    with tbl_okD(2) [OF t] show ?thesis by simp
  next
    case False
    from tbl_okD(1) [OF t False] obtain d ev r where
      "(of_int f :: 64 word) < max_open_files p" "cores p (nodes p f) = Some (d, False, ev, r)" "fd d = f" "epoll p f = Some (ev, nodes p f)" by blast
    with False show ?thesis by (auto simp: cores_def core_def bad_fd_def)
  qed
qed


lemma sample_poller_run: "\<exists>p. poller_run 1 p \<and> nodes p 5 = 20"
proof -
  from sample_add obtain p where p: "poller_add sample_data (-1) (Timespec 0 0) 0 20 0 sample_poller = Some (0, p)" "nodes p 5 = 20" by blast
  have "poller_run 0 sample_poller" by (rule run_create [OF sample_poller_created])
  moreover have "fresh_mem 0 20 sample_poller" by (simp add: fresh_mem_def sample_poller_def)
  ultimately have "poller_run (if (0::int) = 0 then Suc 0 else 0) p" using p(1) by (rule run_add)
  with p(2) show ?thesis by auto
qed

theorem poller_run_matches_epoll_witness:
  "\<exists>p k. poller_run 1 p \<and> entries p 20 = Some k \<and> fd (pdata k) = 5 \<and> epoll p 5 = Some (pevent k, 20)"
proof -
  from sample_poller_run obtain p where p: "poller_run 1 p" "nodes p 5 = 20" by blast
  with poller_run_matches_epoll [OF p(1), of 5] show ?thesis by auto
qed


end
