(* ===== verification/Mpoller.thy ===== *)
theory Mpoller
  imports Poller_Timeout
begin

section \<open>Several pollers over one table: mpoller\<close>

text \<open>
  \<open>src/src/kernel/mpoller.h\<close> and \<open>mpoller.cc\<close>. An \<open>mpoller\<close> is an array of pollers that
  were all given the same table \<open>nodes_buf\<close>; a descriptor is served by the poller at
  \<open>(unsigned int)fd % nthreads\<close>. The state has the table once; an operation of one poller
  runs on that poller with the table as its member \<open>nodes\<close>, and the table it leaves is the
  new one.
\<close>

record mpoller =
  nodes_buf :: "int \<Rightarrow> addr"
  nthreads :: "32 word"
  pollers :: "poller list"

text \<open>An operation on \<open>mpoller->poller[i]\<close>; an index out of the array has no defined result.\<close>

definition with_poller :: "int \<Rightarrow> (poller \<Rightarrow> ('r \<times> poller) option) \<Rightarrow> mpoller \<Rightarrow> ('r \<times> mpoller) option" where
  "with_poller i f m =
     (if 0 \<le> i \<and> nat i < length (pollers m) then do {
        (r, p) \<leftarrow> f ((pollers m ! nat i)\<lparr>nodes := nodes_buf m\<rparr>);
        Some (r, m\<lparr>nodes_buf := nodes p, pollers := (pollers m)[nat i := p]\<rparr>)
      } else None)"

text \<open>\<open>int index = (unsigned int)fd % mpoller->nthreads;\<close> a division by 0 has no defined result.\<close>

definition mpoller_index :: "int \<Rightarrow> mpoller \<Rightarrow> int option" where
  "mpoller_index f m = (if nthreads m = 0 then None else Some (sint ((of_int f :: 32 word) mod nthreads m)))"

definition mpoller_add :: "poller_data \<Rightarrow> int \<Rightarrow> timespec \<Rightarrow> addr \<Rightarrow> addr \<Rightarrow> int \<Rightarrow> mpoller \<Rightarrow> (int \<times> mpoller) option" where
  "mpoller_add d timeout now rm nm ctl m = do {
     index \<leftarrow> mpoller_index (fd d) m;
     with_poller index (poller_add d timeout now rm nm ctl) m
   }"

definition mpoller_del :: "int \<Rightarrow> mpoller \<Rightarrow> (int \<times> mpoller) option" where
  "mpoller_del f m = do { index \<leftarrow> mpoller_index f m; with_poller index (poller_del f) m }"

definition mpoller_mod :: "poller_data \<Rightarrow> int \<Rightarrow> timespec \<Rightarrow> addr \<Rightarrow> addr \<Rightarrow> int \<Rightarrow> mpoller \<Rightarrow> (int \<times> mpoller) option" where
  "mpoller_mod d timeout now rm nm ctl m = do {
     index \<leftarrow> mpoller_index (fd d) m;
     with_poller index (poller_mod d timeout now rm nm ctl) m
   }"

definition mpoller_set_timeout :: "int \<Rightarrow> int \<Rightarrow> timespec \<Rightarrow> mpoller \<Rightarrow> (int \<times> mpoller) option" where
  "mpoller_set_timeout f timeout now m = do { index \<leftarrow> mpoller_index f m; with_poller index (poller_set_timeout f timeout now) m }"

text \<open>\<open>n\<close> is the function's static counter; the results are the return value, \<open>*timer\<close> and \<open>*index\<close>.\<close>

definition mpoller_add_timer ::
  "timespec \<Rightarrow> nat \<Rightarrow> timespec \<Rightarrow> addr \<Rightarrow> 32 word \<Rightarrow> mpoller \<Rightarrow> ((int \<times> addr \<times> int) \<times> 32 word \<times> mpoller) option" where
  "mpoller_add_timer val c now nm n m =
     (if nthreads m = 0 then None
      else do {
        let index = sint (n mod nthreads m);
        ((r, a), m) \<leftarrow> with_poller index (\<lambda>p. map_option (\<lambda>(r, a, p). ((r, a), p)) (poller_add_timer val c now nm p)) m;
        Some ((r, a, index), n + 1, m)
      })"

definition mpoller_del_timer :: "addr \<Rightarrow> int \<Rightarrow> mpoller \<Rightarrow> (int \<times> mpoller) option" where
  "mpoller_del_timer a index = with_poller index (poller_del_timer a)"

subsection \<open>Creation, start and stop\<close>

text \<open>
  \<open>__mpoller_create\<close>: \<open>rs\<close> are the results of \<open>__poller_create\<close>, \<open>None\<close> for a null pointer.
  The loop gives the pollers created before the first failure, and whether it was complete.
\<close>

fun mpoller_create_loop :: "nat \<Rightarrow> poller option list \<Rightarrow> (poller list \<times> bool) option" where
  "mpoller_create_loop 0 rs = Some ([], True)"
| "mpoller_create_loop (Suc n) [] = None"
| "mpoller_create_loop (Suc n) (None # rs) = Some ([], False)"
| "mpoller_create_loop (Suc n) (Some p # rs) = do { (ps, b) \<leftarrow> mpoller_create_loop n rs; Some (p # ps, b) }"

text \<open>The new \<open>mpoller\<close>, if any, and the pollers that were destroyed again, last first.\<close>

definition mpoller_create :: "bool \<Rightarrow> bool \<Rightarrow> 64 word \<Rightarrow> poller option list \<Rightarrow> (mpoller option \<times> poller list) option" where
  "mpoller_create malloced calloced n rs =
     (let n = (if n = 0 then 1 else n); threads = (ucast n :: 32 word)
      in if \<not> malloced \<or> \<not> calloced then Some (None, [])
         else do {
           (ps, complete) \<leftarrow> mpoller_create_loop (unat threads) rs;
           Some (if complete then (Some \<lparr>nodes_buf = (\<lambda>_. NULL), nthreads = threads, pollers = ps\<rparr>, []) else (None, rev ps))
         })"

text \<open>
  \<open>mpoller_start\<close> with the answers each \<open>poller_start\<close> gets: the loop gives how many
  pollers started. \<open>ls\<close> are the addresses of the local lists of the \<open>poller_stop\<close>s.
\<close>

fun start_loop :: "(int \<times> int \<times> int) list \<Rightarrow> poller list \<Rightarrow> nat \<times> poller list" where
  "start_loop ((piped, ctl, created) # as) (p # ps) =
     (case poller_start piped ctl created p of (r, p) \<Rightarrow>
        if r < 0 then (0, p # ps) else (case start_loop as ps of (i, ps) \<Rightarrow> (Suc i, p # ps)))"
| "start_loop _ ps = (0, ps)"

fun stop_loop :: "addr \<Rightarrow> nat list \<Rightarrow> mpoller \<Rightarrow> mpoller option" where
  "stop_loop l [] m = Some m"
| "stop_loop l (i # is) m = do {
     (_, m) \<leftarrow> with_poller (int i) (\<lambda>p. map_option (Pair ()) (poller_stop l p)) m;
     stop_loop l is m
   }"

definition mpoller_start :: "(int \<times> int \<times> int) list \<Rightarrow> addr \<Rightarrow> mpoller \<Rightarrow> (int \<times> mpoller) option" where
  "mpoller_start as l m =
     (case start_loop as (pollers m) of (i, ps) \<Rightarrow>
        if i = unat (nthreads m) then Some (0, m\<lparr>pollers := ps\<rparr>)
        else do { m \<leftarrow> stop_loop l (rev [0..<i]) (m\<lparr>pollers := ps\<rparr>); Some (-1, m) })"

definition mpoller_stop :: "addr \<Rightarrow> mpoller \<Rightarrow> mpoller option" where
  "mpoller_stop l m = stop_loop l [0..<unat (nthreads m)] m"

subsection \<open>Operations of a poller look at one entry of the table\<close>

definition nd :: "(int \<Rightarrow> addr) \<Rightarrow> poller \<Rightarrow> poller" where
  "nd N p = p\<lparr>nodes := N\<rparr>"

lemma nd_fields [simp]:
  "entries (nd N p) = entries p" "epoll (nd N p) = epoll p" "ptimers (nd N p) = ptimers p" "max_open_files (nd N p) = max_open_files p"
  "stopped (nd N p) = stopped p" "timeo_list (nd N p) = timeo_list p" "no_timeo_list (nd N p) = no_timeo_list p" "pipe (nd N p) = pipe p"
  "results (nd N p) = results p" "errno (nd N p) = errno p" "nodes (nd N p) = N" "pmem (nd N p) = pmem p" "node_times (nd N p) = node_times p"
  "bad_fd f (nd N p) = bad_fd f p"
  by (simp_all add: nd_def pmem_def node_times_def bad_fd_def fun_eq_iff)

lemma nd_upds [simp]:
  "(nd N p)\<lparr>entries := x\<rparr> = nd N (p\<lparr>entries := x\<rparr>)" "(nd N p)\<lparr>epoll := e\<rparr> = nd N (p\<lparr>epoll := e\<rparr>)"
  "(nd N p)\<lparr>ptimers := ts\<rparr> = nd N (p\<lparr>ptimers := ts\<rparr>)" "(nd N p)\<lparr>pipe := q\<rparr> = nd N (p\<lparr>pipe := q\<rparr>)"
  "(nd N p)\<lparr>results := rs\<rparr> = nd N (p\<lparr>results := rs\<rparr>)" "(nd N p)\<lparr>errno := c\<rparr> = nd N (p\<lparr>errno := c\<rparr>)"
  "(nd N p)\<lparr>nodes := M\<rparr> = nd M p" "nd M (nd N p) = nd M p" "nd M (p\<lparr>nodes := K\<rparr>) = nd M p"
  "poller_set_timerfd t (nd N p) = nd N (poller_set_timerfd t p)" "poller_delete_fd f (nd N p) = nd N (poller_delete_fd f p)"
  "set_pmem h (nd N p) = nd N (set_pmem h p)" "free_node_mem a (nd N p) = nd N (free_node_mem a p)"
  "new_entry a n (nd N p) = nd N (new_entry a n p)"
  by (simp_all add: nd_def poller_set_timerfd_def poller_delete_fd_def set_pmem_def free_node_mem_def new_entry_def pmem_def)

lemma nd_same: "nodes p = N \<Longrightarrow> nd N p = p"
  by (cases p) (simp add: nd_def)

named_theorems nd_ops \<open>operations that do not look at the table\<close>

lemma upd_node_nd [nd_ops]: "upd_node a f (nd N p) = map_option (nd N) (upd_node a f p)"
  by (simp add: upd_node_def split: option.split)

lemma callback_nd [nd_ops]: "callback a (nd N p) = map_option (nd N) (callback a p)"
  by (simp add: callback_def split: option.split)

lemma map_bind: "map_option f (Option.bind x g) = Option.bind x (\<lambda>y. map_option f (g y))"
  by (cases x) simp_all

lemma bind_map: "Option.bind (map_option f x) g = Option.bind x (\<lambda>y. g (f y))"
  by (cases x) simp_all

lemma bind_if: "Option.bind (if c then x else y) g = (if c then Option.bind x g else Option.bind y g)"
  by simp

lemmas nd_binds = map_bind bind_map bind_if if_distrib [of "map_option _"]

lemma poller_unlink_nd [nd_ops]: "poller_unlink a (nd N p) = map_option (nd N) (poller_unlink a p)"
  by (simp add: poller_unlink_def nd_ops nd_binds cong: if_cong)

lemma poller_list_add_nd [nd_ops]: "poller_list_add l a (nd N p) = map_option (nd N) (poller_list_add l a p)"
  by (simp add: poller_list_add_def nd_binds)

lemma poller_timers_insert_nd [nd_ops]: "poller_timers_insert a (nd N p) = map_option (nd N) (poller_timers_insert a p)"
  by (simp add: poller_timers_insert_def nd_ops nd_binds)

lemma insert_branch_nd [nd_ops]: "insert_branch a (nd N p) = map_option (\<lambda>(e, q, b). (e, nd N q, b)) (insert_branch a p)"
  by (simp add: insert_branch_def nd_ops nd_binds cong: if_cong)

lemma insert_arm_nd [nd_ops]: "insert_arm a e (nd N p) = map_option (nd N) (insert_arm a e p)"
  by (simp add: insert_arm_def nd_binds if_distrib [of "nd N"] cong: if_cong)

lemma poller_insert_node_nd [nd_ops]: "poller_insert_node a (nd N p) = map_option (nd N) (poller_insert_node a p)"
  by (simp add: poller_insert_node_def nd_ops nd_binds case_prod_beta cong: if_cong)

lemma poller_place_nd [nd_ops]: "poller_place t a (nd N p) = map_option (nd N) (poller_place t a p)"
  by (simp add: poller_place_def nd_ops)

lemma free_res_nd [nd_ops]: "free_res a (nd N p) = map_option (nd N) (free_res a p)"
  by (simp add: free_res_def nd_binds if_distrib [of "nd N"] cong: if_cong)

lemma discard_node_nd [nd_ops]: "discard_node a (nd N p) = map_option (nd N) (discard_node a p)"
  by (simp add: discard_node_def nd_ops nd_binds)

lemma hand_over_nd [nd_ops]: "hand_over a st (nd N p) = map_option (nd N) (hand_over a st p)"
  by (simp add: hand_over_def nd_ops nd_binds cong: if_cong)

lemma call_if_stopped_nd [nd_ops]: "call_if_stopped a (nd N p) = map_option (nd N) (call_if_stopped a p)"
  by (simp add: call_if_stopped_def nd_ops nd_binds cong: if_cong)

lemma poller_new_node_nd [nd_ops]: "poller_new_node d t now rm nm (nd N p) = map_prod id (nd N) (poller_new_node d t now rm nm p)"
  by (simp add: poller_new_node_def Let_def split: prod.split)

text \<open>An operation that reads and writes the entry of \<open>f\<close> only, and one that does neither.\<close>

definition local_op :: "int \<Rightarrow> (poller \<Rightarrow> ('r \<times> poller) option) \<Rightarrow> bool" where
  "local_op f op \<longleftrightarrow> (\<forall>N p. op (nd N p) = map_option (\<lambda>(r, q). (r, nd (N(f := nodes q f)) q)) (op (nd (\<lambda>_. N f) p)))"

definition inert_op :: "(poller \<Rightarrow> ('r \<times> poller) option) \<Rightarrow> bool" where
  "inert_op op \<longleftrightarrow> (\<forall>N p. op (nd N p) = map_option (\<lambda>(r, q). (r, nd N q)) (op p))"

lemma poller_add_local: "local_op (fd d) (poller_add d t now rm nm ctl)"
  by (simp add: local_op_def poller_add_def nd_ops nd_binds case_prod_beta Let_def fun_upd_idem cong: if_cong)

lemma poller_del_local: "local_op f (poller_del f)"
  by (simp add: local_op_def poller_del_def nd_ops nd_binds Let_def fun_upd_idem cong: if_cong)

lemma poller_mod_local: "local_op (fd d) (poller_mod d t now rm nm ctl)"
  by (simp add: local_op_def poller_mod_def nd_ops nd_binds case_prod_beta Let_def fun_upd_idem cong: if_cong)

lemma poller_set_timeout_local: "local_op f (poller_set_timeout f t now)"
  by (simp add: local_op_def poller_set_timeout_def nd_ops nd_binds Let_def fun_upd_idem cong: if_cong)

lemma poller_add_timer_inert: "inert_op (\<lambda>p. map_option (\<lambda>(r, a, p). ((r, a), p)) (poller_add_timer val c now nm p))"
  by (simp add: inert_op_def poller_add_timer_def nd_ops nd_binds Let_def fun_upd_idem cong: if_cong)

lemma poller_del_timer_inert: "inert_op (poller_del_timer a)"
  by (simp add: inert_op_def poller_del_timer_def nd_ops nd_binds cong: if_cong)

subsection \<open>Each poller by itself\<close>

text \<open>What the poller at \<open>i\<close> sees of the table.\<close>

definition view :: "nat \<Rightarrow> mpoller \<Rightarrow> poller" where
  "view i m = nd (\<lambda>f. if mpoller_index f m = Some (int i) then nodes_buf m f else NULL) (pollers m ! i)"

lemma mpoller_index_fields [simp]: "mpoller_index f (m\<lparr>nodes_buf := N\<rparr>) = mpoller_index f m" "mpoller_index f (m\<lparr>pollers := ps\<rparr>) = mpoller_index f m"
  by (simp_all add: mpoller_index_def)

lemma with_poller_local:
  assumes "local_op f op" "mpoller_index f m = Some x" "with_poller x op m = Some (r, m')"
  obtains i where "x = int i" "i < length (pollers m)" "op (view i m) = Some (r, view i m')" "\<And>j. j \<noteq> i \<Longrightarrow> view j m' = view j m"
    "nthreads m' = nthreads m" "length (pollers m') = length (pollers m)"
proof -
  from assms(3) obtain i where i: "x = int i" "i < length (pollers m)" unfolding with_poller_def
    by (metis int_nat_eq not_None_eq not_le option.discI)
  define N M p where "N = nodes_buf m" and "M = (\<lambda>f. if mpoller_index f m = Some (int i) then N f else NULL)" and "p = pollers m ! i"
  have loc: "op (nd K p) = map_option (\<lambda>(r, q). (r, nd (K(f := nodes q f)) q)) (op (nd (\<lambda>_. N f) p))" if "K f = N f" for K
    using assms(1) that unfolding local_op_def by metis
  from assms(3) i obtain q0 where q0: "op (nd N p) = Some (r, q0)" "m' = m\<lparr>nodes_buf := nodes q0, pollers := (pollers m)[i := q0]\<rparr>"
    by (auto simp: with_poller_def bind_eq_Some_conv N_def p_def nd_def)
  from q0(1) loc [of N] obtain q where q: "op (nd (\<lambda>_. N f) p) = Some (r, q)" "q0 = nd (N(f := nodes q f)) q" by (cases "op (nd (\<lambda>_. N f) p)") auto
  have ix: "mpoller_index g m' = mpoller_index g m" for g by (simp add: q0(2))
  have "M f = N f" "view i m = nd M p" using assms(2) i(1) unfolding view_def M_def N_def p_def by simp_all
  with loc [of M] q(1) have "op (view i m) = Some (r, nd (M(f := nodes q f)) q)" by simp
  moreover have "nd (M(f := nodes q f)) q = view i m'"
  proof -
    have "M(f := nodes q f) = (\<lambda>g. if mpoller_index g m' = Some (int i) then nodes_buf m' g else NULL)"
    proof
      fix g
      show "(M(f := nodes q f)) g = (if mpoller_index g m' = Some (int i) then nodes_buf m' g else NULL)"
        using assms(2) i(1) by (simp add: ix M_def q0(2) q(2))
    qed
    moreover have "pollers m' ! i = nd (N(f := nodes q f)) q" using i(2) by (simp add: q0(2) q(2))
    ultimately show ?thesis unfolding view_def by simp
  qed
  moreover have "view j m' = view j m" if "j \<noteq> i" for j
  proof -
    have "(if mpoller_index g m' = Some (int j) then nodes_buf m' g else NULL) = (if mpoller_index g m = Some (int j) then nodes_buf m g else NULL)" for g
      using that assms(2) i(1) by (simp add: ix q0(2) q(2) N_def)
    moreover have "pollers m' ! j = pollers m ! j" using that by (simp add: q0(2))
    ultimately show ?thesis by (simp add: view_def)
  qed
  ultimately show ?thesis using that i q0(2) by simp
qed

lemma with_poller_inert:
  assumes "inert_op op" "with_poller x op m = Some (r, m')"
  obtains i where "x = int i" "i < length (pollers m)" "op (view i m) = Some (r, view i m')" "\<And>j. j \<noteq> i \<Longrightarrow> view j m' = view j m"
    "nthreads m' = nthreads m" "length (pollers m') = length (pollers m)"
proof -
  from assms(2) obtain i where i: "x = int i" "i < length (pollers m)" unfolding with_poller_def
    by (metis int_nat_eq not_None_eq not_le option.discI)
  define p where "p = pollers m ! i"
  have loc: "op (nd K p) = map_option (\<lambda>(r, q). (r, nd K q)) (op p)" for K using assms(1) by (simp add: inert_op_def)
  from assms(2) i obtain q0 where q0: "op (nd (nodes_buf m) p) = Some (r, q0)" "m' = m\<lparr>nodes_buf := nodes q0, pollers := (pollers m)[i := q0]\<rparr>"
    by (auto simp: with_poller_def bind_eq_Some_conv p_def nd_def)
  from q0(1) loc [of "nodes_buf m"] obtain q where q: "op p = Some (r, q)" "q0 = nd (nodes_buf m) q" by (cases "op p") auto
  have ix: "mpoller_index g m' = mpoller_index g m" for g by (simp add: q0(2))
  have "op (view i m) = Some (r, view i m')" unfolding view_def ix using loc q i by (simp add: p_def q0(2) cong: if_cong)
  moreover have "view j m' = view j m" if "j \<noteq> i" for j
    using that i unfolding view_def ix by (simp add: q0(2) q(2) cong: if_cong)
  ultimately show ?thesis using that i q0(2) by simp
qed

text \<open>The calls of the interface, on the whole and on each poller.\<close>

inductive mapi_step :: "mpoller \<Rightarrow> mpoller \<Rightarrow> bool" where
  madd: "mpoller_index (fd d) m = Some (int i) \<Longrightarrow> fresh_mem rm nm (view i m) \<Longrightarrow> mpoller_add d t now rm nm ctl m = Some (r, m') \<Longrightarrow> mapi_step m m'"
| mdel: "mpoller_del f m = Some (r, m') \<Longrightarrow> mapi_step m m'"
| mmod: "mpoller_index (fd d) m = Some (int i) \<Longrightarrow> fresh_mem rm nm (view i m) \<Longrightarrow> mpoller_mod d t now rm nm ctl m = Some (r, m') \<Longrightarrow> mapi_step m m'"
| mset_timeout: "mpoller_set_timeout f t now m = Some (r, m') \<Longrightarrow> mapi_step m m'"
| madd_timer: "(\<And>i. fresh_mem NULL nm (view i m)) \<Longrightarrow> mpoller_add_timer val c now nm k m = Some (r, k', m') \<Longrightarrow> mapi_step m m'"
| mdel_timer: "outside (nodes (view i m)) (cores (view i m)) a \<Longrightarrow> mpoller_del_timer a (int i) m = Some (r, m') \<Longrightarrow> mapi_step m m'"
| mstart: "mpoller_start as l m = Some (0, m') \<Longrightarrow> mapi_step m m'"

inductive mapi_run :: "mpoller \<Rightarrow> bool" where
  mcreated: "mpoller_create True True n rs = Some (Some m, ps) \<Longrightarrow>
    (\<And>p. Some p \<in> set rs \<Longrightarrow> \<exists>epfd tfd ctl maxfiles root l1 l2 h. poller_create True True epfd tfd ctl maxfiles root l1 l2 h = Some (Some p)) \<Longrightarrow>
    mapi_run m"
| mstep: "mapi_run m \<Longrightarrow> mapi_step m m' \<Longrightarrow> mapi_run m'"

definition views_step :: "mpoller \<Rightarrow> mpoller \<Rightarrow> bool" where
  "views_step m m' \<longleftrightarrow> length (pollers m') = length (pollers m) \<and>
     (\<forall>j < length (pollers m). view j m' = view j m \<or> api_step (view j m) (view j m'))"

lemma views_stepI:
  "length (pollers m') = length (pollers m) \<Longrightarrow> api_step (view i m) (view i m') \<Longrightarrow> (\<And>j. j \<noteq> i \<Longrightarrow> view j m' = view j m) \<Longrightarrow> views_step m m'"
  unfolding views_step_def by metis

lemma poller_start_nd [nd_ops]: "poller_start a b c (nd N p) = map_prod id (nd N) (poller_start a b c p)"
  by (simp add: poller_start_def Let_def nd_def)

lemma start_loop_all:
  "start_loop as ps = (length ps, ps') \<Longrightarrow> length ps' = length ps \<and> (\<forall>j < length ps. \<exists>a b c r. poller_start a b c (ps ! j) = (r, ps' ! j))"
proof (induction as ps arbitrary: ps' rule: start_loop.induct)
  case (1 piped ctl created as p ps)
  obtain r q where q: "poller_start piped ctl created p = (r, q)" by (cases "poller_start piped ctl created p")
  obtain i qs where qs: "start_loop as ps = (i, qs)" by (cases "start_loop as ps")
  from 1(2) q qs have *: "\<not> r < 0" "i = length ps" "ps' = q # qs" by (auto split: if_splits)
  from 1(1) [OF q [symmetric] *(1), of qs] qs * have "length qs = length ps" "\<forall>j < length ps. \<exists>a b c r. poller_start a b c (ps ! j) = (r, qs ! j)" by auto
  with q * show ?case by (auto simp: nth_Cons split: nat.split)
qed auto

lemma mpoller_start_views:
  assumes "mpoller_start as l m = Some (0, m')" "length (pollers m) = unat (nthreads m)"
  shows "views_step m m'"
proof -
  obtain i ps where ps: "start_loop as (pollers m) = (i, ps)" by (cases "start_loop as (pollers m)")
  with assms(1) have "i = length (pollers m)" "m' = m\<lparr>pollers := ps\<rparr>"
    by (auto simp: mpoller_start_def assms(2) bind_eq_Some_conv split: if_splits)
  with start_loop_all [of as "pollers m" ps] ps have
    l: "length ps = length (pollers m)" "\<forall>j < length ps. \<exists>a b c r. poller_start a b c (pollers m ! j) = (r, ps ! j)" by auto
  have ix: "mpoller_index g m' = mpoller_index g m" for g by (simp add: \<open>m' = _\<close>)
  have "api_step (view j m) (view j m')" if "j < length ps" for j
  proof -
    from l(2) that obtain a b c r where "poller_start a b c (pollers m ! j) = (r, ps ! j)" by blast
    then have "poller_start a b c (view j m) = (r, view j m')" unfolding view_def ix by (simp add: nd_ops \<open>m' = _\<close> cong: if_cong)
    then show ?thesis by (rule api_step.start)
  qed
  with l(1) \<open>m' = _\<close> show ?thesis by (simp add: views_step_def)
qed

lemma mapi_step_views:
  assumes "mapi_step m m'" "length (pollers m) = unat (nthreads m)"
  shows "views_step m m' \<and> nthreads m' = nthreads m"
  using assms
proof (induction rule: mapi_step.induct)
  case (madd d m i rm nm t now ctl r m')
  from madd(3) madd(1) have "with_poller (int i) (poller_add d t now rm nm ctl) m = Some (r, m')" by (simp add: mpoller_add_def)
  from with_poller_local [OF poller_add_local madd(1) this] madd(2) show ?case by (metis api_step.add of_nat_eq_iff views_stepI)
next
  case (mdel f m r m')
  then obtain x where "mpoller_index f m = Some x" "with_poller x (poller_del f) m = Some (r, m')" by (auto simp: mpoller_del_def bind_eq_Some_conv)
  from with_poller_local [OF poller_del_local this] show ?case by (metis api_step.del views_stepI)
next
  case (mmod d m i rm nm t now ctl r m')
  from mmod(3) mmod(1) have "with_poller (int i) (poller_mod d t now rm nm ctl) m = Some (r, m')" by (simp add: mpoller_mod_def)
  from with_poller_local [OF poller_mod_local mmod(1) this] mmod(2) show ?case by (metis api_step.mod of_nat_eq_iff views_stepI)
next
  case (mset_timeout f t now m r m')
  then obtain x where "mpoller_index f m = Some x" "with_poller x (poller_set_timeout f t now) m = Some (r, m')"
    by (auto simp: mpoller_set_timeout_def bind_eq_Some_conv)
  from with_poller_local [OF poller_set_timeout_local this] show ?case by (metis api_step.set_timeout views_stepI)
next
  case (madd_timer nm m val c now k r k' m')
  let ?op = "\<lambda>p. map_option (\<lambda>(r, a, p). ((r, a), p)) (poller_add_timer val c now nm p)"
  from madd_timer(2) obtain x q where "with_poller x ?op m = Some (q, m')"
    by (auto simp: mpoller_add_timer_def bind_eq_Some_conv Let_def split: if_splits)
  then obtain i where i: "?op (view i m) = Some (q, view i m')" "\<And>j. j \<noteq> i \<Longrightarrow> view j m' = view j m"
      "nthreads m' = nthreads m" "length (pollers m') = length (pollers m)"
    by (rule with_poller_inert [OF poller_add_timer_inert]) blast
  from i(1) obtain r' a where "poller_add_timer val c now nm (view i m) = Some (r', a, view i m')" by auto
  with madd_timer(1) have "api_step (view i m) (view i m')" by (rule api_step.add_timer)
  with i show ?case by (metis views_stepI)
next
  case (mdel_timer i m a r m')
  then have "with_poller (int i) (poller_del_timer a) m = Some (r, m')" by (simp add: mpoller_del_timer_def)
  from with_poller_inert [OF poller_del_timer_inert this] mdel_timer(1) show ?case by (metis api_step.del_timer of_nat_eq_iff views_stepI)
next
  case (mstart as l m m')
  have "nthreads m' = nthreads m" if "i = unat (nthreads m)" "m' = m\<lparr>pollers := ps\<rparr>" for i ps using that by simp
  with mstart mpoller_start_views show ?case
    by (auto simp: mpoller_start_def bind_eq_Some_conv split: if_splits prod.splits)
qed

lemma create_loop_complete:
  "mpoller_create_loop n rs = Some (ps, True) \<Longrightarrow> length ps = n \<and> (\<forall>p \<in> set ps. Some p \<in> set rs)"
  by (induction n rs arbitrary: ps rule: mpoller_create_loop.induct) (auto simp: bind_eq_Some_conv)

lemma poller_create_nodes: "poller_create a b c d e mf root l1 l2 h = Some (Some p) \<Longrightarrow> nodes p = (\<lambda>_. NULL)"
  by (auto simp: poller_create_def bind_eq_Some_conv split: if_splits)

text \<open>Every run is, for each poller, a run of that poller alone.\<close>

lemma mapi_run_views: "mapi_run m \<Longrightarrow> length (pollers m) = unat (nthreads m) \<and> (\<forall>i < length (pollers m). api_run (view i m))"
proof (induction rule: mapi_run.induct)
  case (mcreated n rs m ps)
  from mcreated(1) obtain qs where q: "mpoller_create_loop (unat (nthreads m)) rs = Some (qs, True)" "pollers m = qs" "nodes_buf m = (\<lambda>_. NULL)"
    by (auto simp: mpoller_create_def Let_def bind_eq_Some_conv split: if_splits)
  note l = create_loop_complete [OF q(1)]
  have "api_run (view i m)" if "i < length qs" for i
  proof -
    from l that have "Some (qs ! i) \<in> set rs" by simp
    from mcreated(2) [OF this] obtain epfd tfd ctl mf root l1 l2 h where
      c: "poller_create True True epfd tfd ctl mf root l1 l2 h = Some (Some (qs ! i))" by blast
    have "view i m = qs ! i" using poller_create_nodes [OF c] q(2,3) by (simp add: view_def nd_same cong: if_cong)
    with api_run.created [OF c] show ?thesis by simp
  qed
  with l q(2) show ?case by simp
next
  case (mstep m m')
  then have l: "length (pollers m) = unat (nthreads m)" "\<forall>i < length (pollers m). api_run (view i m)" by auto
  from mapi_step_views [OF mstep(2) l(1)] have
    v: "length (pollers m') = length (pollers m)" "nthreads m' = nthreads m"
      "\<forall>j < length (pollers m). view j m' = view j m \<or> api_step (view j m) (view j m')" by (auto simp: views_step_def)
  have "api_run (view j m')" if "j < length (pollers m)" for j
    using v(3) l(2) that api_run.step by metis
  with v l show ?case by simp
qed

subsection \<open>Properties\<close>

text \<open>The index is a position of the array for every descriptor, negative ones too.\<close>

lemma index_in_range:
  fixes k n :: "32 word"
  assumes "0 < k" "unat k < 2 ^ 31"
  shows "0 \<le> sint (n mod k) \<and> nat (sint (n mod k)) < unat k"
proof -
  have lt: "unat (n mod k) < unat k" using assms(1) by (metis mod_less_divisor unat_gt_0 unat_mod_distrib word_gt_0)
  then have "unat (n mod k) < 2 ^ 31" using assms(2) by (rule less_trans)
  then have "int (unat (n mod k)) < 2 ^ 31" by (metis of_nat_less_iff of_nat_numeral of_nat_power)
  moreover have "- (2 ^ 31) \<le> int (unat (n mod k))" by (rule order_trans [of _ 0]) simp_all
  ultimately have "signed_take_bit 31 (int (unat (n mod k))) = int (unat (n mod k))" by (intro signed_take_bit_int_eq_self)
  moreover have "LENGTH(32) - Suc 0 = 31" by simp
  ultimately have "sint (n mod k) = int (unat (n mod k))" by (simp only: sint_uint uint_nat)
  with lt show ?thesis by simp
qed

text \<open>Two pollers, and the state after a descriptor was added, for the witnesses.\<close>

definition sample_mpoller :: mpoller where
  "sample_mpoller = \<lparr>nodes_buf = (\<lambda>_. NULL), nthreads = 2, pollers = [sample_poller, sample_poller]\<rparr>"

lemma sample_mapi_run: "mapi_run sample_mpoller"
proof (rule mcreated)
  have "mpoller_create_loop 2 [Some sample_poller, Some sample_poller] = Some ([sample_poller, sample_poller], True)"
    by (simp add: numeral_2_eq_2)
  then show "mpoller_create True True 2 [Some sample_poller, Some sample_poller] = Some (Some sample_mpoller, [])"
    by (simp add: mpoller_create_def Let_def sample_mpoller_def)
  fix p
  assume "Some p \<in> set [Some sample_poller, Some sample_poller]"
  then have "p = sample_poller" by simp
  with sample_poller_created show "\<exists>epfd tfd ctl maxfiles root l1 l2 h. poller_create True True epfd tfd ctl maxfiles root l1 l2 h = Some (Some p)"
    by blast
qed

lemma sample_index: "mpoller_index 5 sample_mpoller = Some (int 1)"
  by (simp add: mpoller_index_def sample_mpoller_def)

lemma sample_view: "view 1 sample_mpoller = sample_poller"
  by (simp add: view_def sample_mpoller_def nd_def sample_poller_def cong: if_cong)

lemma sample_mpoller_add: "\<exists>m. mapi_run m \<and> nodes_buf m 5 = 20 \<and> mpoller_index 5 m = Some (int 1) \<and> length (pollers m) = 2"
proof -
  obtain p where p: "poller_add sample_data (-1) (Timespec 0 0) 0 20 0 sample_poller = Some (0, p)" "nodes p 5 = 20" using sample_add by blast
  define m where "m = sample_mpoller\<lparr>nodes_buf := nodes p, pollers := [sample_poller, p]\<rparr>"
  have d: "fd sample_data = 5" by (simp add: sample_data_def)
  have "sample_poller\<lparr>nodes := (\<lambda>_. NULL)\<rparr> = sample_poller" by (simp add: sample_poller_def)
  with p(1) have "mpoller_add sample_data (-1) (Timespec 0 0) 0 20 0 sample_mpoller = Some (0, m)"
    using sample_index d by (simp add: mpoller_add_def with_poller_def m_def sample_mpoller_def)
  moreover have "fresh_mem 0 20 (view 1 sample_mpoller)" unfolding sample_view by (simp add: fresh_mem_def sample_poller_def)
  ultimately have "mapi_step sample_mpoller m" using sample_index d by (metis madd)
  with sample_mapi_run have "mapi_run m" by (rule mstep)
  moreover have "nodes_buf m 5 = 20" "mpoller_index 5 m = Some (int 1)" "length (pollers m) = 2" using p(2) sample_index by (simp_all add: m_def)
  ultimately show ?thesis by blast
qed

text \<open>
  C13: in every state that calls of the \<open>mpoller\<close> interface lead to, each poller, with the part
  of the shared table that belongs to its descriptors, is in a state that calls of the
  poller interface on a table of its own lead to: sharing the table does not let the
  pollers interfere.
\<close>

theorem mpoller_refines_pollers:
  assumes "mapi_run m" "i < unat (nthreads m)"
  shows "length (pollers m) = unat (nthreads m) \<and> api_run (view i m)"
  using mapi_run_views [OF assms(1)] assms(2) by simp

theorem mpoller_refines_pollers_witness: "\<exists>m. mapi_run m \<and> nodes_buf m 5 = 20 \<and> api_run (view 1 m)"
proof -
  from sample_mpoller_add obtain m where m: "mapi_run m" "nodes_buf m 5 = 20" "length (pollers m) = 2" by blast
  then have "1 < unat (nthreads m)" using mapi_run_views [OF m(1)] by simp
  from mpoller_refines_pollers [OF m(1) this] m show ?thesis by blast
qed

text \<open>
  C14: in every such state a descriptor with an entry in the shared table is registered with
  the poller at \<open>(unsigned int)fd % nthreads\<close>, for exactly that live node, and with no other
  poller; a descriptor without an entry is registered with none.
\<close>

theorem mpoller_registers_once:
  assumes "mapi_run m" "mpoller_index f m = Some (int i)" "i < length (pollers m)"
  shows "if nodes_buf m f = NULL then \<forall>p \<in> set (pollers m). epoll p f = None
    else (\<exists>n. entries (pollers m ! i) (nodes_buf m f) = Some n \<and> fd (pdata n) = f \<and> \<not> removed n \<and>
        epoll (pollers m ! i) f = Some (pevent n, nodes_buf m f)) \<and>
      (\<forall>j < length (pollers m). j \<noteq> i \<longrightarrow> epoll (pollers m ! j) f = None)"
proof -
  have t: "tbl_ok (max_open_files (view j m)) (nodes (view j m)) (epoll (view j m)) (cores (view j m))" if "j < length (pollers m)" for j
    using api_run_table mapi_run_views [OF assms(1)] that by (simp add: table_ok_def)
  have none: "epoll (pollers m ! j) f = None" if "j < length (pollers m)" "j \<noteq> i \<or> nodes_buf m f = NULL" for j
    using tbl_okD(2) [OF t [OF that(1)], of f] that(2) assms(2) by (auto simp: view_def)
  show ?thesis
  proof (cases "nodes_buf m f = NULL")
    case True
    then show ?thesis using none by (auto simp: in_set_conv_nth)
  next
    case False
    from tbl_okD(1) [OF t [OF assms(3)], of f] False assms(2) obtain d ev r where
      "cores (view i m) (nodes_buf m f) = Some (d, False, ev, r)" "fd d = f" "epoll (pollers m ! i) f = Some (ev, nodes_buf m f)"
      by (auto simp: view_def)
    then have "\<exists>n. entries (pollers m ! i) (nodes_buf m f) = Some n \<and> fd (pdata n) = f \<and> \<not> removed n \<and>
        epoll (pollers m ! i) f = Some (pevent n, nodes_buf m f)" by (auto simp: cores_def core_def view_def)
    with False none show ?thesis by auto
  qed
qed

theorem mpoller_registers_once_witness:
  "\<exists>m n. mapi_run m \<and> entries (pollers m ! 1) 20 = Some n \<and> epoll (pollers m ! 1) 5 = Some (pevent n, 20) \<and> epoll (pollers m ! 0) 5 = None"
proof -
  from sample_mpoller_add obtain m where m: "mapi_run m" "nodes_buf m 5 = 20" "mpoller_index 5 m = Some (int 1)" "length (pollers m) = 2" by blast
  from mpoller_registers_once [OF m(1,3)] m show ?thesis by auto
qed

text \<open>
  For every descriptor, negative ones too, and every value of the timer counter, the
  index is a position of the array, if the number of threads is positive and fits an \<open>int\<close>;
  a number of threads that is a multiple of 2^32 is stored as 0 and makes every call a
  division by zero.
\<close>

theorem mpoller_index_bounds:
  "(0 < nthreads m \<and> unat (nthreads m) < 2 ^ 31 \<longrightarrow> (\<exists>i < unat (nthreads m). mpoller_index f m = Some (int i))) \<and>
   mpoller_create True True (2 ^ 32) rs = Some (Some \<lparr>nodes_buf = (\<lambda>_. NULL), nthreads = 0, pollers = []\<rparr>, []) \<and>
   mpoller_index f \<lparr>nodes_buf = (\<lambda>_. NULL), nthreads = 0, pollers = []\<rparr> = None"
proof -
  have "\<exists>i < unat (nthreads m). mpoller_index f m = Some (int i)" if "0 < nthreads m" "unat (nthreads m) < 2 ^ 31"
    using index_in_range [OF that, of "of_int f"] that(1)
    by (intro exI [of _ "nat (sint (of_int f mod nthreads m))"]) (simp add: mpoller_index_def word_gt_0)
  moreover have "(ucast (2 ^ 32 :: 64 word) :: 32 word) = 0" "(2 ^ 32 :: 64 word) \<noteq> 0" by simp_all
  ultimately show ?thesis by (simp add: mpoller_create_def mpoller_index_def Let_def)
qed

theorem mpoller_index_bounds_witness: "\<exists>i < 2. mpoller_index (-7) sample_mpoller = Some (int i)"
  using mpoller_index_bounds [of sample_mpoller "-7"] by (simp add: sample_mpoller_def)

end
