(* ===== verification/Poller_Map.thy ===== *)
theory Poller_Map
  imports Mpoller
begin

section \<open>The pollers as a map from descriptors to jobs\<close>

text \<open>
  What the users of \<open>mpoller.h\<close> see of it: a map from descriptors to the data they were
  registered with. Each call of the interface, on every branch, does to that map what its
  specification says; the timers, the nodes and their memory do not show.
\<close>

subsection \<open>One poller\<close>

definition jobs :: "poller \<Rightarrow> int \<Rightarrow> poller_data option" where
  "jobs p f = (if nodes p f = NULL then None else map_option pdata (entries p (nodes p f)))"

lemma jobs_cores: "jobs p f = (if nodes p f = NULL then None else map_option fst (cores p (nodes p f)))"
  by (simp add: jobs_def cores_def core_def option.map_comp comp_def)

lemma jobs_cong: "nodes p' = nodes p \<Longrightarrow> (\<And>f. nodes p f \<noteq> NULL \<Longrightarrow> cores p' (nodes p f) = cores p (nodes p f)) \<Longrightarrow> jobs p' = jobs p"
  by (auto simp: jobs_cores fun_eq_iff)

lemma jobs_None: "table_ok p \<Longrightarrow> jobs p f = None \<longleftrightarrow> nodes p f = NULL"
  using tbl_okD(1) [of "max_open_files p" "nodes p" "epoll p" "cores p" f] by (auto simp: table_ok_def jobs_cores)

lemma jobs_bad: "table_ok p \<Longrightarrow> bad_fd f p \<Longrightarrow> jobs p f = None"
  using tbl_okD(1) [of "max_open_files p" "nodes p" "epoll p" "cores p" f]
  by (cases "nodes p f = NULL") (auto simp: table_ok_def bad_fd_def jobs_cores)

text \<open>Giving a node and its result node back changes these two only.\<close>

lemma discard_cores:
  assumes "discard_node a p = Some p'" "cores p a = Some (d, b, ev, r)"
  shows "nodes p' = nodes p" "z \<noteq> a \<Longrightarrow> z \<noteq> r \<Longrightarrow> cores p' z = cores p z"
  using assms by (auto simp: discard_node_def free_res_def bind_eq_Some_conv cores_entries core_def split: if_splits)

lemma call_if_stopped_cores:
  assumes "call_if_stopped a p = Some p'" "cores p a = Some (d, b, ev, r)"
  shows "nodes p' = nodes p" "z \<noteq> a \<Longrightarrow> z \<noteq> r \<Longrightarrow> cores p' z = cores p z"
  using assms by (auto simp: call_if_stopped_def callback_def free_res_def bind_eq_Some_conv cores_entries core_def split: if_splits option.splits)

lemma hand_over_cores:
  assumes "hand_over a st p = Some p'"
  shows "nodes p' = nodes p" "z \<noteq> a \<Longrightarrow> cores p' z = cores p z" "cores p a = Some (d, b, ev, r) \<Longrightarrow> \<exists>b'. cores p' a = Some (d, b', ev, r)"
  using assms by (auto simp: hand_over_def bind_eq_Some_conv upd_node_def cores_def core_def split: if_splits option.splits)

text \<open>Whether a call gets its node: the descriptor, the operation and the memory.\<close>

definition gets_node :: "poller_data \<Rightarrow> addr \<Rightarrow> addr \<Rightarrow> poller \<Rightarrow> bool" where
  "gets_node d rm nm p \<longleftrightarrow> \<not> bad_fd (fd d) p \<and> fst (poller_data_get_event d) \<ge> 0 \<and> (fst (poller_data_get_event d) \<noteq> 0 \<longrightarrow> rm \<noteq> NULL) \<and> nm \<noteq> NULL"

lemma new_node_cores:
  assumes "table_ok p" "fresh_mem rm nm p" "poller_new_node d timeout now rm nm p = (a, p1)"
  shows "nodes p1 = nodes p" "nodes p f \<noteq> NULL \<Longrightarrow> cores p1 (nodes p f) = cores p (nodes p f)" "a \<noteq> NULL \<longleftrightarrow> gets_node d rm nm p"
    "a \<noteq> NULL \<Longrightarrow> cores p a = None \<and> (\<exists>ev r. cores p1 a = Some (d, False, ev, r) \<and> (\<forall>g. nodes p g \<noteq> NULL \<longrightarrow> nodes p g \<noteq> a \<and> nodes p g \<noteq> r))"
proof -
  obtain need ev where ev: "poller_data_get_event d = (need, ev)" by (cases "poller_data_get_event d")
  have fr: "cores p rm = None" "cores p nm = None" using assms(2) by (simp_all add: fresh_mem_def cores_def)
  have n: "nodes p g \<noteq> NULL \<Longrightarrow> nodes p g \<noteq> rm \<and> nodes p g \<noteq> nm" for g
    using tbl_okD(1) [OF assms(1) [unfolded table_ok_def], of g] fr by force
  show "nodes p1 = nodes p" using assms(3) ev by (auto simp: poller_new_node_def Let_def split: if_splits)
  show "nodes p f \<noteq> NULL \<Longrightarrow> cores p1 (nodes p f) = cores p (nodes p f)"
    using n [of f] assms(3) ev by (auto simp: poller_new_node_def Let_def split: if_splits)
  show "a \<noteq> NULL \<longleftrightarrow> gets_node d rm nm p"
    using assms(3) ev by (auto simp: gets_node_def poller_new_node_def Let_def split: if_splits)
  show "cores p a = None \<and> (\<exists>ev r. cores p1 a = Some (d, False, ev, r) \<and> (\<forall>g. nodes p g \<noteq> NULL \<longrightarrow> nodes p g \<noteq> a \<and> nodes p g \<noteq> r))" if "a \<noteq> NULL"
    using that n fr assms(3) ev by (auto simp: poller_new_node_def Let_def core_def blank_node_def split: if_splits)
qed

lemma outside_others: "outside (N(f := NULL)) C z \<Longrightarrow> g \<noteq> f \<Longrightarrow> N g \<noteq> NULL \<Longrightarrow> N g \<noteq> z"
  unfolding outside_def by (metis fun_upd_apply)

lemma poller_del_jobs:
  assumes "table_ok p" "poller_del f p = Some (r, p')"
  shows "(r, jobs p') = (if jobs p f \<noteq> None then (0, (jobs p)(f := None)) else (-1, jobs p))"
proof (cases "bad_fd f p \<or> nodes p f = NULL")
  case True
  then have "jobs p f = None" using jobs_bad [OF assms(1)] jobs_None [OF assms(1)] by blast
  moreover have "r = -1 \<and> nodes p' = nodes p \<and> cores p' = cores p" using True assms(2) by (auto simp: poller_del_def split: if_splits)
  ultimately show ?thesis using jobs_cong [of p' p] by auto
next
  case False
  let ?a = "nodes p f"
  from False assms(2) obtain p1 p2 where r: "r = 0" and
    1: "poller_unlink ?a (p\<lparr>nodes := (nodes p)(f := NULL)\<rparr>) = Some p1"
    "hand_over ?a PR_ST_DELETED (poller_delete_fd f p1) = Some p2" "call_if_stopped ?a p2 = Some p'"
    by (auto simp: poller_del_def Let_def bind_eq_Some_conv)
  from same_table_unlink [OF 1(1)] have s: "cores (poller_delete_fd f p1) = cores p" "nodes (poller_delete_fd f p1) = (nodes p)(f := NULL)"
    by (auto simp: same_table_def poller_delete_fd_def cores_def)
  note t = assms(1) [unfolded table_ok_def]
  from tbl_okD(1) [OF t, of f] False obtain d ev x where c: "cores p ?a = Some (d, False, ev, x)" by blast
  from tbl_take [OF t refl _ c] False have out: "outside ((nodes p)(f := NULL)) (cores p) ?a" "outside ((nodes p)(f := NULL)) (cores p) x" by blast+
  from hand_over_cores(3) [OF 1(2), unfolded s, OF c] obtain b' where c2: "cores p2 ?a = Some (d, b', ev, x)" by blast
  have N: "nodes p' = (nodes p)(f := NULL)" using call_if_stopped_cores(1) [OF 1(3) c2] hand_over_cores(1) [OF 1(2)] s by simp
  have "cores p' (nodes p g) = cores p (nodes p g)" if "g \<noteq> f" "nodes p g \<noteq> NULL" for g
  proof -
    note ne = outside_others [OF out(1) that] outside_others [OF out(2) that]
    then show ?thesis using call_if_stopped_cores(2) [OF 1(3) c2 ne] hand_over_cores(2) [OF 1(2) ne(1)] s by simp
  qed
  then have "jobs p' = (jobs p)(f := None)" using N by (auto simp: jobs_cores fun_eq_iff)
  moreover have "jobs p f \<noteq> None" using jobs_None [OF assms(1)] False by simp
  ultimately show ?thesis using r by simp
qed

text \<open>A call that fails after it got its node gives the node back.\<close>

lemma discard_jobs:
  assumes "table_ok p" "fresh_mem rm nm p" "poller_new_node d timeout now rm nm p = (a, p1)" "a \<noteq> NULL"
    "discard_node a p1 = Some p' \<or> (\<exists>e. discard_node a (p1\<lparr>errno := e\<rparr>) = Some p')"
  shows "jobs p' = jobs p"
proof -
  note k = new_node_cores [OF assms(1-3)]
  from k(4) [OF assms(4)] obtain ev r where c: "cores p1 a = Some (d, False, ev, r)" "\<And>g. nodes p g \<noteq> NULL \<Longrightarrow> nodes p g \<noteq> a \<and> nodes p g \<noteq> r" by blast
  from assms(5) show ?thesis
  proof
    assume "discard_node a p1 = Some p'"
    from discard_cores [OF this c(1)] show ?thesis using k(1,2) c(2) by (intro jobs_cong) auto
  next
    assume "\<exists>e. discard_node a (p1\<lparr>errno := e\<rparr>) = Some p'"
    then obtain e where "discard_node a (p1\<lparr>errno := e\<rparr>) = Some p'" ..
    from discard_cores [OF this, of d False ev r] c(1) show ?thesis using k(1,2) c(2) by (intro jobs_cong) auto
  qed
qed

lemma jobs_put:
  assumes "nodes q = (nodes p)(f := a)" "a \<noteq> NULL" "cores q a = Some (d, x)" "\<And>g. g \<noteq> f \<Longrightarrow> nodes p g \<noteq> NULL \<Longrightarrow> cores q (nodes p g) = cores p (nodes p g)"
  shows "jobs q = (jobs p)(f \<mapsto> d)"
  using assms by (auto simp: jobs_cores fun_eq_iff)

lemma poller_add_jobs:
  assumes "table_ok p" "fresh_mem rm nm p" "poller_add d timeout now rm nm ctl p = Some (r, p')"
  shows "(r, jobs p') = (if gets_node d rm nm p \<and> ctl \<ge> 0 \<and> jobs p (fd d) = None then (0, (jobs p)(fd d \<mapsto> d)) else (-1, jobs p))"
proof -
  obtain a p1 where n: "poller_new_node d timeout now rm nm p = (a, p1)" by (cases "poller_new_node d timeout now rm nm p")
  note k = new_node_cores [OF assms(1,2) n]
  consider "a = NULL" | "a \<noteq> NULL" "nodes p (fd d) = NULL" "ctl \<ge> 0" | "a \<noteq> NULL" "\<not> (nodes p (fd d) = NULL \<and> ctl \<ge> 0)" by auto
  then show ?thesis
  proof cases
    case 1
    with assms(3) n have "r = -1 \<and> p' = p1" by (auto simp: poller_add_def)
    then show ?thesis using 1 k jobs_cong [of p1 p] by simp
  next
    case 2
    from k(4) [OF 2(1)] obtain ev rs where c: "cores p1 a = Some (d, False, ev, rs)" by blast
    from assms(3) n 2 k(1) obtain n1 :: poller_node and p2 where "r = 0" and
      p2: "poller_place timeout a (p1\<lparr>epoll := (epoll p1)(fd d \<mapsto> (pevent n1, a))\<rparr>) = Some p2" "p' = p2\<lparr>nodes := (nodes p2)(fd d := a)\<rparr>"
      by (auto simp: poller_add_def Let_def bind_eq_Some_conv)
    from same_table_place [OF p2(1)] have "cores p' = cores p1" "nodes p' = (nodes p)(fd d := a)"
      by (simp_all add: p2(2) k(1) same_table_def cores_def)
    then have "jobs p' = (jobs p)(fd d \<mapsto> d)" using jobs_put [of p' p "fd d" a d] 2(1) c k(2) by auto
    then show ?thesis using 2 \<open>r = 0\<close> k(3) jobs_None [OF assms(1)] by simp
  next
    case 3
    from 3 assms(3) n k(1) have d: "r = -1" "discard_node a p1 = Some p' \<or> (\<exists>e. discard_node a (p1\<lparr>errno := e\<rparr>) = Some p')"
      by (auto simp: poller_add_def bind_eq_Some_conv split: if_splits)
    from discard_jobs [OF assms(1,2) n 3(1) d(2)] d(1) 3(2) jobs_None [OF assms(1), of "fd d"] show ?thesis by auto
  qed
qed

lemma poller_mod_jobs:
  assumes "table_ok p" "fresh_mem rm nm p" "poller_mod d timeout now rm nm ctl p = Some (r, p')"
  shows "(r, jobs p') = (if gets_node d rm nm p \<and> ctl \<ge> 0 \<and> jobs p (fd d) \<noteq> None then (0, (jobs p)(fd d \<mapsto> d)) else (-1, jobs p))"
proof -
  obtain a p1 where n: "poller_new_node d timeout now rm nm p = (a, p1)" by (cases "poller_new_node d timeout now rm nm p")
  note k = new_node_cores [OF assms(1,2) n]
  let ?o = "nodes p (fd d)"
  consider "a = NULL" | "a \<noteq> NULL" "?o \<noteq> NULL" "ctl \<ge> 0" | "a \<noteq> NULL" "\<not> (?o \<noteq> NULL \<and> ctl \<ge> 0)" by auto
  then show ?thesis
  proof cases
    case 1
    with assms(3) n have "r = -1 \<and> p' = p1" by (auto simp: poller_mod_def)
    then show ?thesis using 1 k jobs_cong [of p1 p] by simp
  next
    case 2
    note a = 2(1) and o = 2(2) and ctl = 2(3)
    from k(4) [OF 2(1)] obtain ev rs where c: "cores p1 a = Some (d, False, ev, rs)"
      and ne: "\<And>g. nodes p g \<noteq> NULL \<Longrightarrow> nodes p g \<noteq> a \<and> nodes p g \<noteq> rs" by blast
    note t = assms(1) [unfolded table_ok_def]
    from tbl_okD(1) [OF t 2(2)] obtain od oev ors where oc: "cores p ?o = Some (od, False, oev, ors)" by blast
    note out = tbl_take [OF t refl 2(2) oc]
    have oc1: "cores p1 ?o = Some (od, False, oev, ors)" using k(2) [OF 2(2)] oc by simp
    from assms(3) n 2 k(1) obtain n1 :: poller_node and p2 p3 p4 where "r = 0" and
      2: "poller_unlink ?o (p1\<lparr>epoll := (epoll p1)(fd d \<mapsto> (pevent n1, a))\<rparr>) = Some p2" "hand_over ?o PR_ST_MODIFIED p2 = Some p3"
        "poller_place timeout a p3 = Some p4" "call_if_stopped ?o (p4\<lparr>nodes := (nodes p4)(fd d := a)\<rparr>) = Some p'"
      using 2 by (auto simp: poller_mod_def Let_def bind_eq_Some_conv)
    have p2: "cores p2 = cores p1" "nodes p2 = nodes p" using same_table_unlink [OF 2(1)] k(1) by (auto simp: same_table_def cores_def)
    have p4: "cores p4 = cores p3" "nodes p4 = nodes p3" using same_table_place [OF 2(3)] by (auto simp: same_table_def cores_def)
    from hand_over_cores(3) [OF 2(2), of od False oev ors] oc1 p2 obtain b' where "cores p3 ?o = Some (od, b', oev, ors)" by auto
    then have c4: "cores (p4\<lparr>nodes := (nodes p4)(fd d := a)\<rparr>) ?o = Some (od, b', oev, ors)" by (simp add: p4)
    note h = hand_over_cores(1,2) [OF 2(2)] and s = call_if_stopped_cores [OF 2(4) c4]
    have z: "cores p' z = cores p1 z" if "z \<noteq> ?o" "z \<noteq> ors" for z using h(2) s(2) that by (simp add: p4 p2)
    have N: "nodes p' = (nodes p)(fd d := a)" using s(1) h(1) by (simp add: p4 p2)
    have "owns (nodes p) (cores p) (fd d) ?o ors" using oc o by (auto simp: owns_def)
    with tbl_okD(3) [OF t this] have "a \<noteq> ors" using k(4) a by metis
    then have "cores p' a = Some (d, False, ev, rs)" using z [of a] ne [OF o] c by simp
    moreover have "cores p' (nodes p g) = cores p (nodes p g)" if "g \<noteq> fd d" "nodes p g \<noteq> NULL" for g
      using z [OF outside_others [OF out(1) that] outside_others [OF out(2) that]] k(2) that by simp
    ultimately have "jobs p' = (jobs p)(fd d \<mapsto> d)" using jobs_put [OF N a] by blast
    then show ?thesis using \<open>r = 0\<close> ctl a o k(3) jobs_None [OF assms(1)] by simp
  next
    case 3
    from 3 assms(3) n k(1) have d: "r = -1" "discard_node a p1 = Some p' \<or> (\<exists>e. discard_node a (p1\<lparr>errno := e\<rparr>) = Some p')"
      by (auto simp: poller_mod_def bind_eq_Some_conv split: if_splits)
    from discard_jobs [OF assms(1,2) n 3(1) d(2)] d(1) 3(2) jobs_None [OF assms(1), of "fd d"] show ?thesis by auto
  qed
qed

lemma poller_set_timeout_jobs:
  assumes "table_ok p" "poller_set_timeout f timeout now p = Some (r, p')"
  shows "(r, jobs p') = (if jobs p f \<noteq> None then 0 else -1, jobs p)"
proof (cases "bad_fd f p \<or> nodes p f = NULL")
  case True
  then have "jobs p f = None" using jobs_bad [OF assms(1)] jobs_None [OF assms(1)] by blast
  moreover have "r = -1 \<and> nodes p' = nodes p \<and> cores p' = cores p" using True assms(2) by (auto simp: poller_set_timeout_def split: if_splits)
  ultimately show ?thesis using jobs_cong [of p' p] by auto
next
  case False
  let ?a = "nodes p f" and ?g = "\<lambda>n. n\<lparr>ptimeout := poller_node_set_timeout now timeout\<rparr>"
  from False assms(2) obtain p1 p2 where r: "r = 0" and 1: "poller_unlink ?a p = Some p1"
    and 2: "(if timeout \<ge> 0 then upd_node ?a ?g p1 else Some p1) = Some p2" and 3: "poller_place timeout ?a p2 = Some p'"
    by (auto simp: poller_set_timeout_def Let_def bind_eq_Some_conv)
  have "same_table p1 p2" using 2 same_table_upd_node [of ?a ?g p1 p2] by (auto split: if_splits)
  with same_table_unlink [OF 1] same_table_place [OF 3] have "same_table p p'" by (blast intro: same_table_trans)
  then have "jobs p' = jobs p" by (intro jobs_cong) (simp_all add: same_table_def cores_def)
  then show ?thesis using r False jobs_None [OF assms(1)] by simp
qed

subsection \<open>All of them\<close>

text \<open>The map that the mpoller implements: a descriptor's job is that in the table of its poller.\<close>

definition jobs_of :: "mpoller \<Rightarrow> int \<Rightarrow> poller_data option" where
  "jobs_of m f = (case mpoller_index f m of None \<Rightarrow> None | Some i \<Rightarrow> if i < 0 then None else jobs (view (nat i) m) f)"

lemma jobs_of_index: "mpoller_index f m = Some (int i) \<Longrightarrow> jobs_of m f = jobs (view i m) f"
  by (simp add: jobs_of_def)

text \<open>The calls of the interface, and what the system and the clock answer.\<close>

datatype job_call = Jadd poller_data | Jmod poller_data | Jdel int | Jset int

fun call_fd :: "job_call \<Rightarrow> int" where
  "call_fd (Jadd d) = fd d"
| "call_fd (Jmod d) = fd d"
| "call_fd (Jdel f) = f"
| "call_fd (Jset f) = f"

record job_answers =
  j_timeout :: int
  j_now :: timespec
  j_res :: addr
  j_node :: addr
  j_ctl :: int

fun do_call :: "job_call \<Rightarrow> job_answers \<Rightarrow> mpoller \<Rightarrow> (int \<times> mpoller) option" where
  "do_call (Jadd d) x = mpoller_add d (j_timeout x) (j_now x) (j_res x) (j_node x) (j_ctl x)"
| "do_call (Jmod d) x = mpoller_mod d (j_timeout x) (j_now x) (j_res x) (j_node x) (j_ctl x)"
| "do_call (Jdel f) x = mpoller_del f"
| "do_call (Jset f) x = mpoller_set_timeout f (j_timeout x) (j_now x)"

text \<open>
  The specification: an operation on the map, and the result. \<open>granted\<close> says that the
  descriptor is in range, the operation known, and memory and \<open>epoll_ctl\<close> are given.
\<close>

fun job_spec :: "job_call \<Rightarrow> bool \<Rightarrow> (int \<Rightarrow> poller_data option) \<Rightarrow> int \<times> (int \<Rightarrow> poller_data option)" where
  "job_spec (Jadd d) granted M = (if granted \<and> M (fd d) = None then (0, M(fd d \<mapsto> d)) else (-1, M))"
| "job_spec (Jmod d) granted M = (if granted \<and> M (fd d) \<noteq> None then (0, M(fd d \<mapsto> d)) else (-1, M))"
| "job_spec (Jdel f) granted M = (if M f \<noteq> None then (0, M(f := None)) else (-1, M))"
| "job_spec (Jset f) granted M = (if M f \<noteq> None then 0 else -1, M)"

fun granted :: "job_call \<Rightarrow> job_answers \<Rightarrow> mpoller \<Rightarrow> bool" where
  "granted (Jadd d) x m = (gets_node d (j_res x) (j_node x) (view (nat (the (mpoller_index (fd d) m))) m) \<and> j_ctl x \<ge> 0)"
| "granted (Jmod d) x m = (gets_node d (j_res x) (j_node x) (view (nat (the (mpoller_index (fd d) m))) m) \<and> j_ctl x \<ge> 0)"
| "granted (Jdel f) x m = True"
| "granted (Jset f) x m = True"

text \<open>A call that works on one poller's view of one descriptor works on the map.\<close>

lemma with_poller_jobs:
  assumes "local_op f op" "mpoller_index f m = Some x" "with_poller x op m = Some (r, m')"
    "\<And>i. x = int i \<Longrightarrow> i < length (pollers m) \<Longrightarrow> op (view i m) = Some (r, view i m') \<Longrightarrow> (r, jobs (view i m')) = spec (jobs (view i m))"
    "\<And>M N. M f = N f \<Longrightarrow> fst (spec M) = fst (spec N) \<and> snd (spec M) f = snd (spec N) f" "\<And>M g. g \<noteq> f \<Longrightarrow> snd (spec M) g = M g"
  shows "(r, jobs_of m') = spec (jobs_of m)"
proof -
  from with_poller_local [OF assms(1-3)] obtain i where i: "x = int i" "i < length (pollers m)" "op (view i m) = Some (r, view i m')"
    "\<And>j. j \<noteq> i \<Longrightarrow> view j m' = view j m" "nthreads m' = nthreads m" by blast
  have ix: "mpoller_index g m' = mpoller_index g m" for g using i(5) by (simp add: mpoller_index_def)
  have s: "spec (jobs (view i m)) = (r, jobs (view i m'))" using assms(4) [OF i(1-3)] by simp
  have f: "jobs_of m f = jobs (view i m) f" using assms(2) i(1) by (simp add: jobs_of_def)
  note same = assms(5) [of "jobs_of m" "jobs (view i m)", OF f]
  have "r = fst (spec (jobs_of m))" using same s by simp
  moreover have "jobs_of m' g = snd (spec (jobs_of m)) g" for g
  proof (cases "g = f")
    case True
    then show ?thesis using assms(2) i(1) same s by (simp add: jobs_of_def ix)
  next
    case False
    have "jobs_of m' g = jobs_of m g"
    proof (cases "mpoller_index g m = Some x")
      case True
      then show ?thesis using i(1) s assms(6) [OF False, of "jobs (view i m)"] by (simp add: jobs_of_def ix)
    next
      case o: False
      then show ?thesis using i(1,4) by (auto simp: jobs_of_def ix split: option.splits)
    qed
    then show ?thesis using assms(6) [OF False] by simp
  qed
  ultimately show ?thesis by (metis ext prod.collapse)
qed

lemma do_call_jobs:
  assumes "mapi_run m" "\<forall>p \<in> set (pollers m). fresh_mem (j_res x) (j_node x) p" "do_call k x m = Some (r, m')"
  shows "(r, jobs_of m') = job_spec k (granted k x m) (jobs_of m)"
proof -
  have t: "i < length (pollers m) \<Longrightarrow> table_ok (view i m)" for i
    using mapi_run_views [OF assms(1)] api_run_table by blast
  have fr: "i < length (pollers m) \<Longrightarrow> fresh_mem (j_res x) (j_node x) (view i m)" for i
    using assms(2) by (auto simp: fresh_mem_def view_def all_set_conv_all_nth)
  show ?thesis
  proof (cases k)
    case (Jadd d)
    then obtain y where y: "mpoller_index (fd d) m = Some y"
      "with_poller y (poller_add d (j_timeout x) (j_now x) (j_res x) (j_node x) (j_ctl x)) m = Some (r, m')"
      using assms(3) by (auto simp: mpoller_add_def bind_eq_Some_conv)
    show ?thesis
      by (rule with_poller_jobs [OF poller_add_local y]) (use Jadd y(1) poller_add_jobs [OF t fr] in auto)
  next
    case (Jmod d)
    then obtain y where y: "mpoller_index (fd d) m = Some y"
      "with_poller y (poller_mod d (j_timeout x) (j_now x) (j_res x) (j_node x) (j_ctl x)) m = Some (r, m')"
      using assms(3) by (auto simp: mpoller_mod_def bind_eq_Some_conv)
    show ?thesis
      by (rule with_poller_jobs [OF poller_mod_local y]) (use Jmod y(1) poller_mod_jobs [OF t fr] in auto)
  next
    case (Jdel f)
    then obtain y where y: "mpoller_index f m = Some y" "with_poller y (poller_del f) m = Some (r, m')"
      using assms(3) by (auto simp: mpoller_del_def bind_eq_Some_conv)
    show ?thesis
      by (rule with_poller_jobs [OF poller_del_local y]) (use Jdel poller_del_jobs [OF t] in auto)
  next
    case (Jset f)
    then obtain y where y: "mpoller_index f m = Some y" "with_poller y (poller_set_timeout f (j_timeout x) (j_now x)) m = Some (r, m')"
      using assms(3) by (auto simp: mpoller_set_timeout_def bind_eq_Some_conv)
    show ?thesis
      by (rule with_poller_jobs [OF poller_set_timeout_local y]) (use Jset poller_set_timeout_jobs [OF t] in auto)
  qed
qed

text \<open>Every call is a step of the interface's runs.\<close>

lemma do_call_step:
  assumes "do_call j x m = Some (r, m')" "\<forall>p \<in> set (pollers m). fresh_mem (j_res x) (j_node x) p"
  shows "mapi_step m m'"
proof -
  have f: "fresh_mem (j_res x) (j_node x) (view i m)" if "i < length (pollers m)" for i
    using that assms(2) by (auto simp: fresh_mem_def view_def all_set_conv_all_nth)
  have w: "\<exists>i. y = int i \<and> i < length (pollers m)" if "with_poller y op m = Some z" for y z and op :: "poller \<Rightarrow> (int \<times> poller) option"
    using that by (auto simp: with_poller_def split: if_splits intro!: exI [of _ "nat y"])
  show ?thesis
  proof (cases j)
    case (Jadd d)
    with assms(1) obtain y where y: "mpoller_index (fd d) m = Some y"
        "with_poller y (poller_add d (j_timeout x) (j_now x) (j_res x) (j_node x) (j_ctl x)) m = Some (r, m')"
      by (auto simp: mpoller_add_def bind_eq_Some_conv)
    from w [OF y(2)] obtain i where "y = int i" "i < length (pollers m)" by blast
    then show ?thesis using madd [of d m i, OF _ f] y(1) assms(1) Jadd by simp
  next
    case (Jmod d)
    with assms(1) obtain y where y: "mpoller_index (fd d) m = Some y"
        "with_poller y (poller_mod d (j_timeout x) (j_now x) (j_res x) (j_node x) (j_ctl x)) m = Some (r, m')"
      by (auto simp: mpoller_mod_def bind_eq_Some_conv)
    from w [OF y(2)] obtain i where "y = int i" "i < length (pollers m)" by blast
    then show ?thesis using mmod [of d m i, OF _ f] y(1) assms(1) Jmod by simp
  qed (use assms(1) mdel mset_timeout in auto)
qed

subsection \<open>The interface for its users\<close>

text \<open>
  What a user of the pollers relies on: each call keeps the state usable and does to the map
  what its specification says.
\<close>

locale job_map =
  fixes call :: "job_call \<Rightarrow> job_answers \<Rightarrow> 'm \<Rightarrow> (int \<times> 'm) option"
    and jobs_in :: "'m \<Rightarrow> int \<Rightarrow> poller_data option"
    and usable :: "'m \<Rightarrow> bool"
    and fresh :: "job_answers \<Rightarrow> 'm \<Rightarrow> bool"
    and grants :: "job_call \<Rightarrow> job_answers \<Rightarrow> 'm \<Rightarrow> bool"
  assumes call_usable: "usable m \<Longrightarrow> fresh x m \<Longrightarrow> call k x m = Some (r, m') \<Longrightarrow> usable m'"
    and call_spec: "usable m \<Longrightarrow> fresh x m \<Longrightarrow> call k x m = Some (r, m') \<Longrightarrow> (r, jobs_in m') = job_spec k (grants k x m) (jobs_in m)"
begin

lemma call_result: "usable m \<Longrightarrow> fresh x m \<Longrightarrow> call k x m = Some (r, m') \<Longrightarrow> r \<in> {0, -1}"
  by (drule (2) call_spec) (cases k; simp split: if_splits)

lemma failed_call: "usable m \<Longrightarrow> fresh x m \<Longrightarrow> call k x m = Some (r, m') \<Longrightarrow> r \<noteq> 0 \<Longrightarrow> jobs_in m' = jobs_in m"
  by (drule (2) call_spec) (cases k; simp split: if_splits)

lemma other_descriptor: "usable m \<Longrightarrow> fresh x m \<Longrightarrow> call k x m = Some (r, m') \<Longrightarrow> f \<noteq> call_fd k \<Longrightarrow> jobs_in m' f = jobs_in m f"
  by (drule (2) call_spec) (cases k; auto split: if_splits)

lemma added: "usable m \<Longrightarrow> fresh x m \<Longrightarrow> call (Jadd d) x m = Some (0, m') \<Longrightarrow> jobs_in m (fd d) = None \<and> jobs_in m' (fd d) = Some d"
  by (drule (2) call_spec) (simp split: if_splits)

lemma modified: "usable m \<Longrightarrow> fresh x m \<Longrightarrow> call (Jmod d) x m = Some (0, m') \<Longrightarrow> jobs_in m (fd d) \<noteq> None \<and> jobs_in m' (fd d) = Some d"
  by (drule (2) call_spec) (auto split: if_splits)

lemma deleted: "usable m \<Longrightarrow> fresh x m \<Longrightarrow> call (Jdel f) x m = Some (r, m') \<Longrightarrow> jobs_in m' f = None \<and> (r = 0 \<longleftrightarrow> jobs_in m f \<noteq> None)"
  by (drule (2) call_spec) (simp split: if_splits)

lemma timeout_set: "usable m \<Longrightarrow> fresh x m \<Longrightarrow> call (Jset f) x m = Some (r, m') \<Longrightarrow> jobs_in m' = jobs_in m \<and> (r = 0 \<longleftrightarrow> jobs_in m f \<noteq> None)"
  by (drule (2) call_spec) (simp split: if_splits)

end

definition fresh_answers :: "job_answers \<Rightarrow> mpoller \<Rightarrow> bool" where
  "fresh_answers x m \<longleftrightarrow> (\<forall>p \<in> set (pollers m). fresh_mem (j_res x) (j_node x) p)"

text \<open>The mpoller provides it.\<close>

interpretation mp: job_map do_call jobs_of mapi_run fresh_answers granted
proof
  fix m x k r m'
  assume m: "mapi_run m" "fresh_answers x m" "do_call k x m = Some (r, m')"
  then show "mapi_run m'" using do_call_step [OF m(3)] by (auto simp: fresh_answers_def intro: mstep)
  show "(r, jobs_of m') = job_spec k (granted k x m) (jobs_of m)" using m do_call_jobs by (simp add: fresh_answers_def)
qed

text \<open>
  C12: the pollers implement a map from descriptors to jobs. In every state that the calls of
  the mpoller's interface lead to, each of \<open>mpoller_add\<close>, \<open>mpoller_mod\<close>, \<open>mpoller_del\<close> and
  \<open>mpoller_set_timeout\<close>, whatever the system answers, gives the result of its specification
  and leaves the map its specification leaves: adding works exactly on a free descriptor,
  modifying exactly on a taken one, and no other descriptor is touched.
\<close>

theorem mpoller_implements_map:
  assumes "mapi_run m" "fresh_answers x m" "do_call k x m = Some (r, m')"
  shows "(r, jobs_of m') = job_spec k (granted k x m) (jobs_of m)"
  using assms by (rule mp.call_spec)

definition sample_answers :: job_answers where
  "sample_answers = \<lparr>j_timeout = -1, j_now = Timespec 0 0, j_res = 0, j_node = 20, j_ctl = 0\<rparr>"

lemma sample_call:
  obtains m' where "do_call (Jadd sample_data) sample_answers sample_mpoller = Some (0, m')"
    "fresh_answers sample_answers sample_mpoller"
proof -
  obtain p where p: "poller_add sample_data (-1) (Timespec 0 0) 0 20 0 sample_poller = Some (0, p)" using sample_add by blast
  have "sample_poller\<lparr>nodes := (\<lambda>_. NULL)\<rparr> = sample_poller" by (simp add: sample_poller_def)
  with p have "do_call (Jadd sample_data) sample_answers sample_mpoller = Some (0, sample_mpoller\<lparr>nodes_buf := nodes p, pollers := [sample_poller, p]\<rparr>)"
    by (simp add: sample_answers_def mpoller_add_def mpoller_index_def with_poller_def sample_mpoller_def sample_data_def)
  then show ?thesis using that by (simp add: sample_mpoller_def sample_answers_def fresh_answers_def fresh_mem_def sample_poller_def)
qed

theorem mpoller_implements_map_witness:
  "\<exists>m'. do_call (Jadd sample_data) sample_answers sample_mpoller = Some (0, m') \<and> jobs_of m' = [5 \<mapsto> sample_data]"
proof -
  obtain m' where c: "do_call (Jadd sample_data) sample_answers sample_mpoller = Some (0, m')"
    "fresh_answers sample_answers sample_mpoller" by (rule sample_call)
  have "jobs_of sample_mpoller = Map.empty"
    by (auto simp: fun_eq_iff jobs_of_def jobs_def view_def sample_mpoller_def split: option.splits)
  moreover have "fd sample_data = 5" by (simp add: sample_data_def)
  ultimately have "jobs_of m' = [5 \<mapsto> sample_data]"
    using mpoller_implements_map [OF sample_mapi_run c(2,1)] by (auto split: if_splits)
  then show ?thesis using c(1) by blast
qed

end
