(* ===== verification/Ioservice.thy ===== *)
theory Ioservice
  imports Kernel_List "HOL-Library.Multiset"
begin

section \<open>Asynchronous file I/O: the I/O service\<close>

text \<open>
  \<open>src/src/kernel/ioservice_linux.h\<close> and \<open>ioservice_linux.cc\<close>. A session holds the
  control block that is submitted to the kernel; the service keeps the sessions in flight
  on its list, and the last \<open>decref\<close> waits for them and calls \<open>handle_unbound\<close>.

  The system calls \<open>io_setup\<close>, \<open>io_submit\<close> and \<open>io_getevents\<close> and the virtual functions
  \<open>prepare\<close> and \<open>handle\<close> are arguments (their answers, in order) or, for \<open>handle\<close> and
  \<open>handle_unbound\<close>, recorded calls. \<open>None\<close> is undefined behaviour, or an answer that is
  missing.
\<close>

subsection \<open>Control blocks\<close>

datatype io_iocb_cmd = IO_CMD_PREAD | IO_CMD_PWRITE | IO_CMD_FSYNC | IO_CMD_FDSYNC | IO_CMD_POLL | IO_CMD_NOOP | IO_CMD_PREADV | IO_CMD_PWRITEV

primrec cmd_code :: "io_iocb_cmd \<Rightarrow> int" where
  "cmd_code IO_CMD_PREAD = 0"
| "cmd_code IO_CMD_PWRITE = 1"
| "cmd_code IO_CMD_FSYNC = 2"
| "cmd_code IO_CMD_FDSYNC = 3"
| "cmd_code IO_CMD_POLL = 5"
| "cmd_code IO_CMD_NOOP = 6"
| "cmd_code IO_CMD_PREADV = 7"
| "cmd_code IO_CMD_PWRITEV = 8"

text \<open>The members of \<open>struct iocb\<close>; the union is used through \<open>u.c\<close> only.\<close>

record iocb =
  iocb_data :: addr
  aio_lio_opcode :: int
  aio_fildes :: int
  cbuf :: addr
  nbytes :: "64 word"
  coffset :: int
  cflags :: "32 word"
  resfd :: "32 word"

text \<open>\<open>memset(iocb, 0, sizeof(*iocb))\<close>\<close>

definition zero_iocb :: iocb where
  "zero_iocb = \<lparr>iocb_data = NULL, aio_lio_opcode = 0, aio_fildes = 0, cbuf = NULL, nbytes = 0, coffset = 0, cflags = 0, resfd = 0\<rparr>"

definition io_set_eventfd :: "int \<Rightarrow> iocb \<Rightarrow> iocb" where
  "io_set_eventfd efd cb = cb\<lparr>cflags := Bit_Operations.or (cflags cb) 1, resfd := of_int efd\<rparr>"

definition prep_pread :: "int \<Rightarrow> addr \<Rightarrow> 64 word \<Rightarrow> int \<Rightarrow> iocb" where
  "prep_pread f buf cnt offset = zero_iocb\<lparr>aio_fildes := f, aio_lio_opcode := cmd_code IO_CMD_PREAD,
     cbuf := buf, nbytes := cnt, coffset := offset\<rparr>"

definition prep_pwrite :: "int \<Rightarrow> addr \<Rightarrow> 64 word \<Rightarrow> int \<Rightarrow> iocb" where
  "prep_pwrite f buf cnt offset = zero_iocb\<lparr>aio_fildes := f, aio_lio_opcode := cmd_code IO_CMD_PWRITE,
     cbuf := buf, nbytes := cnt, coffset := offset\<rparr>"

definition prep_preadv :: "int \<Rightarrow> addr \<Rightarrow> int \<Rightarrow> int \<Rightarrow> iocb" where
  "prep_preadv f iov iovcnt offset = zero_iocb\<lparr>aio_fildes := f, aio_lio_opcode := cmd_code IO_CMD_PREADV,
     cbuf := iov, nbytes := of_int iovcnt, coffset := offset\<rparr>"

definition prep_pwritev :: "int \<Rightarrow> addr \<Rightarrow> int \<Rightarrow> int \<Rightarrow> iocb" where
  "prep_pwritev f iov iovcnt offset = zero_iocb\<lparr>aio_fildes := f, aio_lio_opcode := cmd_code IO_CMD_PWRITEV,
     cbuf := iov, nbytes := of_int iovcnt, coffset := offset\<rparr>"

definition prep_fsync :: "int \<Rightarrow> iocb" where
  "prep_fsync f = zero_iocb\<lparr>aio_fildes := f, aio_lio_opcode := cmd_code IO_CMD_FSYNC\<rparr>"

definition prep_fdsync :: "int \<Rightarrow> iocb" where
  "prep_fdsync f = zero_iocb\<lparr>aio_fildes := f, aio_lio_opcode := cmd_code IO_CMD_FDSYNC\<rparr>"

subsection \<open>The service\<close>

definition IOS_STATE_SUCCESS :: int where "IOS_STATE_SUCCESS = 0"
definition IOS_STATE_ERROR :: int where "IOS_STATE_ERROR = 1"

record iosession =
  siocb :: iocb
  sres :: int

text \<open>
  \<open>session_list\<close> is the address of \<open>m_session_list\<close>; the links of the sessions are the
  cells of \<open>smem\<close> at their addresses. \<open>in_flight\<close> are the sessions submitted to the kernel
  whose completion was not yet taken, \<open>handled\<close> the calls of \<open>handle\<close>, \<open>unbound\<close> counts
  the calls of \<open>handle_unbound\<close>.
\<close>

record ioservice =
  event_fd :: int
  ref :: int
  session_list :: addr
  sessions :: "addr \<Rightarrow> iosession option"
  smem :: heap
  in_flight :: "addr list"
  handled :: "(addr \<times> int \<times> int) list"
  unbound :: nat
  serrno :: int

definition ENOENT_code :: int where "ENOENT_code = 2"
definition EINVAL_code :: int where "EINVAL_code = 22"

text \<open>\<open>setup\<close> is the result of \<open>io_setup\<close>, which sets \<open>errno\<close> to \<open>err\<close> on failure.\<close>

definition ioservice_init :: "int \<Rightarrow> int \<Rightarrow> int \<Rightarrow> ioservice \<Rightarrow> (int \<times> ioservice) option" where
  "ioservice_init maxevents setup err s =
     (if maxevents < 0 then Some (-1, s\<lparr>serrno := EINVAL_code\<rparr>)
      else if setup \<ge> 0 then do {
        h \<leftarrow> list_init (session_list s) (smem s);
        Some (0, s\<lparr>smem := h, event_fd := -1\<rparr>)
      } else Some (-1, s\<lparr>serrno := err\<rparr>))"

definition ioservice_incref :: "ioservice \<Rightarrow> ioservice" where
  "ioservice_incref s = s\<lparr>ref := ref s + 1\<rparr>"

definition upd_session :: "addr \<Rightarrow> (iosession \<Rightarrow> iosession) \<Rightarrow> ioservice \<Rightarrow> ioservice option" where
  "upd_session a f s = (case sessions s a of None \<Rightarrow> None | Some x \<Rightarrow> Some (s\<lparr>sessions := (sessions s)(a \<mapsto> f x)\<rparr>))"

text \<open>
  One completion in the loop of \<open>decref\<close>: the event's \<open>res\<close> is an \<open>unsigned long\<close> that is
  stored in a \<open>long\<close>, and \<open>error\<close> is an \<open>int\<close>.
\<close>

definition state_of :: "int \<Rightarrow> int \<times> int" where
  "state_of r = (if r \<ge> 0 then (IOS_STATE_SUCCESS, 0) else (IOS_STATE_ERROR, signed_take_bit 31 (- r)))"

definition decref_event :: "addr \<Rightarrow> 64 word \<Rightarrow> ioservice \<Rightarrow> ioservice option" where
  "decref_event a r s = do {
     h \<leftarrow> list_delete a (smem s);
     s \<leftarrow> upd_session a (\<lambda>x. x\<lparr>sres := sint r\<rparr>) (s\<lparr>smem := h, in_flight := remove1 a (in_flight s)\<rparr>);
     Some (s\<lparr>handled := handled s @ [(a, state_of (sint r))]\<rparr>)
   }"

text \<open>The loop: \<open>None\<close> among the answers of \<open>io_getevents\<close> is a result that is not positive.\<close>

fun decref_loop :: "(addr \<times> 64 word) option list \<Rightarrow> ioservice \<Rightarrow> ioservice option" where
  "decref_loop es s = do {
     e \<leftarrow> list_empty (session_list s) (smem s);
     if e then Some s
     else case es of
         [] \<Rightarrow> None
       | None # es \<Rightarrow> decref_loop es s
       | Some (a, r) # es \<Rightarrow> do { s \<leftarrow> decref_event a r s; decref_loop es s }
   }"

declare decref_loop.simps [simp del]

definition ioservice_decref :: "(addr \<times> 64 word) option list \<Rightarrow> ioservice \<Rightarrow> ioservice option" where
  "ioservice_decref es s =
     (let s = s\<lparr>ref := ref s - 1\<rparr>
      in if ref s = 0 then do {
           s \<leftarrow> decref_loop es s;
           Some (s\<lparr>unbound := unbound s + 1\<rparr>)
         } else Some s)"

text \<open>
  \<open>request\<close>: \<open>prepared\<close> is the control block \<open>prepare()\<close> fills in, or the \<open>errno\<close> it fails
  with; \<open>submit\<close> is the result of \<open>io_submit\<close>, \<open>err\<close> the \<open>errno\<close> when it is not positive.
\<close>

definition ioservice_request :: "int + iocb \<Rightarrow> int \<Rightarrow> int \<Rightarrow> addr \<Rightarrow> ioservice \<Rightarrow> (int \<times> ioservice) option" where
  "ioservice_request prepared submit err a s = do {
     (ret, s) \<leftarrow>
       (if event_fd s < 0 then Some (-1, s\<lparr>serrno := ENOENT_code\<rparr>)
        else case prepared of
            Inl e \<Rightarrow> Some (-1, s\<lparr>serrno := e\<rparr>)
          | Inr cb \<Rightarrow> do {
              s \<leftarrow> upd_session a (\<lambda>x. x\<lparr>siocb := (io_set_eventfd (event_fd s) cb)\<lparr>iocb_data := a\<rparr>\<rparr>) s;
              if submit > 0 then do {
                h \<leftarrow> list_add_tail (session_list s) a (smem s);
                Some (0, s\<lparr>smem := h, in_flight := in_flight s @ [a]\<rparr>)
              } else Some (-1, s\<lparr>serrno := err\<rparr>)
            });
     if ret < 0 then do { s \<leftarrow> upd_session a (\<lambda>x. x\<lparr>sres := - serrno s\<rparr>) s; Some (ret, s) }
     else Some (ret, s)
   }"

text \<open>\<open>aio_finish\<close>: the session, or \<open>NULL\<close>. The session stays on the list of the service.\<close>

definition aio_finish :: "(addr \<times> 64 word) option \<Rightarrow> ioservice \<Rightarrow> (addr \<times> ioservice) option" where
  "aio_finish ev s = (case ev of
       None \<Rightarrow> Some (NULL, s)
     | Some (a, r) \<Rightarrow> do {
         s \<leftarrow> upd_session a (\<lambda>x. x\<lparr>sres := sint r\<rparr>) ((ioservice_incref s)\<lparr>in_flight := remove1 a (in_flight s)\<rparr>);
         Some (a, s)
       })"

subsection \<open>Waiting for the sessions\<close>

text \<open>The completions among the answers of \<open>io_getevents\<close>.\<close>

fun completions :: "(addr \<times> 64 word) option list \<Rightarrow> (addr \<times> 64 word) list" where
  "completions [] = []"
| "completions (None # es) = completions es"
| "completions (Some e # es) = e # completions es"

definition known_sessions :: "addr list \<Rightarrow> ioservice \<Rightarrow> bool" where
  "known_sessions xs s \<longleftrightarrow> list_at (smem s) (session_list s) xs \<and> (\<forall>a \<in> set xs. sessions s a \<noteq> None)"

lemma decref_event_correct:
  assumes "known_sessions xs s" "a \<in> set xs"
  shows "\<exists>s'. decref_event a r s = Some s' \<and> known_sessions (remove1 a xs) s' \<and> handled s' = handled s @ [(a, state_of (sint r))] \<and>
    in_flight s' = remove1 a (in_flight s) \<and> unbound s' = unbound s \<and> ref s' = ref s \<and> session_list s' = session_list s"
proof -
  from assms have at: "list_at (smem s) (session_list s) xs" and se: "\<forall>a \<in> set xs. sessions s a \<noteq> None" by (simp_all add: known_sessions_def)
  from assms(2) obtain us vs where xs: "xs = us @ a # vs" by (auto dest: split_list)
  with at have d: "a \<notin> set us" by (auto simp: list_at_def)
  from list_delete_correct at xs obtain h where h: "list_delete a (smem s) = Some h" "list_at h (session_list s) (us @ vs)" by blast
  from se assms(2) obtain x where x: "sessions s a = Some x" by blast
  have "remove1 a xs = us @ vs" using xs d by (simp add: remove1_append)
  then show ?thesis using h x se xs by (auto simp: decref_event_def upd_session_def known_sessions_def)
qed

lemma decref_loop_correct:
  assumes "known_sessions xs s" "mset (map fst (completions es)) = mset xs"
  shows "\<exists>s'. decref_loop es s = Some s' \<and> known_sessions [] s' \<and> unbound s' = unbound s \<and> ref s' = ref s \<and>
    handled s' = handled s @ map (\<lambda>(a, r). (a, state_of (sint r))) (completions es)"
  using assms
proof (induction es arbitrary: s xs)
  case Nil
  then have "list_empty (session_list s) (smem s) = Some True" "xs = []" using list_empty_correct by (auto simp: known_sessions_def)
  with Nil show ?case by (subst decref_loop.simps) simp
next
  case (Cons e es)
  have le: "list_empty (session_list s) (smem s) = Some (xs = [])" using Cons.prems(1) list_empty_correct by (simp add: known_sessions_def)
  show ?case
  proof (cases e)
    case None
    with Cons.IH [OF Cons.prems(1)] Cons.prems(2) obtain s' where
      s': "decref_loop es s = Some s'" "known_sessions [] s'" "unbound s' = unbound s" "ref s' = ref s"
        "handled s' = handled s @ map (\<lambda>(a, r). (a, state_of (sint r))) (completions es)" by auto
    show ?thesis
    proof (cases "xs = []")
      case True
      with Cons.prems None have "completions es = []" by simp
      with le True Cons.prems None show ?thesis by (subst decref_loop.simps) simp
    next
      case False
      with le None s' show ?thesis by (subst decref_loop.simps) simp
    qed
  next
    case (Some ev)
    obtain a r where ev: "ev = (a, r)" by (cases ev)
    have m: "mset xs = add_mset a (mset (map fst (completions es)))" using Cons.prems(2) Some ev by simp
    then have a: "a \<in> set xs" by (metis union_single_eq_member set_mset_mset)
    from decref_event_correct [OF Cons.prems(1) a] obtain s1 where
      1: "decref_event a r s = Some s1" "known_sessions (remove1 a xs) s1" "handled s1 = handled s @ [(a, state_of (sint r))]"
        "unbound s1 = unbound s" "ref s1 = ref s" by blast
    have "mset (map fst (completions es)) = mset (remove1 a xs)" using m by simp
    from Cons.IH [OF 1(2) this] 1 le a Some ev show ?thesis by (subst decref_loop.simps) auto
  qed
qed

subsection \<open>Properties\<close>

definition sample_session :: iosession where
  "sample_session = \<lparr>siocb = zero_iocb, sres = 0\<rparr>"

definition sample_service :: ioservice where
  "sample_service = \<lparr>event_fd = 7, ref = 1, session_list = 1, sessions = [2 \<mapsto> sample_session, 3 \<mapsto> sample_session],
     smem = list_heap, in_flight = [], handled = [], unbound = 0, serrno = 0\<rparr>"



text \<open>The memory after two requests: the second entry's \<open>prev\<close> is the head.\<close>

lemma two_added:
  assumes "list_at h l []" "free_node h x" "free_node h y" "x \<noteq> l" "y \<noteq> l" "x \<noteq> y"
  shows "\<exists>h1 h2 h3. list_add_tail l x h = Some h1 \<and> list_add_tail l y h1 = Some h2 \<and> list_delete y h2 = Some h3 \<and>
    list_empty l h2 = Some False \<and> list_empty l h3 = Some True"
proof -
  from assms(1) have c: "l \<noteq> NULL" "h (l, nextf) = Some l" "h (l, prevf) = Some l" by (auto simp: list_at_def)
  define h1 where "h1 = h((l, nextf) \<mapsto> x, (l, prevf) \<mapsto> x, (x, prevf) \<mapsto> l, (x, nextf) \<mapsto> l)"
  define h2 where "h2 = h1((y, prevf) \<mapsto> l, (y, nextf) \<mapsto> l, (x, nextf) \<mapsto> y)"
  define h3 where "h3 = h2((l, nextf) \<mapsto> l, (l, prevf) \<mapsto> l)"
  have "list_add_tail l x h = Some h1"
    using c assms by (auto simp: list_add_tail_def list_empty_def add_to_empty_def load_def store_def h1_def free_node_def)
  moreover have "list_add_tail l y h1 = Some h2"
    using c assms by (auto simp: list_add_tail_def list_empty_def load_def store_def h1_def h2_def free_node_def)
  moreover have "list_delete y h2 = Some h3" "list_empty l h2 = Some False"
    using c assms by (auto simp: list_delete_def list_empty_def load_def store_def h1_def h2_def h3_def free_node_def)
  moreover have "list_empty l h3 = Some True" using c by (simp add: list_empty_def load_def h3_def)
  ultimately show ?thesis by blast
qed

text \<open>
  C40: with two sessions requested one after the other, a completion of the second one before
  the first makes the list look empty: the last \<open>decref\<close> calls \<open>handle_unbound\<close> while the
  first session is still in flight, and never handles it.
\<close>

theorem decref_abandons_first_session:
  assumes "known_sessions [] s" "in_flight s = []" "handled s = []" "ref s = 1" "event_fd s \<ge> 0" "sessions s x \<noteq> None" "sessions s y \<noteq> None"
    "free_node (smem s) x" "free_node (smem s) y" "x \<noteq> session_list s" "y \<noteq> session_list s" "x \<noteq> y"
  shows "\<exists>s1 s2 s'. ioservice_request (Inr cx) 1 0 x s = Some (0, s1) \<and> ioservice_request (Inr cy) 1 0 y s1 = Some (0, s2) \<and>
    in_flight s2 = [x, y] \<and> ioservice_decref (Some (y, r) # es) s2 = Some s' \<and> unbound s' = unbound s + 1 \<and>
    in_flight s' = [x] \<and> handled s' = [(y, state_of (sint r))]"
proof -
  from assms(1) have "list_at (smem s) (session_list s) []" by (simp add: known_sessions_def)
  from two_added [OF this assms(8-12)] obtain h1 h2 h3 where
    h: "list_add_tail (session_list s) x (smem s) = Some h1" "list_add_tail (session_list s) y h1 = Some h2" "list_delete y h2 = Some h3"
      "list_empty (session_list s) h2 = Some False" "list_empty (session_list s) h3 = Some True" by blast
  from assms(6,7) obtain sx sy where xy: "sessions s x = Some sx" "sessions s y = Some sy" by blast
  define S1 where "S1 = (sessions s)(x \<mapsto> sx\<lparr>siocb := (io_set_eventfd (event_fd s) cx)\<lparr>iocb_data := x\<rparr>\<rparr>)"
  define s1 where "s1 = s\<lparr>sessions := S1, smem := h1, in_flight := [x]\<rparr>"
  define s2 where "s2 = s\<lparr>sessions := S1(y \<mapsto> sy\<lparr>siocb := (io_set_eventfd (event_fd s) cy)\<lparr>iocb_data := y\<rparr>\<rparr>), smem := h2, in_flight := [x, y]\<rparr>"
  have "ioservice_request (Inr cx) 1 0 x s = Some (0, s1)"
    using assms(2,5) h(1) xy by (simp add: ioservice_request_def upd_session_def s1_def S1_def)
  moreover have "ioservice_request (Inr cy) 1 0 y s1 = Some (0, s2)"
    using assms(5,12) h(2) xy by (simp add: ioservice_request_def upd_session_def s1_def s2_def S1_def)
  moreover have "\<exists>s'. ioservice_decref (Some (y, r) # es) s2 = Some s' \<and> unbound s' = unbound s + 1 \<and>
    in_flight s' = [x] \<and> handled s' = [(y, state_of (sint r))]"
    using assms(3,4,12) h by (simp add: ioservice_decref_def Let_def decref_loop.simps decref_event_def upd_session_def s2_def)
  moreover have "in_flight s2 = [x, y]" by (simp add: s2_def)
  ultimately show ?thesis by blast
qed

theorem decref_abandons_first_session_witness:
  "\<exists>s1 s2 s'. ioservice_request (Inr (prep_fsync 4)) 1 0 2 sample_service = Some (0, s1) \<and>
     ioservice_request (Inr (prep_fsync 5)) 1 0 3 s1 = Some (0, s2) \<and> ioservice_decref [Some (3, 0), Some (2, 0)] s2 = Some s' \<and>
     unbound s' = 1 \<and> in_flight s' = [2]"
  using decref_abandons_first_session [of sample_service 2 3 "prep_fsync 4" "prep_fsync 5" 0 "[Some (2, 0)]"] list_heap_at
  by (auto simp: sample_service_def known_sessions_def)

text \<open>
  \<open>request\<close> on every branch. Without an event descriptor, when \<open>prepare\<close> fails and when
  \<open>io_submit\<close> does, it returns -1, stores the negated \<open>errno\<close> as the session's result and
  changes neither the list nor what is in flight. Otherwise it returns 0, the session is
  in flight, and the submitted control block is the prepared one with the service's event
  descriptor and the session's address.
\<close>

theorem ioservice_request_cases:
  assumes "sessions s a = Some x" "list_at (smem s) (session_list s) []" "free_node (smem s) a" "a \<noteq> session_list s"
  shows "\<exists>ret s'. ioservice_request prepared submit err a s = Some (ret, s') \<and>
    (case prepared of
       Inr cb \<Rightarrow>
         if event_fd s < 0 then ret = -1 \<and> sessions s' a = Some (x\<lparr>sres := -2\<rparr>) \<and> smem s' = smem s \<and> in_flight s' = in_flight s
         else if submit \<le> 0
           then ret = -1 \<and> map_option sres (sessions s' a) = Some (- err) \<and> smem s' = smem s \<and> in_flight s' = in_flight s
         else ret = 0 \<and> in_flight s' = in_flight s @ [a] \<and> list_at (smem s') (session_list s') [a] \<and>
           sessions s' a = Some (x\<lparr>siocb := cb\<lparr>cflags := Bit_Operations.or (cflags cb) 1, resfd := of_int (event_fd s), iocb_data := a\<rparr>\<rparr>)
     | Inl e \<Rightarrow> ret = -1 \<and> sessions s' a = Some (x\<lparr>sres := (if event_fd s < 0 then -2 else - e)\<rparr>) \<and> smem s' = smem s \<and> in_flight s' = in_flight s)"
proof (cases "event_fd s < 0")
  case True
  with assms(1) show ?thesis by (auto simp: ioservice_request_def upd_session_def ENOENT_code_def split: sum.split)
next
  case False
  from add_to_empty_correct(1) [OF assms(2-4)] obtain h where "list_add_tail (session_list s) a (smem s) = Some h" "list_at h (session_list s) [a]" by blast
  with False assms(1) show ?thesis by (auto simp: ioservice_request_def upd_session_def io_set_eventfd_def split: sum.split)
qed

theorem ioservice_request_cases_witness:
  "\<exists>s'. ioservice_request (Inr (prep_pread 4 100 16 0)) 0 11 2 sample_service = Some (-1, s') \<and> map_option sres (sessions s' 2) = Some (-11)"
  using ioservice_request_cases [of sample_service 2 sample_session "Inr (prep_pread 4 100 16 0)" 0 11] list_heap_at
  by (auto simp: sample_service_def)

end
