(* ===== verification/Ioservice_Abi.thy ===== *)
theory Ioservice_Abi
  imports Ioservice
begin

section \<open>The bytes of the control blocks and the completions\<close>

text \<open>
  \<open>struct iocb\<close> and \<open>struct io_event\<close> of \<open>ioservice_linux.cc\<close> are what the kernel reads and
  writes, so their members must lie where the kernel looks for them, whatever the width of
  \<open>long\<close> and the byte order: the macros \<open>PADDED\<close>, \<open>PADDEDptr\<close> and \<open>PADDEDul\<close> see to that.
  Here the structures are laid out by the rules of C for each of the four variants of the
  macros, and the bytes of \<open>iocb_buf\<close> are read back at the offsets of the kernel's
  \<open>linux/aio_abi.h\<close>.
\<close>

subsection \<open>The layout of structures\<close>

text \<open>The four branches of the conditional: byte order and width of \<open>long\<close> and of pointers.\<close>

datatype abi = Little32 | Little64 | Big64 | Big32

primrec long_size :: "abi \<Rightarrow> nat" where
  "long_size Little32 = 4"
| "long_size Little64 = 8"
| "long_size Big64 = 8"
| "long_size Big32 = 4"

primrec big_endian :: "abi \<Rightarrow> bool" where
  "big_endian Little32 = False"
| "big_endian Little64 = False"
| "big_endian Big64 = True"
| "big_endian Big32 = True"

text \<open>A member: its name, its size and its alignment.\<close>

type_synonym member = "string \<times> nat \<times> nat"

abbreviation (input) four :: "string \<Rightarrow> member" where "four x \<equiv> (x, 4, 4)"
abbreviation (input) two :: "string \<Rightarrow> member" where "two x \<equiv> (x, 2, 2)"
abbreviation (input) word :: "abi \<Rightarrow> string \<Rightarrow> member" where "word v x \<equiv> (x, long_size v, long_size v)"

text \<open>\<open>long long\<close> is aligned to 4 bytes on i386 (\<open>packed\<close>) and to 8 elsewhere.\<close>

abbreviation (input) eight :: "bool \<Rightarrow> string \<Rightarrow> member" where "eight packed x \<equiv> (x, 8, if packed then 4 else 8)"

primrec PADDED :: "abi \<Rightarrow> string \<Rightarrow> string \<Rightarrow> member list" where
  "PADDED Little32 x y = [four x, four y]"
| "PADDED Little64 x y = [four x, four y]"
| "PADDED Big64 x y = [four y, four x]"
| "PADDED Big32 x y = [four y, four x]"

primrec PADDEDptr :: "abi \<Rightarrow> string \<Rightarrow> string \<Rightarrow> member list" where
  "PADDEDptr Little32 x y = [word Little32 x, four y]"
| "PADDEDptr Little64 x y = [word Little64 x]"
| "PADDEDptr Big64 x y = [word Big64 x]"
| "PADDEDptr Big32 x y = [four y, word Big32 x]"

primrec PADDEDul :: "abi \<Rightarrow> string \<Rightarrow> string \<Rightarrow> member list" where
  "PADDEDul Little32 x y = [word Little32 x, four y]"
| "PADDEDul Little64 x y = [word Little64 x]"
| "PADDEDul Big64 x y = [word Big64 x]"
| "PADDEDul Big32 x y = [four y, word Big32 x]"

text \<open>The next multiple of the alignment, the offsets of the members, size and alignment.\<close>

definition align_up :: "nat \<Rightarrow> nat \<Rightarrow> nat" where
  "align_up n a = (n + a - 1) div a * a"

fun offsets :: "nat \<Rightarrow> member list \<Rightarrow> (string \<times> nat \<times> nat) list" where
  "offsets n [] = []"
| "offsets n ((x, s, a) # ms) = (x, align_up n a, s) # offsets (align_up n a + s) ms"

definition struct_align :: "member list \<Rightarrow> nat" where
  "struct_align ms = foldr (\<lambda>(x, s, a). max a) ms 1"

definition struct_size :: "member list \<Rightarrow> nat" where
  "struct_size ms = align_up (foldl (\<lambda>n (x, s, a). align_up n a + s) 0 ms) (struct_align ms)"

subsection \<open>The structures\<close>

definition io_iocb_poll :: "abi \<Rightarrow> member list" where
  "io_iocb_poll v = PADDED v ''events'' ''__pad1''"

definition io_iocb_sockaddr :: "abi \<Rightarrow> member list" where
  "io_iocb_sockaddr v = [word v ''addr'', four ''len'']"

definition io_iocb_common :: "abi \<Rightarrow> bool \<Rightarrow> member list" where
  "io_iocb_common v packed = PADDEDptr v ''buf'' ''__pad1'' @ PADDEDul v ''nbytes'' ''__pad2'' @
     [eight packed ''offset'', eight packed ''__pad3'', four ''flags'', four ''resfd'']"

definition io_iocb_vector :: "abi \<Rightarrow> bool \<Rightarrow> member list" where
  "io_iocb_vector v packed = [word v ''vec'', four ''nr'', eight packed ''offset'']"

text \<open>The union \<open>u\<close>: the members of each of its structures begin at its offset.\<close>

definition iocb_union :: "abi \<Rightarrow> bool \<Rightarrow> member list list" where
  "iocb_union v packed = [io_iocb_common v packed, io_iocb_vector v packed, io_iocb_poll v, io_iocb_sockaddr v]"

definition union_member :: "string \<Rightarrow> member list list \<Rightarrow> member" where
  "union_member x ss = (let a = foldr (max \<circ> struct_align) ss 1 in (x, align_up (foldr (max \<circ> struct_size) ss 0) a, a))"

definition struct_iocb :: "abi \<Rightarrow> bool \<Rightarrow> member list" where
  "struct_iocb v packed = PADDEDptr v ''data'' ''__pad1'' @ PADDED v ''key'' ''aio_rw_flags'' @
     [two ''aio_lio_opcode'', two ''aio_reqprio'', four ''aio_fildes'', union_member ''u'' (iocb_union v packed)]"

definition struct_io_event :: "abi \<Rightarrow> member list" where
  "struct_io_event v = PADDEDptr v ''data'' ''__pad1'' @ PADDEDptr v ''obj'' ''__pad2'' @ PADDEDul v ''res'' ''__pad3'' @ PADDEDul v ''res2'' ''__pad4''"

text \<open>The size of the buffer \<open>iocb_buf\<close> in a session.\<close>

definition IOCB_BUF_SIZE :: nat where "IOCB_BUF_SIZE = 64"

subsection \<open>The bytes\<close>

primrec little_bytes :: "nat \<Rightarrow> int \<Rightarrow> 8 word list" where
  "little_bytes 0 x = []"
| "little_bytes (Suc n) x = word_of_int x # little_bytes n (x div 256)"

primrec little_value :: "8 word list \<Rightarrow> int" where
  "little_value [] = 0"
| "little_value (b # bs) = uint b + 256 * little_value bs"

definition bytes :: "abi \<Rightarrow> nat \<Rightarrow> int \<Rightarrow> 8 word list" where
  "bytes v n x = (if big_endian v then rev (little_bytes n x) else little_bytes n x)"

definition slice :: "nat \<Rightarrow> nat \<Rightarrow> 'a list \<Rightarrow> 'a list" where
  "slice k n b = take n (drop k b)"

text \<open>An unsigned number of \<open>n\<close> bytes at an offset, as the machine reads it.\<close>

definition read_at :: "abi \<Rightarrow> nat \<Rightarrow> nat \<Rightarrow> 8 word list \<Rightarrow> int" where
  "read_at v k n b = little_value (if big_endian v then rev (slice k n b) else slice k n b)"

definition put :: "nat \<Rightarrow> 'a list \<Rightarrow> 'a list \<Rightarrow> 'a list" where
  "put k bs b = take k b @ bs @ drop (k + length bs) b"

text \<open>An assignment to a member of a structure that begins at \<open>base\<close>.\<close>

definition assign :: "abi \<Rightarrow> nat \<Rightarrow> member list \<Rightarrow> string \<Rightarrow> int \<Rightarrow> 8 word list \<Rightarrow> 8 word list" where
  "assign v base ms x y b = (case map_of (offsets 0 ms) x of None \<Rightarrow> b | Some (k, n) \<Rightarrow> put (base + k) (bytes v n y) b)"

text \<open>
  What a session's \<open>iocb_buf\<close> holds when its control block is submitted: the bytes after the
  \<open>memset\<close> and the assignments of \<open>prep_pread\<close> and its variants, of \<open>io_set_eventfd\<close> and of
  \<open>request\<close>. \<open>b\<close> is what the buffer held before.
\<close>

definition iocb_image :: "abi \<Rightarrow> bool \<Rightarrow> iocb \<Rightarrow> 8 word list \<Rightarrow> 8 word list" where
  "iocb_image v packed cb b =
     (let s = struct_iocb v packed; c = io_iocb_common v packed;
          u = (case map_of (offsets 0 s) ''u'' of None \<Rightarrow> 0 | Some (k, n) \<Rightarrow> k);
          b = put 0 (replicate (struct_size s) 0) b;
          b = assign v 0 s ''aio_fildes'' (aio_fildes cb) b;
          b = assign v 0 s ''aio_lio_opcode'' (aio_lio_opcode cb) b;
          b = assign v u c ''buf'' (int (cbuf cb)) b;
          b = assign v u c ''nbytes'' (uint (nbytes cb)) b;
          b = assign v u c ''offset'' (coffset cb) b;
          b = assign v u c ''flags'' (uint (cflags cb)) b;
          b = assign v u c ''resfd'' (uint (resfd cb)) b
      in assign v 0 s ''data'' (int (iocb_data cb)) b)"

lemma length_little_bytes [simp]: "length (little_bytes n x) = n"
  by (induction n arbitrary: x) auto

lemma length_bytes [simp]: "length (bytes v n x) = n"
  by (simp add: bytes_def)

lemma little_value_bytes: "little_value (little_bytes n x) = x mod 256 ^ n"
  by (induction n arbitrary: x) (simp_all add: uint_word_of_int mod_mult2_eq zmod_zmult2_eq)

lemma little_value_append [simp]: "little_value (xs @ ys) = little_value xs + 256 ^ length xs * little_value ys"
  by (induction xs) (simp_all add: algebra_simps)

lemma little_value_zeros [simp]: "little_value (replicate n 0) = 0"
  by (induction n) auto

lemma length_put [simp]: "k + length bs \<le> length b \<Longrightarrow> length (put k bs b) = length b"
  by (simp add: put_def)

lemma slice_put_same: "k + length bs \<le> length b \<Longrightarrow> length bs = n \<Longrightarrow> slice k n (put k bs b) = bs"
  by (simp add: slice_def put_def)

lemma slice_put_other:
  assumes "k + length bs \<le> length b" "j + n \<le> k \<or> k + length bs \<le> j"
  shows "slice j n (put k bs b) = slice j n b"
  using assms by (auto simp: slice_def put_def take_drop min_def)

lemma slice_put_zeros: "j + n \<le> m \<Longrightarrow> slice j n (put 0 (replicate m x) b) = replicate n x"
  by (simp add: slice_def put_def)

text \<open>A member of four bytes in the lower half of eight that are zero.\<close>

lemma slice_split: "slice k 8 b = slice k 4 b @ slice (k + 4) 4 b"
  using take_add [of 4 4 "drop k b"] by (simp add: slice_def add.commute)

subsection \<open>What the kernel reads\<close>

lemma union_layout: "union_member x (iocb_union v packed) = (x, 40, if packed \<and> long_size v = 4 then 4 else 8)"
  by (cases v; cases packed; simp add: union_member_def iocb_union_def io_iocb_common_def io_iocb_vector_def io_iocb_poll_def
      io_iocb_sockaddr_def struct_size_def struct_align_def align_up_def)

lemma struct_iocb_lists:
  "offsets 0 (struct_iocb v packed) =
     (if v = Big32 then [(''__pad1'', 0, 4), (''data'', 4, 4)] else if v = Little32 then [(''data'', 0, 4), (''__pad1'', 4, 4)] else [(''data'', 0, 8)]) @
     (if big_endian v then [(''aio_rw_flags'', 8, 4), (''key'', 12, 4)] else [(''key'', 8, 4), (''aio_rw_flags'', 12, 4)]) @
     [(''aio_lio_opcode'', 16, 2), (''aio_reqprio'', 18, 2), (''aio_fildes'', 20, 4), (''u'', 24, 40)]"
  "struct_size (struct_iocb v packed) = 64"
  by (cases v; simp add: struct_iocb_def union_layout align_up_def struct_size_def struct_align_def; fail)+

lemma struct_iocb_offsets:
  "map_of (offsets 0 (struct_iocb v packed)) ''data'' = Some (if v = Big32 then 4 else 0, long_size v)"
  "map_of (offsets 0 (struct_iocb v packed)) ''aio_lio_opcode'' = Some (16, 2)"
  "map_of (offsets 0 (struct_iocb v packed)) ''aio_fildes'' = Some (20, 4)"
  "map_of (offsets 0 (struct_iocb v packed)) ''u'' = Some (24, 40)"
  by (cases v; simp add: struct_iocb_lists; fail)+

lemma io_iocb_common_offsets:
  "map_of (offsets 0 (io_iocb_common v packed)) ''buf'' = Some (if v = Big32 then 4 else 0, long_size v)"
  "map_of (offsets 0 (io_iocb_common v packed)) ''nbytes'' = Some (if v = Big32 then 12 else 8, long_size v)"
  "map_of (offsets 0 (io_iocb_common v packed)) ''offset'' = Some (16, 8)"
  "map_of (offsets 0 (io_iocb_common v packed)) ''flags'' = Some (32, 4)"
  "map_of (offsets 0 (io_iocb_common v packed)) ''resfd'' = Some (36, 4)"
  by (cases v; cases packed; simp add: io_iocb_common_def align_up_def; fail)+

lemma io_event_offsets:
  "map_of (offsets 0 (struct_io_event v)) ''data'' = Some (if v = Big32 then 4 else 0, long_size v)"
  "map_of (offsets 0 (struct_io_event v)) ''res'' = Some (if v = Big32 then 20 else 16, long_size v)"
  "struct_size (struct_io_event v) = 32"
  by (cases v; simp add: struct_io_event_def struct_align_def struct_size_def align_up_def; fail)+

lemma read_put_same: "k + n \<le> length b \<Longrightarrow> read_at v k n (put k (bytes v n y) b) = y mod 256 ^ n"
  by (simp add: read_at_def slice_put_same) (simp add: bytes_def little_value_bytes)

lemma read_put_other: "k + length bs \<le> length b \<Longrightarrow> j + n \<le> k \<or> k + length bs \<le> j \<Longrightarrow> read_at v j n (put k bs b) = read_at v j n b"
  by (simp add: read_at_def slice_put_other)

lemma read_zeros: "j + n \<le> m \<Longrightarrow> read_at v j n (put 0 (replicate m 0) b) = 0"
  by (simp add: read_at_def slice_put_zeros)

text \<open>Eight bytes are two halves; where the lower half lies depends on the byte order.\<close>

lemma read_halves:
  assumes "k + 8 \<le> length b"
  shows "read_at v k 8 b = (if big_endian v then read_at v (k + 4) 4 b + 2 ^ 32 * read_at v k 4 b else read_at v k 4 b + 2 ^ 32 * read_at v (k + 4) 4 b)"
  using assms by (simp add: read_at_def slice_split [of k]) (simp add: slice_def)

lemma read_nonneg: "0 \<le> read_at v k n b"
proof -
  have "0 \<le> little_value bs" for bs by (induction bs) auto
  then show ?thesis by (simp add: read_at_def)
qed

lemmas image_reads = read_put_same read_put_other read_zeros

text \<open>The assignments as writes at their offsets, the last one first.\<close>

lemma iocb_image_puts:
  "iocb_image v packed cb b =
     (let w = long_size v; h = if v = Big32 then 4 else 0
      in put h (bytes v w (int (iocb_data cb))) (put 60 (bytes v 4 (uint (resfd cb))) (put 56 (bytes v 4 (uint (cflags cb)))
         (put 40 (bytes v 8 (coffset cb)) (put (32 + h) (bytes v w (uint (nbytes cb))) (put (24 + h) (bytes v w (int (cbuf cb)))
         (put 16 (bytes v 2 (aio_lio_opcode cb)) (put 20 (bytes v 4 (aio_fildes cb)) (put 0 (replicate 64 0) b)))))))))"
  unfolding iocb_image_def Let_def assign_def struct_iocb_lists(2) struct_iocb_offsets io_iocb_common_offsets option.case prod.case by simp

text \<open>The last assignments first: what is read of a member is what was assigned to it.\<close>

lemma uint32_mod [simp]: "uint (w :: 32 word) mod 4294967296 = uint w"
  using uint_bounded [of w] by simp

lemma iocb_image_members:
  assumes "length b = IOCB_BUF_SIZE"
  shows "length (iocb_image v packed cb b) = 64"
    "read_at v 16 2 (iocb_image v packed cb b) = aio_lio_opcode cb mod 2 ^ 16"
    "read_at v 18 2 (iocb_image v packed cb b) = 0"
    "read_at v 20 4 (iocb_image v packed cb b) = aio_fildes cb mod 2 ^ 32"
    "read_at v 40 8 (iocb_image v packed cb b) = coffset cb mod 2 ^ 64"
    "read_at v 56 4 (iocb_image v packed cb b) = uint (cflags cb)"
    "read_at v 60 4 (iocb_image v packed cb b) = uint (resfd cb)"
  by (cases v; simp add: iocb_image_puts Let_def assms [unfolded IOCB_BUF_SIZE_def] image_reads; fail)+

lemma iocb_image_words:
  assumes "length b = IOCB_BUF_SIZE"
  shows "read_at v 0 8 (iocb_image v packed cb b) = int (iocb_data cb) mod 256 ^ long_size v"
    "read_at v 24 8 (iocb_image v packed cb b) = int (cbuf cb) mod 256 ^ long_size v"
    "read_at v 32 8 (iocb_image v packed cb b) = uint (nbytes cb) mod 256 ^ long_size v"
  by (cases v; simp add: iocb_image_puts Let_def assms [unfolded IOCB_BUF_SIZE_def] image_reads read_halves; fail)+

text \<open>
  C28: the control block is what the kernel expects. On every platform the macros know, the
  control block is exactly as large as \<open>iocb_buf\<close>, and the bytes that \<open>prep_pread\<close> and its
  variants, \<open>io_set_eventfd\<close> and \<open>request\<close> leave in it, read at the offsets and widths of the
  kernel's \<open>struct iocb\<close>, are the members of the control block: pointers and the count are
  extended by zeros to 64 bits, and the paddings fall where the kernel ignores them.
\<close>

theorem control_block_reads_back:
  assumes "length b = IOCB_BUF_SIZE"
  shows "struct_size (struct_iocb v packed) = IOCB_BUF_SIZE \<and> length (iocb_image v packed cb b) = IOCB_BUF_SIZE \<and>
    read_at v 0 8 (iocb_image v packed cb b) = int (iocb_data cb) mod 256 ^ long_size v \<and>
    read_at v 16 2 (iocb_image v packed cb b) = aio_lio_opcode cb mod 2 ^ 16 \<and>
    read_at v 18 2 (iocb_image v packed cb b) = 0 \<and>
    read_at v 20 4 (iocb_image v packed cb b) = aio_fildes cb mod 2 ^ 32 \<and>
    read_at v 24 8 (iocb_image v packed cb b) = int (cbuf cb) mod 256 ^ long_size v \<and>
    read_at v 32 8 (iocb_image v packed cb b) = uint (nbytes cb) mod 256 ^ long_size v \<and>
    read_at v 40 8 (iocb_image v packed cb b) = coffset cb mod 2 ^ 64 \<and>
    read_at v 56 4 (iocb_image v packed cb b) = uint (cflags cb) \<and>
    read_at v 60 4 (iocb_image v packed cb b) = uint (resfd cb)"
  unfolding iocb_image_members [OF assms] iocb_image_words [OF assms] struct_iocb_lists(2) by (simp add: IOCB_BUF_SIZE_def)

text \<open>A read of 16 bytes at the address 4096 from descriptor 3, that is announced on descriptor 9.\<close>

theorem control_block_reads_back_witness:
  "read_at Big32 24 8 (iocb_image Big32 False (io_set_eventfd 9 (prep_pread 3 4096 16 100)) (replicate 64 255)) = 4096 \<and>
   read_at Big32 60 4 (iocb_image Big32 False (io_set_eventfd 9 (prep_pread 3 4096 16 100)) (replicate 64 255)) = 9"
  using control_block_reads_back [of "replicate 64 255" Big32 False "io_set_eventfd 9 (prep_pread 3 4096 16 100)"]
  by (simp add: IOCB_BUF_SIZE_def io_set_eventfd_def prep_pread_def zero_iocb_def)

subsection \<open>What the service reads of a completion\<close>

definition member_at :: "abi \<Rightarrow> member list \<Rightarrow> string \<Rightarrow> 8 word list \<Rightarrow> int" where
  "member_at v ms x b = (case map_of (offsets 0 ms) x of None \<Rightarrow> 0 | Some (k, n) \<Rightarrow> read_at v k n b)"

text \<open>\<open>(IOSession *)event.data\<close>, and \<open>event.res\<close>, an \<open>unsigned long\<close>, in the \<open>long\<close> of the session.\<close>

definition event_session :: "abi \<Rightarrow> 8 word list \<Rightarrow> addr" where
  "event_session v ev = nat (member_at v (struct_io_event v) ''data'' ev)"

definition event_res :: "abi \<Rightarrow> 8 word list \<Rightarrow> int" where
  "event_res v ev = signed_take_bit (8 * long_size v - 1) (member_at v (struct_io_event v) ''res'' ev)"

lemma little_value_bound: "little_value bs < 256 ^ length bs"
proof (induction bs)
  case (Cons b bs)
  have "uint b < 256" using uint_bounded [of b] by simp
  with Cons show ?case by simp
qed simp

lemma read_bound: "k + n \<le> length b \<Longrightarrow> read_at v k n b < 256 ^ n"
  using little_value_bound [of "rev (slice k n b)"] little_value_bound [of "slice k n b"] by (simp add: read_at_def slice_def split: if_splits)

lemma read_low: "k + 8 \<le> length b \<Longrightarrow> read_at v (if v = Big32 then k + 4 else k) (long_size v) b = read_at v k 8 b mod 256 ^ long_size v"
  using read_bound [of k 8 b v] read_bound [of k 4 b v] read_bound [of "k + 4" 4 b v] read_nonneg [of v _ _ b]
  by (cases v) (simp_all add: read_halves)

lemma event_members:
  assumes "length ev = struct_size (struct_io_event v)"
  shows "member_at v (struct_io_event v) ''data'' ev = read_at v 0 8 ev mod 256 ^ long_size v"
    "member_at v (struct_io_event v) ''res'' ev = read_at v 16 8 ev mod 256 ^ long_size v"
  using read_low [of 0 ev v] read_low [of 16 ev v] assms by (auto simp: member_at_def io_event_offsets)

lemma signed_of_mod:
  fixes r :: int
  assumes "- (256 ^ n div 2) \<le> r" "r < 256 ^ n div 2" "0 < n" "n \<le> 8"
  shows "signed_take_bit (8 * n - 1) (r mod 2 ^ 64 mod 256 ^ n) = r"
proof -
  have p: "(256 :: int) ^ n = 2 ^ (8 * n)" by (simp add: power_mult)
  have "take_bit (8 * n) (take_bit 64 r) = take_bit (8 * n) r" using assms(4) by (simp add: min_absorb1)
  then have "r mod 2 ^ 64 mod 2 ^ (8 * n) = take_bit (8 * n) r" by (simp only: take_bit_eq_mod)
  moreover have "\<not> 8 * n \<le> 8 * n - 1" using assms(3) by arith
  then have "signed_take_bit (8 * n - 1) (take_bit (8 * n) r) = signed_take_bit (8 * n - 1) r"
    by (simp add: signed_take_bit_take_bit)
  moreover have "Suc (8 * n - 1) = 8 * n" using assms(3) by simp
  then have "(2 :: int) ^ (8 * n) div 2 = 2 ^ (8 * n - 1)" using power_Suc [of "2 :: int" "8 * n - 1"] by simp
  then have "signed_take_bit (8 * n - 1) r = r" using assms(1,2) by (simp add: p signed_take_bit_int_eq_self)
  ultimately show ?thesis by (simp add: p)
qed

text \<open>
  C27: a completion names its session. When the kernel returns an event that carries the
  \<open>data\<close> of a submitted control block and a result \<open>r\<close> that a \<open>long\<close> can hold, as
  \<open>io_getevents\<close> documents, then the session that \<open>aio_finish\<close> and \<open>decref\<close> take from the
  event is the one whose address was stored by \<open>request\<close>, and the \<open>res\<close> they store in it is
  \<open>r\<close>, errors included, on every platform.
\<close>

theorem completion_names_session:
  assumes "length b = IOCB_BUF_SIZE" "int (iocb_data cb) < 256 ^ long_size v" "length ev = struct_size (struct_io_event v)"
    "read_at v 0 8 ev = read_at v 0 8 (iocb_image v packed cb b)"
    "read_at v 16 8 ev = r mod 2 ^ 64" "- (256 ^ long_size v div 2) \<le> r" "r < 256 ^ long_size v div 2"
  shows "event_session v ev = iocb_data cb \<and> event_res v ev = r"
proof
  show "event_session v ev = iocb_data cb"
    using assms(2) by (simp add: event_session_def event_members [OF assms(3)] assms(4) iocb_image_words [OF assms(1)])
  have "0 < long_size v" "long_size v \<le> 8" by (cases v; simp; fail)+
  then show "event_res v ev = r"
    using signed_of_mod [OF assms(6,7)] by (simp add: event_res_def event_members [OF assms(3)] assms(5))
qed

text \<open>A completion of the session at 4096 with \<open>-EIO\<close>, on a 32-bit machine.\<close>

theorem completion_names_session_witness:
  "event_session Big32 (replicate 6 0 @ [16, 0] @ replicate 8 0 @ replicate 7 255 @ [251] @ replicate 8 0) = 4096 \<and>
   event_res Big32 (replicate 6 0 @ [16, 0] @ replicate 8 0 @ replicate 7 255 @ [251] @ replicate 8 0) = -5"
proof -
  let ?ev = "replicate 6 0 @ [16, 0] @ replicate 8 0 @ replicate 7 255 @ [251] @ replicate 8 0 :: 8 word list"
  have "read_at Big32 0 8 (iocb_image Big32 False (zero_iocb\<lparr>iocb_data := 4096\<rparr>) (replicate 64 0)) = 4096"
    by (simp add: iocb_image_words IOCB_BUF_SIZE_def)
  moreover have "read_at Big32 0 8 ?ev = 4096" by code_simp
  ultimately have "read_at Big32 0 8 ?ev = read_at Big32 0 8 (iocb_image Big32 False (zero_iocb\<lparr>iocb_data := 4096\<rparr>) (replicate 64 0))" by simp
  moreover have "read_at Big32 16 8 ?ev = -5 mod 2 ^ 64" by code_simp
  ultimately show ?thesis
    using completion_names_session [of "replicate 64 0" "zero_iocb\<lparr>iocb_data := 4096\<rparr>" Big32 ?ev False "-5"]
    by (simp add: IOCB_BUF_SIZE_def io_event_offsets)
qed

end
