(* ===== verification/Comm.thy ===== *)
theory Comm
  imports Mpoller Ioservice
begin

section \<open>The communicator: its objects, its timeouts\<close>

text \<open>
  The classes of \<open>src/src/kernel/communicator.h\<close> and the first part of
  \<open>communicator.cc\<close>: connections, targets, services and sessions with their reference
  counts, and the arithmetic of the receive and send timeouts.

  The virtual functions of the user's classes are arguments (\<open>session_user\<close> holds what
  they answer). The poller is seen through its interface: \<open>pcalls\<close> records the calls of
  \<open>mpoller_add\<close>, \<open>mpoller_mod\<close>, \<open>mpoller_del\<close> and \<open>mpoller_set_timeout\<close>, and their results
  are arguments of the operations that look at them. The links of the lists are cells of
  \<open>cmem\<close> at the address of the object. From the middle of the file on the code calls
  \<open>list_add\<close> and \<open>list_del\<close>, which \<open>list.h\<close> does not have: they are the parameters \<open>ladd\<close>
  (entry, head) and \<open>ldel\<close>. The members are written in both halves of the file under two
  spellings (\<open>state_\<close> and \<open>state\<close>); they are one member here.
\<close>

subsection \<open>Objects\<close>

datatype conn_state = CONN_STATE_CONNECTING | CONN_STATE_CONNECTED | CONN_STATE_RECEIVING | CONN_STATE_SUCCESS
  | CONN_STATE_IDLE | CONN_STATE_KEEPALIVE | CONN_STATE_CLOSING | CONN_STATE_ERROR

definition CS_STATE_SUCCESS :: int where "CS_STATE_SUCCESS = 0"
definition CS_STATE_ERROR :: int where "CS_STATE_ERROR = 1"
definition CS_STATE_STOPPED :: int where "CS_STATE_STOPPED = 2"
definition CS_STATE_TOREPLY :: int where "CS_STATE_TOREPLY = 3"

record conn_entry =
  e_conn :: addr
  e_seq :: int
  e_sockfd :: int
  e_state :: conn_state
  e_error :: int
  e_ref :: int
  e_iov :: "nat list list"
  e_session :: addr
  e_target :: addr
  e_service :: addr

record comm_session =
  s_target :: addr
  s_conn :: addr
  s_out :: addr
  s_in :: addr
  s_seq :: int
  s_begin :: timespec
  s_timeout :: int
  s_passive :: int

record session_user =
  u_send :: int
  u_receive :: int
  u_keep_alive :: int
  u_first :: int
  u_out :: addr
  u_in :: addr

record comm_target =
  t_connect :: int
  t_response :: int
  t_service :: addr
  t_ref :: int
  t_sockfd :: int

record comm_service =
  v_listen_timeout :: int
  v_response :: int
  v_reliable :: bool
  v_listen_fd :: int
  v_ref :: int

text \<open>Calls of the poller; those of \<open>mpoller_add\<close> and \<open>mpoller_mod\<close> with their result at the end.\<close>

datatype pcall = Padd int int int int | Pmod int int int int | Pdel int | Pset int int

text \<open>
  \<open>msg_entry\<close> is the member \<open>entry\<close> of a message. \<open>handles\<close> are the calls of the sessions'
  \<open>handle\<close>, \<open>releases\<close> those of \<open>target->release()\<close>, \<open>unbounds\<close> those of
  \<open>handle_unbound\<close>, \<open>stops\<close> those of \<open>handle_stop\<close>, \<open>closed\<close> the closed descriptors.
\<close>

record comm =
  conns :: "addr \<Rightarrow> conn_entry option"
  csessions :: "addr \<Rightarrow> comm_session option"
  ctargets :: "addr \<Rightarrow> comm_target option"
  cservices :: "addr \<Rightarrow> comm_service option"
  msg_entry :: "addr \<Rightarrow> addr"
  cmem :: heap
  pcalls :: "pcall list"
  handles :: "(addr \<times> int \<times> int) list"
  releases :: "addr list"
  unbounds :: "addr list"
  stops :: "(addr \<times> int) list"
  closed :: "int list"
  stop_flag :: bool
  cerrno :: int

definition upd_conn :: "addr \<Rightarrow> (conn_entry \<Rightarrow> conn_entry) \<Rightarrow> comm \<Rightarrow> comm option" where
  "upd_conn a f c = (case conns c a of None \<Rightarrow> None | Some x \<Rightarrow> Some (c\<lparr>conns := (conns c)(a \<mapsto> f x)\<rparr>))"

definition upd_csession :: "addr \<Rightarrow> (comm_session \<Rightarrow> comm_session) \<Rightarrow> comm \<Rightarrow> comm option" where
  "upd_csession a f c = (case csessions c a of None \<Rightarrow> None | Some x \<Rightarrow> Some (c\<lparr>csessions := (csessions c)(a \<mapsto> f x)\<rparr>))"

definition upd_ctarget :: "addr \<Rightarrow> (comm_target \<Rightarrow> comm_target) \<Rightarrow> comm \<Rightarrow> comm option" where
  "upd_ctarget a f c = (case ctargets c a of None \<Rightarrow> None | Some x \<Rightarrow> Some (c\<lparr>ctargets := (ctargets c)(a \<mapsto> f x)\<rparr>))"

definition upd_cservice :: "addr \<Rightarrow> (comm_service \<Rightarrow> comm_service) \<Rightarrow> comm \<Rightarrow> comm option" where
  "upd_cservice a f c = (case cservices c a of None \<Rightarrow> None | Some x \<Rightarrow> Some (c\<lparr>cservices := (cservices c)(a \<mapsto> f x)\<rparr>))"

definition poll :: "pcall \<Rightarrow> comm \<Rightarrow> comm" where
  "poll k c = c\<lparr>pcalls := pcalls c @ [k]\<rparr>"

definition set_cmem :: "heap option \<Rightarrow> comm \<Rightarrow> comm option" where
  "set_cmem h c = map_option (\<lambda>h. c\<lparr>cmem := h\<rparr>) h"

text \<open>
  An object that is allocated gets the cells of its links, whose content is indeterminate
  (nothing reads them before they are set); freeing it takes them away.
\<close>

definition alloc_links :: "addr \<Rightarrow> comm \<Rightarrow> comm" where
  "alloc_links a c = c\<lparr>cmem := (cmem c)((a, nextf) \<mapsto> NULL, (a, prevf) \<mapsto> NULL)\<rparr>"

definition free_links :: "addr \<Rightarrow> comm \<Rightarrow> comm" where
  "free_links a c = c\<lparr>cmem := (cmem c)((a, nextf) := None, (a, prevf) := None)\<rparr>"

definition session_handle :: "addr \<Rightarrow> int \<Rightarrow> int \<Rightarrow> comm \<Rightarrow> comm" where
  "session_handle s st err c = c\<lparr>handles := handles c @ [(s, st, err)]\<rparr>"

subsection \<open>Small functions\<close>

text \<open>\<open>__set_fd_nonblock\<close> with the answers of the two calls of \<open>fcntl\<close>.\<close>

definition set_fd_nonblock :: "int \<Rightarrow> int \<Rightarrow> int" where
  "set_fd_nonblock getfl setfl = (if getfl \<ge> 0 then setfl else getfl)"

text \<open>
  \<open>__bind_sockaddr\<close>: \<open>name\<close> is what \<open>getsockname\<close> gave (\<open>None\<close> on failure), with the bytes
  of the family set to 0 by the function; \<open>bound\<close> is the result of \<open>bind\<close>.
\<close>

fun addr_scan :: "nat list \<Rightarrow> nat \<Rightarrow> nat" where
  "addr_scan ss 0 = 0"
| "addr_scan ss (Suc len) = (if ss ! len \<noteq> 0 then len else addr_scan ss len)"

definition bind_sockaddr :: "nat list option \<Rightarrow> int \<Rightarrow> int" where
  "bind_sockaddr name bound = (case name of
       None \<Rightarrow> -1
     | Some bytes \<Rightarrow>
         let ss = (take 2 (map (\<lambda>_. 0) bytes)) @ drop 2 bytes
         in if addr_scan ss (length bytes) = 0 \<and> bound < 0 then -1 else 0)"

definition release_conn :: "addr \<Rightarrow> comm \<Rightarrow> comm option" where
  "release_conn a c = do {
     e \<leftarrow> conns c a;
     Some (free_links a (c\<lparr>conns := (conns c)(a := None), closed := closed c @ [e_sockfd e]\<rparr>))
   }"

definition commtarget_init :: "bool \<Rightarrow> int \<Rightarrow> int \<Rightarrow> addr \<Rightarrow> comm \<Rightarrow> (int \<times> comm) option" where
  "commtarget_init malloced connect response t c =
     (if malloced then do {
        c \<leftarrow> upd_ctarget t (\<lambda>x. x\<lparr>t_connect := connect, t_response := response\<rparr>) c;
        c \<leftarrow> set_cmem (list_init t (cmem c)) c;
        Some (0, c)
      } else Some (-1, c))"

definition commservice_init :: "bool \<Rightarrow> int \<Rightarrow> int \<Rightarrow> addr \<Rightarrow> comm \<Rightarrow> (int \<times> comm) option" where
  "commservice_init malloced listen response v c =
     (if malloced then do {
        c \<leftarrow> upd_cservice v (\<lambda>x. x\<lparr>v_listen_timeout := listen, v_response := response\<rparr>) c;
        c \<leftarrow> set_cmem (list_init v (cmem c)) c;
        Some (0, c)
      } else Some (-1, c))"

text \<open>
  \<open>CommMessageIn::feedback\<close> (\<open>sent\<close> is the result of \<open>sendto\<close>, \<open>wrote\<close> that of \<open>write\<close>)
  and \<open>renew\<close>.
\<close>

definition feedback :: "int \<Rightarrow> int \<Rightarrow> addr \<Rightarrow> comm \<Rightarrow> int option" where
  "feedback sent wrote a c = do { e \<leftarrow> conns c a; Some (if e_service e \<noteq> NULL then sent else wrote) }"

definition renew_session :: "comm_session \<Rightarrow> comm_session" where
  "renew_session s = s\<lparr>s_timeout := -1, s_begin := Timespec (-1) (-1)\<rparr>"

definition renew :: "addr \<Rightarrow> comm \<Rightarrow> comm option" where
  "renew a c = do { e \<leftarrow> conns c a; upd_csession (e_session e) renew_session c }"

text \<open>\<open>CommService::drain\<close>: \<open>limit\<close> may be negative, which no count reaches.\<close>

partial_function (option) drain_loop :: "int \<Rightarrow> int \<Rightarrow> addr \<Rightarrow> comm \<Rightarrow> (int \<times> comm) option" where
  "drain_loop limit cnt v c = do {
     e \<leftarrow> list_empty v (cmem c);
     if cnt = limit \<or> e then Some (cnt, c)
     else do {
       pos \<leftarrow> load (v, nextf) (cmem c);
       c \<leftarrow> set_cmem (list_delete pos (cmem c)) c;
       en \<leftarrow> conns c pos;
       c \<leftarrow> upd_conn pos (\<lambda>x. x\<lparr>e_state := CONN_STATE_CLOSING\<rparr>) (poll (Pdel (e_sockfd en)) c);
       drain_loop limit (cnt + 1) v c
     }
   }"

definition drain :: "int \<Rightarrow> addr \<Rightarrow> comm \<Rightarrow> (int \<times> comm) option" where
  "drain limit v c = drain_loop limit 0 v c"

subsection \<open>Reference counts\<close>

definition service_incref :: "addr \<Rightarrow> comm \<Rightarrow> comm option" where
  "service_incref v = upd_cservice v (\<lambda>x. x\<lparr>v_ref := v_ref x + 1\<rparr>)"

definition service_decref :: "addr \<Rightarrow> comm \<Rightarrow> comm option" where
  "service_decref v c = do {
     x \<leftarrow> cservices c v;
     c \<leftarrow> upd_cservice v (\<lambda>x. x\<lparr>v_ref := v_ref x - 1\<rparr>) c;
     Some (if v_ref x - 1 = 0 then c\<lparr>unbounds := unbounds c @ [v]\<rparr> else c)
   }"

definition starget_incref :: "addr \<Rightarrow> comm \<Rightarrow> comm option" where
  "starget_incref t = upd_ctarget t (\<lambda>x. x\<lparr>t_ref := t_ref x + 1\<rparr>)"

definition starget_decref :: "addr \<Rightarrow> comm \<Rightarrow> comm option" where
  "starget_decref t c = do {
     x \<leftarrow> ctargets c t;
     c \<leftarrow> upd_ctarget t (\<lambda>x. x\<lparr>t_ref := t_ref x - 1\<rparr>) c;
     if t_ref x - 1 = 0 then do {
       c \<leftarrow> service_decref (t_service x) c;
       Some (free_links t (c\<lparr>ctargets := (ctargets c)(t := None)\<rparr>))
     } else Some c
   }"

definition starget_shutdown :: "addr \<Rightarrow> comm \<Rightarrow> (int \<times> comm) option" where
  "starget_shutdown t c = do {
     empty \<leftarrow> list_empty t (cmem c);
     if empty then Some (0, c)
     else do {
       a \<leftarrow> load (t, nextf) (cmem c);
       c \<leftarrow> set_cmem (list_delete a (cmem c)) c;
       x \<leftarrow> ctargets c t;
       v \<leftarrow> cservices c (t_service x);
       e \<leftarrow> conns c a;
       c \<leftarrow> (if v_reliable v
             then upd_conn a (\<lambda>y. y\<lparr>e_state := CONN_STATE_CLOSING\<rparr>) (poll (Pdel (e_sockfd e)) c)
             else do { c \<leftarrow> release_conn a c; starget_decref t c });
       Some (1, c)
     }
   }"

text \<open>The destructor of a session.\<close>

definition session_destroy :: "addr \<Rightarrow> comm \<Rightarrow> comm option" where
  "session_destroy s c = do {
     x \<leftarrow> csessions c s;
     if s_passive x = 0 then Some c
     else do {
       c \<leftarrow> (if s_passive x = 2 then map_option snd (starget_shutdown (s_target x) c) else Some c);
       starget_decref (s_target x) c
     }
   }"

definition shutdown_service :: "addr \<Rightarrow> comm \<Rightarrow> comm option" where
  "shutdown_service v c = do {
     x \<leftarrow> cservices c v;
     c \<leftarrow> upd_cservice v (\<lambda>x. x\<lparr>v_listen_fd := -1\<rparr>) (c\<lparr>closed := closed c @ [v_listen_fd x]\<rparr>);
     (_, c) \<leftarrow> drain (-1) v c;
     service_decref v c
   }"

subsection \<open>Timeouts\<close>

text \<open>What is left of a \<open>long\<close> in an \<open>int\<close>.\<close>

definition c_int :: "int \<Rightarrow> int" where
  "c_int x = signed_take_bit 31 x"

text \<open>\<open>response\<close> is the response timeout of the session's target, \<open>now\<close> the clock.\<close>

definition first_timeout :: "timespec \<Rightarrow> int \<Rightarrow> comm_session \<Rightarrow> int \<times> comm_session" where
  "first_timeout now response s =
     (if response < 0 \<or> (of_int (s_timeout s) :: 32 word) \<le> of_int response
      then (s_timeout s, s\<lparr>s_timeout := 0\<rparr>)
      else (response, s\<lparr>s_begin := now\<rparr>))"

definition next_timeout :: "timespec \<Rightarrow> int \<Rightarrow> comm_session \<Rightarrow> int \<times> comm_session" where
  "next_timeout now response s =
     (if s_timeout s > 0 then
        let time_used = c_int (1000 * (tv_sec now - tv_sec (s_begin s)) + (tv_nsec now - tv_nsec (s_begin s)) sdiv 1000000);
            time_left = c_int (s_timeout s - time_used)
        in if time_left \<le> response then (if time_left < 0 then 0 else time_left, s\<lparr>s_timeout := 0\<rparr>)
           else (response, s)
      else (response, s))"

definition first_timeout_send :: "timespec \<Rightarrow> int \<Rightarrow> session_user \<Rightarrow> comm_session \<Rightarrow> int \<times> comm_session" where
  "first_timeout_send now response u s = first_timeout now response (s\<lparr>s_timeout := u_send u\<rparr>)"

definition first_timeout_recv :: "timespec \<Rightarrow> int \<Rightarrow> session_user \<Rightarrow> comm_session \<Rightarrow> int \<times> comm_session" where
  "first_timeout_recv now response u s = first_timeout now response (s\<lparr>s_timeout := u_receive u\<rparr>)"

text \<open>The timeout for the first byte of a reply, where a request has been sent.\<close>

definition reply_timeout :: "timespec \<Rightarrow> int \<Rightarrow> session_user \<Rightarrow> comm_session \<Rightarrow> int \<times> comm_session" where
  "reply_timeout now response u s =
     (if u_first u = 0 then first_timeout_recv now response u s
      else (u_first u, s\<lparr>s_timeout := -1, s_begin := Timespec (-1) 0\<rparr>))"

text \<open>
  The timeout that \<open>append_message\<close> sets after a part of a message that is not complete;
  \<open>None\<close> when it sets none.
\<close>

definition part_timeout :: "timespec \<Rightarrow> int \<Rightarrow> session_user \<Rightarrow> comm_session \<Rightarrow> int option \<times> comm_session" where
  "part_timeout now response u s =
     (if s_timeout s = 0 then (None, s)
      else if tv_sec (s_begin s) < 0 then
        (let first = (if tv_nsec (s_begin s) < 0 then u_first u else 0)
         in if first = 0 then map_prod Some id (first_timeout_recv now response u s)
            else (Some first, s\<lparr>s_begin := Timespec (tv_sec (s_begin s)) 0\<rparr>))
      else map_prod Some id (next_timeout now response s))"

definition session_response :: "comm_session \<Rightarrow> comm \<Rightarrow> int option" where
  "session_response s c = map_option t_response (ctargets c (s_target s))"

text \<open>\<open>append_message\<close>; \<open>ret\<close> is the answer of the message's \<open>append\<close>.\<close>

definition append_message :: "int \<Rightarrow> timespec \<Rightarrow> session_user \<Rightarrow> addr \<Rightarrow> comm \<Rightarrow> (int \<times> comm) option" where
  "append_message ret now u a c = do {
     e \<leftarrow> conns c a;
     s \<leftarrow> csessions c (e_session e);
     if ret > 0 then do {
       c \<leftarrow> upd_conn a (\<lambda>x. x\<lparr>e_state := CONN_STATE_SUCCESS\<rparr>) c;
       if e_service e = NULL then do {
         c \<leftarrow> upd_csession (e_session e) (\<lambda>x. x\<lparr>s_timeout := u_keep_alive u\<rparr>) c;
         Some (ret, if u_keep_alive u = 0 then poll (Pdel (e_sockfd e)) c else poll (Pset (e_sockfd e) (u_keep_alive u)) c)
       } else Some (ret, poll (Pset (e_sockfd e) (-1)) c)
     } else if ret = 0 then do {
       response \<leftarrow> session_response s c;
       (case part_timeout now response u s of
          (None, _) \<Rightarrow> Some (ret, c)
        | (Some timeout, s') \<Rightarrow> do {
            c \<leftarrow> upd_csession (e_session e) (\<lambda>_. s') c;
            Some (ret, poll (Pset (e_sockfd e) timeout) c)
          })
     } else Some (ret, c)
   }"

definition partial_written :: "timespec \<Rightarrow> addr \<Rightarrow> comm \<Rightarrow> (int \<times> comm) option" where
  "partial_written now a c = do {
     e \<leftarrow> conns c a;
     s \<leftarrow> csessions c (e_session e);
     response \<leftarrow> session_response s c;
     let (timeout, s') = next_timeout now response s;
     c \<leftarrow> upd_csession (e_session e) (\<lambda>_. s') c;
     Some (0, poll (Pset (e_sockfd e) timeout) c)
   }"

subsection \<open>The total time of a message\<close>

text \<open>Milliseconds since the session's beginning, as the code computes them, are exact to one.\<close>

lemma sdiv_million: "\<bar>x - (x sdiv 1000000) * 1000000\<bar> < 1000000" for x :: int
  by (auto simp: signed_divide_int_def sgn_if abs_if minus_mod_eq_mult_div [symmetric])

lemma c_int_id: "- (2 ^ 31) \<le> x \<Longrightarrow> x < 2 ^ 31 \<Longrightarrow> c_int x = x"
  unfolding c_int_def by (rule signed_take_bit_int_eq_self) auto

definition ms_used :: "timespec \<Rightarrow> timespec \<Rightarrow> int" where
  "ms_used now begin = 1000 * (tv_sec now - tv_sec begin) + (tv_nsec now - tv_nsec begin) sdiv 1000000"

lemma ms_used_nanos: "\<bar>nanos now - nanos begin - ms_used now begin * 1000000\<bar> < 1000000"
  using sdiv_million [of "tv_nsec now - tv_nsec begin"] unfolding nanos_def ms_used_def by (simp add: algebra_simps)

lemma next_timeout_bounds:
  assumes "s_timeout s = T" "s_begin s = t0" "0 < T" "T < 2 ^ 31" "0 \<le> response" "0 \<le> ms_used now t0" "ms_used now t0 < 2 ^ 31"
    "next_timeout now response s = (x, s')"
  shows "0 \<le> x \<and> x \<le> response \<and> (x = 0 \<or> ms_used now t0 + x \<le> T) \<and> (s' = s \<or> s' = s\<lparr>s_timeout := 0\<rparr>)"
proof -
  have "c_int (ms_used now t0) = ms_used now t0" "c_int (T - ms_used now t0) = T - ms_used now t0"
    using assms(3,4,6,7) by (auto intro!: c_int_id)
  then show ?thesis using assms(1-3,5,8) by (auto simp: next_timeout_def Let_def ms_used_def split: if_splits)
qed

text \<open>The timeouts set while the parts of a message arrive at the given times.\<close>

fun set_timeouts :: "int \<Rightarrow> session_user \<Rightarrow> timespec list \<Rightarrow> comm_session \<Rightarrow> (timespec \<times> int) list" where
  "set_timeouts response u [] s = []"
| "set_timeouts response u (now # ts) s = (case part_timeout now response u s of
     (None, s') \<Rightarrow> set_timeouts response u ts s'
   | (Some x, s') \<Rightarrow> (now, x) # set_timeouts response u ts s')"

definition in_time :: "int \<Rightarrow> timespec \<Rightarrow> int \<Rightarrow> timespec \<times> int \<Rightarrow> bool" where
  "in_time T t0 response d \<longleftrightarrow> 0 \<le> snd d \<and> snd d \<le> response \<and>
     (snd d = 0 \<or> nanos (fst d) + snd d * 1000000 < nanos t0 + (T + 1) * 1000000)"

lemma set_timeouts_done: "s_timeout s = 0 \<Longrightarrow> set_timeouts response u ts s = []"
  by (induction ts) (auto simp: part_timeout_def)

lemma set_timeouts_in_time:
  assumes "s_timeout s = T" "s_begin s = t0" "0 < T" "T < 2 ^ 31" "0 \<le> response" "0 \<le> tv_sec t0"
    "\<forall>t \<in> set ts. 0 \<le> ms_used t t0 \<and> ms_used t t0 < 2 ^ 31" "d \<in> set (set_timeouts response u ts s)"
  shows "in_time T t0 response d"
  using assms(7,8)
proof (induction ts)
  case (Cons now ts)
  obtain x s' where n: "next_timeout now response s = (x, s')" by (cases "next_timeout now response s")
  have "0 \<le> ms_used now t0" "ms_used now t0 < 2 ^ 31" using Cons.prems(1) by auto
  from next_timeout_bounds [OF assms(1-5) this n] have
    b: "0 \<le> x" "x \<le> response" "x = 0 \<or> ms_used now t0 + x \<le> T" "s' = s \<or> s_timeout s' = 0" by auto
  have p: "part_timeout now response u s = (Some x, s')" using n assms(1-3,6) by (simp add: part_timeout_def)
  have "in_time T t0 response (now, x)"
  proof (cases "x = 0")
    case False
    with b(3) have "(ms_used now t0 + x) * 1000000 \<le> T * 1000000" by simp
    then show ?thesis using b(1,2) ms_used_nanos [of now t0] by (auto simp: in_time_def algebra_simps)
  qed (use b in \<open>simp add: in_time_def\<close>)
  moreover have "in_time T t0 response d" if "d \<in> set (set_timeouts response u ts s')"
    using b(4) that Cons set_timeouts_done [of s'] by auto
  ultimately show ?case using Cons.prems(2) p by auto
qed simp

text \<open>The unsigned comparison of \<open>first_timeout\<close>: a negative timeout counts as no limit.\<close>

lemma first_timeout_compare:
  assumes "0 \<le> response" "response < 2 ^ 31" "0 \<le> T" "T < 2 ^ 31"
  shows "(of_int T :: 32 word) \<le> of_int response \<longleftrightarrow> T \<le> response"
  using assms by (simp add: word_le_def uint_word_of_int)

text \<open>
  C24: when a session's receive timeout is \<open>T\<close> (not negative) and its target's response
  timeout \<open>R\<close>, then however the parts of the message arrive, every timeout that
  \<open>first_timeout_recv\<close> and \<open>append_message\<close> set is between 0 and \<open>R\<close>, or \<open>T\<close> itself when it
  is the smaller one, and, unless it is 0, runs out at most \<open>T\<close> milliseconds and one more
  after the beginning: no sequence of partial messages extends the total time.
\<close>

theorem receive_timeout_bounded:
  assumes "0 \<le> response" "response < 2 ^ 31" "0 \<le> u_receive u" "u_receive u < 2 ^ 31" "0 \<le> tv_sec t0"
    "\<forall>t \<in> set ts. 0 \<le> ms_used t t0 \<and> ms_used t t0 < 2 ^ 31"
  shows "case first_timeout_recv t0 response u s of (x, s') \<Rightarrow>
    \<forall>d \<in> set ((t0, x) # set_timeouts response u ts s'). in_time (u_receive u) t0 response d"
proof (cases "u_receive u \<le> response")
  case True
  then have "first_timeout_recv t0 response u s = (u_receive u, s\<lparr>s_timeout := 0\<rparr>)"
    using first_timeout_compare [OF assms(1-4)] by (simp add: first_timeout_recv_def first_timeout_def)
  then show ?thesis using assms(3) True by (simp add: set_timeouts_done in_time_def algebra_simps)
next
  case False
  define s' where "s' = s\<lparr>s_timeout := u_receive u, s_begin := t0\<rparr>"
  have f: "first_timeout_recv t0 response u s = (response, s')"
    using first_timeout_compare [OF assms(1-4)] False assms(1) by (simp add: first_timeout_recv_def first_timeout_def s'_def)
  have "in_time (u_receive u) t0 response d" if "d \<in> set (set_timeouts response u ts s')" for d
    by (rule set_timeouts_in_time [OF _ _ _ assms(4,1,5,6) that]) (use False assms(1) in \<open>simp_all add: s'_def\<close>)
  moreover have "in_time (u_receive u) t0 response (t0, response)" using False assms(1) by (simp add: in_time_def algebra_simps)
  ultimately show ?thesis using f by simp
qed

definition sample_user :: session_user where
  "sample_user = \<lparr>u_send = -1, u_receive = 5000, u_keep_alive = 60000, u_first = 0, u_out = 90, u_in = 91\<rparr>"

definition sample_csession :: comm_session where
  "sample_csession = \<lparr>s_target = 2, s_conn = 0, s_out = 0, s_in = 0, s_seq = 0, s_begin = Timespec 0 0, s_timeout = 0, s_passive = 0\<rparr>"

theorem receive_timeout_bounded_witness:
  "set_timeouts 2000 sample_user [Timespec 11 0, Timespec 14 500000000, Timespec 16 0] (snd (first_timeout_recv (Timespec 10 0) 2000 sample_user sample_csession)) =
     [(Timespec 11 0, 2000), (Timespec 14 500000000, 500)] \<and>
   in_time 5000 (Timespec 10 0) 2000 (Timespec 11 0, 2000) \<and> in_time 5000 (Timespec 10 0) 2000 (Timespec 14 500000000, 500)"
proof -
  let ?ts = "[Timespec 11 0, Timespec 14 500000000, Timespec 16 0]"
  have e: "set_timeouts 2000 sample_user ?ts (snd (first_timeout_recv (Timespec 10 0) 2000 sample_user sample_csession)) =
     [(Timespec 11 0, 2000), (Timespec 14 500000000, 500)]"
    by (simp add: first_timeout_recv_def first_timeout_def sample_user_def sample_csession_def part_timeout_def next_timeout_def
        c_int_def signed_divide_int_def word_le_def)
  have "\<forall>t \<in> set ?ts. 0 \<le> ms_used t (Timespec 10 0) \<and> ms_used t (Timespec 10 0) < 2 ^ 31"
    by (simp add: ms_used_def signed_divide_int_def)
  from receive_timeout_bounded [OF _ _ _ _ _ this, of 2000 sample_user sample_csession] e show ?thesis
    by (auto simp: sample_user_def split: prod.splits)
qed

end
