(* ===== verification/Comm_Send.thy ===== *)
theory Comm_Send
  imports Comm
begin

section \<open>The communicator: sending a message\<close>

text \<open>
  \<open>send_message_sync\<close>, \<open>send_message_async\<close>, \<open>send_message\<close> and
  \<open>reply_message_unreliable\<close> of \<open>src/src/kernel/communicator.cc\<close>. The buffers are byte
  lists, as in the poller's write handler; \<open>ws\<close> are the answers of \<open>writev\<close>, \<open>Inl e\<close> for a
  failure with \<open>errno = e\<close>.
\<close>

definition EOVERFLOW_code :: int where "EOVERFLOW_code = 75"
definition ENCODE_IOV_MAX :: int where "ENCODE_IOV_MAX = 2048"

text \<open>The writing loop: its result, the buffers left, and the \<open>errno\<close> it leaves.\<close>

fun sync_loop :: "(int + nat) list \<Rightarrow> nat list list \<Rightarrow> int \<Rightarrow> (int \<times> nat list list \<times> int) option" where
  "sync_loop ws [] err = Some (0, [], err)"
| "sync_loop [] (v # vs) err = None"
| "sync_loop (Inl e # ws) (v # vs) err = Some (if e = errno_code EAGAIN then int (length (v # vs)) else -1, v # vs, e)"
| "sync_loop (Inr n # ws) (v # vs) err = sync_loop ws (iov_advance n (v # vs)) err"

text \<open>What follows when everything is sent, on a server connection and on a client's.\<close>

definition sent_reply :: "session_user \<Rightarrow> addr \<Rightarrow> comm \<Rightarrow> comm option" where
  "sent_reply u a c = do {
     e \<leftarrow> conns c a;
     v \<leftarrow> cservices c (e_service e);
     c \<leftarrow> upd_conn a (\<lambda>x. x\<lparr>e_ref := e_ref x + 1\<rparr>) c;
     if u_keep_alive u = 0 then upd_conn a (\<lambda>x. x\<lparr>e_state := CONN_STATE_CLOSING\<rparr>) (poll (Pdel (e_sockfd e)) c)
     else do {
       let c = poll (Pset (e_sockfd e) (u_keep_alive u)) c;
       if v_listen_fd v \<ge> 0 then do {
         c \<leftarrow> upd_conn a (\<lambda>x. x\<lparr>e_state := CONN_STATE_KEEPALIVE\<rparr>) c;
         set_cmem (list_add_tail (e_service e) a (cmem c)) c
       } else Some c
     }
   }"

definition sent_request :: "timespec \<Rightarrow> session_user \<Rightarrow> addr \<Rightarrow> comm \<Rightarrow> comm option" where
  "sent_request now u a c = do {
     e \<leftarrow> conns c a;
     c \<leftarrow> (if e_state e = CONN_STATE_IDLE then do {
             s \<leftarrow> csessions c (e_session e);
             response \<leftarrow> session_response s c;
             let (timeout, s') = reply_timeout now response u s;
             c \<leftarrow> upd_csession (e_session e) (\<lambda>_. s') c;
             Some (poll (Pset (e_sockfd e) timeout) c)
           } else Some c);
     upd_conn a (\<lambda>x. x\<lparr>e_state := CONN_STATE_RECEIVING\<rparr>) c
   }"

definition send_message_sync ::
  "(int + nat) list \<Rightarrow> timespec \<Rightarrow> session_user \<Rightarrow> nat list list \<Rightarrow> addr \<Rightarrow> comm \<Rightarrow> (int \<times> nat list list \<times> comm) option" where
  "send_message_sync ws now u vectors a c = do {
     e \<leftarrow> conns c a;
     (ret, rest, err) \<leftarrow> sync_loop ws vectors (cerrno c);
     let c = c\<lparr>cerrno := err\<rparr>;
     if rest \<noteq> [] then Some (ret, rest, c)
     else do {
       c \<leftarrow> (if e_service e \<noteq> NULL then sent_reply u a c else sent_request now u a c);
       Some (0, [], c)
     }
   }"

text \<open>
  \<open>send_message_async\<close>: \<open>malloced\<close> says whether the copy of the vectors was allocated,
  \<open>pret\<close> is the result of \<open>mpoller_mod\<close> or \<open>mpoller_add\<close>, which sets \<open>errno\<close> to \<open>perr\<close> on
  failure.
\<close>

definition send_message_async ::
  "bool \<Rightarrow> int \<Rightarrow> int \<Rightarrow> timespec \<Rightarrow> session_user \<Rightarrow> nat list list \<Rightarrow> addr \<Rightarrow> comm \<Rightarrow> (int \<times> comm) option" where
  "send_message_async malloced pret perr now u vectors a c =
     (if \<not> malloced then do { c \<leftarrow> upd_conn a (\<lambda>x. x\<lparr>e_iov := []\<rparr>) c; Some (-1, c) }
      else do {
        c \<leftarrow> upd_conn a (\<lambda>x. x\<lparr>e_iov := vectors\<rparr>) c;
        e \<leftarrow> conns c a;
        s \<leftarrow> csessions c (e_session e);
        response \<leftarrow> session_response s c;
        let (timeout, s') = first_timeout_send now response u s;
        c \<leftarrow> upd_csession (e_session e) (\<lambda>_. s') c;
        c \<leftarrow> (if e_state e = CONN_STATE_IDLE then do {
                let c = poll (Pmod PD_OP_WRITE (e_sockfd e) timeout pret) c;
                let c = (if pret < 0 then c\<lparr>cerrno := perr\<rparr> else c);
                if pret < 0 \<and> perr = errno_code ENOENT then upd_conn a (\<lambda>x. x\<lparr>e_state := CONN_STATE_RECEIVING\<rparr>) c else Some c
              } else do {
                let c = poll (Padd PD_OP_WRITE (e_sockfd e) timeout pret) c;
                let c = (if pret < 0 then c\<lparr>cerrno := perr\<rparr> else c);
                Some (if pret \<ge> 0 \<and> stop_flag c then poll (Pdel (e_sockfd e)) c else c)
              });
        if pret < 0 then do {
          c \<leftarrow> upd_conn a (\<lambda>x. x\<lparr>e_iov := []\<rparr>) c;
          e \<leftarrow> conns c a;
          Some (if e_state e \<noteq> CONN_STATE_RECEIVING then -1 else 1, c)
        } else Some (1, c)
      })"

text \<open>\<open>encoded\<close> is the result of \<open>encode\<close> and \<open>vectors\<close> the vectors it filled in.\<close>

definition bad_encoding :: "int \<Rightarrow> comm \<Rightarrow> comm option" where
  "bad_encoding encoded c =
     (if (of_int encoded :: 32 word) > of_int ENCODE_IOV_MAX
      then Some (if encoded > ENCODE_IOV_MAX then c\<lparr>cerrno := EOVERFLOW_code\<rparr> else c) else None)"

record send_answers =
  sa_encoded :: int
  sa_vectors :: "nat list list"
  sa_writes :: "(int + nat) list"
  sa_malloced :: bool
  sa_poll :: int
  sa_poll_errno :: int
  sa_sendmsg :: int
  sa_sendmsg_errno :: int

definition send_message :: "send_answers \<Rightarrow> timespec \<Rightarrow> session_user \<Rightarrow> addr \<Rightarrow> comm \<Rightarrow> (int \<times> comm) option" where
  "send_message ans now u a c = (case bad_encoding (sa_encoded ans) c of
       Some c \<Rightarrow> Some (-1, c)
     | None \<Rightarrow> do {
         (cnt, rest, c) \<leftarrow> send_message_sync (sa_writes ans) now u (sa_vectors ans) a c;
         if cnt \<le> 0 then Some (cnt, c)
         else send_message_async (sa_malloced ans) (sa_poll ans) (sa_poll_errno ans) now u rest a c
       })"

definition reply_message_unreliable :: "send_answers \<Rightarrow> comm \<Rightarrow> int \<times> comm" where
  "reply_message_unreliable ans c = (case bad_encoding (sa_encoded ans) c of
       Some c \<Rightarrow> (-1, c)
     | None \<Rightarrow>
         if sa_encoded ans > 0 \<and> sa_sendmsg ans < 0 then (-1, c\<lparr>cerrno := sa_sendmsg_errno ans\<rparr>) else (0, c))"

subsection \<open>Bytes\<close>

text \<open>The loop does what the poller's write loop does.\<close>

lemma sync_loop_write_loop:
  "sync_loop ws iov err = map_option (\<lambda>(r, rest, n, e). (if rest = [] then 0 else if r = 0 then int (length rest) else -1, rest, e))
     (write_loop ws iov n err)"
  by (induction ws iov n err rule: write_loop.induct) auto

lemma sync_loop_outcome:
  assumes "\<exists>e. Inl e \<in> set ws"
  shows "\<exists>rest e. sync_loop ws iov err = Some (if rest = [] then 0 else if first_error ws = errno_code EAGAIN then int (length rest) else -1, rest, e) \<and>
    concat rest = drop (written ws) (concat iov) \<and> (rest \<noteq> [] \<longrightarrow> e = first_error ws)"
proof -
  from write_loop_returns [OF assms, of iov 0 err] obtain r rest n e where w: "write_loop ws iov 0 err = Some (r, rest, n, e)" by auto
  show ?thesis
    using sync_loop_write_loop [of ws iov err 0] w write_loop_rest [OF w] write_loop_outcome [OF w]
    by (intro exI [of _ rest] exI [of _ e]) (auto split: if_splits)
qed

lemma good_encoding: "0 \<le> n \<Longrightarrow> n \<le> ENCODE_IOV_MAX \<Longrightarrow> bad_encoding n c = None"
  by (simp add: bad_encoding_def ENCODE_IOV_MAX_def word_less_def uint_word_of_int)

text \<open>A client connection with its session and target.\<close>

definition client_conn :: "addr \<Rightarrow> conn_entry \<Rightarrow> comm_session \<Rightarrow> comm \<Rightarrow> bool" where
  "client_conn a e s c \<longleftrightarrow> conns c a = Some e \<and> e_service e = NULL \<and> csessions c (e_session e) = Some s \<and> ctargets c (s_target s) \<noteq> None"

lemma sent_request_correct:
  assumes "client_conn a e s c"
  shows "\<exists>c'. sent_request now u a c = Some c' \<and> conns c' a = Some (e\<lparr>e_state := CONN_STATE_RECEIVING\<rparr>) \<and>
    (if e_state e = CONN_STATE_IDLE
     then \<exists>t. ctargets c (s_target s) = Some t \<and>
       pcalls c' = pcalls c @ [Pset (e_sockfd e) (fst (reply_timeout now (t_response t) u s))] \<and>
       csessions c' (e_session e) = Some (snd (reply_timeout now (t_response t) u s))
     else pcalls c' = pcalls c \<and> csessions c' = csessions c)"
  using assms
  by (auto simp: client_conn_def sent_request_def session_response_def upd_csession_def upd_conn_def poll_def Let_def case_prod_beta)

lemma send_async_correct:
  assumes "client_conn a e s c" "pret \<ge> 0"
  shows "\<exists>c' x. send_message_async True pret perr now u vs a c = Some (1, c') \<and> conns c' a = Some (e\<lparr>e_iov := vs\<rparr>) \<and>
    pcalls c' = pcalls c @ (if e_state e = CONN_STATE_IDLE then [Pmod PD_OP_WRITE (e_sockfd e) x pret]
      else Padd PD_OP_WRITE (e_sockfd e) x pret # (if stop_flag c then [Pdel (e_sockfd e)] else []))"
  using assms
  by (auto simp: client_conn_def send_message_async_def session_response_def upd_csession_def upd_conn_def poll_def Let_def case_prod_beta)


definition sample_entry :: conn_entry where
  "sample_entry = \<lparr>e_conn = 80, e_seq = 0, e_sockfd = 9, e_state = CONN_STATE_IDLE, e_error = 0, e_ref = 1, e_iov = [],
     e_session = 3, e_target = 2, e_service = NULL\<rparr>"

definition sample_comm :: comm where
  "sample_comm = \<lparr>conns = [5 \<mapsto> sample_entry], csessions = [3 \<mapsto> sample_csession],
     ctargets = [2 \<mapsto> \<lparr>t_connect = 1000, t_response = 2000, t_service = NULL, t_ref = 0, t_sockfd = 0\<rparr>],
     cservices = Map.empty, msg_entry = (\<lambda>_. NULL), cmem = list_heap, pcalls = [], handles = [], releases = [], unbounds = [], stops = [],
     closed = [], stop_flag = False, cerrno = 0\<rparr>"

definition sample_sends :: send_answers where
  "sample_sends = \<lparr>sa_encoded = 2, sa_vectors = [[1, 2, 3], [4, 5]], sa_writes = [Inr 2, Inr 2, Inl 11], sa_malloced = True,
     sa_poll = 0, sa_poll_errno = 0, sa_sendmsg = 0, sa_sendmsg_errno = 0\<rparr>"


end
