(* ===== verification/Comm_Handlers.thy ===== *)
theory Comm_Handlers
  imports Comm_Send
begin

section \<open>The communicator: results of the poller\<close>

text \<open>
  The functions of \<open>src/src/kernel/communicator.cc\<close> that the handler threads run on a
  result of the poller. A handler of a read result is its section under the locks, which
  gives what is left to do (\<open>todo\<close>), and the rest, which runs without them.
\<close>

record presult =
  r_state :: int
  r_error :: int
  r_entry :: addr

record todo =
  td_entry :: bool
  td_session :: addr
  td_state :: int
  td_error :: int

definition ECONNRESET_code :: int where "ECONNRESET_code = 104"
definition EBADMSG_code :: int where "EBADMSG_code = 74"
definition ECANCELED_code :: int where "ECANCELED_code = 125"

text \<open>The error and the state of a result that ends a connection.\<close>

definition end_error :: "presult \<Rightarrow> int" where
  "end_error r = (if r_state r = PR_ST_FINISHED then ECONNRESET_code else r_error r)"

definition end_state :: "presult \<Rightarrow> int" where
  "end_state r = (if r_state r = PR_ST_FINISHED \<or> r_state r = PR_ST_ERROR then CS_STATE_ERROR else CS_STATE_STOPPED)"

definition is_end :: "int \<Rightarrow> bool" where
  "is_end st \<longleftrightarrow> st \<in> {PR_ST_FINISHED, PR_ST_ERROR, PR_ST_DELETED, PR_ST_STOPPED}"

type_synonym list_add_fun = "addr \<Rightarrow> addr \<Rightarrow> heap \<Rightarrow> heap option"
type_synonym list_del_fun = "addr \<Rightarrow> heap \<Rightarrow> heap option"

subsection \<open>A request coming in\<close>

definition request_section :: "list_add_fun \<Rightarrow> list_del_fun \<Rightarrow> presult \<Rightarrow> comm \<Rightarrow> (todo \<times> comm) option" where
  "request_section ladd ldel r c = do {
     let a = r_entry r;
     e \<leftarrow> conns c a;
     if r_state r = PR_ST_SUCCESS then do {
       c \<leftarrow> (if e_state e = CONN_STATE_SUCCESS then do {
               c \<leftarrow> upd_conn a (\<lambda>x. x\<lparr>e_ref := e_ref x + 1, e_state := CONN_STATE_IDLE\<rparr>) c;
               set_cmem (ladd a (e_target e) (cmem c)) c
             } else Some c);
       c \<leftarrow> upd_csession (e_session e) (\<lambda>x. x\<lparr>s_passive := 2\<rparr>) c;
       Some (\<lparr>td_entry = True, td_session = e_session e, td_state = CS_STATE_TOREPLY, td_error = r_error r\<rparr>, c)
     } else if is_end (r_state r) then
       (let td = \<lparr>td_entry = True, td_session = NULL, td_state = end_state r, td_error = end_error r\<rparr>
        in case e_state e of
            CONN_STATE_KEEPALIVE \<Rightarrow> do { c \<leftarrow> set_cmem (ldel a (cmem c)) c; Some (td, c) }
          | CONN_STATE_IDLE \<Rightarrow> do { c \<leftarrow> set_cmem (ldel a (cmem c)) c; Some (td, c) }
          | CONN_STATE_ERROR \<Rightarrow> Some (td\<lparr>td_error := e_error e, td_state := CS_STATE_ERROR, td_session := e_session e\<rparr>, c)
          | CONN_STATE_RECEIVING \<Rightarrow> Some (td\<lparr>td_session := e_session e\<rparr>, c)
          | CONN_STATE_SUCCESS \<Rightarrow> do {
              c \<leftarrow> upd_conn a (\<lambda>x. x\<lparr>e_state := CONN_STATE_CLOSING\<rparr>) c;
              Some (td\<lparr>td_entry := False\<rparr>, c)
            }
          | _ \<Rightarrow> Some (td, c))
     else Some (\<lparr>td_entry = True, td_session = NULL, td_state = 0, td_error = r_error r\<rparr>, c)
   }"

text \<open>\<open>if (__sync_sub_and_fetch(&entry->ref, 1) == 0) __release_conn(entry);\<close>\<close>

definition drop_ref :: "addr \<Rightarrow> comm \<Rightarrow> (bool \<times> comm) option" where
  "drop_ref a c = do {
     e \<leftarrow> conns c a;
     c \<leftarrow> upd_conn a (\<lambda>x. x\<lparr>e_ref := e_ref x - 1\<rparr>) c;
     if e_ref e - 1 = 0 then do { c \<leftarrow> release_conn a c; Some (True, c) } else Some (False, c)
   }"

definition drop_server_ref :: "addr \<Rightarrow> comm \<Rightarrow> comm option" where
  "drop_server_ref a c = do {
     e \<leftarrow> conns c a;
     (released, c) \<leftarrow> drop_ref a c;
     if released then starget_decref (e_target e) c else Some c
   }"

definition request_finish :: "addr \<Rightarrow> todo \<Rightarrow> comm \<Rightarrow> comm option" where
  "request_finish a td c =
     (if \<not> td_entry td then Some c
      else drop_server_ref a (if td_session td \<noteq> NULL then session_handle (td_session td) (td_state td) (td_error td) c else c))"

definition handle_incoming_request :: "list_add_fun \<Rightarrow> list_del_fun \<Rightarrow> presult \<Rightarrow> comm \<Rightarrow> comm option" where
  "handle_incoming_request ladd ldel r c = do {
     (td, c) \<leftarrow> request_section ladd ldel r c;
     request_finish (r_entry r) td c
   }"

subsection \<open>A reply coming in\<close>

definition reply_section :: "list_add_fun \<Rightarrow> list_del_fun \<Rightarrow> presult \<Rightarrow> comm \<Rightarrow> (todo \<times> comm) option" where
  "reply_section ladd ldel r c = do {
     let a = r_entry r;
     e \<leftarrow> conns c a;
     if r_state r = PR_ST_SUCCESS then do {
       c \<leftarrow> (if e_state e = CONN_STATE_SUCCESS then do {
               s \<leftarrow> csessions c (e_session e);
               if s_timeout s \<noteq> 0 then do {
                 c \<leftarrow> upd_conn a (\<lambda>x. x\<lparr>e_ref := e_ref x + 1, e_state := CONN_STATE_IDLE\<rparr>) c;
                 set_cmem (ladd a (e_target e) (cmem c)) c
               } else upd_conn a (\<lambda>x. x\<lparr>e_ref := e_ref x + 1, e_state := CONN_STATE_CLOSING\<rparr>) c
             } else Some c);
       Some (\<lparr>td_entry = True, td_session = e_session e, td_state = CS_STATE_SUCCESS, td_error = r_error r\<rparr>, c)
     } else if is_end (r_state r) then
       (let td = \<lparr>td_entry = True, td_session = NULL, td_state = end_state r, td_error = end_error r\<rparr>
        in case e_state e of
            CONN_STATE_IDLE \<Rightarrow> do { c \<leftarrow> set_cmem (ldel a (cmem c)) c; Some (td, c) }
          | CONN_STATE_ERROR \<Rightarrow> Some (td\<lparr>td_error := e_error e, td_state := CS_STATE_ERROR, td_session := e_session e\<rparr>, c)
          | CONN_STATE_RECEIVING \<Rightarrow> Some (td\<lparr>td_session := e_session e\<rparr>, c)
          | CONN_STATE_SUCCESS \<Rightarrow> do {
              c \<leftarrow> upd_conn a (\<lambda>x. x\<lparr>e_state := CONN_STATE_CLOSING\<rparr>) c;
              Some (td\<lparr>td_entry := False\<rparr>, c)
            }
          | _ \<Rightarrow> Some (td, c))
     else Some (\<lparr>td_entry = True, td_session = NULL, td_state = 0, td_error = r_error r\<rparr>, c)
   }"

text \<open>\<open>target\<close> was read before the section.\<close>

definition reply_finish :: "addr \<Rightarrow> addr \<Rightarrow> todo \<Rightarrow> comm \<Rightarrow> comm option" where
  "reply_finish a t td c =
     (if \<not> td_entry td then Some c
      else do {
        let c = (if td_session td \<noteq> NULL
                 then session_handle (td_session td) (td_state td) (td_error td) (c\<lparr>releases := releases c @ [t]\<rparr>) else c);
        (_, c) \<leftarrow> drop_ref a c;
        Some c
      })"

definition handle_incoming_reply :: "list_add_fun \<Rightarrow> list_del_fun \<Rightarrow> presult \<Rightarrow> comm \<Rightarrow> comm option" where
  "handle_incoming_reply ladd ldel r c = do {
     e \<leftarrow> conns c (r_entry r);
     (td, c) \<leftarrow> reply_section ladd ldel r c;
     reply_finish (r_entry r) (e_target e) td c
   }"

definition handle_read_result :: "list_add_fun \<Rightarrow> list_del_fun \<Rightarrow> presult \<Rightarrow> comm \<Rightarrow> comm option" where
  "handle_read_result ladd ldel r c =
     (if r_state r = PR_ST_MODIFIED then Some c
      else do {
        e \<leftarrow> conns c (r_entry r);
        if e_service e \<noteq> NULL then handle_incoming_request ladd ldel r c
        else handle_incoming_reply ladd ldel r c
      })"

subsection \<open>A message written\<close>

text \<open>\<open>pret\<close> is the result of \<open>mpoller_add\<close>, \<open>perr\<close> the \<open>errno\<close> when it fails.\<close>

definition keep_reply_conn :: "int \<Rightarrow> int \<Rightarrow> session_user \<Rightarrow> addr \<Rightarrow> comm \<Rightarrow> comm option" where
  "keep_reply_conn pret perr u a c = do {
     e \<leftarrow> conns c a;
     let timeout = u_keep_alive u;
     if timeout \<noteq> 0 then do {
       c \<leftarrow> upd_conn a (\<lambda>x. x\<lparr>e_ref := e_ref x + 1\<rparr>) c;
       let c = poll (Padd PD_OP_READ (e_sockfd e) timeout pret) c;
       if pret \<ge> 0 then do {
         v \<leftarrow> cservices c (e_service e);
         if \<not> stop_flag c \<and> v_listen_fd v \<ge> 0 then do {
           c \<leftarrow> upd_conn a (\<lambda>x. x\<lparr>e_state := CONN_STATE_KEEPALIVE\<rparr>) c;
           set_cmem (list_add_tail a (e_service e) (cmem c)) c
         } else upd_conn a (\<lambda>x. x\<lparr>e_state := CONN_STATE_CLOSING\<rparr>) (poll (Pdel (e_sockfd e)) c)
       } else upd_conn a (\<lambda>x. x\<lparr>e_ref := e_ref x - 1\<rparr>) (c\<lparr>cerrno := perr\<rparr>)
     } else Some c
   }"

definition reply_result :: "int \<Rightarrow> int \<Rightarrow> session_user \<Rightarrow> presult \<Rightarrow> comm \<Rightarrow> (todo \<times> comm) option" where
  "reply_result pret perr u r c = do {
     let a = r_entry r;
     e \<leftarrow> conns c a;
     c \<leftarrow> (if r_state r = PR_ST_FINISHED then keep_reply_conn pret perr u a c else Some c);
     let state = (if r_state r = PR_ST_FINISHED then CS_STATE_SUCCESS else end_state r);
     Some (\<lparr>td_entry = True, td_session = e_session e, td_state = state, td_error = r_error r\<rparr>, c)
   }"

definition handle_reply_result :: "int \<Rightarrow> int \<Rightarrow> session_user \<Rightarrow> presult \<Rightarrow> comm \<Rightarrow> comm option" where
  "handle_reply_result pret perr u r c = do {
     if is_end (r_state r) then do {
       (td, c) \<leftarrow> reply_result pret perr u r c;
       drop_server_ref (r_entry r) (session_handle (td_session td) (td_state td) (td_error td) c)
     } else Some c
   }"

text \<open>What a request that failed ends with.\<close>

definition fail_request :: "addr \<Rightarrow> int \<Rightarrow> int \<Rightarrow> comm \<Rightarrow> comm option" where
  "fail_request a state err c = do {
     e \<leftarrow> conns c a;
     (_, c) \<leftarrow> drop_ref a (session_handle (e_session e) state err (c\<lparr>releases := releases c @ [e_target e]\<rparr>));
     Some c
   }"

text \<open>Waiting for the reply: the timeout is set and the connection is added for reading.\<close>

definition await_reply :: "int \<Rightarrow> int \<Rightarrow> timespec \<Rightarrow> session_user \<Rightarrow> addr \<Rightarrow> comm \<Rightarrow> comm option" where
  "await_reply pret perr now u a c = do {
     e \<leftarrow> conns c a;
     s \<leftarrow> csessions c (e_session e);
     response \<leftarrow> session_response s c;
     let (timeout, s') = reply_timeout now response u s;
     c \<leftarrow> upd_csession (e_session e) (\<lambda>_. s') c;
     let c = poll (Padd PD_OP_READ (e_sockfd e) timeout pret) c;
     Some (if pret \<ge> 0 then (if stop_flag c then poll (Pdel (e_sockfd e)) c else c) else c\<lparr>cerrno := perr\<rparr>)
   }"

definition handle_request_result :: "int \<Rightarrow> int \<Rightarrow> timespec \<Rightarrow> session_user \<Rightarrow> presult \<Rightarrow> comm \<Rightarrow> comm option" where
  "handle_request_result pret perr now u r c = do {
     let a = r_entry r;
     if r_state r = PR_ST_FINISHED then do {
       c \<leftarrow> upd_conn a (\<lambda>x. x\<lparr>e_state := CONN_STATE_RECEIVING\<rparr>) c;
       c \<leftarrow> await_reply pret perr now u a c;
       if pret \<ge> 0 then Some c else fail_request a CS_STATE_ERROR (cerrno c) c
     } else if is_end (r_state r) then fail_request a (end_state r) (r_error r) c
     else Some c
   }"

definition handle_write_result :: "int \<Rightarrow> int \<Rightarrow> timespec \<Rightarrow> session_user \<Rightarrow> presult \<Rightarrow> comm \<Rightarrow> comm option" where
  "handle_write_result pret perr now u r c = do {
     c \<leftarrow> upd_conn (r_entry r) (\<lambda>x. x\<lparr>e_iov := []\<rparr>) c;
     e \<leftarrow> conns c (r_entry r);
     if e_service e \<noteq> NULL then handle_reply_result pret perr u r c
     else handle_request_result pret perr now u r c
   }"

subsection \<open>Connecting\<close>

definition fail_connect :: "addr \<Rightarrow> int \<Rightarrow> int \<Rightarrow> comm \<Rightarrow> comm option" where
  "fail_connect a state err c = do {
     e \<leftarrow> conns c a;
     release_conn a (session_handle (e_session e) state err (c\<lparr>releases := releases c @ [e_target e]\<rparr>))
   }"

text \<open>\<open>oerr\<close> is the \<open>errno\<close> that a failing \<open>message_out\<close> leaves.\<close>

definition handle_connect_result ::
  "send_answers \<Rightarrow> int \<Rightarrow> int \<Rightarrow> int \<Rightarrow> timespec \<Rightarrow> session_user \<Rightarrow> presult \<Rightarrow> comm \<Rightarrow> comm option" where
  "handle_connect_result ans oerr pret perr now u r c = do {
     let a = r_entry r;
     e \<leftarrow> conns c a;
     if r_state r = PR_ST_FINISHED then do {
       c \<leftarrow> upd_csession (e_session e) (\<lambda>x. x\<lparr>s_out := u_out u\<rparr>) c;
       if u_out u = NULL then fail_connect a CS_STATE_ERROR oerr (c\<lparr>cerrno := oerr\<rparr>)
       else do {
         (ret, c) \<leftarrow> send_message ans now u a c;
         if ret = 0 then do {
           c \<leftarrow> await_reply pret perr now u a c;
           if pret \<ge> 0 then Some c else fail_connect a CS_STATE_ERROR (cerrno c) c
         } else if ret > 0 then Some c
         else fail_connect a CS_STATE_ERROR (cerrno c) c
       }
     } else if is_end (r_state r) then fail_connect a (end_state r) (r_error r) c
     else Some c
   }"

end
