(* ===== verification/Comm_Service.thy ===== *)
theory Comm_Service
  imports Comm_Handlers
begin

section \<open>The communicator: the server's side\<close>

text \<open>
  The functions of \<open>src/src/kernel/communicator.cc\<close> that a service uses: listening,
  accepting a connection or a datagram, the messages of a request, the reply and the
  shutdown. The addresses that \<open>new\<close> and \<open>malloc\<close> return, \<open>NULL\<close> on failure, and the
  results of the system calls and of the user's virtual functions are arguments;
  \<open>new_session\<close> and \<open>new_connection\<close> are \<open>None\<close> and \<open>NULL\<close> when they fail.
\<close>

subsection \<open>Accepting\<close>

definition accept :: "addr \<Rightarrow> bool \<Rightarrow> int \<Rightarrow> addr \<Rightarrow> comm \<Rightarrow> (addr \<times> comm) option" where
  "accept t malloced sockfd v c = do {
     x \<leftarrow> cservices c v;
     if t = NULL then Some (NULL, c\<lparr>closed := closed c @ [sockfd]\<rparr>)
     else do {
       let c = alloc_links t (c\<lparr>ctargets := (ctargets c)(t \<mapsto> \<lparr>t_connect = 0, t_response = 0, t_service = NULL, t_ref = 0, t_sockfd = 0\<rparr>)\<rparr>);
       (ret, c) \<leftarrow> commtarget_init malloced 0 (v_response x) t c;
       if ret \<ge> 0 then do {
         c \<leftarrow> service_incref v c;
         c \<leftarrow> upd_ctarget t (\<lambda>y. y\<lparr>t_service := v, t_sockfd := sockfd, t_ref := 1\<rparr>) c;
         Some (t, c)
       } else Some (NULL, free_links t (c\<lparr>ctargets := (ctargets c)(t := None), closed := closed c @ [sockfd]\<rparr>))
     }
   }"

text \<open>\<open>nb\<close> is the result of \<open>__set_fd_nonblock\<close>, \<open>a\<close> that of \<open>malloc\<close>, \<open>conn\<close> that of \<open>new_connection\<close>.\<close>

definition accept_conn :: "int \<Rightarrow> addr \<Rightarrow> addr \<Rightarrow> addr \<Rightarrow> addr \<Rightarrow> comm \<Rightarrow> (addr \<times> comm) option" where
  "accept_conn nb a conn t v c = do {
     x \<leftarrow> ctargets c t;
     if nb \<ge> 0 \<and> a \<noteq> NULL \<and> conn \<noteq> NULL
     then Some (a, alloc_links a (c\<lparr>conns := (conns c)(a \<mapsto>
       \<lparr>e_conn = conn, e_seq = 0, e_sockfd = t_sockfd x, e_state = CONN_STATE_CONNECTED, e_error = 0, e_ref = 1, e_iov = [],
        e_session = NULL, e_target = t, e_service = v\<rparr>)\<rparr>))
     else Some (NULL, c)
   }"

text \<open>\<open>v\<close> is the service in \<open>res->data.context\<close> and \<open>t\<close> the target in \<open>res->data.result\<close>.\<close>

definition handle_listen_result ::
  "int \<Rightarrow> addr \<Rightarrow> addr \<Rightarrow> int \<Rightarrow> int \<Rightarrow> int \<Rightarrow> int \<Rightarrow> addr \<Rightarrow> addr \<Rightarrow> comm \<Rightarrow> comm option" where
  "handle_listen_result nb a conn pret perr state err t v c =
     (if state = PR_ST_SUCCESS then do {
        x \<leftarrow> ctargets c t;
        (entry, c) \<leftarrow> accept_conn nb a conn t v c;
        if entry \<noteq> NULL then do {
          let c = poll (Padd PD_OP_READ (t_sockfd x) (t_response x) pret) c;
          if pret \<ge> 0 then Some (if stop_flag c then poll (Pdel (t_sockfd x)) c else c)
          else do { c \<leftarrow> release_conn entry (c\<lparr>cerrno := perr\<rparr>); starget_decref t c }
        } else starget_decref t (c\<lparr>closed := closed c @ [t_sockfd x]\<rparr>)
      }
      else if state = PR_ST_DELETED then shutdown_service v c
      else if state = PR_ST_ERROR \<or> state = PR_ST_STOPPED then Some (c\<lparr>stops := stops c @ [(v, err)]\<rparr>)
      else Some c)"

subsection \<open>The message of a request\<close>

text \<open>What \<open>create_request\<close> and \<open>recv_request\<close> set in the new session and the entry.\<close>

definition open_session :: "addr \<Rightarrow> comm_session \<Rightarrow> addr \<Rightarrow> comm \<Rightarrow> comm option" where
  "open_session s x a c = do {
     e \<leftarrow> conns c a;
     upd_conn a (\<lambda>y. y\<lparr>e_session := s, e_seq := e_seq y + 1\<rparr>)
       (c\<lparr>csessions := (csessions c)(s \<mapsto> x\<lparr>s_passive := 1, s_target := e_target e, s_conn := e_conn e, s_seq := e_seq e,
          s_out := NULL, s_in := NULL\<rparr>)\<rparr>)
   }"

definition set_in :: "addr \<Rightarrow> addr \<Rightarrow> addr \<Rightarrow> comm \<Rightarrow> comm option" where
  "set_in m s a c = (if m \<noteq> NULL then upd_csession s (\<lambda>x. x\<lparr>s_in := m\<rparr>) (c\<lparr>msg_entry := (msg_entry c)(m := a)\<rparr>) else Some c)"

definition create_request ::
  "list_del_fun \<Rightarrow> (addr \<times> comm_session) option \<Rightarrow> timespec \<Rightarrow> session_user \<Rightarrow> addr \<Rightarrow> comm \<Rightarrow> (addr \<times> comm) option" where
  "create_request ldel new_session now u a c = do {
     e \<leftarrow> conns c a;
     c \<leftarrow> (if e_state e = CONN_STATE_KEEPALIVE then set_cmem (ldel a (cmem c)) c else Some c);
     if e_state e \<noteq> CONN_STATE_KEEPALIVE \<and> e_state e \<noteq> CONN_STATE_CONNECTED then Some (NULL, c\<lparr>cerrno := EBADMSG_code\<rparr>)
     else case new_session of
         None \<Rightarrow> Some (NULL, c)
       | Some (s, x) \<Rightarrow> do {
           c \<leftarrow> open_session s x a c;
           x \<leftarrow> csessions c s;
           response \<leftarrow> session_response x c;
           let (timeout, x') = first_timeout_recv now response u x;
           c \<leftarrow> upd_csession s (\<lambda>_. x') c;
           c \<leftarrow> upd_conn a (\<lambda>y. y\<lparr>e_state := CONN_STATE_RECEIVING\<rparr>) (poll (Pset (e_sockfd e) timeout) c);
           c \<leftarrow> starget_incref (e_target e) c;
           c \<leftarrow> set_in (u_in u) s a c;
           Some (u_in u, c)
         }
   }"

text \<open>
  The loop of \<open>recv_request\<close>: each answer of \<open>append\<close> is its result, the bytes it took and
  the \<open>errno\<close> it left; the value is the last result and that \<open>errno\<close>.
\<close>

fun recv_loop :: "(int \<times> 64 word \<times> int) list \<Rightarrow> 64 word \<Rightarrow> (int \<times> int) option" where
  "recv_loop [] sz = None"
| "recv_loop ((ret, n, err) # as) sz =
     (if ret = 0 \<and> sz - n > 0 then recv_loop as (sz - n) else Some (ret, err))"

definition recv_request ::
  "(addr \<times> comm_session) option \<Rightarrow> (int \<times> 64 word \<times> int) list \<Rightarrow> 64 word \<Rightarrow> session_user \<Rightarrow> addr \<Rightarrow> comm \<Rightarrow> (int \<times> comm) option" where
  "recv_request new_session appends sz u a c = (case new_session of
       None \<Rightarrow> Some (-1, c)
     | Some (s, x) \<Rightarrow> do {
         e \<leftarrow> conns c a;
         c \<leftarrow> open_session s x a c;
         c \<leftarrow> upd_conn a (\<lambda>y. y\<lparr>e_state := CONN_STATE_RECEIVING\<rparr>) c;
         c \<leftarrow> starget_incref (e_target e) c;
         c \<leftarrow> set_in (u_in u) s a c;
         if u_in u \<noteq> NULL then do {
           (ret, err) \<leftarrow> recv_loop appends sz;
           c \<leftarrow> (if ret < 0 then upd_conn a (\<lambda>y. y\<lparr>e_error := err, e_state := CONN_STATE_ERROR\<rparr>) c
                 else if ret > 0 then upd_conn a (\<lambda>y. y\<lparr>e_state := CONN_STATE_SUCCESS\<rparr>) c
                 else Some c);
           Some (0, c)
         } else Some (0, c)
       })"

text \<open>A datagram: \<open>sockfd\<close> is the result of \<open>dup\<close>.\<close>

definition recvfrom ::
  "int \<Rightarrow> addr \<Rightarrow> bool \<Rightarrow> int \<Rightarrow> addr \<Rightarrow> addr \<Rightarrow> (addr \<times> comm_session) option \<Rightarrow> (int \<times> 64 word \<times> int) list \<Rightarrow> 64 word \<Rightarrow>
     session_user \<Rightarrow> addr \<Rightarrow> comm \<Rightarrow> (addr \<times> comm) option" where
  "recvfrom sockfd t malloced nb a conn new_session appends sz u v c =
     (if sockfd < 0 then Some (NULL, c)
      else do {
        (target, c) \<leftarrow> accept t malloced sockfd v c;
        if target = NULL then Some (NULL, c)
        else do {
          (entry, c) \<leftarrow> accept_conn nb a conn target v c;
          if entry = NULL then do {
            c \<leftarrow> starget_decref target (c\<lparr>closed := closed c @ [sockfd]\<rparr>);
            Some (NULL, c)
          } else do {
            (ret, c) \<leftarrow> recv_request new_session appends sz u entry c;
            if ret \<ge> 0 then Some (entry, c)
            else do {
              c \<leftarrow> release_conn entry c;
              c \<leftarrow> starget_decref target c;
              Some (NULL, c)
            }
          }
        }
      })"

text \<open>\<open>a\<close> is the entry in \<open>res->data.result\<close>.\<close>

definition handle_recvfrom_result :: "list_add_fun \<Rightarrow> int \<Rightarrow> int \<Rightarrow> addr \<Rightarrow> addr \<Rightarrow> comm \<Rightarrow> comm option" where
  "handle_recvfrom_result ladd state err a v c =
     (if state = PR_ST_SUCCESS then do {
        e \<leftarrow> conns c a;
        if e_state e = CONN_STATE_SUCCESS then do {
          c \<leftarrow> upd_conn a (\<lambda>x. x\<lparr>e_state := CONN_STATE_IDLE\<rparr>) c;
          c \<leftarrow> set_cmem (ladd a (e_target e) (cmem c)) c;
          Some (session_handle (e_session e) CS_STATE_TOREPLY 0 c)
        } else do {
          let error = (if e_state e = CONN_STATE_ERROR then e_error e else EBADMSG_code);
          c \<leftarrow> release_conn a (session_handle (e_session e) CS_STATE_ERROR error c);
          starget_decref (e_target e) c
        }
      }
      else if state = PR_ST_DELETED then shutdown_service v c
      else if state = PR_ST_ERROR \<or> state = PR_ST_STOPPED then Some (c\<lparr>stops := stops c @ [(v, err)]\<rparr>)
      else Some c)"

subsection \<open>Binding\<close>

definition EOPNOTSUPP_code :: int where "EOPNOTSUPP_code = 95"

text \<open>
  \<open>sockfd\<close> is the result of \<open>create_listen_fd\<close>, \<open>nb\<close> that of \<open>__set_fd_nonblock\<close>, \<open>bnd\<close> that
  of \<open>__bind_sockaddr\<close>, \<open>lst\<close> that of \<open>listen\<close>; \<open>err\<close> is the \<open>errno\<close> of the first call that
  fails.
\<close>

definition nonblock_listen :: "int \<Rightarrow> int \<Rightarrow> int \<Rightarrow> int \<Rightarrow> int \<Rightarrow> addr \<Rightarrow> comm \<Rightarrow> (int \<times> comm) option" where
  "nonblock_listen sockfd nb bnd lst err v c =
     (if sockfd < 0 then Some (-1, c\<lparr>cerrno := err\<rparr>)
      else if nb \<ge> 0 \<and> bnd \<ge> 0 \<and> (lst \<ge> 0 \<or> err = EOPNOTSUPP_code) then do {
        c \<leftarrow> upd_cservice v (\<lambda>x. x\<lparr>v_reliable := (lst \<ge> 0)\<rparr>) (if lst \<ge> 0 then c else c\<lparr>cerrno := err\<rparr>);
        Some (sockfd, c)
      } else Some (-1, c\<lparr>cerrno := err, closed := closed c @ [sockfd]\<rparr>))"

definition comm_bind :: "int \<Rightarrow> int \<Rightarrow> int \<Rightarrow> int \<Rightarrow> int \<Rightarrow> int \<Rightarrow> int \<Rightarrow> addr \<Rightarrow> comm \<Rightarrow> (int \<times> comm) option" where
  "comm_bind sockfd nb bnd lst err pret perr v c = do {
     let errno_bak = cerrno c;
     (sockfd, c) \<leftarrow> nonblock_listen sockfd nb bnd lst err v c;
     if sockfd \<ge> 0 then do {
       c \<leftarrow> upd_cservice v (\<lambda>x. x\<lparr>v_listen_fd := sockfd, v_ref := 1\<rparr>) c;
       x \<leftarrow> cservices c v;
       let c = poll (Padd (if v_reliable x then PD_OP_LISTEN else PD_OP_RECVFROM) sockfd (v_listen_timeout x) pret) c;
       Some (if pret \<ge> 0 then (0, c\<lparr>cerrno := errno_bak\<rparr>) else (-1, c\<lparr>cerrno := perr, closed := closed c @ [sockfd]\<rparr>))
     } else Some (-1, c)
   }"

text \<open>\<open>pret\<close> is the result of \<open>mpoller_del\<close>.\<close>

definition comm_unbind :: "int \<Rightarrow> addr \<Rightarrow> comm \<Rightarrow> comm option" where
  "comm_unbind pret v c = do {
     x \<leftarrow> cservices c v;
     let c = poll (Pdel (v_listen_fd x)) c;
     if pret < 0 then shutdown_service v c else Some c
   }"

subsection \<open>Replying\<close>

text \<open>The entry that the reply goes to: the first of the target's idle list, \<open>NULL\<close> when it is empty.\<close>

definition idle_pop :: "list_del_fun \<Rightarrow> addr \<Rightarrow> comm \<Rightarrow> (addr \<times> comm) option" where
  "idle_pop ldel t c = do {
     empty \<leftarrow> list_empty t (cmem c);
     if empty then Some (NULL, c)
     else do {
       pos \<leftarrow> load (t, nextf) (cmem c);
       c \<leftarrow> set_cmem (ldel pos (cmem c)) c;
       Some (pos, c)
     }
   }"

text \<open>
  Sending on an idle connection, for a request and for a reply: \<open>message_out\<close> (which leaves
  \<open>oerr\<close> in \<open>errno\<close> when it gives none), \<open>send_message\<close>, and the mark of an error.
\<close>

definition send_idle :: "send_answers \<Rightarrow> int \<Rightarrow> timespec \<Rightarrow> session_user \<Rightarrow> addr \<Rightarrow> addr \<Rightarrow> comm \<Rightarrow> (int \<times> comm) option" where
  "send_idle ans oerr now u s a c = do {
     c \<leftarrow> upd_csession s (\<lambda>x. x\<lparr>s_out := u_out u\<rparr>) c;
     (ret, c) \<leftarrow> (if u_out u \<noteq> NULL then send_message ans now u a c else Some (-1, c\<lparr>cerrno := oerr\<rparr>));
     if ret < 0 then do {
       e \<leftarrow> conns c a;
       c \<leftarrow> upd_conn a (\<lambda>x. x\<lparr>e_error := cerrno c, e_state := CONN_STATE_ERROR\<rparr>) (poll (Pdel (e_sockfd e)) c);
       Some (1, c)
     } else Some (ret, c)
   }"

definition reply_reliable ::
  "list_del_fun \<Rightarrow> send_answers \<Rightarrow> int \<Rightarrow> timespec \<Rightarrow> session_user \<Rightarrow> addr \<Rightarrow> addr \<Rightarrow> comm \<Rightarrow> (int \<times> comm) option" where
  "reply_reliable ldel ans oerr now u s t c = do {
     (a, c) \<leftarrow> idle_pop ldel t c;
     if a = NULL then Some (-1, c\<lparr>cerrno := errno_code ENOENT\<rparr>) else send_idle ans oerr now u s a c
   }"

definition reply_unreliable ::
  "list_del_fun \<Rightarrow> send_answers \<Rightarrow> int \<Rightarrow> session_user \<Rightarrow> addr \<Rightarrow> addr \<Rightarrow> comm \<Rightarrow> (int \<times> comm) option" where
  "reply_unreliable ldel ans oerr u s t c = do {
     (a, c) \<leftarrow> idle_pop ldel t c;
     if a = NULL then Some (-1, c\<lparr>cerrno := errno_code ENOENT\<rparr>)
     else do {
       c \<leftarrow> upd_csession s (\<lambda>x. x\<lparr>s_out := u_out u\<rparr>) c;
       let (ret, c) = (if u_out u \<noteq> NULL then reply_message_unreliable ans c else (-1, c\<lparr>cerrno := oerr\<rparr>));
       if ret \<ge> 0 then Some (0, c)
       else do {
         c \<leftarrow> release_conn a c;
         c \<leftarrow> starget_decref t c;
         Some (-1, c)
       }
     }
   }"

text \<open>Marking the session as replied and sending; the result decides what follows.\<close>

definition reply_send ::
  "list_del_fun \<Rightarrow> send_answers \<Rightarrow> int \<Rightarrow> timespec \<Rightarrow> session_user \<Rightarrow> addr \<Rightarrow> comm \<Rightarrow> (int \<times> comm) option" where
  "reply_send ldel ans oerr now u s c = do {
     c \<leftarrow> upd_csession s (\<lambda>x. x\<lparr>s_passive := 3\<rparr>) c;
     x \<leftarrow> csessions c s;
     t \<leftarrow> ctargets c (s_target x);
     v \<leftarrow> cservices c (t_service t);
     if v_reliable v then reply_reliable ldel ans oerr now u s (s_target x) c
     else reply_unreliable ldel ans oerr u s (s_target x) c
   }"

text \<open>What is left when the reply went out at once: \<open>a\<close> is \<open>session->in->entry\<close>, \<open>t\<close> the target.\<close>

definition reply_done :: "addr \<Rightarrow> addr \<Rightarrow> addr \<Rightarrow> comm \<Rightarrow> comm option" where
  "reply_done a t s c = do {
     (released, c) \<leftarrow> drop_ref a (session_handle s CS_STATE_SUCCESS 0 c);
     if released then starget_decref t c else Some c
   }"

definition reply ::
  "list_del_fun \<Rightarrow> send_answers \<Rightarrow> int \<Rightarrow> timespec \<Rightarrow> session_user \<Rightarrow> addr \<Rightarrow> comm \<Rightarrow> (int \<times> comm) option" where
  "reply ldel ans oerr now u s c = do {
     x \<leftarrow> csessions c s;
     if s_passive x \<noteq> 2 then Some (-1, c\<lparr>cerrno := errno_code EINVAL\<rparr>)
     else do {
       let errno_bak = cerrno c;
       (ret, c) \<leftarrow> reply_send ldel ans oerr now u s c;
       if ret = 0 then do {
         y \<leftarrow> csessions c s;
         c \<leftarrow> reply_done (msg_entry c (s_in y)) (s_target x) s c;
         Some (0, c\<lparr>cerrno := errno_bak\<rparr>)
       } else if ret < 0 then Some (-1, c)
       else Some (0, c\<lparr>cerrno := errno_bak\<rparr>)
     }
   }"

text \<open>\<open>fed\<close> is the result of the message's \<open>feedback\<close> (a virtual function), \<open>ferr\<close> its \<open>errno\<close>.\<close>

definition push :: "int \<Rightarrow> int \<Rightarrow> addr \<Rightarrow> comm \<Rightarrow> (int \<times> comm) option" where
  "push fed ferr s c = do {
     x \<leftarrow> csessions c s;
     if s_in x = NULL then Some (-1, c\<lparr>cerrno := errno_code ENOENT\<rparr>)
     else do {
       idle \<leftarrow> (if s_passive x = 2 then map_option Not (list_empty (s_target x) (cmem c)) else Some False);
       own \<leftarrow> (if s_passive x = 0 then map_option (\<lambda>e. e_session e = s) (conns c (msg_entry c (s_in x))) else Some False);
       Some (if idle \<or> own \<or> s_passive x = 1 then (fed, if fed < 0 then c\<lparr>cerrno := ferr\<rparr> else c)
             else (-1, c\<lparr>cerrno := errno_code ENOENT\<rparr>))
     }
   }"

definition shutdown :: "addr \<Rightarrow> comm \<Rightarrow> (int \<times> comm) option" where
  "shutdown s c = do {
     x \<leftarrow> csessions c s;
     if s_passive x \<noteq> 2 then Some (-1, c\<lparr>cerrno := errno_code EINVAL\<rparr>)
     else do {
       c \<leftarrow> upd_csession s (\<lambda>x. x\<lparr>s_passive := 3\<rparr>) c;
       (ret, c) \<leftarrow> starget_shutdown (s_target x) c;
       Some (if ret = 0 then (-1, c\<lparr>cerrno := errno_code ENOENT\<rparr>) else (0, c))
     }
   }"

end
