(* ===== verification/Comm_Request.thy ===== *)
theory Comm_Request
  imports Comm_Service
begin

section \<open>The communicator: the client's side\<close>

text \<open>
  \<open>create_reply\<close>, the launch of a connection and \<open>request\<close> of
  \<open>src/src/kernel/communicator.cc\<close>. \<open>sockfd\<close> is the result of \<open>create_connect_fd\<close>, \<open>nb\<close> that
  of \<open>__set_fd_nonblock\<close>, \<open>cn\<close> that of \<open>connect\<close>, \<open>err\<close> the \<open>errno\<close> of the first that fails;
  \<open>a\<close> is the result of \<open>malloc\<close>, \<open>mx\<close> that of \<open>pthread_mutex_init\<close>, \<open>conn\<close> that of
  \<open>new_connection\<close>.
\<close>

definition EINPROGRESS_code :: int where "EINPROGRESS_code = 115"

definition create_reply :: "session_user \<Rightarrow> addr \<Rightarrow> comm \<Rightarrow> (addr \<times> comm) option" where
  "create_reply u a c = do {
     e \<leftarrow> conns c a;
     if e_state e \<noteq> CONN_STATE_RECEIVING then Some (NULL, c\<lparr>cerrno := EBADMSG_code\<rparr>)
     else do {
       c \<leftarrow> set_in (u_in u) (e_session e) a c;
       Some (u_in u, c)
     }
   }"

subsection \<open>A new connection\<close>

definition nonblock_connect :: "int \<Rightarrow> int \<Rightarrow> int \<Rightarrow> int \<Rightarrow> comm \<Rightarrow> int \<times> comm" where
  "nonblock_connect sockfd nb cn err c =
     (if sockfd < 0 then (-1, c\<lparr>cerrno := err\<rparr>)
      else if nb \<ge> 0 \<and> (cn \<ge> 0 \<or> err = EINPROGRESS_code) then (sockfd, if cn \<ge> 0 then c else c\<lparr>cerrno := err\<rparr>)
      else (-1, c\<lparr>cerrno := err, closed := closed c @ [sockfd]\<rparr>))"

definition launch_conn ::
  "int \<Rightarrow> int \<Rightarrow> int \<Rightarrow> int \<Rightarrow> addr \<Rightarrow> int \<Rightarrow> addr \<Rightarrow> addr \<Rightarrow> addr \<Rightarrow> comm \<Rightarrow> addr \<times> comm" where
  "launch_conn sockfd nb cn err a mx conn s t c = (case nonblock_connect sockfd nb cn err c of (sockfd, c) \<Rightarrow>
     if sockfd < 0 then (NULL, c)
     else if a \<noteq> NULL \<and> mx = 0 \<and> conn \<noteq> NULL
     then (a, alloc_links a (c\<lparr>conns := (conns c)(a \<mapsto>
       \<lparr>e_conn = conn, e_seq = 0, e_sockfd = sockfd, e_state = CONN_STATE_CONNECTING, e_error = 0, e_ref = 1, e_iov = [],
        e_session = s, e_target = t, e_service = NULL\<rparr>)\<rparr>))
     else (NULL, c\<lparr>cerrno := (if a \<noteq> NULL \<and> mx \<noteq> 0 then mx else cerrno c), closed := closed c @ [sockfd]\<rparr>))"

text \<open>The number and the connection that a request gives its session.\<close>

definition number_session :: "addr \<Rightarrow> addr \<Rightarrow> comm \<Rightarrow> comm option" where
  "number_session s a c = do {
     e \<leftarrow> conns c a;
     c \<leftarrow> upd_conn a (\<lambda>x. x\<lparr>e_seq := e_seq x + 1\<rparr>) c;
     upd_csession s (\<lambda>x. x\<lparr>s_conn := e_conn e, s_seq := e_seq e\<rparr>) c
   }"

record launch_answers =
  la_sockfd :: int
  la_nonblock :: int
  la_connect :: int
  la_errno :: int
  la_entry :: addr
  la_mutex :: int
  la_conn :: addr
  la_poll :: int
  la_poll_errno :: int

definition request_new_conn :: "launch_answers \<Rightarrow> addr \<Rightarrow> addr \<Rightarrow> comm \<Rightarrow> (int \<times> comm) option" where
  "request_new_conn l s t c = do {
     let (a, c) = launch_conn (la_sockfd l) (la_nonblock l) (la_connect l) (la_errno l) (la_entry l) (la_mutex l) (la_conn l) s t c;
     if a = NULL then Some (-1, c)
     else do {
       c \<leftarrow> number_session s a c;
       e \<leftarrow> conns c a;
       x \<leftarrow> csessions c s;
       y \<leftarrow> ctargets c (s_target x);
       let c = poll (Padd PD_OP_CONNECT (e_sockfd e) (t_connect y) (la_poll l)) c;
       if la_poll l \<ge> 0 then Some (0, c)
       else do { c \<leftarrow> release_conn a (c\<lparr>cerrno := la_poll_errno l\<rparr>); Some (-1, c) }
     }
   }"

subsection \<open>An idle connection\<close>

text \<open>The loop: \<open>sets\<close> are the results of \<open>mpoller_set_timeout\<close>; \<open>NULL\<close> when no connection is left.\<close>

definition idle_try :: "list_del_fun \<Rightarrow> addr \<Rightarrow> comm \<Rightarrow> (addr \<times> comm) option" where
  "idle_try ldel t c = do {
     (a, c) \<leftarrow> idle_pop ldel t c;
     if a = NULL then Some (NULL, c\<lparr>cerrno := errno_code ENOENT\<rparr>)
     else do { e \<leftarrow> conns c a; Some (a, poll (Pset (e_sockfd e) (-1)) c) }
   }"

fun idle_loop :: "list_del_fun \<Rightarrow> addr \<Rightarrow> int list \<Rightarrow> comm \<Rightarrow> (addr \<times> comm) option" where
  "idle_loop ldel t [] c = do { (a, c) \<leftarrow> idle_try ldel t c; if a = NULL then Some (NULL, c) else None }"
| "idle_loop ldel t (ret # sets) c = do {
     (a, c) \<leftarrow> idle_try ldel t c;
     if a = NULL then Some (NULL, c)
     else if ret \<ge> 0 then Some (a, c)
     else do {
       c \<leftarrow> upd_conn a (\<lambda>x. x\<lparr>e_state := CONN_STATE_CLOSING\<rparr>) c;
       idle_loop ldel t sets c
     }
   }"

definition use_idle :: "send_answers \<Rightarrow> int \<Rightarrow> timespec \<Rightarrow> session_user \<Rightarrow> addr \<Rightarrow> addr \<Rightarrow> comm \<Rightarrow> (int \<times> comm) option" where
  "use_idle ans oerr now u s a c = do {
     c \<leftarrow> upd_conn a (\<lambda>x. x\<lparr>e_session := s\<rparr>) c;
     c \<leftarrow> number_session s a c;
     send_idle ans oerr now u s a c
   }"

definition request_idle_conn ::
  "list_del_fun \<Rightarrow> int list \<Rightarrow> send_answers \<Rightarrow> int \<Rightarrow> timespec \<Rightarrow> session_user \<Rightarrow> addr \<Rightarrow> addr \<Rightarrow> comm \<Rightarrow> (int \<times> comm) option" where
  "request_idle_conn ldel sets ans oerr now u s t c = do {
     (a, c) \<leftarrow> idle_loop ldel t sets c;
     if a = NULL then Some (-1, c) else use_idle ans oerr now u s a c
   }"

definition request ::
  "list_del_fun \<Rightarrow> int list \<Rightarrow> send_answers \<Rightarrow> int \<Rightarrow> launch_answers \<Rightarrow> timespec \<Rightarrow> session_user \<Rightarrow> addr \<Rightarrow> addr \<Rightarrow> comm \<Rightarrow> (int \<times> comm) option" where
  "request ldel sets ans oerr l now u s t c = do {
     x \<leftarrow> csessions c s;
     if s_passive x \<noteq> 0 then Some (-1, c\<lparr>cerrno := errno_code EINVAL\<rparr>)
     else do {
       let errno_bak = cerrno c;
       c \<leftarrow> upd_csession s (\<lambda>x. x\<lparr>s_target := t, s_out := NULL, s_in := NULL\<rparr>) c;
       (ret, c) \<leftarrow> request_idle_conn ldel sets ans oerr now u s t c;
       if ret \<ge> 0 then Some (0, c\<lparr>cerrno := errno_bak\<rparr>)
       else do {
         (ret, c) \<leftarrow> request_new_conn l s t c;
         if ret < 0 then do {
           c \<leftarrow> upd_csession s (\<lambda>x. x\<lparr>s_conn := NULL, s_seq := 0\<rparr>) c;
           Some (-1, c)
         } else Some (0, c\<lparr>cerrno := errno_bak\<rparr>)
       }
     }
   }"

subsection \<open>Targets without a connection at hand\<close>

definition has_idle_conn :: "addr \<Rightarrow> comm \<Rightarrow> bool option" where
  "has_idle_conn t c = do { e \<leftarrow> list_empty t (cmem c); Some (\<not> e) }"

definition EPERM_code :: int where "EPERM_code = 1"

text \<open>
  The virtual \<open>create_connect_fd\<close>: the one of a target that a service accepted refuses,
  the one of other targets calls \<open>socket\<close>, which gives \<open>sockfd\<close> or leaves \<open>err\<close>.
\<close>

definition create_connect_fd :: "int \<Rightarrow> int \<Rightarrow> comm_target \<Rightarrow> int \<times> int" where
  "create_connect_fd sockfd err y = (if t_service y \<noteq> NULL then (-1, EPERM_code) else (sockfd, err))"

lemma idle_loop_empty:
  assumes "has_idle_conn t c = Some False"
  shows "idle_loop ldel t sets c = Some (NULL, c\<lparr>cerrno := errno_code ENOENT\<rparr>)"
proof -
  have "list_empty t (cmem c) = Some True" using assms by (auto simp: has_idle_conn_def bind_eq_Some_conv)
  then have "idle_try ldel t c = Some (NULL, c\<lparr>cerrno := errno_code ENOENT\<rparr>)" by (simp add: idle_try_def idle_pop_def)
  then show ?thesis by (cases sets) simp_all
qed

text \<open>
  A request never opens a connection back to a peer that a service accepted: without an idle
  connection it fails with \<open>EPERM\<close>, and neither a descriptor nor the poller is touched.
\<close>

lemma request_refuses_accepted_target:
  assumes "csessions c s = Some x" "s_passive x = 0" "ctargets c t = Some y" "t_service y \<noteq> NULL" "has_idle_conn t c = Some False"
    "create_connect_fd sockfd err y = (la_sockfd l, la_errno l)"
  shows "\<exists>c'. request ldel sets ans oerr l now u s t c = Some (-1, c') \<and> cerrno c' = EPERM_code \<and> closed c' = closed c \<and>
    pcalls c' = pcalls c \<and> conns c' = conns c"
proof -
  have l: "la_sockfd l = -1" "la_errno l = EPERM_code" using assms(4,6) by (auto simp: create_connect_fd_def)
  define c1 where "c1 = c\<lparr>csessions := (csessions c)(s \<mapsto> x\<lparr>s_target := t, s_out := NULL, s_in := NULL\<rparr>)\<rparr>"
  have "has_idle_conn t c1 = Some False" using assms(5) by (simp add: has_idle_conn_def c1_def)
  from idle_loop_empty [OF this] show ?thesis
    using assms(1,2) l by (simp add: request_def request_idle_conn_def request_new_conn_def launch_conn_def nonblock_connect_def
        upd_csession_def c1_def)
qed

end
