(* ===== verification/Comm_Threads.thy ===== *)
theory Comm_Threads
  imports Comm_Request Thrdpool
begin

section \<open>The communicator: handler threads, timers, I/O services\<close>

text \<open>
  The rest of \<open>src/src/kernel/communicator.cc\<close>: the handlers of timer and I/O results, the
  routine of the handler threads, \<open>init\<close> and \<open>deinit\<close>, which put the pollers, the message
  queue and the thread pool together, \<open>sleep\<close>, and the binding of I/O services (the branch
  for Linux). The constants \<open>SS_STATE_COMPLETE\<close>, \<open>SS_STATE_ERROR\<close> and
  \<open>SS_STATE_DISRUPTED\<close> are not declared in the repository: \<open>ss\<close> holds their values.
\<close>

record sleep_states =
  ss_complete :: int
  ss_error :: int
  ss_disrupted :: int

record sleep_session =
  sl_timer :: addr
  sl_index :: int

text \<open>The objects that the handlers reach: \<open>sleeps\<close> are the calls of a sleep session's \<open>handle\<close>.\<close>

record cworld =
  cw :: comm
  cio :: "addr \<Rightarrow> ioservice option"
  sleeps :: "(addr \<times> int \<times> int) list"

subsection \<open>Timers\<close>

text \<open>The state and the error of the result; without one of the four states \<open>state\<close> is not initialized.\<close>

definition sleep_result :: "sleep_states \<Rightarrow> int \<Rightarrow> int \<Rightarrow> (int \<times> int) option" where
  "sleep_result ss state err =
     (if state = PR_ST_FINISHED then Some (ss_complete ss, err)
      else if state = PR_ST_DELETED then Some (ss_error ss, ECANCELED_code)
      else if state = PR_ST_ERROR then Some (ss_error ss, err)
      else if state = PR_ST_STOPPED then Some (ss_disrupted ss, err)
      else None)"

definition handle_sleep_result :: "sleep_states \<Rightarrow> int \<Rightarrow> int \<Rightarrow> addr \<Rightarrow> cworld \<Rightarrow> cworld option" where
  "handle_sleep_result ss state err s w = do {
     r \<leftarrow> sleep_result ss state err;
     Some (w\<lparr>sleeps := sleeps w @ [(s, r)]\<rparr>)
   }"

text \<open>\<open>dur\<close> and \<open>val\<close> are the result and the output of \<open>duration\<close>; \<open>now\<close>, \<open>nm\<close> and \<open>n\<close> as in \<open>mpoller_add_timer\<close>.\<close>

definition sleep ::
  "int \<Rightarrow> timespec \<Rightarrow> timespec \<Rightarrow> addr \<Rightarrow> 32 word \<Rightarrow> addr \<Rightarrow> sleep_session \<Rightarrow> mpoller \<Rightarrow>
     (int \<times> sleep_session \<times> 32 word \<times> mpoller) option" where
  "sleep dur val now nm n s x m =
     (if dur \<ge> 0 then do {
        ((ret, timer, index), n, m) \<leftarrow> mpoller_add_timer val s now nm n m;
        if ret \<ge> 0 then Some (0, \<lparr>sl_timer = timer, sl_index = index\<rparr>, n, m)
        else Some (-1, x\<lparr>sl_index := index\<rparr>, n, m)
      } else Some (-1, x, n, m))"

definition unsleep :: "sleep_session \<Rightarrow> mpoller \<Rightarrow> (int \<times> mpoller) option" where
  "unsleep x m = mpoller_del_timer (sl_timer x) (sl_index x) m"

subsection \<open>I/O services\<close>

definition upd_cio :: "addr \<Rightarrow> (ioservice \<Rightarrow> ioservice option) \<Rightarrow> cworld \<Rightarrow> cworld option" where
  "upd_cio v f w = do { s \<leftarrow> cio w v; s \<leftarrow> f s; Some (w\<lparr>cio := (cio w)(v \<mapsto> s)\<rparr>) }"

definition w_close :: "int \<Rightarrow> cworld \<Rightarrow> cworld" where
  "w_close f w = w\<lparr>cw := (cw w)\<lparr>closed := closed (cw w) @ [f]\<rparr>\<rparr>"

definition w_poll :: "pcall \<Rightarrow> cworld \<Rightarrow> cworld" where
  "w_poll k w = w\<lparr>cw := poll k (cw w)\<rparr>"

text \<open>\<open>es\<close> are the answers of \<open>io_getevents\<close> for the service's \<open>decref\<close>.\<close>

definition shutdown_io_service :: "(addr \<times> 64 word) option list \<Rightarrow> addr \<Rightarrow> cworld \<Rightarrow> cworld option" where
  "shutdown_io_service es v w = do {
     s \<leftarrow> cio w v;
     upd_cio v (\<lambda>s. ioservice_decref es (s\<lparr>event_fd := -1\<rparr>)) (w_close (event_fd s) w)
   }"

text \<open>\<open>s\<close> is the session in \<open>res->data.result\<close>.\<close>

definition handle_aio_result ::
  "list_del_fun \<Rightarrow> (addr \<times> 64 word) option list \<Rightarrow> int \<Rightarrow> int \<Rightarrow> addr \<Rightarrow> addr \<Rightarrow> cworld \<Rightarrow> cworld option" where
  "handle_aio_result ldel es state err s v w =
     (if state = PR_ST_SUCCESS then
        upd_cio v (\<lambda>x. do {
          h \<leftarrow> ldel s (smem x);
          y \<leftarrow> sessions x s;
          ioservice_decref es (x\<lparr>smem := h, handled := handled x @ [(s, state_of (sres y))]\<rparr>)
        }) w
      else if state = PR_ST_DELETED then shutdown_io_service es v w
      else if state = PR_ST_ERROR \<or> state = PR_ST_STOPPED
      then Some (w\<lparr>cw := (cw w)\<lparr>stops := stops (cw w) @ [(v, err)]\<rparr>\<rparr>)
      else Some w)"

definition io_bind :: "int \<Rightarrow> int \<Rightarrow> int \<Rightarrow> int \<Rightarrow> addr \<Rightarrow> cworld \<Rightarrow> (int \<times> cworld) option" where
  "io_bind efd nb pret perr v w =
     (if efd < 0 then Some (-1, w)
      else if nb < 0 then Some (-1, w_close efd w)
      else do {
        w \<leftarrow> upd_cio v (\<lambda>s. Some (s\<lparr>ref := 1\<rparr>)) w;
        let w = w_poll (Padd PD_OP_EVENT efd (-1) pret) w;
        if pret \<ge> 0 then do { w \<leftarrow> upd_cio v (\<lambda>s. Some (s\<lparr>event_fd := efd\<rparr>)) w; Some (0, w) }
        else Some (-1, w_close efd (w\<lparr>cw := (cw w)\<lparr>cerrno := perr\<rparr>\<rparr>))
      })"

definition io_unbind :: "(addr \<times> 64 word) option list \<Rightarrow> int \<Rightarrow> addr \<Rightarrow> cworld \<Rightarrow> cworld option" where
  "io_unbind es pret v w = do {
     s \<leftarrow> cio w v;
     let w = w_poll (Pdel (event_fd s)) w;
     if pret < 0 then shutdown_io_service es v w else Some w
   }"

subsection \<open>The routine of a handler thread\<close>

text \<open>What the pollers do with a result: \<open>context\<close> is the message queue of the communicator.\<close>

definition comm_callback :: "addr \<Rightarrow> msgqueue \<Rightarrow> heap \<Rightarrow> (msgqueue \<times> heap) wait option" where
  "comm_callback res context h = msg_queue_put res context h"

text \<open>A result of the poller, and what the calls of its handler answer.\<close>

record poller_res =
  p_op :: int
  p_state :: int
  p_error :: int
  p_context :: addr
  p_result :: addr

record handler_answers =
  h_ladd :: list_add_fun
  h_ldel :: list_del_fun
  h_sleep :: sleep_states
  h_send :: send_answers
  h_out_errno :: int
  h_poll :: int
  h_poll_errno :: int
  h_now :: timespec
  h_user :: session_user
  h_nonblock :: int
  h_entry :: addr
  h_conn :: addr
  h_events :: "(addr \<times> 64 word) option list"

definition on_comm :: "(comm \<Rightarrow> comm option) \<Rightarrow> cworld \<Rightarrow> cworld option" where
  "on_comm f w = map_option (\<lambda>c. w\<lparr>cw := c\<rparr>) (f (cw w))"

text \<open>The switch; the first component says whether the operation was none of them, where the thread leaves the pool.\<close>

definition handle_result :: "handler_answers \<Rightarrow> poller_res \<Rightarrow> cworld \<Rightarrow> (bool \<times> cworld) option" where
  "handle_result k r w =
     (let pr = \<lparr>r_state = p_state r, r_error = p_error r, r_entry = p_context r\<rparr>
      in if p_op r = PD_OP_TIMER then map_option (Pair False) (handle_sleep_result (h_sleep k) (p_state r) (p_error r) (p_context r) w)
         else if p_op r = PD_OP_READ then map_option (Pair False) (on_comm (handle_read_result (h_ladd k) (h_ldel k) pr) w)
         else if p_op r = PD_OP_WRITE
         then map_option (Pair False) (on_comm (handle_write_result (h_poll k) (h_poll_errno k) (h_now k) (h_user k) pr) w)
         else if p_op r = PD_OP_CONNECT
         then map_option (Pair False) (on_comm (handle_connect_result (h_send k) (h_out_errno k) (h_poll k) (h_poll_errno k) (h_now k) (h_user k) pr) w)
         else if p_op r = PD_OP_LISTEN
         then map_option (Pair False) (on_comm (handle_listen_result (h_nonblock k) (h_entry k) (h_conn k) (h_poll k) (h_poll_errno k)
                (p_state r) (p_error r) (p_result r) (p_context r)) w)
         else if p_op r = PD_OP_RECVFROM
         then map_option (Pair False) (on_comm (handle_recvfrom_result (h_ladd k) (p_state r) (p_error r) (p_result r) (p_context r)) w)
         else if p_op r = PD_OP_EVENT \<or> p_op r = PD_OP_NOTIFY
         then map_option (Pair False) (handle_aio_result (h_ldel k) (h_events k) (p_state r) (p_error r) (p_result r) (p_context r) w)
         else Some (True, w))"

text \<open>
  The loop over the results that \<open>msgqueue_get\<close> gives this thread, up to the null pointer.
  The number is that of the calls of \<open>thrdpool_exit\<close>, which are made while the communicator
  has its pool; without a pool the pollers and the queue are destroyed at the end.
\<close>

fun handler_loop :: "bool \<Rightarrow> (handler_answers \<times> poller_res) list \<Rightarrow> cworld \<Rightarrow> (nat \<times> cworld) option" where
  "handler_loop pool [] w = Some (0, w)"
| "handler_loop pool ((k, r) # rs) w = do {
     (leave, w) \<leftarrow> handle_result k r w;
     (n, w) \<leftarrow> handler_loop pool rs w;
     Some (if leave \<and> pool then n + 1 else n, w)
   }"

definition handler_thread_routine ::
  "bool \<Rightarrow> (handler_answers \<times> poller_res) list \<Rightarrow> cworld \<Rightarrow> (nat \<times> bool \<times> cworld) option" where
  "handler_thread_routine pool rs w = do { (n, w) \<leftarrow> handler_loop pool rs w; Some (n, \<not> pool, w) }"

subsection \<open>Starting and stopping\<close>

text \<open>
  The queue of results, the pollers, the pool with the tasks in its entries, and the memory
  of both queues. \<open>routine\<close> stands for the address of \<open>handler_thread_routine\<close>.
\<close>

record workers =
  w_queue :: msgqueue
  w_mpoller :: mpoller
  w_pool :: "thrdpool option"
  w_tasks :: "addr \<Rightarrow> task"
  w_mem :: heap
  w_stop :: bool

text \<open>The loop of \<open>create_handler_threads\<close> over the entries that \<open>malloc\<close> gives: how many were scheduled.\<close>

fun schedule_loop :: "task \<Rightarrow> nat \<Rightarrow> addr list \<Rightarrow> (addr \<Rightarrow> task) \<Rightarrow> thrdpool \<Rightarrow> heap \<Rightarrow>
    (nat \<times> (addr \<Rightarrow> task) \<times> thrdpool \<times> heap) wait option" where
  "schedule_loop task 0 bufs ents p h = Some (Ready (0, ents, p, h))"
| "schedule_loop task (Suc n) [] ents p h = None"
| "schedule_loop task (Suc n) (buf # bufs) ents p h = do {
     r \<leftarrow> thrdpool_schedule task buf ents p h;
     case r of
       Blocked \<Rightarrow> Some Blocked
     | Ready (ret, ents, p, h) \<Rightarrow>
         if ret < 0 then Some (Ready (0, ents, p, h))
         else do {
           r \<leftarrow> schedule_loop task n bufs ents p h;
           case r of
             Blocked \<Rightarrow> Some Blocked
           | Ready (i, s) \<Rightarrow> Some (Ready (i + 1, s))
         }
   }"

text \<open>\<open>pool_mem\<close>, \<open>queue\<close>, \<open>attr\<close> and \<open>spawn\<close> are the arguments of \<open>thrdpool_create\<close>.\<close>

definition create_handler_threads ::
  "bool \<Rightarrow> addr \<Rightarrow> int \<Rightarrow> (nat \<Rightarrow> int) \<Rightarrow> addr list \<Rightarrow> task \<Rightarrow> 64 word \<Rightarrow> workers \<Rightarrow> (int \<times> workers) wait option" where
  "create_handler_threads pool_mem queue attr spawn bufs task n w = do {
     r \<leftarrow> thrdpool_create pool_mem queue attr spawn n 0 (w_mem w);
     case r of
       Blocked \<Rightarrow> Some Blocked
     | Ready (None, h) \<Rightarrow> Some (Ready (-1, w\<lparr>w_pool := None, w_mem := h\<rparr>))
     | Ready (Some (p, _), h) \<Rightarrow> do {
         r \<leftarrow> schedule_loop task (unat n) bufs (w_tasks w) p h;
         case r of
           Blocked \<Rightarrow> Some Blocked
         | Ready (i, tasks, p, h) \<Rightarrow>
             let w = w\<lparr>w_pool := Some p, w_tasks := tasks, w_mem := h\<rparr>
             in if i = unat n then Some (Ready (0, w))
                else do {
                  let w = w\<lparr>w_queue := msgqueue_set_nonblock (w_queue w)\<rparr>;
                  r \<leftarrow> thrdpool_destroy False False tasks p h;
                  case r of
                    Blocked \<Rightarrow> Some Blocked
                  | Ready (_, h) \<Rightarrow> Some (Ready (-1, w\<lparr>w_mem := h\<rparr>))
                }
       }
   }"

text \<open>
  \<open>open_max\<close> is the result of \<open>sysconf\<close>, \<open>queue\<close> that of the queue's \<open>malloc\<close>, \<open>link_off\<close> the
  size of a poller result; the other arguments are those of \<open>mpoller_create\<close> and
  \<open>mpoller_start\<close>.
\<close>

record poller_answers =
  pa_open_max :: "64 word"
  pa_queue :: addr
  pa_link_off :: int
  pa_malloced :: bool
  pa_calloced :: bool
  pa_pollers :: "poller option list"
  pa_starts :: "(int \<times> int \<times> int) list"
  pa_local :: addr

definition create_poller :: "poller_answers \<Rightarrow> 64 word \<Rightarrow> heap \<Rightarrow> ((msgqueue \<times> mpoller) option \<times> heap) option" where
  "create_poller pa n h =
     (if sint (pa_open_max pa) < 0 then Some (None, h)
      else if pa_queue pa = NULL then Some (None, h)
      else do {
        (q, h) \<leftarrow> msgqueue_create (pa_queue pa) (16 * 1024) (pa_link_off pa) h;
        (m, _) \<leftarrow> mpoller_create (pa_malloced pa) (pa_calloced pa) n (pa_pollers pa);
        case m of
          None \<Rightarrow> Some (None, h)
        | Some m \<Rightarrow> do {
            (ret, m) \<leftarrow> mpoller_start (pa_starts pa) (pa_local pa) m;
            Some (if ret \<ge> 0 then Some (q, m) else None, h)
          }
      })"

definition comm_init ::
  "poller_answers \<Rightarrow> bool \<Rightarrow> addr \<Rightarrow> int \<Rightarrow> (nat \<Rightarrow> int) \<Rightarrow> addr list \<Rightarrow> task \<Rightarrow> 64 word \<Rightarrow> 64 word \<Rightarrow> (addr \<Rightarrow> task) \<Rightarrow> heap \<Rightarrow>
     (int \<times> workers option) wait option" where
  "comm_init pa pool_mem queue attr spawn bufs task poller_threads handler_threads tasks h =
     (if poller_threads = 0 then Some (Ready (-1, None))
      else do {
        (x, h) \<leftarrow> create_poller pa poller_threads h;
        case x of
          None \<Rightarrow> Some (Ready (-1, None))
        | Some (q, m) \<Rightarrow> do {
            r \<leftarrow> create_handler_threads pool_mem queue attr spawn bufs task handler_threads
                   \<lparr>w_queue = q, w_mpoller = m, w_pool = None, w_tasks = tasks, w_mem = h, w_stop = True\<rparr>;
            case r of
              Blocked \<Rightarrow> Some Blocked
            | Ready (ret, w) \<Rightarrow>
                if ret \<ge> 0 then Some (Ready (0, Some (w\<lparr>w_stop := False\<rparr>)))
                else do { _ \<leftarrow> mpoller_stop (pa_local pa) (w_mpoller w); Some (Ready (-1, None)) }
          }
      })"

text \<open>
  \<open>deinit\<close> up to the call of the routine: whether \<open>deinit\<close> calls it itself, which it does
  when it does not run in a handler thread.
\<close>

definition comm_deinit :: "addr \<Rightarrow> bool \<Rightarrow> workers \<Rightarrow> (bool \<times> workers) wait option" where
  "comm_deinit l in_handler w = do {
     m \<leftarrow> mpoller_stop l (w_mpoller w);
     p \<leftarrow> w_pool w;
     let w = w\<lparr>w_stop := True, w_mpoller := m, w_queue := msgqueue_set_nonblock (w_queue w)\<rparr>;
     r \<leftarrow> thrdpool_destroy False in_handler (w_tasks w) p (w_mem w);
     case r of
       Blocked \<Rightarrow> Some Blocked
     | Ready (_, h) \<Rightarrow> Some (Ready (\<not> in_handler, w\<lparr>w_pool := None, w_mem := h\<rparr>))
   }"

definition is_handler_thread :: "nat \<Rightarrow> nat \<Rightarrow> bool" where
  "is_handler_thread parent pool \<longleftrightarrow> thrdpool_in_pool parent pool"

text \<open>\<open>buf\<close> is the result of \<open>malloc\<close>, \<open>attr\<close> and \<open>spawned\<close> those of the pthread calls.\<close>

definition increase_handler_thread :: "addr \<Rightarrow> int \<Rightarrow> int \<Rightarrow> task \<Rightarrow> workers \<Rightarrow> (int \<times> workers) wait option" where
  "increase_handler_thread buf attr spawned task w =
     (if buf = NULL then Some (Ready (-1, w))
      else do {
        p \<leftarrow> w_pool w;
        (case thrdpool_increase attr spawned p of (ret, p) \<Rightarrow>
           if ret \<ge> 0 then do {
             r \<leftarrow> thrdpool_schedule task buf (w_tasks w) p (w_mem w);
             case r of
               Blocked \<Rightarrow> Some Blocked
             | Ready (_, tasks, p, h) \<Rightarrow> Some (Ready (0, w\<lparr>w_pool := Some p, w_tasks := tasks, w_mem := h\<rparr>))
           } else Some (Ready (-1, w\<lparr>w_pool := Some p\<rparr>)))
      })"

text \<open>\<open>res\<close> is the allocated result, whose operation becomes -1; \<open>m\<close> is the owner of the queue's mutex.\<close>

definition decrease_handler_thread :: "owner \<Rightarrow> addr \<Rightarrow> workers \<Rightarrow> (int \<times> workers) wait option" where
  "decrease_handler_thread m res w =
     (if res = NULL then Some (Ready (-1, w))
      else do {
        r \<leftarrow> msgqueue_put_head m res (w_queue w) (w_mem w);
        case r of
          Blocked \<Rightarrow> Some Blocked
        | Ready (q, h) \<Rightarrow> Some (Ready (0, w\<lparr>w_queue := q, w_mem := h\<rparr>))
      })"

subsection \<open>Starting never ends with handler threads\<close>

lemma thrdpool_create_dom:
  assumes "thrdpool_create True queue 0 spawn n stack h = Some (Ready (x, h'))"
  shows "dom h' = dom h"
  using assms
  by (simp add: thrdpool_create_def msgqueue_create_def Let_def split: Option.bind_splits wait.splits if_splits prod.splits) (metis store_dom)+

lemma create_handler_threads_blocks:
  assumes "queue \<noteq> NULL" "w_mem w (head1 queue, W0) \<noteq> None" "w_mem w (head2 queue, W0) \<noteq> None"
    "buf \<noteq> NULL" "w_mem w (buf, W0) \<noteq> None" "n \<noteq> 0"
  shows "create_handler_threads True queue 0 spawn (buf # bufs) task n w = Some Blocked"
proof -
  from thrdpool_create_idle [OF assms(1-3), of spawn n 0] obtain p h where
    p: "thrdpool_create True queue 0 spawn n 0 (w_mem w) = Some (Ready (Some (p, 0), h))" by auto
  have "h (buf, W0) \<noteq> None" using thrdpool_create_dom [OF p] assms(5) by blast
  from thrdpool_schedule_blocks [OF p assms(1-4) this] have "thrdpool_schedule task buf ents p h = Some Blocked" for ents .
  moreover obtain k where "unat n = Suc k" using assms(6) by (cases "unat n") (auto simp: unat_eq_0)
  ultimately show ?thesis using p by (simp add: create_handler_threads_def)
qed

lemma create_handler_threads_none:
  assumes "queue \<noteq> NULL" "w_mem w (head1 queue, W0) \<noteq> None" "w_mem w (head2 queue, W0) \<noteq> None"
  shows "\<exists>p h. create_handler_threads True queue 0 spawn bufs task 0 w = Some (Ready (0, w\<lparr>w_pool := Some p, w_mem := h\<rparr>)) \<and>
    thrdpool.nthreads p = 0 \<and> mq_at (msgq p) h [] []"
proof -
  from thrdpool_create_idle [OF assms, of spawn 0 0] obtain p h where
    "thrdpool_create True queue 0 spawn 0 0 (w_mem w) = Some (Ready (Some (p, 0), h))" "thrdpool.nthreads p = 0" "mq_at (msgq p) h [] []" by auto
  then show ?thesis by (intro exI [of _ p] exI [of _ h]) (simp add: create_handler_threads_def)
qed


definition sample_pollers :: poller_answers where
  "sample_pollers = \<lparr>pa_open_max = 1024, pa_queue = 10, pa_link_off = 64, pa_malloced = True, pa_calloced = True,
     pa_pollers = [Some sample_poller], pa_starts = [(0, 0, 0)], pa_local = 7\<rparr>"

definition sample_workers_mem :: heap where
  "sample_workers_mem l = (if snd l = W0 \<and> fst l \<in> {34, 42, 64, 72, 100} then Some 0 else None)"

lemma sample_pollers_start: "\<exists>q m h'. create_poller sample_pollers 1 sample_workers_mem = Some (Some (q, m), h') \<and> dom h' = dom sample_workers_mem"
proof -
  obtain h1 where h1: "store (head1 10, W0) NULL sample_workers_mem = Some h1" by (auto simp: store_def sample_workers_mem_def head1_def)
  moreover obtain h2 where h2: "store (head2 10, W0) NULL h1 = Some h2"
    using h1 by (auto simp: store_def sample_workers_mem_def head1_def head2_def split: if_splits)
  ultimately show ?thesis
    using store_dom [OF h1] store_dom [OF h2]
    by (simp add: create_poller_def sample_pollers_def msgqueue_create_def mpoller_create_def mpoller_start_def poller_start_def
        poller_open_pipe_def Let_def)
qed


end
