(* ===== verification/Comm_Write.thy ===== *)
theory Comm_Write
  imports Comm_Send
begin

section \<open>A message in two stages\<close>

text \<open>
  \<open>send_message\<close> writes what the socket takes and leaves the rest to the poller, whose
  write handler goes on with the vectors that were kept. Together they do what one writing
  loop over the whole message does.
\<close>

lemma sync_loop_append:
  assumes "sync_loop (map Inr ns @ [Inl e]) iov err = Some (ret, rest, err')" "rest \<noteq> []"
  shows "sync_loop (map Inr ns @ ws) iov err = sync_loop ws rest err"
  using assms
proof (induction ns arbitrary: iov)
  case Nil
  then show ?case by (cases iov) auto
next
  case (Cons n ns)
  then show ?case by (cases iov) auto
qed

lemma write_loop_start:
  "write_loop ws iov n err = Some (ret, rest, k, e) \<Longrightarrow> \<exists>k' e'. write_loop ws iov n' err' = Some (ret, rest, k', e')"
  by (induction ws iov n err arbitrary: n' rule: write_loop.induct) auto

text \<open>The poller's write handler on a node of the tree: its loop, and how it ends.\<close>

lemma handle_write_sync:
  assumes "tree_node b n xs p" "\<exists>e. Inl e \<in> set ws"
  shows "\<exists>rest p'. poller_handle_write ws pw iov b p = Some (rest, p') \<and> (\<exists>ret err'. sync_loop ws iov err = Some (ret, rest, err')) \<and>
    (rest = [] \<longleftrightarrow> (\<exists>m. results p' = results p @ [(b, m)] \<and> pstate m = PR_ST_FINISHED))"
proof -
  obtain rest p1 where w: "tree_node b (after_write iov rest n) xs p1" "results p1 = results p"
    "poller_handle_write ws pw iov b p =
       (if write_goes_on ws pw rest then Some (rest, p1)
        else map_option (Pair rest) (if rest = [] then remove_and_finish False b PR_ST_FINISHED 0 p1
               else remove_and_finish False b PR_ST_ERROR (errno p1) p1))"
    using handle_write_cases [OF assms, of iov pw] by blast
  note f = remove_and_finish_correct [OF w(1), of False]
  have "\<exists>p'. poller_handle_write ws pw iov b p = Some (rest, p') \<and>
    (rest = [] \<longleftrightarrow> (\<exists>m. results p' = results p @ [(b, m)] \<and> pstate m = PR_ST_FINISHED))"
  proof (cases "write_goes_on ws pw rest")
    case True
    then show ?thesis using w(2,3) by (auto simp: write_goes_on_def)
  next
    case False
    then show ?thesis using w(2,3) f [of PR_ST_FINISHED 0] f [of PR_ST_ERROR "errno p1"] by (auto simp: st_defs)
  qed
  then obtain p' where p': "poller_handle_write ws pw iov b p = Some (rest, p')"
    "rest = [] \<longleftrightarrow> (\<exists>m. results p' = results p @ [(b, m)] \<and> pstate m = PR_ST_FINISHED)" by blast
  then obtain ret k e where "write_loop ws iov 0 (errno p) = Some (ret, rest, k, e)"
    by (auto simp: poller_handle_write_def Let_def split: Option.bind_splits if_splits)
  from write_loop_start [OF this, of 0 err] obtain ret' k' e' where "write_loop ws iov 0 err = Some (ret', rest, k', e')" by blast
  then have "\<exists>ret err'. sync_loop ws iov err = Some (ret, rest, err')" by (simp add: sync_loop_write_loop [of ws iov err 0])
  with p' show ?thesis by blast
qed

text \<open>
  C21: a message that is sent in two stages is sent as by one loop. When \<open>send_message\<close> on a
  client connection is stopped by \<open>EAGAIN\<close> and gives 1, the poller's write handler, on the
  vectors that the connection keeps, leaves exactly the buffers that \<open>send_message_sync\<close>
  would have left had \<open>writev\<close> gone on answering; it reports the end of the message exactly
  when nothing is left.
\<close>

theorem two_stages_are_one_send:
  assumes "client_conn a e s c" "0 \<le> sa_encoded ans" "sa_encoded ans \<le> ENCODE_IOV_MAX"
    "sa_writes ans = map Inr ns @ [Inl (errno_code EAGAIN)]" "sa_malloced ans" "sa_poll ans \<ge> 0" "send_message ans now u a c = Some (1, c')"
    "tree_node b n xs p" "\<exists>err. Inl err \<in> set ws"
  shows "\<exists>e' rest p' ret err. conns c' a = Some e' \<and> poller_handle_write ws pw (e_iov e') b p = Some (rest, p') \<and>
    sync_loop (map Inr ns @ ws) (sa_vectors ans) (cerrno c) = Some (ret, rest, err) \<and>
    (rest = [] \<longleftrightarrow> (\<exists>m. results p' = results p @ [(b, m)] \<and> pstate m = PR_ST_FINISHED))"
proof -
  have e: "conns c a = Some e" "e_service e = NULL" using assms(1) by (simp_all add: client_conn_def)
  obtain r kept err where l: "sync_loop (sa_writes ans) (sa_vectors ans) (cerrno c) = Some (r, kept, err)"
    using sync_loop_outcome [of "sa_writes ans" "sa_vectors ans" "cerrno c"] assms(4) by auto
  have cc: "client_conn a e s (c\<lparr>cerrno := err\<rparr>)" using assms(1) by (simp add: client_conn_def)
  note m = assms(7) [unfolded send_message_def send_message_sync_def good_encoding [OF assms(2,3)]]
  have kept: "kept \<noteq> []" using m l e by (auto split: Option.bind_splits)
  then have "r > 0 \<and> send_message_async True (sa_poll ans) (sa_poll_errno ans) now u kept a (c\<lparr>cerrno := err\<rparr>) = Some (1, c')"
    using m l e assms(5) by (auto simp: Let_def split: if_splits)
  then have "conns c' a = Some (e\<lparr>e_iov := kept\<rparr>)" using send_async_correct [OF cc assms(6), of "sa_poll_errno ans" now u kept] by auto
  moreover have "sync_loop (map Inr ns @ ws) (sa_vectors ans) (cerrno c) = sync_loop ws kept (cerrno c)"
    using sync_loop_append [OF l [unfolded assms(4)] kept] .
  ultimately show ?thesis using handle_write_sync [OF assms(8,9), of pw kept "cerrno c"] by auto
qed

theorem two_stages_are_one_send_witness:
  "\<exists>c' e' p'. send_message sample_sends (Timespec 10 0) sample_user 5 sample_comm = Some (1, c') \<and> conns c' 5 = Some e' \<and>
     poller_handle_write [Inr 1, Inl 11] 0 (e_iov e') 20 tree_poller = Some ([], p')"
proof -
  have cc: "client_conn 5 sample_entry sample_csession sample_comm"
    by (simp add: client_conn_def sample_comm_def sample_entry_def sample_csession_def)
  have d: "client_conn 5 sample_entry sample_csession (sample_comm\<lparr>cerrno := 11\<rparr>)" using cc by (simp add: client_conn_def)
  from send_async_correct [OF d, of 0 0 "Timespec 10 0" sample_user "[[5]]"] obtain c' where
    c': "send_message sample_sends (Timespec 10 0) sample_user 5 sample_comm = Some (1, c')"
    by (auto simp: send_message_def send_message_sync_def sample_sends_def good_encoding ENCODE_IOV_MAX_def sample_comm_def sample_entry_def)
  have a: "0 \<le> sa_encoded sample_sends" "sa_encoded sample_sends \<le> ENCODE_IOV_MAX" "sa_malloced sample_sends" "sa_poll sample_sends \<ge> 0"
    "sa_writes sample_sends = map Inr [2, 2] @ [Inl (errno_code EAGAIN)]" by (simp_all add: sample_sends_def ENCODE_IOV_MAX_def)
  have "sync_loop (map Inr [2, 2] @ [Inr 1, Inl 11]) (sa_vectors sample_sends) (cerrno sample_comm) = Some (0, [], 0)"
    by (simp add: sample_sends_def sample_comm_def)
  with two_stages_are_one_send [OF cc a(1,2,5,3,4) c' sample_tree_node, of "[Inr 1, Inl 11]" 0] c' show ?thesis by auto
qed

end
