(* ===== verification/Comm_Conn.thy ===== *)
theory Comm_Conn
  imports Comm_Request
begin

section \<open>What the operations do to one connection\<close>

text \<open>
  What the runs of client and server connections share: the idle list as the code expects
  it, the operation that is registered with the poller, and the operations that change one
  entry and its session only.
\<close>

subsection \<open>The idle list\<close>

text \<open>What the file expects of \<open>list_add\<close> and \<open>list_del\<close>: they keep a circular list.\<close>

definition idle_ops :: "list_add_fun \<Rightarrow> list_del_fun \<Rightarrow> bool" where
  "idle_ops ladd ldel \<longleftrightarrow>
     (\<forall>h t xs a. list_at h t xs \<and> a \<notin> set xs \<and> a \<noteq> t \<and> free_node h a \<longrightarrow>
        (\<exists>h'. ladd a t h = Some h' \<and> list_at h' t (a # xs) \<and> dom h' = dom h)) \<and>
     (\<forall>h t xs ys a. list_at h t (xs @ a # ys) \<longrightarrow>
        (\<exists>h'. ldel a h = Some h' \<and> list_at h' t (xs @ ys) \<and> dom h' = dom h))"

lemma idle_add:
  assumes "idle_ops ladd ldel" "list_at h t xs" "a \<notin> set xs" "a \<noteq> t" "free_node h a"
  obtains h' where "ladd a t h = Some h'" "list_at h' t (a # xs)" "dom h' = dom h"
  using assms unfolding idle_ops_def by blast

lemma idle_del:
  assumes "idle_ops ladd ldel" "list_at h t xs" "a \<in> set xs"
  obtains h' xs' where "ldel a h = Some h'" "list_at h' t xs'" "dom h' = dom h" "set xs' = set xs - {a}"
proof -
  from assms(3) obtain us vs where xs: "xs = us @ a # vs" by (auto dest: split_list)
  then have "distinct (us @ a # vs)" using assms(2) by (simp add: list_at_def)
  moreover have "list_at h t (us @ a # vs) \<longrightarrow> (\<exists>h'. ldel a h = Some h' \<and> list_at h' t (us @ vs) \<and> dom h' = dom h)"
    using assms(1) unfolding idle_ops_def by (elim conjE allE)
  with assms(2) xs obtain h' where "ldel a h = Some h'" "list_at h' t (us @ vs)" "dom h' = dom h" by blast
  ultimately show ?thesis using that [of h' "us @ vs"] xs by auto
qed

lemma free_node_dom: "dom h' = dom h \<Longrightarrow> free_node h' a \<longleftrightarrow> free_node h a"
  unfolding free_node_def by (metis domIff)

lemma linked_cong: "(\<And>l. fst l \<in> set xs \<Longrightarrow> h' l = h l) \<Longrightarrow> linked h' xs \<longleftrightarrow> linked h xs"
  by (induction h xs rule: linked.induct) auto

lemma list_at_cong: "(\<And>l. fst l \<in> set (t # xs) \<Longrightarrow> h' l = h l) \<Longrightarrow> list_at h' t xs \<longleftrightarrow> list_at h t xs"
  unfolding list_at_def using linked_cong [of "t # xs @ [t]" h' h] by auto

lemma idle_pop_first:
  assumes "list_at (cmem c) t xs" "idle_pop ldel t c = Some (a, c')" "a \<noteq> NULL" "idle_ops ladd ldel"
  shows "a \<in> set xs \<and> (\<exists>h xs'. c' = c\<lparr>cmem := h\<rparr> \<and> list_at h t xs' \<and> dom h = dom (cmem c) \<and> set xs' = set xs - {a})"
proof -
  have t: "t \<noteq> NULL" using assms(1) by (simp add: list_at_def)
  have n: "load (t, nextf) (cmem c) = Some (hd (xs @ [t]))" using list_at_head(2) [OF assms(1)] t by (simp add: load_def)
  have "xs \<noteq> []" using assms(2,3) list_empty_correct [OF assms(1)] by (auto simp: idle_pop_def)
  then have a: "a = hd xs" "a \<in> set xs" and p: "set_cmem (ldel a (cmem c)) c = Some c'"
    using assms(2) n list_empty_correct [OF assms(1)] by (auto simp: idle_pop_def split: Option.bind_splits)
  from idle_del [OF assms(4,1) a(2)] obtain h' xs' where
    "ldel a (cmem c) = Some h'" "list_at h' t xs'" "dom h' = dom (cmem c)" "set xs' = set xs - {a}" .
  then show ?thesis using a(2) p by (auto simp: set_cmem_def)
qed

text \<open>An insertion behind the head that keeps the list circular, as an instance of \<open>list_add\<close>.\<close>

definition sample_list_add :: list_add_fun where
  "sample_list_add a t h = do {
     n \<leftarrow> load (t, nextf) h;
     h \<leftarrow> store (n, prevf) a h;
     h \<leftarrow> store (a, nextf) n h;
     h \<leftarrow> store (a, prevf) t h;
     store (t, nextf) a h
   }"

lemma sample_list_add_correct:
  assumes "list_at h t xs" "a \<notin> set xs" "a \<noteq> t" "free_node h a"
  shows "\<exists>h'. sample_list_add a t h = Some h' \<and> list_at h' t (a # xs) \<and> dom h' = dom h"
proof -
  define n where "n = hd (xs @ [t])"
  let ?h = "h((n, prevf) \<mapsto> a, (a, nextf) \<mapsto> n, (a, prevf) \<mapsto> t, (t, nextf) \<mapsto> a)"
  have l: "linked h (t # xs @ [t])" "t \<noteq> NULL" "t \<notin> set xs" "distinct xs" "NULL \<notin> set xs" using assms(1) by (auto simp: list_at_def)
  have d: "a \<noteq> NULL" "h (a, nextf) \<noteq> None" "h (a, prevf) \<noteq> None" "h (t, nextf) = Some n" "h (n, prevf) \<noteq> None" "n \<noteq> NULL" "n \<noteq> a"
    using assms l list_at_head [OF assms(1)] by (cases xs; auto simp: free_node_def n_def)+
  have "sample_list_add a t h = Some ?h" using d l(2) assms(3) by (auto simp: sample_list_add_def heap_simps)
  moreover have "linked ?h (t # a # xs @ [t])"
  proof (cases xs)
    case Nil
    then show ?thesis using assms(3) by (auto simp: n_def)
  next
    case (Cons b ys)
    then have "linked h (b # ys @ [t])" using l(1) by simp
    then have "linked ?h (b # ys @ [t])" using Cons l assms(2,3) by (subst linked_upd; auto simp: n_def butlast_append)+
    then show ?thesis using Cons assms(2,3) l(3) by (simp add: n_def)
  qed
  then have "list_at ?h t (a # xs)" using assms l d by (auto simp: list_at_def)
  moreover have "dom ?h = dom h" using d by (auto simp: domIff)
  ultimately show ?thesis by blast
qed

lemma sample_idle_ops: "idle_ops sample_list_add list_delete"
  unfolding idle_ops_def
proof (intro conjI allI impI)
  fix h t xs a
  assume "list_at h t xs \<and> a \<notin> set xs \<and> a \<noteq> t \<and> free_node h a"
  then show "\<exists>h'. sample_list_add a t h = Some h' \<and> list_at h' t (a # xs) \<and> dom h' = dom h" using sample_list_add_correct by blast
next
  fix h t xs ys a
  assume "list_at h t (xs @ a # ys)"
  from list_delete_correct [OF this] show "\<exists>h'. list_delete a h = Some h' \<and> list_at h' t (xs @ ys) \<and> dom h' = dom h"
    by (auto dest: agree_off_dom)
qed

subsection \<open>Registrations\<close>


text \<open>The operation registered with the poller after the calls \<open>ks\<close>.\<close>

fun reg :: "int option \<Rightarrow> pcall \<Rightarrow> int option" where
  "reg n (Padd op f t r) = (if r \<ge> 0 then Some op else n)"
| "reg n (Pmod op f t r) = (if r \<ge> 0 then Some op else n)"
| "reg n (Pdel f) = n"
| "reg n (Pset f t) = n"

definition registered :: "comm \<Rightarrow> comm \<Rightarrow> int option \<Rightarrow> int option" where
  "registered c c' n = foldl reg n (drop (length (pcalls c)) (pcalls c'))"

subsection \<open>What an operation on a connection changes\<close>

text \<open>
  An operation on the entry \<open>e\<close> at \<open>a\<close> that changes this entry to \<open>e'\<close> and its session, but
  neither the reference count nor where they belong, and calls the poller with \<open>ks\<close>.
\<close>

definition conn_op :: "addr \<Rightarrow> addr \<Rightarrow> conn_entry \<Rightarrow> comm \<Rightarrow> conn_entry \<Rightarrow> comm \<Rightarrow> pcall list \<Rightarrow> bool" where
  "conn_op a t e c e' c' ks \<longleftrightarrow> conns c' = (conns c)(a \<mapsto> e') \<and> e_ref e' = e_ref e \<and> e_session e' = e_session e \<and>
     e_target e' = e_target e \<and> e_service e' = e_service e \<and> e_sockfd e' = e_sockfd e \<and>
     (\<exists>y y'. csessions c (e_session e) = Some y \<and> csessions c' = (csessions c)(e_session e \<mapsto> y') \<and> s_target y = t \<and> s_target y' = t \<and>
        s_passive y' = s_passive y \<and> s_in y' = s_in y) \<and>
     ctargets c' = ctargets c \<and> cservices c' = cservices c \<and> msg_entry c' = msg_entry c \<and> unbounds c' = unbounds c \<and> cmem c' = cmem c \<and> handles c' = handles c \<and> closed c' = closed c \<and> pcalls c' = pcalls c @ ks"

text \<open>The connection \<open>a\<close> of the target \<open>t\<close> with its session.\<close>

definition session_of :: "addr \<Rightarrow> addr \<Rightarrow> conn_entry \<Rightarrow> comm \<Rightarrow> bool" where
  "session_of a t e c \<longleftrightarrow> conns c a = Some e \<and> (\<exists>y. csessions c (e_session e) = Some y \<and> s_target y = t) \<and> ctargets c t \<noteq> None"

lemma upd_same_eq [simp]: "m(a \<mapsto> x) = m(a \<mapsto> y) \<longleftrightarrow> x = y"
  by (metis fun_upd_same option.inject)

lemma conn_op_session: "conn_op a t e c e' c' ks \<Longrightarrow> session_of a t e c \<Longrightarrow> session_of a t e' c'"
  by (auto simp: conn_op_def session_of_def)

lemma conn_op_trans: "conn_op a t e c e' c' ks \<Longrightarrow> conn_op a t e' c' e'' c'' ks' \<Longrightarrow> conn_op a t e c e'' c'' (ks @ ks')"
  by (auto simp: conn_op_def)

lemma same_session [intro]:
  "m s = Some y \<Longrightarrow> \<exists>y'. m = m(s \<mapsto> y') \<and> s_target y' = s_target y \<and> s_passive y' = s_passive y \<and> s_in y' = s_in y"
  by (rule exI [of _ y]) (simp add: fun_upd_idem)

lemma conn_op_refl: "session_of a t e c \<Longrightarrow> conn_op a t e c e c []"
  by (auto simp: conn_op_def session_of_def fun_upd_idem)

lemma timeouts_keep [simp]:
  "s_target (snd (first_timeout now response s)) = s_target s"
  "s_target (snd (next_timeout now response s)) = s_target s"
  "s_target (snd (first_timeout_recv now response u s)) = s_target s"
  "s_target (snd (first_timeout_send now response u s)) = s_target s"
  "s_target (snd (reply_timeout now response u s)) = s_target s"
  "s_target (snd (part_timeout now response u s)) = s_target s"
  "s_passive (snd (first_timeout now response s)) = s_passive s"
  "s_passive (snd (next_timeout now response s)) = s_passive s"
  "s_passive (snd (first_timeout_recv now response u s)) = s_passive s"
  "s_passive (snd (first_timeout_send now response u s)) = s_passive s"
  "s_passive (snd (reply_timeout now response u s)) = s_passive s"
  "s_passive (snd (part_timeout now response u s)) = s_passive s"
  "s_in (snd (first_timeout now response s)) = s_in s"
  "s_in (snd (next_timeout now response s)) = s_in s"
  "s_in (snd (first_timeout_recv now response u s)) = s_in s"
  "s_in (snd (first_timeout_send now response u s)) = s_in s"
  "s_in (snd (reply_timeout now response u s)) = s_in s"
  "s_in (snd (part_timeout now response u s)) = s_in s"
  by (simp_all add: first_timeout_def next_timeout_def first_timeout_recv_def first_timeout_send_def reply_timeout_def part_timeout_def
      Let_def split: prod.splits)

lemmas comm_ops = upd_conn_def upd_csession_def poll_def session_response_def case_prod_beta

lemma send_message_async_op:
  assumes "session_of a t e c"
  shows "\<exists>ret e' c' ks. send_message_async malloced pret perr now u vs a c = Some (ret, c') \<and> conn_op a t e c e' c' ks \<and>
    (e_state e' = e_state e \<and> (if malloced \<and> pret \<ge> 0 then ret = 1 \<and> foldl reg n ks = Some PD_OP_WRITE else ret = -1 \<and> foldl reg n ks = n) \<or>
     e_state e = CONN_STATE_IDLE \<and> e_state e' = CONN_STATE_RECEIVING \<and> ret = 1 \<and> foldl reg n ks = n \<and> pret < 0 \<and> perr = errno_code ENOENT \<or>
     e_state e = CONN_STATE_RECEIVING)"
  using assms by (auto simp: session_of_def conn_op_def send_message_async_def comm_ops Let_def fun_upd_idem)

lemma sync_loop_result: "sync_loop ws iov err = Some (r, rest, err') \<Longrightarrow> rest = [] \<and> r = 0 \<or> rest \<noteq> [] \<and> (r = -1 \<or> r > 0)"
  by (induction ws iov err rule: sync_loop.induct) (auto split: if_splits)

text \<open>What is done when everything was sent, on either side.\<close>

definition sent_all :: "timespec \<Rightarrow> session_user \<Rightarrow> addr \<Rightarrow> conn_entry \<Rightarrow> comm \<Rightarrow> comm option" where
  "sent_all now u a e c = (if e_service e \<noteq> NULL then sent_reply u a c else sent_request now u a c)"

text \<open>The entry after a message was sent or is on its way; \<open>ret\<close> is the result.\<close>

definition sending :: "send_answers \<Rightarrow> int option \<Rightarrow> conn_entry \<Rightarrow> conn_state \<Rightarrow> pcall list \<Rightarrow> bool" where
  "sending ans n e st ks \<longleftrightarrow> st = e_state e \<and> foldl reg n ks = Some PD_OP_WRITE \<and> sa_poll ans \<ge> 0 \<or>
     e_state e = CONN_STATE_IDLE \<and> st = CONN_STATE_RECEIVING \<and> foldl reg n ks = n \<and> sa_poll ans < 0 \<and> sa_poll_errno ans = errno_code ENOENT"

lemma session_of_errno [simp]: "session_of a t e (c\<lparr>cerrno := err\<rparr>) \<longleftrightarrow> session_of a t e c"
  by (simp add: session_of_def)

lemma conn_op_errno [simp]: "conn_op a t e (c\<lparr>cerrno := err\<rparr>) e' c' ks \<longleftrightarrow> conn_op a t e c e' c' ks"
  by (simp add: conn_op_def)

lemma conn_op_stay: "session_of a t e c \<Longrightarrow> conn_op a t e c e (c\<lparr>cerrno := err\<rparr>) []"
  using conn_op_refl [of a t e c] by (simp add: conn_op_def)

lemma send_message_cases:
  assumes "session_of a t e c" "e_state e \<noteq> CONN_STATE_RECEIVING" "send_message ans now u a c = Some (ret, c')"
  shows "ret = 0 \<and> (\<exists>err. sent_all now u a e (c\<lparr>cerrno := err\<rparr>) = Some c') \<or>
    (\<exists>e' ks. conn_op a t e c e' c' ks \<and> (ret = 1 \<and> sending ans n e (e_state e') ks \<or> ret = -1 \<and> e_state e' = e_state e \<and> foldl reg n ks = n))"
proof (cases "bad_encoding (sa_encoded ans) c")
  case (Some c1)
  then obtain err where "ret = -1" "c' = c \<or> c' = c\<lparr>cerrno := err\<rparr>" using assms(3) by (auto simp: send_message_def bad_encoding_def split: if_splits)
  then show ?thesis using conn_op_refl [OF assms(1)] conn_op_stay [OF assms(1)] by (intro disjI2 exI [of _ e] exI [of _ "[]"]) auto
next
  case None
  have e: "conns c a = Some e" using assms(1) by (simp add: session_of_def)
  obtain r rest err where l: "sync_loop (sa_writes ans) (sa_vectors ans) (cerrno c) = Some (r, rest, err)"
    using assms(3) None e by (auto simp: send_message_def send_message_sync_def split: Option.bind_splits)
  let ?c = "c\<lparr>cerrno := err\<rparr>"
  from sync_loop_result [OF l] consider "rest = []" "r = 0" | "rest \<noteq> []" "r = -1" | "rest \<noteq> []" "r > 0" by blast
  then show ?thesis
  proof cases
    case 1
    then have "ret = 0 \<and> sent_all now u a e ?c = Some c'"
      using assms(3) None l e by (auto simp: send_message_def send_message_sync_def sent_all_def split: Option.bind_splits if_splits)
    then show ?thesis by blast
  next
    case 2
    then have "ret = -1" "c' = ?c" using assms(3) None l e by (auto simp: send_message_def send_message_sync_def)
    then show ?thesis using conn_op_stay [OF assms(1)] by (intro disjI2 exI [of _ e] exI [of _ "[]"]) simp
  next
    case 3
    then have "send_message_async (sa_malloced ans) (sa_poll ans) (sa_poll_errno ans) now u rest a ?c = Some (ret, c')"
      using assms(3) None l e by (auto simp: send_message_def send_message_sync_def)
    with send_message_async_op [of a t e ?c "sa_malloced ans" "sa_poll ans" "sa_poll_errno ans" now u rest n] assms(1,2) obtain e' ks where
      "conn_op a t e c e' c' ks" "ret = 1 \<and> sending ans n e (e_state e') ks \<or> ret = -1 \<and> e_state e' = e_state e \<and> foldl reg n ks = n"
      by (auto simp: sending_def split: if_splits)
    then show ?thesis by blast
  qed
qed

text \<open>Sending on an idle connection: an error is left to the final result of the node.\<close>

lemma send_idle_cases:
  assumes "session_of a t e c" "e_session e = s" "e_state e = CONN_STATE_IDLE" "send_idle ans oerr now u s a c = Some (ret, c')"
  shows "ret = 0 \<and> (\<exists>c1. conn_op a t e c e c1 [] \<and> sent_all now u a e c1 = Some c') \<or>
    (\<exists>e' ks. conn_op a t e c e' c' ks \<and> ret = 1 \<and> (sending ans n e (e_state e') ks \<or> e_state e' = CONN_STATE_ERROR \<and> foldl reg n ks = n))"
proof -
  obtain y where y: "csessions c s = Some y" "s_target y = t" using assms(1,2) by (auto simp: session_of_def)
  define c1 where "c1 = c\<lparr>csessions := (csessions c)(s \<mapsto> y\<lparr>s_out := u_out u\<rparr>)\<rparr>"
  have o: "conn_op a t e c e c1 []" using assms(1,2) y by (auto simp: conn_op_def session_of_def c1_def fun_upd_idem)
  note k = conn_op_session [OF o assms(1)]
  obtain r c2 where
    r: "(if u_out u \<noteq> NULL then send_message ans now u a c1 else Some (-1, c1\<lparr>cerrno := oerr\<rparr>)) = Some (r, c2)" and
    f: "(if r < 0 then do {
        e \<leftarrow> conns c2 a;
        c \<leftarrow> upd_conn a (\<lambda>x. x\<lparr>e_error := cerrno c2, e_state := CONN_STATE_ERROR\<rparr>) (poll (Pdel (e_sockfd e)) c2);
        Some (1, c)
      } else Some (r, c2)) = Some (ret, c')"
    using assms(4) y(1) unfolding send_idle_def upd_csession_def c1_def [symmetric]
    by (cases "if u_out u \<noteq> NULL then send_message ans now u a c1 else Some (-1, c1\<lparr>cerrno := oerr\<rparr>)") (auto simp: c1_def [symmetric])
  consider (all) err where "r = 0" "sent_all now u a e (c1\<lparr>cerrno := err\<rparr>) = Some c2"
    | (some) e2 ks where "conn_op a t e c1 e2 c2 ks" "r = 1" "sending ans n e (e_state e2) ks"
    | (fail) e2 ks where "conn_op a t e c1 e2 c2 ks" "r = -1" "foldl reg n ks = n"
  proof (cases "u_out u \<noteq> NULL")
    case True
    then show ?thesis using send_message_cases [OF k, of ans now u r c2 n] r assms(3) that by auto
  next
    case False
    then show ?thesis using conn_op_stay [OF k, of oerr] r that(3) [of e "[]"] by simp
  qed
  then show ?thesis
  proof cases
    case all
    moreover have "conn_op a t e c e (c1\<lparr>cerrno := err\<rparr>) []" using o by (simp add: conn_op_def)
    ultimately show ?thesis using f by auto
  next
    case some
    then show ?thesis using f conn_op_trans [OF o some(1)] by auto
  next
    case fail
    have o2: "conn_op a t e c e2 c2 ks" using conn_op_trans [OF o fail(1)] by simp
    define e3 where "e3 = e2\<lparr>e_error := cerrno c2, e_state := CONN_STATE_ERROR\<rparr>"
    have "conns c2 a = Some e2" using o2 by (simp add: conn_op_def)
    then have c': "ret = 1" "c' = c2\<lparr>conns := (conns c2)(a \<mapsto> e3), pcalls := pcalls c2 @ [Pdel (e_sockfd e2)]\<rparr>"
      using f fail(2) by (auto simp: upd_conn_def poll_def e3_def)
    have "conn_op a t e c e3 c' (ks @ [Pdel (e_sockfd e2)])" using o2 unfolding c'(2) by (auto simp: conn_op_def e3_def)
    then show ?thesis using fail(3) c'(1) by (intro disjI2 exI [of _ e3] exI [of _ "ks @ [Pdel (e_sockfd e2)]"]) (simp add: e3_def)
  qed
qed

text \<open>Sending returns when the writes end.\<close>

lemma send_message_total:
  assumes "session_of a t e c" "\<exists>err. Inl err \<in> set (sa_writes ans)" "\<And>err. sent_all now u a e (c\<lparr>cerrno := err\<rparr>) \<noteq> None"
  shows "send_message ans now u a c \<noteq> None"
proof (cases "bad_encoding (sa_encoded ans) c")
  case None
  from sync_loop_outcome [OF assms(2), of "sa_vectors ans" "cerrno c"] obtain rest r err where
    l: "sync_loop (sa_writes ans) (sa_vectors ans) (cerrno c) = Some (r, rest, err)" by blast
  have e: "conns c a = Some e" using assms(1) by (simp add: session_of_def)
  obtain c1 where "sent_all now u a e (c\<lparr>cerrno := err\<rparr>) = Some c1" using assms(3) by blast
  moreover obtain ret c2 where
    "send_message_async (sa_malloced ans) (sa_poll ans) (sa_poll_errno ans) now u rest a (c\<lparr>cerrno := err\<rparr>) = Some (ret, c2)"
    using send_message_async_op [of a t e "c\<lparr>cerrno := err\<rparr>"] assms(1) by fastforce
  ultimately show ?thesis using None l e by (cases "rest = []") (auto simp: send_message_def send_message_sync_def sent_all_def Let_def split: if_splits)
qed (simp add: send_message_def)

lemma send_idle_total:
  assumes "session_of a t e c" "e_session e = s" "e_state e = CONN_STATE_IDLE" "\<exists>err. Inl err \<in> set (sa_writes ans)"
    "\<And>c1. conn_op a t e c e c1 [] \<Longrightarrow> sent_all now u a e c1 \<noteq> None"
  shows "send_idle ans oerr now u s a c \<noteq> None"
proof -
  obtain y where y: "csessions c s = Some y" "s_target y = t" using assms(1,2) by (auto simp: session_of_def)
  define c1 where "c1 = c\<lparr>csessions := (csessions c)(s \<mapsto> y\<lparr>s_out := u_out u\<rparr>)\<rparr>"
  have o: "conn_op a t e c e c1 []" using assms(1,2) y by (auto simp: conn_op_def session_of_def c1_def fun_upd_idem)
  note k = conn_op_session [OF o assms(1)]
  have "conn_op a t e c e (c1\<lparr>cerrno := err\<rparr>) []" for err using o by (simp add: conn_op_def)
  then have "send_message ans now u a c1 \<noteq> None" using send_message_total [OF k assms(4)] assms(5) by blast
  then obtain r c2 where m: "send_message ans now u a c1 = Some (r, c2)" by auto
  have n: "conns c1 a \<noteq> None" using k by (simp add: session_of_def)
  have "r < 0 \<longrightarrow> conns c2 a \<noteq> None" using send_message_cases [OF k _ m, of None] assms(3) by (auto simp: conn_op_def)
  then show ?thesis using m n y(1) by (auto simp: send_idle_def upd_csession_def c1_def upd_conn_def poll_def)
qed

lemma append_message_op:
  assumes "session_of a t e c"
  shows "\<exists>e' c' ks. append_message ret now u a c = Some (ret, c') \<and> conn_op a t e c e' c' ks \<and> foldl reg n ks = n \<and>
    e_state e' = (if ret > 0 then CONN_STATE_SUCCESS else e_state e)"
proof -
  have "fst (part_timeout now r u y) = None \<Longrightarrow> snd (part_timeout now r u y) = y" for r y by (auto simp: part_timeout_def Let_def split: if_splits)
  then show ?thesis using assms
    by (auto simp: session_of_def conn_op_def append_message_def comm_ops fun_upd_idem split: option.splits
        intro!: exI [of _ "if ret > 0 then e\<lparr>e_state := CONN_STATE_SUCCESS\<rparr> else e"])
qed

lemma partial_written_op:
  assumes "session_of a t e c"
  shows "\<exists>c' ks. partial_written now a c = Some (0, c') \<and> conn_op a t e c e c' ks \<and> foldl reg n ks = n"
  using assms by (auto simp: session_of_def conn_op_def partial_written_def comm_ops fun_upd_idem Let_def)

lemma drop_ref_op:
  assumes "conns c a = Some e"
  shows "drop_ref a c = Some (if e_ref e = 1 then (True, free_links a (c\<lparr>conns := (conns c)(a := None), closed := closed c @ [e_sockfd e]\<rparr>))
    else (False, c\<lparr>conns := (conns c)(a \<mapsto> e\<lparr>e_ref := e_ref e - 1\<rparr>)\<rparr>))"
  using assms by (simp add: drop_ref_def upd_conn_def release_conn_def free_links_def)

text \<open>Final results, and what a handler past its section holds.\<close>

lemma success_no_end [simp]: "\<not> is_end PR_ST_SUCCESS" "\<not> is_end PR_ST_MODIFIED"
  by (simp_all add: is_end_def st_defs)

lemma is_end_no_success [dest]: "is_end st \<Longrightarrow> st \<noteq> PR_ST_SUCCESS"
  by auto

definition is_final :: "int \<times> presult \<Rightarrow> bool" where
  "is_final q \<longleftrightarrow> is_end (r_state (snd q))"

definition regs :: "int option \<Rightarrow> int list" where
  "regs n = (case n of None \<Rightarrow> [] | Some op \<Rightarrow> [op])"

text \<open>Of the operation registered and the final results on the way there is at most one.\<close>

definition pend_of :: "int option \<Rightarrow> (int \<times> presult) list \<Rightarrow> int list" where
  "pend_of n q = regs n @ map fst (filter is_final q)"

definition msgs_of :: "(int \<times> presult) list \<Rightarrow> (int \<times> presult) list" where
  "msgs_of q = filter (\<lambda>q. \<not> is_final q) q"

lemma take_final_of:
  assumes "length (pend_of n (qs @ q # rs)) \<le> 1" "is_final q"
  shows "pend_of n (qs @ q # rs) = [fst q]" "n = None" "filter is_final (qs @ rs) = []" "msgs_of (qs @ rs) = msgs_of (qs @ q # rs)"
proof -
  from assms have "length (regs n) = 0" "length (filter is_final qs) = 0" "length (filter is_final rs) = 0" by (auto simp: pend_of_def)
  then show "pend_of n (qs @ q # rs) = [fst q]" "n = None" "filter is_final (qs @ rs) = []"
    using assms(2) by (auto simp: pend_of_def regs_def split: option.splits)
qed (use assms(2) in \<open>simp add: msgs_of_def\<close>)

lemma take_message_of:
  assumes "length (msgs_of (qs @ q # rs)) \<le> 1" "\<not> is_final q"
  shows "msgs_of (qs @ q # rs) = [q]" "msgs_of (qs @ rs) = []" "filter is_final (qs @ rs) = filter is_final (qs @ q # rs)"
proof -
  from assms have "length (msgs_of qs) = 0" "length (msgs_of rs) = 0" by (auto simp: msgs_of_def)
  then show "msgs_of (qs @ q # rs) = [q]" "msgs_of (qs @ rs) = []" using assms(2) by (simp_all add: msgs_of_def)
qed (use assms(2) in simp)

lemma node_pend_of: "length (pend_of (Some op) q) \<le> 1 \<Longrightarrow> pend_of (Some op) q = [op] \<and> filter is_final q = []"
  by (simp add: pend_of_def regs_def)

lemma queue_empty_iff: "pend_of n q = [] \<and> msgs_of q = [] \<longleftrightarrow> n = None \<and> q = []"
  by (cases q) (auto simp: pend_of_def msgs_of_def regs_def filter_empty_conv split: option.splits)

lemma registered_op: "conn_op a t e c e' c' ks \<Longrightarrow> registered c c' n = foldl reg n ks"
  by (simp add: registered_def conn_op_def)

lemma registered_more: "conn_op a t e c e' c' ks \<Longrightarrow> pcalls c'' = pcalls c' \<Longrightarrow> registered c c'' n = foldl reg n ks"
  by (simp add: registered_def conn_op_def)

end
