(* ===== verification/Comm_Poller.thy ===== *)
theory Comm_Poller
  imports Comm_Write Comm_Conn Poller_Map
begin

section \<open>The communicator's calls on the pollers\<close>

text \<open>
  The communicator's functions record their calls of the mpoller. Here the calls are made on
  the model of the mpoller; what the runs of connections take as registered is what its
  table holds, and a message that is kept is registered for writing.
\<close>

text \<open>The call of the mpoller's interface that a recorded call stands for, with its result.\<close>

fun makes :: "pcall \<Rightarrow> job_call \<Rightarrow> job_answers \<Rightarrow> int \<Rightarrow> bool" where
  "makes (Padd op f t r) (Jadd d) x r' \<longleftrightarrow> operation d = op \<and> fd d = f \<and> j_timeout x = t \<and> r' = r"
| "makes (Pmod op f t r) (Jmod d) x r' \<longleftrightarrow> operation d = op \<and> fd d = f \<and> j_timeout x = t \<and> r' = r"
| "makes (Pdel f) (Jdel g) x r' \<longleftrightarrow> g = f"
| "makes (Pset f t) (Jset g) x r' \<longleftrightarrow> g = f \<and> j_timeout x = t"
| "makes _ _ x r' \<longleftrightarrow> False"

fun call_on :: "pcall \<Rightarrow> int" where
  "call_on (Padd op f t r) = f"
| "call_on (Pmod op f t r) = f"
| "call_on (Pdel f) = f"
| "call_on (Pset f t) = f"

inductive calls_run :: "pcall list \<Rightarrow> mpoller \<Rightarrow> mpoller \<Rightarrow> bool" where
  no_call: "calls_run [] m m"
| one_call: "calls_run ks m m1 \<Longrightarrow> makes k j x r \<Longrightarrow> fresh_answers x m1 \<Longrightarrow>
    do_call j x m1 = Some (r, m2) \<Longrightarrow> calls_run (ks @ [k]) m m2"

inductive_cases calls_run_NilE: "calls_run [] m m'"

text \<open>The map after a call of the interface, as seen at one descriptor.\<close>

definition op_at :: "mpoller \<Rightarrow> int \<Rightarrow> int option" where
  "op_at m f = map_option operation (jobs_of m f)"

text \<open>A recorded call that was made does to the operations what the runs of connections take it to do.\<close>

context job_map
begin

lemma operation_after:
  assumes "usable m" "fresh x m" "call j x m = Some (r, m')" "makes k j x r"
  shows "f \<noteq> call_on k \<Longrightarrow> map_option operation (jobs_in m' f) = map_option operation (jobs_in m f)"
    "k \<noteq> Pdel (call_on k) \<Longrightarrow> map_option operation (jobs_in m' (call_on k)) = reg (map_option operation (jobs_in m (call_on k))) k"
  using call_spec [OF assms(1-3)] assms(4) by (cases k; cases j; auto split: if_splits)+

lemma accepted_call:
  assumes "usable m" "fresh x m" "call j x m = Some (r, m')" "makes k j x r" "r \<ge> 0"
  shows "k = Padd op f t r \<Longrightarrow> jobs_in m f = None" "k = Pmod op f t r \<Longrightarrow> jobs_in m f \<noteq> None"
  using call_spec [OF assms(1-3)] assms(4,5) by (cases j; auto split: if_splits)+

end

text \<open>The operation taken as registered after the calls is the one in the table.\<close>

lemma calls_registered:
  assumes "calls_run ks m m'" "mapi_run m"
  shows "mapi_run m' \<and> (Pdel f \<notin> set ks \<longrightarrow> op_at m' f = foldl reg (op_at m f) (filter (\<lambda>k. call_on k = f) ks))"
  using assms
proof (induction rule: calls_run.induct)
  case (one_call ks m m1 k j x r m2)
  then have m1: "mapi_run m1" by simp
  note s = mp.operation_after [OF m1 one_call(3,4,2), folded op_at_def]
  have "mapi_run m2" by (rule mp.call_usable [OF m1 one_call(3,4)])
  moreover have "op_at m2 f = foldl reg (op_at m f) (filter (\<lambda>k. call_on k = f) (ks @ [k]))" if "Pdel f \<notin> set (ks @ [k])"
    using that one_call s by (cases "f = call_on k") auto
  ultimately show ?case by blast
qed simp

lemma one_call_run:
  assumes "calls_run [k] m m'"
  obtains j x r where "makes k j x r" "fresh_answers x m" "do_call j x m = Some (r, m')"
  using assms
proof (cases rule: calls_run.cases)
  case (one_call ks m1 l j x r)
  then have "ks = []" "l = k" by auto
  with one_call(2) have "m1 = m" by (auto elim: calls_run_NilE)
  with one_call(3-) \<open>l = k\<close> that show thesis by blast
qed

text \<open>
  C22: a message that could not be sent at once is registered for writing. When
  \<open>send_message\<close> on a client connection gives 1 and the communicator is not stopped, and the
  call of \<open>mpoller_mod\<close> or \<open>mpoller_add\<close> it made was answered by the pollers, then
  afterwards the descriptor of the connection is in the table of its poller with the
  operation \<open>PD_OP_WRITE\<close>; it was in the table before exactly when the connection was idle;
  and no other descriptor changed.
\<close>

theorem send_message_registers_write:
  assumes "client_conn a e s c" "0 \<le> sa_encoded ans" "sa_encoded ans \<le> ENCODE_IOV_MAX" "sa_malloced ans" "sa_poll ans \<ge> 0" "\<not> stop_flag c"
    "send_message ans now u a c = Some (1, c')" "mapi_run m" "calls_run (drop (length (pcalls c)) (pcalls c')) m m'"
  shows "op_at m' (e_sockfd e) = Some PD_OP_WRITE \<and> (op_at m (e_sockfd e) \<noteq> None \<longleftrightarrow> e_state e = CONN_STATE_IDLE) \<and>
    (\<forall>f. f \<noteq> e_sockfd e \<longrightarrow> op_at m' f = op_at m f)"
proof -
  have e: "conns c a = Some e" "e_service e = NULL" using assms(1) by (simp_all add: client_conn_def)
  note n = assms(7) [unfolded send_message_def send_message_sync_def good_encoding [OF assms(2,3)]]
  then obtain r kept err where l: "sync_loop (sa_writes ans) (sa_vectors ans) (cerrno c) = Some (r, kept, err)"
    using e by (auto split: Option.bind_splits)
  have cc: "client_conn a e s (c\<lparr>cerrno := err\<rparr>)" using assms(1) by (simp add: client_conn_def)
  have "kept \<noteq> []" using n l e by (auto split: Option.bind_splits)
  then have "send_message_async True (sa_poll ans) (sa_poll_errno ans) now u kept a (c\<lparr>cerrno := err\<rparr>) = Some (1, c')"
    using n l e assms(4) by (auto simp: Let_def split: if_splits)
  with send_async_correct [OF cc assms(5), of "sa_poll_errno ans" now u kept] assms(6) obtain x where
    ks: "drop (length (pcalls c)) (pcalls c') = [if e_state e = CONN_STATE_IDLE then Pmod PD_OP_WRITE (e_sockfd e) x (sa_poll ans)
        else Padd PD_OP_WRITE (e_sockfd e) x (sa_poll ans)]" by (auto split: if_splits)
  define k where "k = (if e_state e = CONN_STATE_IDLE then Pmod PD_OP_WRITE (e_sockfd e) x (sa_poll ans)
    else Padd PD_OP_WRITE (e_sockfd e) x (sa_poll ans))"
  from assms(9) [unfolded ks] obtain j y z where j: "makes k j y z" "fresh_answers y m" "do_call j y m = Some (z, m')"
    unfolding k_def by (rule one_call_run)
  have "z \<ge> 0" using j(1) assms(5) by (cases j) (auto simp: k_def split: if_splits)
  then have "op_at m (e_sockfd e) \<noteq> None \<longleftrightarrow> e_state e = CONN_STATE_IDLE"
    using mp.accepted_call [OF assms(8) j(2,3,1)] j(1) by (cases j) (auto simp: k_def op_at_def split: if_splits)
  moreover have "op_at m' f = foldl reg (op_at m f) (filter (\<lambda>k. call_on k = f) [k])" for f
    using calls_registered [OF assms(9) [unfolded ks] assms(8), of f] by (auto simp: k_def split: if_splits)
  ultimately show ?thesis using assms(5) by (auto simp: k_def)
qed

text \<open>A new connection on descriptor 5, to a target without a limit for the response.\<close>

definition new_conn_comm :: comm where
  "new_conn_comm = sample_comm\<lparr>conns := [5 \<mapsto> sample_entry\<lparr>e_sockfd := 5, e_state := CONN_STATE_CONNECTING\<rparr>],
     ctargets := [2 \<mapsto> \<lparr>t_connect = 1000, t_response = -1, t_service = NULL, t_ref = 0, t_sockfd = 0\<rparr>]\<rparr>"

theorem send_message_registers_write_witness:
  "\<exists>c' m'. send_message sample_sends (Timespec 10 0) sample_user 5 new_conn_comm = Some (1, c') \<and>
     calls_run (drop (length (pcalls new_conn_comm)) (pcalls c')) sample_mpoller m' \<and> op_at m' 5 = Some PD_OP_WRITE"
proof -
  have cc: "client_conn 5 (sample_entry\<lparr>e_sockfd := 5, e_state := CONN_STATE_CONNECTING\<rparr>) sample_csession new_conn_comm"
    by (simp add: client_conn_def new_conn_comm_def sample_entry_def sample_csession_def sample_comm_def)
  obtain c' where c': "send_message sample_sends (Timespec 10 0) sample_user 5 new_conn_comm = Some (1, c')" "pcalls c' = [Padd PD_OP_WRITE 5 (-1) 0]"
    by (simp add: send_message_def send_message_sync_def sample_sends_def good_encoding ENCODE_IOV_MAX_def new_conn_comm_def sample_comm_def
        sample_entry_def sample_csession_def sample_user_def send_message_async_def upd_conn_def upd_csession_def session_response_def
        first_timeout_send_def first_timeout_def poll_def)
  obtain m' where "do_call (Jadd sample_data) sample_answers sample_mpoller = Some (0, m')"
    "fresh_answers sample_answers sample_mpoller" by (rule sample_call)
  moreover have "makes (Padd PD_OP_WRITE 5 (-1) 0) (Jadd sample_data) sample_answers 0" by (simp add: sample_data_def sample_answers_def)
  ultimately have "calls_run ([] @ [Padd PD_OP_WRITE 5 (-1) 0]) sample_mpoller m'" by (intro one_call [OF no_call])
  moreover have "pcalls new_conn_comm = []" by (simp add: new_conn_comm_def sample_comm_def)
  ultimately have r: "calls_run (drop (length (pcalls new_conn_comm)) (pcalls c')) sample_mpoller m'" using c'(2) by simp
  have "0 \<le> sa_encoded sample_sends" "sa_encoded sample_sends \<le> ENCODE_IOV_MAX" "sa_malloced sample_sends" "sa_poll sample_sends \<ge> 0" "\<not> stop_flag new_conn_comm"
    by (simp_all add: sample_sends_def ENCODE_IOV_MAX_def new_conn_comm_def sample_comm_def)
  from send_message_registers_write [OF cc this c'(1) sample_mapi_run r] show ?thesis using c'(1) r by auto
qed

end
