(* ===== verification/Comm_Client.thy ===== *)
theory Comm_Client
  imports Comm_Conn
begin

section \<open>The life of a client connection\<close>

text \<open>
  One connection of a target, from \<open>request_new_conn\<close> to \<open>__release_conn\<close>, as a step
  relation over the operations of the communicator: the poller hands over messages and one
  final result per registration, the handler threads take results in any order and are
  interrupted between the section under the locks and what follows it, and requests take
  the connection from the idle list. The invariant of the runs is in \<open>Comm_Client_Run\<close>.
\<close>

subsection \<open>The steps\<close>

text \<open>
  \<open>cnode\<close> is the operation of the connection's node, \<open>cqueue\<close> are the results on their way
  to a handler's section, \<open>cdone\<close> what is left to do for the handlers past their section,
  \<open>csent\<close> the sessions that were given to the connection.
\<close>

record client =
  cc :: comm
  cnode :: "int option"
  cqueue :: "(int \<times> presult) list"
  cdone :: "todo list"
  csent :: "addr list"

inductive client_step :: "list_add_fun \<Rightarrow> list_del_fun \<Rightarrow> addr \<Rightarrow> addr \<Rightarrow> client \<Rightarrow> client \<Rightarrow> bool"
  for ladd ldel a t where
  final: "cnode s = Some op \<Longrightarrow> is_end st \<Longrightarrow>
    client_step ladd ldel a t s (s\<lparr>cnode := None, cqueue := cqueue s @ [(op, \<lparr>r_state = st, r_error = err, r_entry = a\<rparr>)]\<rparr>)"
| create: "cnode s = Some PD_OP_READ \<Longrightarrow> create_reply u a (cc s) = Some (m, c) \<Longrightarrow> client_step ladd ldel a t s (s\<lparr>cc := c\<rparr>)"
| part: "cnode s = Some PD_OP_READ \<Longrightarrow> conns (cc s) a = Some e \<Longrightarrow> e_state e = CONN_STATE_RECEIVING \<Longrightarrow> ret \<le> 0 \<Longrightarrow>
    append_message ret now u a (cc s) = Some (r, c) \<Longrightarrow> client_step ladd ldel a t s (s\<lparr>cc := c\<rparr>)"
| message: "cnode s = Some PD_OP_READ \<Longrightarrow> conns (cc s) a = Some e \<Longrightarrow> e_state e = CONN_STATE_RECEIVING \<Longrightarrow> ret > 0 \<Longrightarrow>
    append_message ret now u a (cc s) = Some (r, c) \<Longrightarrow>
    client_step ladd ldel a t s (s\<lparr>cc := c, cqueue := cqueue s @ [(PD_OP_READ, \<lparr>r_state = PR_ST_SUCCESS, r_error = 0, r_entry = a\<rparr>)]\<rparr>)"
| written: "cnode s = Some PD_OP_WRITE \<Longrightarrow> partial_written now a (cc s) = Some (r, c) \<Longrightarrow> client_step ladd ldel a t s (s\<lparr>cc := c\<rparr>)"
| read_section: "cqueue s = qs @ (PD_OP_READ, r) # rs \<Longrightarrow> reply_section ladd ldel r (cc s) = Some (td, c) \<Longrightarrow>
    client_step ladd ldel a t s (s\<lparr>cc := c, cqueue := qs @ rs, cdone := cdone s @ [td]\<rparr>)"
| read_finish: "cdone s = ds @ td # es \<Longrightarrow> reply_finish a t td (cc s) = Some c \<Longrightarrow>
    client_step ladd ldel a t s (s\<lparr>cc := c, cdone := ds @ es\<rparr>)"
| write_result: "cqueue s = qs @ (PD_OP_WRITE, r) # rs \<Longrightarrow> handle_write_result pret perr now u r (cc s) = Some c \<Longrightarrow>
    client_step ladd ldel a t s (s\<lparr>cc := c, cqueue := qs @ rs, cnode := registered (cc s) c None\<rparr>)"
| connect_result: "cqueue s = qs @ (PD_OP_CONNECT, r) # rs \<Longrightarrow> handle_connect_result ans oerr pret perr now u r (cc s) = Some c \<Longrightarrow>
    client_step ladd ldel a t s (s\<lparr>cc := c, cqueue := qs @ rs, cnode := registered (cc s) c None\<rparr>)"
| request_gone: "idle_try ldel t (cc s) = Some (a, c) \<Longrightarrow> upd_conn a (\<lambda>x. x\<lparr>e_state := CONN_STATE_CLOSING\<rparr>) c = Some c' \<Longrightarrow>
    client_step ladd ldel a t s (s\<lparr>cc := c'\<rparr>)"
| request_idle: "idle_try ldel t (cc s) = Some (a, c) \<Longrightarrow> cnode s = Some PD_OP_READ \<Longrightarrow> x \<noteq> NULL \<Longrightarrow> x \<notin> set (csent s) \<Longrightarrow>
    csessions c x = Some y \<Longrightarrow> s_target y = t \<Longrightarrow> use_idle ans oerr now u x a c = Some (ret, c') \<Longrightarrow>
    client_step ladd ldel a t s (s\<lparr>cc := c', cnode := registered (cc s) c' (Some PD_OP_READ), csent := csent s @ [x]\<rparr>)"
| forget: "x \<in> fst ` set (handles (cc s)) \<Longrightarrow>
    client_step ladd ldel a t s (s\<lparr>cc := (cc s)\<lparr>csessions := (csessions (cc s))(x := None)\<rparr>\<rparr>)"
| new_session: "csessions (cc s) x = None \<Longrightarrow>
    client_step ladd ldel a t s (s\<lparr>cc := (cc s)\<lparr>csessions := (csessions (cc s))(x \<mapsto> y)\<rparr>\<rparr>)"

subsection \<open>What the client's operations change\<close>

text \<open>A client's connection with its session.\<close>

definition client_of :: "addr \<Rightarrow> addr \<Rightarrow> conn_entry \<Rightarrow> comm \<Rightarrow> bool" where
  "client_of a t e c \<longleftrightarrow> session_of a t e c \<and> e_service e = NULL"

lemma conn_op_client: "conn_op a t e c e' c' ks \<Longrightarrow> client_of a t e c \<Longrightarrow> client_of a t e' c'"
  by (auto simp: client_of_def conn_op_session) (simp add: conn_op_def)

lemma client_session [dest]: "client_of a t e c \<Longrightarrow> session_of a t e c"
  by (simp add: client_of_def)

lemmas client_defs = client_of_def session_of_def

lemma sent_request_op:
  assumes "client_of a t e c"
  shows "\<exists>e' c' ks. sent_request now u a c = Some c' \<and> conn_op a t e c e' c' ks \<and> e_state e' = CONN_STATE_RECEIVING \<and> foldl reg n ks = n"
  using assms
  by (auto simp: client_defs conn_op_def sent_request_def comm_ops intro!: exI [of _ "e\<lparr>e_state := CONN_STATE_RECEIVING\<rparr>"])

lemma sent_all_client: "client_of a t e c \<Longrightarrow> sent_all now u a e c = sent_request now u a c"
  by (simp add: sent_all_def client_of_def)

lemma send_message_op:
  assumes "client_of a t e c" "e_state e \<noteq> CONN_STATE_RECEIVING" "send_message ans now u a c = Some (ret, c')"
  shows "\<exists>e' ks. conn_op a t e c e' c' ks \<and>
    (ret = 0 \<and> e_state e' = CONN_STATE_RECEIVING \<and> foldl reg n ks = n \<or>
     ret = 1 \<and> e_state e' = e_state e \<and> foldl reg n ks = Some PD_OP_WRITE \<or>
     ret = 1 \<and> e_state e = CONN_STATE_IDLE \<and> e_state e' = CONN_STATE_RECEIVING \<and> foldl reg n ks = n \<or>
     ret = -1 \<and> e_state e' = e_state e \<and> foldl reg n ks = n)"
  using send_message_cases [OF client_session [OF assms(1)] assms(2,3), of n]
proof (elim disjE conjE exE)
  fix err assume r: "ret = 0" "sent_all now u a e (c\<lparr>cerrno := err\<rparr>) = Some c'"
  have k: "client_of a t e (c\<lparr>cerrno := err\<rparr>)" using assms(1) by (simp add: client_defs)
  from sent_request_op [OF k, of now u n] r sent_all_client [OF k, of now u] show ?thesis by auto
qed (auto simp: sending_def)

lemma use_idle_op:
  assumes "conns c a = Some e" "e_service e = NULL" "e_state e = CONN_STATE_IDLE" "csessions c x = Some y" "s_target y = t" "ctargets c t \<noteq> None"
    "use_idle ans oerr now u x a c = Some (ret, c')"
  shows "\<exists>e' ks. conn_op a t (e\<lparr>e_session := x\<rparr>) c e' c' ks \<and>
    (e_state e' \<in> {CONN_STATE_RECEIVING, CONN_STATE_ERROR} \<and> foldl reg n ks = n \<or> e_state e' = CONN_STATE_IDLE \<and> foldl reg n ks = Some PD_OP_WRITE)"
proof -
  define e1 where "e1 = e\<lparr>e_session := x, e_seq := e_seq e + 1\<rparr>"
  define c1 where "c1 = c\<lparr>conns := (conns c)(a \<mapsto> e1), csessions := (csessions c)(x \<mapsto> y\<lparr>s_conn := e_conn e, s_seq := e_seq e\<rparr>)\<rparr>"
  have k: "client_of a t e1 c1" and i: "e_session e1 = x" "e_state e1 = CONN_STATE_IDLE" and o: "conn_op a t (e\<lparr>e_session := x\<rparr>) c e1 c1 []"
    using assms(1-6) by (auto simp: client_defs conn_op_def c1_def e1_def)
  have s: "send_idle ans oerr now u x a c1 = Some (ret, c')"
    using assms(1,4,7) by (simp add: use_idle_def number_session_def upd_conn_def upd_csession_def c1_def e1_def)
  note trans = conn_op_trans [OF o, simplified]
  from send_idle_cases [OF client_session [OF k] i s, of n]
  consider (all) c2 where "conn_op a t e1 c1 e1 c2 []" "sent_all now u a e1 c2 = Some c'"
    | (some) e' ks where "conn_op a t e1 c1 e' c' ks" "sending ans n e1 (e_state e') ks \<or> e_state e' = CONN_STATE_ERROR \<and> foldl reg n ks = n" by blast
  then show ?thesis
  proof cases
    case r: all
    note k2 = conn_op_client [OF r(1) k]
    from sent_request_op [OF k2, of now u n] r(2) sent_all_client [OF k2, of now u] obtain e' ks where
      "conn_op a t e1 c2 e' c' ks" "e_state e' = CONN_STATE_RECEIVING" "foldl reg n ks = n" by auto
    then show ?thesis using trans [OF conn_op_trans [OF r(1)]] by (intro exI [of _ e'] exI [of _ ks]) simp
  next
    case some
    then show ?thesis using i(2) by (intro exI [of _ e'] exI [of _ ks]) (auto simp: trans [OF some(1)] sending_def)
  qed
qed

lemma await_reply_op:
  assumes "client_of a t e c"
  shows "\<exists>c' ks. await_reply pret perr now u a c = Some c' \<and> conn_op a t e c e c' ks \<and> foldl reg n ks = (if pret \<ge> 0 then Some PD_OP_READ else n)"
  using assms by (auto simp: client_defs conn_op_def await_reply_def comm_ops fun_upd_idem Let_def)

end
