(* ===== verification/Comm_Client_Run.thy ===== *)
theory Comm_Client_Run
  imports Comm_Client "HOL-Library.Multiset"
begin

section \<open>The runs of a client connection\<close>

text \<open>
  The invariant of the steps of \<open>Comm_Client\<close>: it ties the reference count to the threads
  that hold the connection, and the sessions to the calls of their \<open>handle\<close>. From it follow
  that the connection is released exactly once and that no handler touches it afterwards.
\<close>

subsection \<open>The invariant\<close>

text \<open>
  \<open>p\<close> is the operation of the node or of its final result on the way (at most one), \<open>sc\<close>
  says that a finished message is on its way, \<open>st\<close> is the state of the entry. The session
  of the entry is \<open>active\<close> while its \<open>handle\<close> is still to come.
\<close>

definition shape :: "int list \<Rightarrow> bool \<Rightarrow> conn_state \<Rightarrow> bool" where
  "shape p sc st \<longleftrightarrow>
     (if sc then p = [PD_OP_READ] \<and> st = CONN_STATE_SUCCESS \<or> p = [] \<and> st = CONN_STATE_CLOSING
      else st \<noteq> CONN_STATE_SUCCESS \<and>
        (p = [] \<or> p = [PD_OP_CONNECT] \<and> st = CONN_STATE_CONNECTING \<or> p = [PD_OP_WRITE] \<and> st \<in> {CONN_STATE_CONNECTING, CONN_STATE_IDLE} \<or>
         p = [PD_OP_READ] \<and> st \<in> {CONN_STATE_RECEIVING, CONN_STATE_IDLE, CONN_STATE_CLOSING, CONN_STATE_ERROR}))"

definition active :: "int list \<Rightarrow> bool \<Rightarrow> conn_state \<Rightarrow> bool" where
  "active p sc st \<longleftrightarrow> sc \<or> p = [PD_OP_CONNECT] \<or> p = [PD_OP_WRITE] \<or> p = [PD_OP_READ] \<and> st \<in> {CONN_STATE_RECEIVING, CONN_STATE_ERROR}"

text \<open>
  \<open>hs\<close> are the sessions of the handlers past their section that still hold the connection
  (\<open>NULL\<close> where there is none to call).
\<close>

definition accounted :: "(addr \<times> int \<times> int) list \<Rightarrow> addr list \<Rightarrow> bool \<Rightarrow> addr \<Rightarrow> addr list \<Rightarrow> bool" where
  "accounted calls hs act x sent \<longleftrightarrow>
     mset (map fst calls) + mset (filter (\<lambda>x. x \<noteq> NULL) hs) + (if act then {#x#} else {#}) = mset sent"

definition in_session :: "addr \<Rightarrow> addr \<Rightarrow> comm \<Rightarrow> bool" where
  "in_session t x c \<longleftrightarrow> (\<exists>y. csessions c x = Some y \<and> s_target y = t)"

definition entry_core :: "addr \<Rightarrow> addr \<Rightarrow> comm \<Rightarrow> int list \<Rightarrow> bool \<Rightarrow> addr list \<Rightarrow> addr list \<Rightarrow> addr list \<Rightarrow> conn_entry \<Rightarrow> bool" where
  "entry_core a t c p sc hs sent xs e \<longleftrightarrow> shape p sc (e_state e) \<and> e_target e = t \<and> e_service e = NULL \<and> closed c = [] \<and>
     e_ref e = int (length hs) + (if p \<noteq> [] \<or> sc then 1 else 0) \<and> (p = [PD_OP_CONNECT] \<longrightarrow> hs = []) \<and>
     (a \<in> set xs \<longleftrightarrow> p = [PD_OP_READ] \<and> e_state e = CONN_STATE_IDLE) \<and> free_node (cmem c) a \<and>
     (active p sc (e_state e) \<longrightarrow> in_session t (e_session e) c) \<and>
     accounted (handles c) hs (active p sc (e_state e)) (e_session e) sent"

definition entry_inv :: "addr \<Rightarrow> addr \<Rightarrow> comm \<Rightarrow> int list \<Rightarrow> bool \<Rightarrow> addr list \<Rightarrow> addr list \<Rightarrow> addr list \<Rightarrow> conn_entry \<Rightarrow> bool" where
  "entry_inv a t c p sc hs sent xs e \<longleftrightarrow> entry_core a t c p sc hs sent xs e \<and> e_ref e > 0"

definition gone_inv :: "addr \<Rightarrow> comm \<Rightarrow> int list \<Rightarrow> bool \<Rightarrow> addr list \<Rightarrow> addr list \<Rightarrow> addr list \<Rightarrow> bool" where
  "gone_inv a c p sc hs sent xs \<longleftrightarrow> p = [] \<and> \<not> sc \<and> hs = [] \<and> a \<notin> set xs \<and> length (closed c) = 1 \<and> accounted (handles c) [] False NULL sent"

definition base_inv :: "addr \<Rightarrow> addr \<Rightarrow> comm \<Rightarrow> addr list \<Rightarrow> addr list \<Rightarrow> bool" where
  "base_inv a t c sent xs \<longleftrightarrow> list_at (cmem c) t xs \<and> ctargets c t \<noteq> None \<and> a \<noteq> t \<and> a \<noteq> NULL \<and> distinct sent \<and> NULL \<notin> set sent"

definition conn_inv :: "addr \<Rightarrow> addr \<Rightarrow> comm \<Rightarrow> int list \<Rightarrow> bool \<Rightarrow> addr list \<Rightarrow> addr list \<Rightarrow> bool" where
  "conn_inv a t c p sc hs sent \<longleftrightarrow> (\<exists>xs. base_inv a t c sent xs \<and>
     (case conns c a of None \<Rightarrow> gone_inv a c p sc hs sent xs | Some e \<Rightarrow> entry_inv a t c p sc hs sent xs e))"

lemma conn_invE:
  assumes "conn_inv a t c p sc hs sent" "p \<noteq> [] \<or> sc \<or> hs \<noteq> []"
  obtains xs e where "base_inv a t c sent xs" "conns c a = Some e" "entry_inv a t c p sc hs sent xs e"
  using assms by (auto simp: conn_inv_def gone_inv_def split: option.splits)

lemma conn_invI: "base_inv a t c sent xs \<Longrightarrow> conns c a = Some e \<Longrightarrow> entry_inv a t c p sc hs sent xs e \<Longrightarrow> conn_inv a t c p sc hs sent"
  by (auto simp: conn_inv_def)

lemma entry_client: "base_inv a t c sent xs \<Longrightarrow> conns c a = Some e \<Longrightarrow> entry_inv a t c p sc hs sent xs e \<Longrightarrow> active p sc (e_state e) \<Longrightarrow> client_of a t e c"
  by (simp add: entry_inv_def entry_core_def base_inv_def client_defs in_session_def)

lemmas inv_defs = entry_inv_def entry_core_def base_inv_def shape_def active_def

subsection \<open>The invariant is kept\<close>

text \<open>An operation that leaves the connection where it is, or brings it from one active state to another.\<close>

lemma active_states:
  "shape p sc st \<Longrightarrow> active p sc st \<Longrightarrow> (p \<noteq> [] \<or> sc) \<and> \<not> (p = [PD_OP_READ] \<and> st = CONN_STATE_IDLE)"
  by (auto simp: shape_def active_def op_defs split: if_splits)

lemma conn_op_inv:
  assumes "base_inv a t c sent xs" "entry_inv a t c p sc hs sent xs e" "conn_op a t e c e' c' ks" "active p sc (e_state e)"
    "shape p' sc' (e_state e')" "active p' sc' (e_state e')" "p' = [PD_OP_CONNECT] \<longrightarrow> p = [PD_OP_CONNECT]"
  shows "conn_inv a t c' p' sc' hs sent"
proof (rule conn_invI [of _ _ _ _ xs])
  have n: "shape p sc (e_state e)" using assms(2) by (simp add: entry_inv_def entry_core_def)
  note a = active_states [OF n assms(4)] active_states [OF assms(5,6)]
  have f: "conns c' a = Some e'" "e_ref e' = e_ref e" "e_session e' = e_session e" "e_target e' = e_target e" "e_service e' = e_service e"
    "in_session t (e_session e) c'" "cmem c' = cmem c" "handles c' = handles c" "closed c' = closed c"
    using assms(3) by (auto simp: conn_op_def in_session_def)
  then show "entry_inv a t c' p' sc' hs sent xs e'"
    using assms(2,4-7) a by (simp add: entry_inv_def entry_core_def)
qed (use assms(1,3) in \<open>auto simp: base_inv_def conn_op_def\<close>)

text \<open>What is left when a holder of the connection drops its reference.\<close>

lemma drop_ref_inv:
  assumes "base_inv a t c sent xs" "conns c a = Some e" "entry_core a t c p sc hs sent xs (e\<lparr>e_ref := e_ref e - 1\<rparr>)"
  shows "\<exists>b c'. drop_ref a c = Some (b, c') \<and> conn_inv a t c' p sc hs sent \<and> pcalls c' = pcalls c"
proof (cases "e_ref e = 1")
  case True
  let ?c = "free_links a (c\<lparr>conns := (conns c)(a := None), closed := closed c @ [e_sockfd e]\<rparr>)"
  have n: "p = []" "\<not> sc" "hs = []" "a \<notin> set xs" using True assms(3) by (auto simp: entry_core_def split: if_splits)
  have "list_at (cmem ?c) t xs \<longleftrightarrow> list_at (cmem c) t xs"
    by (rule list_at_cong) (use n(4) assms(1) in \<open>auto simp: free_links_def base_inv_def\<close>)
  then have "base_inv a t ?c sent xs" using assms(1) by (simp add: base_inv_def free_links_def)
  moreover have "gone_inv a ?c p sc hs sent xs"
    using n assms(3) by (simp add: gone_inv_def free_links_def entry_core_def active_def accounted_def)
  ultimately have "conn_inv a t ?c p sc hs sent" by (auto simp: conn_inv_def free_links_def)
  then show ?thesis using drop_ref_op [of c a e] assms(2) True by (auto simp: free_links_def)
next
  case False
  let ?e = "e\<lparr>e_ref := e_ref e - 1\<rparr>" let ?c = "c\<lparr>conns := (conns c)(a \<mapsto> ?e)\<rparr>"
  have "e_ref e - 1 \<ge> 0" using assms(3) by (simp add: entry_core_def)
  then have "entry_inv a t ?c p sc hs sent xs ?e" using assms(3) False by (simp add: entry_inv_def entry_core_def in_session_def)
  moreover have "base_inv a t ?c sent xs" using assms(1) by (simp add: base_inv_def)
  ultimately have "conn_inv a t ?c p sc hs sent" by (intro conn_invI [of _ _ _ _ xs ?e]) auto
  then show ?thesis using drop_ref_op [of c a e] assms(2) False by auto
qed

text \<open>The sessions move from the entry to a handler, and from there to the calls of \<open>handle\<close>.\<close>

lemma accounted_section: "accounted H hs True x sent \<Longrightarrow> NULL \<notin> set sent \<Longrightarrow> x \<noteq> NULL \<and> accounted H (hs @ [x]) False y sent"
proof -
  assume a: "accounted H hs True x sent" "NULL \<notin> set sent"
  then have "x \<in># mset sent" unfolding accounted_def by (metis union_iff add_mset_add_single union_single_eq_member)
  then have "x \<noteq> NULL" using a(2) by (metis set_mset_mset)
  with a show ?thesis by (simp add: accounted_def)
qed

lemma accounted_idle: "accounted H hs False x sent \<Longrightarrow> accounted H (hs @ [NULL]) False y sent"
  by (simp add: accounted_def)

lemma accounted_finish:
  "accounted H (hs @ x # hs') act y sent \<Longrightarrow> accounted (if x \<noteq> NULL then H @ [(x, r)] else H) (hs @ hs') act y sent"
  by (auto simp: accounted_def)

lemma accounted_call: "accounted H hs True x sent \<Longrightarrow> accounted (H @ [(x, r)]) hs False y sent"
  by (simp add: accounted_def)

lemma entry_session: "entry_core a t c p sc hs sent xs e \<Longrightarrow> e_session e = x \<Longrightarrow> active p sc (e_state e) \<Longrightarrow> accounted (handles c) hs True x sent"
  by (simp add: entry_core_def)

lemma entry_idle: "entry_core a t c p sc hs sent xs e \<Longrightarrow> \<not> active p sc (e_state e) \<Longrightarrow> accounted (handles c) hs False x sent"
  by (simp add: entry_core_def accounted_def)

lemma conn_inv_updI:
  assumes "base_inv a t c sent xs" "list_at h t xs'" "entry_inv a t (c\<lparr>cmem := h\<rparr>) p sc hs sent xs' e"
  shows "conn_inv a t (c\<lparr>conns := (conns c)(a \<mapsto> e), cmem := h\<rparr>) p sc hs sent"
  by (rule conn_invI [of _ _ _ _ xs' e]) (use assms in \<open>simp_all add: base_inv_def entry_inv_def entry_core_def in_session_def\<close>)

lemma conn_inv_updI2:
  assumes "base_inv a t c sent xs" "entry_inv a t c p sc hs sent xs e"
  shows "conn_inv a t (c\<lparr>conns := (conns c)(a \<mapsto> e)\<rparr>) p sc hs sent"
  using conn_inv_updI [of a t c sent xs "cmem c" xs p sc hs e] assms by (simp add: base_inv_def)

lemma section_success_inv:
  assumes "idle_ops ladd ldel" "conn_inv a t c p True hs sent" "r_state r = PR_ST_SUCCESS" "r_entry r = a"
  shows "\<exists>td c'. reply_section ladd ldel r c = Some (td, c') \<and> td_entry td \<and> conn_inv a t c' p False (hs @ [td_session td]) sent"
proof -
  from conn_invE [OF assms(2)] obtain xs e where
    b: "base_inv a t c sent xs" and e: "conns c a = Some e" and i: "entry_inv a t c p True hs sent xs e" by blast
  have act: "active p True (e_state e)" by (simp add: active_def)
  have "accounted (handles c) hs True (e_session e) sent" using i act by (simp add: entry_inv_def entry_core_def)
  then have acc: "accounted (handles c) (hs @ [e_session e]) False y sent" for y using accounted_section b by (auto simp: base_inv_def)
  obtain y where y: "csessions c (e_session e) = Some y" using i act by (auto simp: entry_inv_def entry_core_def in_session_def)
  have l: "list_at (cmem c) t xs" "a \<noteq> t" "free_node (cmem c) a" using b i by (auto simp: base_inv_def entry_inv_def entry_core_def)
  let ?td = "\<lparr>td_entry = True, td_session = e_session e, td_state = CS_STATE_SUCCESS, td_error = r_error r\<rparr>"
  consider "p = [PD_OP_READ]" "e_state e = CONN_STATE_SUCCESS" "s_timeout y \<noteq> 0" | "p = [PD_OP_READ]" "e_state e = CONN_STATE_SUCCESS" "s_timeout y = 0"
    | "p = []" "e_state e = CONN_STATE_CLOSING"
    using i by (auto simp: entry_inv_def entry_core_def shape_def)
  then show ?thesis
  proof cases
    case 1
    have "a \<notin> set xs" using i 1 by (simp add: entry_inv_def entry_core_def)
    from idle_add [OF assms(1) l(1) this l(2,3)] obtain h' where h': "ladd a t (cmem c) = Some h'" "list_at h' t (a # xs)" "dom h' = dom (cmem c)" .
    let ?e = "e\<lparr>e_ref := e_ref e + 1, e_state := CONN_STATE_IDLE\<rparr>"
    let ?c = "c\<lparr>conns := (conns c)(a \<mapsto> ?e), cmem := h'\<rparr>"
    have "conn_inv a t ?c p False (hs @ [e_session e]) sent"
      by (rule conn_inv_updI [OF b h'(2)]) (use i 1 acc free_node_dom [OF h'(3)] in \<open>auto simp: inv_defs op_defs\<close>)
    moreover have "reply_section ladd ldel r c = Some (?td, ?c)"
      using 1 e y assms(3,4) h'(1) i by (auto simp: reply_section_def upd_conn_def set_cmem_def entry_inv_def entry_core_def)
    ultimately show ?thesis by auto
  next
    case 2
    let ?e = "e\<lparr>e_ref := e_ref e + 1, e_state := CONN_STATE_CLOSING\<rparr>"
    let ?c = "c\<lparr>conns := (conns c)(a \<mapsto> ?e)\<rparr>"
    have "conn_inv a t ?c p False (hs @ [e_session e]) sent"
      by (rule conn_inv_updI2 [OF b]) (use i 2 acc in \<open>auto simp: inv_defs op_defs\<close>)
    moreover have "reply_section ladd ldel r c = Some (?td, ?c)" using 2 e y assms(3,4) by (simp add: reply_section_def upd_conn_def)
    ultimately show ?thesis by auto
  next
    case 3
    have "entry_inv a t c p False (hs @ [e_session e]) sent xs e" using i 3 acc by (auto simp: inv_defs op_defs)
    with b e have "conn_inv a t c p False (hs @ [e_session e]) sent" by (intro conn_invI)
    moreover have "reply_section ladd ldel r c = Some (?td, c)" using 3 e assms(3,4) by (simp add: reply_section_def)
    ultimately show ?thesis by auto
  qed
qed

text \<open>What a handler past its section holds.\<close>

definition holder :: "todo \<Rightarrow> addr list" where
  "holder td = (if td_entry td then [td_session td] else [])"

lemma holder_simps:
  "holder \<lparr>td_entry = True, td_session = x, td_state = st, td_error = err\<rparr> = [x]"
  "holder \<lparr>td_entry = False, td_session = x, td_state = st, td_error = err\<rparr> = []"
  by (simp_all add: holder_def)

lemma section_final_inv:
  assumes "idle_ops ladd ldel" "conn_inv a t c [PD_OP_READ] sc hs sent" "is_end (r_state r)" "r_entry r = a"
  shows "\<exists>td c'. reply_section ladd ldel r c = Some (td, c') \<and> conn_inv a t c' [] sc (hs @ holder td) sent"
proof -
  from conn_invE [OF assms(2)] obtain xs e where
    b: "base_inv a t c sent xs" and e: "conns c a = Some e" and i: "entry_inv a t c [PD_OP_READ] sc hs sent xs e" by blast
  then have core: "entry_core a t c [PD_OP_READ] sc hs sent xs e" by (simp add: entry_inv_def)
  have acc: "accounted (handles c) (hs @ [if active [PD_OP_READ] sc (e_state e) then e_session e else NULL]) False y sent" for y
  proof (cases "active [PD_OP_READ] sc (e_state e)")
    case True
    then show ?thesis using accounted_section entry_session [OF core] b by (auto simp: base_inv_def)
  next
    case False
    then show ?thesis using accounted_idle entry_idle [OF core False] by auto
  qed
  have s: "r_state r \<noteq> PR_ST_SUCCESS" using assms(3) by auto
  consider "sc" "e_state e = CONN_STATE_SUCCESS" | "\<not> sc" "e_state e \<in> {CONN_STATE_RECEIVING, CONN_STATE_ERROR, CONN_STATE_CLOSING}"
    | "\<not> sc" "e_state e = CONN_STATE_IDLE"
    using core by (auto simp: entry_core_def shape_def op_defs split: if_splits)
  then show ?thesis
  proof cases
    case 1
    have "conn_inv a t (c\<lparr>conns := (conns c)(a \<mapsto> e\<lparr>e_state := CONN_STATE_CLOSING\<rparr>)\<rparr>) [] sc hs sent"
      by (rule conn_inv_updI2 [OF b]) (use i 1 in \<open>auto simp: inv_defs op_defs\<close>)
    then show ?thesis using 1 e s assms(3,4) by (simp add: reply_section_def upd_conn_def Let_def holder_simps)
  next
    case 2
    have "entry_inv a t c [] sc (hs @ [if active [PD_OP_READ] sc (e_state e) then e_session e else NULL]) sent xs e"
      using i 2 acc by (auto simp: inv_defs op_defs)
    then have "conn_inv a t c [] sc (hs @ [if active [PD_OP_READ] sc (e_state e) then e_session e else NULL]) sent" using b e by (intro conn_invI)
    then show ?thesis using 2 e s assms(3,4) by (auto simp: reply_section_def Let_def active_def op_defs holder_simps)
  next
    case 3
    then have x: "a \<in> set xs" "\<not> active [PD_OP_READ] sc (e_state e)" using core by (auto simp: entry_core_def active_def op_defs)
    have "list_at (cmem c) t xs" using b by (simp add: base_inv_def)
    from idle_del [OF assms(1) this x(1)] obtain h' xs' where
      h': "ldel a (cmem c) = Some h'" "list_at h' t xs'" "dom h' = dom (cmem c)" "set xs' = set xs - {a}" .
    have "entry_inv a t (c\<lparr>cmem := h'\<rparr>) [] sc (hs @ [NULL]) sent xs' e"
      using i 3 x acc h'(4) free_node_dom [OF h'(3)] by (auto simp: inv_defs op_defs)
    then have "conn_inv a t (c\<lparr>cmem := h'\<rparr>) [] sc (hs @ [NULL]) sent"
      using b e h'(2) by (intro conn_invI [of _ _ _ _ xs' e]) (auto simp: base_inv_def)
    then show ?thesis using 3 e s assms(3,4) h'(1) by (simp add: reply_section_def Let_def set_cmem_def holder_simps)
  qed
qed

lemma finish_inv:
  assumes "conn_inv a t c p sc (hs @ td_session td # hs') sent" "td_entry td"
  shows "\<exists>c'. reply_finish a t td c = Some c' \<and> conn_inv a t c' p sc (hs @ hs') sent"
proof -
  from conn_invE [OF assms(1)] obtain xs e where
    b: "base_inv a t c sent xs" and e: "conns c a = Some e" and i: "entry_inv a t c p sc (hs @ td_session td # hs') sent xs e" by blast
  let ?H = "if td_session td \<noteq> NULL then handles c @ [(td_session td, td_state td, td_error td)] else handles c"
  let ?c = "if td_session td \<noteq> NULL then session_handle (td_session td) (td_state td) (td_error td) (c\<lparr>releases := releases c @ [t]\<rparr>) else c"
  have f: "handles ?c = ?H" "conns ?c = conns c" "csessions ?c = csessions c" "ctargets ?c = ctargets c" "cmem ?c = cmem c" "closed ?c = closed c"
    by (simp_all add: session_handle_def)
  have "accounted ?H (hs @ hs') (active p sc (e_state e)) (e_session e) sent"
    using i accounted_finish [of "handles c" hs "td_session td" hs'] unfolding entry_inv_def entry_core_def by blast
  with i f(1) have "entry_core a t ?c p sc (hs @ hs') sent xs (e\<lparr>e_ref := e_ref e - 1\<rparr>)"
    unfolding entry_core_def entry_inv_def in_session_def f by auto
  moreover have "base_inv a t ?c sent xs" using b unfolding base_inv_def f .
  ultimately show ?thesis using drop_ref_inv [of a t ?c sent xs e p sc "hs @ hs'"] e f(2) assms(2) by (fastforce simp: reply_finish_def Let_def)
qed

text \<open>A request that is about to fail: its session is active and nothing else of it is on the way.\<close>

definition failing :: "addr \<Rightarrow> addr \<Rightarrow> comm \<Rightarrow> addr list \<Rightarrow> addr list \<Rightarrow> conn_entry \<Rightarrow> bool" where
  "failing a t c hs sent e \<longleftrightarrow> (\<exists>xs. base_inv a t c sent xs \<and> a \<notin> set xs) \<and> conns c a = Some e \<and> e_target e = t \<and> e_service e = NULL \<and>
     closed c = [] \<and> e_ref e = int (length hs) + 1 \<and> free_node (cmem c) a \<and> e_state e \<noteq> CONN_STATE_SUCCESS \<and>
     accounted (handles c) hs True (e_session e) sent"

lemma failing_op: "failing a t c hs sent e \<Longrightarrow> conn_op a t e c e' c' ks \<Longrightarrow> e_state e' \<noteq> CONN_STATE_SUCCESS \<Longrightarrow> failing a t c' hs sent e'"
  by (auto simp: failing_def conn_op_def base_inv_def)

lemma failing_errno: "failing a t c hs sent e \<Longrightarrow> failing a t (c\<lparr>cerrno := x\<rparr>) hs sent e"
  by (simp add: failing_def base_inv_def)

lemma fail_request_inv:
  assumes "failing a t c hs sent e"
  shows "\<exists>c'. fail_request a st err c = Some c' \<and> conn_inv a t c' [] False hs sent \<and> pcalls c' = pcalls c"
proof -
  from assms obtain xs where b: "base_inv a t c sent xs" "a \<notin> set xs" by (auto simp: failing_def)
  let ?c = "session_handle (e_session e) st err (c\<lparr>releases := releases c @ [e_target e]\<rparr>)"
  have "entry_core a t ?c [] False hs sent xs (e\<lparr>e_ref := e_ref e - 1\<rparr>)"
    using assms b(2) accounted_call [of "handles c" hs "e_session e" sent "(st, err)"]
    by (simp add: failing_def entry_core_def shape_def active_def session_handle_def)
  moreover have "base_inv a t ?c sent xs" using b(1) by (simp add: base_inv_def session_handle_def)
  ultimately have "\<exists>b c'. drop_ref a ?c = Some (b, c') \<and> conn_inv a t c' [] False hs sent \<and> pcalls c' = pcalls ?c"
    using assms by (intro drop_ref_inv [of _ _ _ _ xs e]) (auto simp: failing_def session_handle_def)
  then show ?thesis using assms by (auto simp: failing_def fail_request_def session_handle_def)
qed

lemma fail_connect_inv:
  assumes "failing a t c [] sent e"
  shows "\<exists>c'. fail_connect a st err c = Some c' \<and> conn_inv a t c' [] False [] sent \<and> pcalls c' = pcalls c"
proof -
  let ?c = "session_handle (e_session e) st err (c\<lparr>releases := releases c @ [e_target e]\<rparr>)"
  have d: "drop_ref a ?c = Some (True, free_links a (?c\<lparr>conns := (conns ?c)(a := None), closed := closed ?c @ [e_sockfd e]\<rparr>))"
    by (subst drop_ref_op [of _ _ e]) (use assms in \<open>auto simp: failing_def session_handle_def\<close>)
  from fail_request_inv [OF assms, of st err] obtain c' where
    f: "fail_request a st err c = Some c'" "conn_inv a t c' [] False [] sent \<and> pcalls c' = pcalls c" by auto
  have "fail_connect a st err c = fail_request a st err c"
    using assms d by (simp add: failing_def fail_connect_def fail_request_def release_conn_def session_handle_def)
  then show ?thesis using f by auto
qed

lemma entry_failing:
  assumes "base_inv a t c sent xs" "conns c a = Some e" "entry_inv a t c p False hs sent xs e" "p = [PD_OP_WRITE] \<or> p = [PD_OP_CONNECT]"
  shows "failing a t c hs sent e" "client_of a t e c"
proof -
  have act: "active p False (e_state e)" and c: "entry_core a t c p False hs sent xs e" using assms(3,4) by (auto simp: active_def entry_inv_def)
  have "a \<notin> set xs" "p \<noteq> []" using c assms(4) by (auto simp: entry_core_def op_defs)
  then show "failing a t c hs sent e"
    using c act assms(1,2) by (auto simp: failing_def entry_core_def shape_def)
  show "client_of a t e c" by (rule entry_client [OF assms(1-3) act])
qed

lemma write_result_inv:
  assumes "conn_inv a t c [PD_OP_WRITE] False hs sent" "is_end (r_state r)" "r_entry r = a"
  shows "\<exists>c'. handle_write_result pret perr now u r c = Some c' \<and> conn_inv a t c' (regs (registered c c' None)) False hs sent"
proof -
  from conn_invE [OF assms(1)] obtain xs e where
    b: "base_inv a t c sent xs" and e: "conns c a = Some e" and i: "entry_inv a t c [PD_OP_WRITE] False hs sent xs e" by blast
  note f = entry_failing [OF b e i]
  let ?st = "if r_state r = PR_ST_FINISHED then CONN_STATE_RECEIVING else e_state e"
  let ?e = "e\<lparr>e_iov := [], e_state := ?st\<rparr>" let ?c = "c\<lparr>conns := (conns c)(a \<mapsto> ?e)\<rparr>"
  have o: "conn_op a t e c ?e ?c []" using f(2) by (auto simp: conn_op_def client_defs)
  have s: "?st \<noteq> CONN_STATE_SUCCESS" using f(1) by (simp add: failing_def)
  have fl: "failing a t ?c hs sent ?e" using failing_op [OF _ o] f s by simp
  show ?thesis
  proof (cases "r_state r = PR_ST_FINISHED")
    case False
    from fail_request_inv [OF fl, of "end_state r" "r_error r"] obtain c' where
      "fail_request a (end_state r) (r_error r) ?c = Some c'" "conn_inv a t c' [] False hs sent" "pcalls c' = pcalls ?c" by auto
    moreover have "handle_write_result pret perr now u r c = fail_request a (end_state r) (r_error r) ?c"
      using e False assms(2,3) f(2) by (simp add: handle_write_result_def handle_request_result_def upd_conn_def client_defs)
    ultimately show ?thesis by (auto simp: registered_def regs_def)
  next
    case True
    from await_reply_op [OF conn_op_client [OF o], of pret perr now u None] f(2) obtain c1 ks where
      w: "await_reply pret perr now u a ?c = Some c1" "conn_op a t ?e ?c ?e c1 ks" "foldl reg None ks = (if pret \<ge> 0 then Some PD_OP_READ else None)"
      by auto
    have o1: "conn_op a t e c ?e c1 ks" using conn_op_trans [OF o w(2)] by simp
    have h: "handle_write_result pret perr now u r c = (if pret \<ge> 0 then Some c1 else fail_request a CS_STATE_ERROR (cerrno c1) c1)"
      using e True assms(3) f(2) w(1) by (simp add: handle_write_result_def handle_request_result_def upd_conn_def client_defs)
    show ?thesis
    proof (cases "pret \<ge> 0")
      case True
      have "conn_inv a t c1 [PD_OP_READ] False hs sent"
        by (rule conn_op_inv [OF b i o1]) (use \<open>r_state r = PR_ST_FINISHED\<close> in \<open>auto simp: active_def shape_def op_defs\<close>)
      then show ?thesis using True h w(3) by (auto simp: registered_op [OF o1] regs_def)
    next
      case False
      from fail_request_inv [OF failing_op [OF fl w(2)], of CS_STATE_ERROR "cerrno c1"] s obtain c' where
        "fail_request a CS_STATE_ERROR (cerrno c1) c1 = Some c'" "conn_inv a t c' [] False hs sent" "pcalls c' = pcalls c1" by auto
      then show ?thesis using False h w(3) by (auto simp: registered_more [OF o1] regs_def)
    qed
  qed
qed

lemma connect_failed_inv:
  assumes "failing a t c [] sent e" "conn_op a t e0 c0 e c ks" "foldl reg None ks = None" "fail_connect a st err (c\<lparr>cerrno := x\<rparr>) = Some c'"
  shows "conn_inv a t c' (regs (registered c0 c' None)) False [] sent"
proof -
  from fail_connect_inv [OF failing_errno [OF assms(1)], of st err x] assms(4) have "conn_inv a t c' [] False [] sent" "pcalls c' = pcalls c" by auto
  then show ?thesis using registered_more [OF assms(2)] assms(3) by (simp add: regs_def)
qed

lemma connect_sent_inv:
  assumes "base_inv a t c sent xs" "entry_inv a t c [PD_OP_CONNECT] False [] sent xs e" "failing a t c [] sent e" "client_of a t e c"
    "conn_op a t e c e1 c1 ks" "e_state e1 = CONN_STATE_RECEIVING" "foldl reg None ks = None"
    "do { c \<leftarrow> await_reply pret perr now u a c1; if pret \<ge> 0 then Some c else fail_connect a CS_STATE_ERROR (cerrno c) c } = Some c'"
  shows "conn_inv a t c' (regs (registered c c' None)) False [] sent"
proof -
  from await_reply_op [OF conn_op_client [OF assms(5,4)], of pret perr now u None] obtain c2 ks' where
    w: "await_reply pret perr now u a c1 = Some c2" "conn_op a t e1 c1 e1 c2 ks'" "foldl reg None ks' = (if pret \<ge> 0 then Some PD_OP_READ else None)"
    by auto
  note o = conn_op_trans [OF assms(5) w(2)]
  show ?thesis
  proof (cases "pret \<ge> 0")
    case True
    have "conn_inv a t c2 [PD_OP_READ] False [] sent"
      by (rule conn_op_inv [OF assms(1,2) o]) (use assms(6) in \<open>auto simp: active_def shape_def op_defs\<close>)
    then show ?thesis using True w(1,3) assms(7,8) registered_op [OF o, of None] by (auto simp: regs_def)
  next
    case False
    have "failing a t c2 [] sent e1" using failing_op [OF assms(3) o] assms(6) by simp
    from connect_failed_inv [OF this o, of CS_STATE_ERROR "cerrno c2" "cerrno c2"] show ?thesis using False w(1,3) assms(7,8) by simp
  qed
qed

text \<open>The connection stands and the request is sent.\<close>

lemma connect_send_inv:
  assumes b: "base_inv a t c sent xs" and i: "entry_inv a t c [PD_OP_CONNECT] False [] sent xs e" and f: "failing a t c [] sent e" "client_of a t e c"
    and st: "e_state e = CONN_STATE_CONNECTING" and o: "conn_op a t e c e c0 []" and m: "send_message ans now u a c0 = Some (ret, c1)"
    and rest: "(if ret = 0 then do { c \<leftarrow> await_reply pret perr now u a c1; if pret \<ge> 0 then Some c else fail_connect a CS_STATE_ERROR (cerrno c) c }
      else if ret > 0 then Some c1 else fail_connect a CS_STATE_ERROR (cerrno c1) c1) = Some c'"
  shows "conn_inv a t c' (regs (registered c c' None)) False [] sent"
proof -
  from send_message_op [OF conn_op_client [OF o f(2)] _ m, of None] st obtain e1 ks where o1: "conn_op a t e c0 e1 c1 ks" and
    cases: "ret = 0 \<and> e_state e1 = CONN_STATE_RECEIVING \<and> foldl reg None ks = None \<or>
      ret = 1 \<and> e_state e1 = CONN_STATE_CONNECTING \<and> foldl reg None ks = Some PD_OP_WRITE \<or>
      ret = -1 \<and> e_state e1 = CONN_STATE_CONNECTING \<and> foldl reg None ks = None" by auto
  have o2: "conn_op a t e c e1 c1 ks" using conn_op_trans [OF o o1] by simp
  from cases show ?thesis
  proof (elim disjE conjE)
    assume "ret = 0" "e_state e1 = CONN_STATE_RECEIVING" "foldl reg None ks = None"
    then show ?thesis using connect_sent_inv [OF b i f o2, of pret perr now u c'] rest by simp
  next
    assume s: "ret = 1" "e_state e1 = CONN_STATE_CONNECTING" "foldl reg None ks = Some PD_OP_WRITE"
    have "conn_inv a t c1 [PD_OP_WRITE] False [] sent"
      by (rule conn_op_inv [OF b i o2]) (use s in \<open>auto simp: active_def shape_def op_defs\<close>)
    then show ?thesis using s rest registered_op [OF o2, of None] by (simp add: regs_def)
  next
    assume s: "ret = -1" "e_state e1 = CONN_STATE_CONNECTING" "foldl reg None ks = None"
    then have "failing a t c1 [] sent e1" using failing_op [OF f(1) o2] by simp
    from connect_failed_inv [OF this o2, of CS_STATE_ERROR "cerrno c1" "cerrno c1" c'] show ?thesis using s rest by simp
  qed
qed

lemma connect_result_inv:
  assumes "conn_inv a t c [PD_OP_CONNECT] False hs sent" "is_end (r_state r)" "r_entry r = a"
    "handle_connect_result ans oerr pret perr now u r c = Some c'"
  shows "conn_inv a t c' (regs (registered c c' None)) False hs sent"
proof -
  from conn_invE [OF assms(1)] obtain xs e where
    b: "base_inv a t c sent xs" and e: "conns c a = Some e" and i: "entry_inv a t c [PD_OP_CONNECT] False hs sent xs e" by blast
  have hs: "hs = []" and st: "e_state e = CONN_STATE_CONNECTING" using i by (auto simp: inv_defs op_defs)
  note i = i [unfolded hs] and f = entry_failing [OF b e i, unfolded hs]
  obtain y where y: "csessions c (e_session e) = Some y" "s_target y = t" using f(2) by (auto simp: client_defs)
  let ?c = "c\<lparr>csessions := (csessions c)(e_session e \<mapsto> y\<lparr>s_out := u_out u\<rparr>)\<rparr>"
  have o: "conn_op a t e c e ?c []" using e y by (auto simp: conn_op_def fun_upd_idem)
  have fl: "failing a t ?c [] sent e" using failing_op [OF _ o] f st by simp
  consider "r_state r \<noteq> PR_ST_FINISHED" | "r_state r = PR_ST_FINISHED" "u_out u = NULL" | "r_state r = PR_ST_FINISHED" "u_out u \<noteq> NULL" by blast
  then have "conn_inv a t c' (regs (registered c c' None)) False [] sent"
  proof cases
    case 1
    then show ?thesis
      using connect_failed_inv [OF f(1) conn_op_refl [OF client_session [OF f(2)]], of "end_state r" "r_error r" "cerrno c" c'] assms(2-4) e
      by (simp add: handle_connect_result_def)
  next
    case 2
    then show ?thesis using connect_failed_inv [OF fl o, of CS_STATE_ERROR oerr oerr c'] assms(3,4) e y
      by (simp add: handle_connect_result_def upd_csession_def)
  next
    case 3
    then obtain ret c1 where m: "send_message ans now u a ?c = Some (ret, c1)"
      and rest: "(if ret = 0 then do { c \<leftarrow> await_reply pret perr now u a c1; if pret \<ge> 0 then Some c else fail_connect a CS_STATE_ERROR (cerrno c) c }
        else if ret > 0 then Some c1 else fail_connect a CS_STATE_ERROR (cerrno c1) c1) = Some c'"
      using assms(3,4) e y by (auto simp: handle_connect_result_def upd_csession_def split: Option.bind_splits)
    from connect_send_inv [OF b i f st o m rest] show ?thesis by simp
  qed
  then show ?thesis by (simp add: hs)
qed

text \<open>A request finds the connection at the head of the idle list.\<close>

lemma idle_try_inv:
  assumes "idle_ops ladd ldel" "conn_inv a t c p sc hs sent" "idle_try ldel t c = Some (a, c')"
  obtains e h xs' where "conns c a = Some e" "p = [PD_OP_READ]" "\<not> sc" "e_state e = CONN_STATE_IDLE" "e_service e = NULL"
    "c' = poll (Pset (e_sockfd e) (-1)) (c\<lparr>cmem := h\<rparr>)" "base_inv a t c' sent xs'"
    "entry_core a t c' p sc hs sent xs' (e\<lparr>e_state := CONN_STATE_CLOSING\<rparr>)" "e_ref e > 0"
proof -
  from assms(2) obtain xs where b: "base_inv a t c sent xs"
    and d: "case conns c a of None \<Rightarrow> gone_inv a c p sc hs sent xs | Some e \<Rightarrow> entry_inv a t c p sc hs sent xs e"
    by (auto simp: conn_inv_def)
  have n: "a \<noteq> NULL" and l: "list_at (cmem c) t xs" using b by (simp_all add: base_inv_def)
  obtain c1 where c1: "idle_pop ldel t c = Some (a, c1)" using assms(3) n by (auto simp: idle_try_def split: Option.bind_splits if_splits)
  from idle_pop_first [OF l this n assms(1)] obtain h xs' where
    x: "a \<in> set xs" "c1 = c\<lparr>cmem := h\<rparr>" "list_at h t xs'" "dom h = dom (cmem c)" "set xs' = set xs - {a}" by auto
  then obtain e where e: "conns c a = Some e" and i: "entry_inv a t c p sc hs sent xs e" using d by (auto simp: gone_inv_def split: option.splits)
  have p: "p = [PD_OP_READ]" "e_state e = CONN_STATE_IDLE" using i x(1) by (auto simp: entry_inv_def entry_core_def)
  have sc: "\<not> sc" using i p by (auto simp: inv_defs split: if_splits)
  have c': "c' = poll (Pset (e_sockfd e) (-1)) (c\<lparr>cmem := h\<rparr>)" using assms(3) c1 x(2) n e by (auto simp: idle_try_def)
  have core: "entry_core a t c' p sc hs sent xs' (e\<lparr>e_state := CONN_STATE_CLOSING\<rparr>)"
    using i p sc x(5) free_node_dom [OF x(4)] by (auto simp: entry_inv_def entry_core_def shape_def active_def op_defs c' poll_def)
  show ?thesis
    by (rule that [OF e p(1) sc p(2) _ c' _ core]) (use i b x(3) in \<open>auto simp: entry_inv_def entry_core_def base_inv_def c' poll_def\<close>)
qed

lemma request_gone_inv:
  assumes "idle_ops ladd ldel" "conn_inv a t c p sc hs sent" "idle_try ldel t c = Some (a, c1)"
    "upd_conn a (\<lambda>x. x\<lparr>e_state := CONN_STATE_CLOSING\<rparr>) c1 = Some c'"
  shows "conn_inv a t c' p sc hs sent"
proof -
  from idle_try_inv [OF assms(1-3)] obtain e h xs' where
    e: "conns c a = Some e" "c1 = poll (Pset (e_sockfd e) (-1)) (c\<lparr>cmem := h\<rparr>)" "base_inv a t c1 sent xs'"
      "entry_core a t c1 p sc hs sent xs' (e\<lparr>e_state := CONN_STATE_CLOSING\<rparr>)" "e_ref e > 0" by blast
  have "conns c1 a = Some e" using e(1,2) by (simp add: poll_def)
  then have "c' = c1\<lparr>conns := (conns c1)(a \<mapsto> e\<lparr>e_state := CONN_STATE_CLOSING\<rparr>)\<rparr>" using assms(4) by (simp add: upd_conn_def)
  then show ?thesis using conn_inv_updI2 [OF e(3)] e(4,5) by (simp add: entry_inv_def)
qed

lemma request_idle_inv:
  assumes "idle_ops ladd ldel" "conn_inv a t c p sc hs sent" "idle_try ldel t c = Some (a, c1)" "x \<noteq> NULL" "x \<notin> set sent"
    "csessions c1 x = Some y" "s_target y = t" "use_idle ans oerr now u x a c1 = Some (ret, c')"
  shows "conn_inv a t c' (regs (registered c c' (Some PD_OP_READ))) sc hs (sent @ [x])"
proof -
  from idle_try_inv [OF assms(1-3)] obtain e h xs' where
    e: "conns c a = Some e" "p = [PD_OP_READ]" "\<not> sc" "e_state e = CONN_STATE_IDLE" "e_service e = NULL"
      "c1 = poll (Pset (e_sockfd e) (-1)) (c\<lparr>cmem := h\<rparr>)" "base_inv a t c1 sent xs'"
      "entry_core a t c1 p sc hs sent xs' (e\<lparr>e_state := CONN_STATE_CLOSING\<rparr>)" "e_ref e > 0" by blast
  have "conns c1 a = Some e" "ctargets c1 t \<noteq> None" using e(1,6,7) by (simp_all add: poll_def base_inv_def)
  from use_idle_op [OF this(1) e(5,4) assms(6,7) this(2) assms(8), of "Some PD_OP_READ"] obtain e' ks where
    o: "conn_op a t (e\<lparr>e_session := x\<rparr>) c1 e' c' ks" and
    k: "e_state e' \<in> {CONN_STATE_RECEIVING, CONN_STATE_ERROR} \<and> foldl reg (Some PD_OP_READ) ks = Some PD_OP_READ \<or>
       e_state e' = CONN_STATE_IDLE \<and> foldl reg (Some PD_OP_READ) ks = Some PD_OP_WRITE" by auto
  let ?p = "regs (foldl reg (Some PD_OP_READ) ks)"
  have r: "registered c c' (Some PD_OP_READ) = foldl reg (Some PD_OP_READ) ks" using o e(6) by (simp add: registered_def conn_op_def poll_def)
  have q: "shape ?p False (e_state e')" "active ?p False (e_state e')" "?p \<noteq> []" "?p \<noteq> [PD_OP_CONNECT]"
    using k by (auto simp: regs_def shape_def active_def op_defs)
  have "accounted (handles c1) hs False NULL sent" using entry_idle [OF e(8)] e(2,3) by (simp add: active_def op_defs)
  then have acc: "accounted (handles c') hs True x (sent @ [x])" using o by (auto simp: accounted_def conn_op_def)
  have "entry_inv a t c' ?p sc hs (sent @ [x]) xs' e'"
    using active_states [OF q(1,2)] q o e(2,3,8,9) acc by (auto simp: entry_inv_def entry_core_def conn_op_def in_session_def)
  moreover have "base_inv a t c' (sent @ [x]) xs'" "conns c' a = Some e'" using o e(7) assms(4,5) by (auto simp: base_inv_def conn_op_def)
  ultimately show ?thesis unfolding r by (intro conn_invI)
qed

lemma message_inv:
  assumes "conn_inv a t c [PD_OP_READ] sc hs sent" "conns c a = Some e" "e_state e = CONN_STATE_RECEIVING"
  shows "\<exists>c'. append_message ret now u a c = Some (ret, c') \<and> conn_inv a t c' [PD_OP_READ] (sc \<or> ret > 0) hs sent \<and> \<not> sc"
proof -
  from conn_invE [OF assms(1)] assms(2) obtain xs where
    b: "base_inv a t c sent xs" and i: "entry_inv a t c [PD_OP_READ] sc hs sent xs e" by auto
  have sc: "\<not> sc" and act: "active [PD_OP_READ] sc (e_state e)" using i assms(3) by (auto simp: inv_defs op_defs split: if_splits)
  from append_message_op [OF client_session [OF entry_client [OF b assms(2) i act]], of ret now u None] obtain e' c' ks where
    m: "append_message ret now u a c = Some (ret, c')" "conn_op a t e c e' c' ks" "e_state e' = (if ret > 0 then CONN_STATE_SUCCESS else e_state e)" by auto
  have "conn_inv a t c' [PD_OP_READ] (ret > 0) hs sent"
    by (rule conn_op_inv [OF b i m(2) act]) (use m(3) assms(3) in \<open>auto simp: active_def shape_def op_defs\<close>)
  then show ?thesis using m(1) sc by auto
qed

lemma same_conn_inv:
  assumes "conn_inv a t c p sc hs sent" "conns c' = conns c" "ctargets c' = ctargets c" "cmem c' = cmem c" "handles c' = handles c" "closed c' = closed c"
    "\<And>e :: conn_entry. active p sc (e_state e) \<Longrightarrow> accounted (handles c) hs True (e_session e) sent \<Longrightarrow> in_session t (e_session e) c \<Longrightarrow> distinct sent \<Longrightarrow> in_session t (e_session e) c'"
  shows "conn_inv a t c' p sc hs sent"
proof -
  from assms(1) obtain xs where b: "base_inv a t c sent xs"
    and d: "case conns c a of None \<Rightarrow> gone_inv a c p sc hs sent xs | Some e \<Rightarrow> entry_inv a t c p sc hs sent xs e" by (auto simp: conn_inv_def)
  have b': "base_inv a t c' sent xs" and ds: "distinct sent" using b assms(3,4) by (simp_all add: base_inv_def)
  show ?thesis
  proof (cases "conns c a")
    case None
    then have "gone_inv a c' p sc hs sent xs" using d assms(5,6) by (simp add: gone_inv_def)
    then show ?thesis using b' None assms(2) by (auto simp: conn_inv_def)
  next
    case (Some e)
    then have core: "entry_core a t c p sc hs sent xs e" "e_ref e > 0" using d by (simp_all add: entry_inv_def)
    have "in_session t (e_session e) c'" if act: "active p sc (e_state e)"
      using assms(7) [OF act entry_session [OF core(1) refl act] _ ds] core(1) act by (simp add: entry_core_def)
    then have "entry_core a t c' p sc hs sent xs e" using core(1) assms(4-6) by (simp add: entry_core_def)
    then show ?thesis using b' Some assms(2) core(2) by (intro conn_invI [of _ _ _ _ xs e]) (simp_all add: entry_inv_def)
  qed
qed

lemma create_inv:
  assumes "conn_inv a t c [PD_OP_READ] sc hs sent"
  shows "\<exists>m c'. create_reply u a c = Some (m, c') \<and> conn_inv a t c' [PD_OP_READ] sc hs sent"
proof -
  from conn_invE [OF assms] obtain xs e where
    b: "base_inv a t c sent xs" and e: "conns c a = Some e" and i: "entry_inv a t c [PD_OP_READ] sc hs sent xs e" by blast
  show ?thesis
  proof (cases "e_state e = CONN_STATE_RECEIVING")
    case True
    then have act: "active [PD_OP_READ] sc (e_state e)" by (simp add: active_def)
    note k = entry_client [OF b e i act]
    then obtain m c' where m: "create_reply u a c = Some (m, c')"
      using True e by (cases "u_in u = NULL") (auto simp: create_reply_def set_in_def upd_csession_def client_defs)
    then have "conns c' = conns c \<and> ctargets c' = ctargets c \<and> cmem c' = cmem c \<and> handles c' = handles c \<and> closed c' = closed c \<and>
        (\<forall>x. in_session t x c \<longrightarrow> in_session t x c')"
      using True e by (auto simp: create_reply_def set_in_def upd_csession_def in_session_def split: if_splits option.splits)
    then have "conn_inv a t c' [PD_OP_READ] sc hs sent" by (intro same_conn_inv [OF assms]) simp_all
    then show ?thesis using m by auto
  next
    case False
    then show ?thesis using e same_conn_inv [OF assms, of "c\<lparr>cerrno := EBADMSG_code\<rparr>"] by (simp add: create_reply_def in_session_def)
  qed
qed

lemma written_inv:
  assumes "conn_inv a t c [PD_OP_WRITE] sc hs sent"
  shows "\<exists>c'. partial_written now a c = Some (0, c') \<and> conn_inv a t c' [PD_OP_WRITE] sc hs sent"
proof -
  from conn_invE [OF assms] obtain xs e where
    b: "base_inv a t c sent xs" and e: "conns c a = Some e" and i: "entry_inv a t c [PD_OP_WRITE] sc hs sent xs e" by blast
  have act: "active [PD_OP_WRITE] sc (e_state e)" by (simp add: active_def)
  from partial_written_op [OF client_session [OF entry_client [OF b e i act]], of now None] obtain c' ks where
    m: "partial_written now a c = Some (0, c')" "conn_op a t e c e c' ks" by auto
  have "conn_inv a t c' [PD_OP_WRITE] sc hs sent" by (rule conn_op_inv [OF b i m(2) act _ act]) (use i in \<open>auto simp: entry_inv_def entry_core_def\<close>)
  then show ?thesis using m(1) by auto
qed

text \<open>Sessions that were handled may go, and new ones may come.\<close>

lemma accounted_once: "accounted H hs True x sent \<Longrightarrow> distinct sent \<Longrightarrow> x \<notin> fst ` set H"
proof
  assume a: "accounted H hs True x sent" "distinct sent" "x \<in> fst ` set H"
  from a(3) obtain M where "mset (map fst H) = add_mset x M" by (metis mset_add set_map set_mset_mset)
  then have "add_mset x (add_mset x (M + mset (filter (\<lambda>x. x \<noteq> NULL) hs))) = mset sent" using a(1) by (simp add: accounted_def)
  then have "Multiset.count (mset sent) x \<ge> 2" by (metis count_add_mset Suc_le_mono numeral_2_eq_2 zero_le)
  then show False using a(2) by (auto simp: distinct_count_atmost_1 split: if_splits)
qed

lemma forget_inv:
  assumes "conn_inv a t c p sc hs sent" "x \<in> fst ` set (handles c)"
  shows "conn_inv a t (c\<lparr>csessions := (csessions c)(x := None)\<rparr>) p sc hs sent"
proof (rule same_conn_inv [OF assms(1)])
  fix e :: conn_entry assume "accounted (handles c) hs True (e_session e) sent" "distinct sent" "in_session t (e_session e) c"
  with accounted_once [OF this(1,2)] assms(2) show "in_session t (e_session e) (c\<lparr>csessions := (csessions c)(x := None)\<rparr>)"
    by (auto simp: in_session_def)
qed simp_all

lemma new_session_inv:
  assumes "conn_inv a t c p sc hs sent" "csessions c x = None"
  shows "conn_inv a t (c\<lparr>csessions := (csessions c)(x \<mapsto> y)\<rparr>) p sc hs sent"
proof (rule same_conn_inv [OF assms(1)])
  fix e :: conn_entry assume "in_session t (e_session e) c"
  then have "e_session e \<noteq> x" "in_session t (e_session e) c" using assms(2) by (auto simp: in_session_def)
  then show "in_session t (e_session e) (c\<lparr>csessions := (csessions c)(x \<mapsto> y)\<rparr>)" by (simp add: in_session_def)
qed simp_all

subsection \<open>The system\<close>

definition pend :: "client \<Rightarrow> int list" where
  "pend s = pend_of (cnode s) (cqueue s)"

definition messages :: "client \<Rightarrow> (int \<times> presult) list" where
  "messages s = msgs_of (cqueue s)"

definition holders :: "client \<Rightarrow> addr list" where
  "holders s = concat (map holder (cdone s))"

definition client_inv :: "addr \<Rightarrow> addr \<Rightarrow> client \<Rightarrow> bool" where
  "client_inv a t s \<longleftrightarrow> conn_inv a t (cc s) (pend s) (messages s \<noteq> []) (holders s) (csent s) \<and> length (messages s) \<le> 1 \<and>
     (\<forall>q \<in> set (cqueue s). r_entry (snd q) = a \<and> (is_final q \<or> q = (PD_OP_READ, snd q) \<and> r_state (snd q) = PR_ST_SUCCESS))"

text \<open>The connection starts with \<open>request_new_conn\<close> for the session \<open>x\<close>.\<close>

inductive client_run :: "list_add_fun \<Rightarrow> list_del_fun \<Rightarrow> addr \<Rightarrow> addr \<Rightarrow> client \<Rightarrow> bool" for ladd ldel a t where
  start: "request_new_conn l x t c0 = Some (0, c) \<Longrightarrow> la_entry l = a \<Longrightarrow> csessions c0 x = Some y \<Longrightarrow> s_target y = t \<Longrightarrow> ctargets c0 t \<noteq> None \<Longrightarrow>
    list_at (cmem c0) t xs \<Longrightarrow> a \<notin> set xs \<Longrightarrow> a \<noteq> t \<Longrightarrow> x \<noteq> NULL \<Longrightarrow> handles c0 = [] \<Longrightarrow> closed c0 = [] \<Longrightarrow>
    client_run ladd ldel a t \<lparr>cc = c, cnode = registered c0 c None, cqueue = [], cdone = [], csent = [x]\<rparr>"
| step: "client_run ladd ldel a t s \<Longrightarrow> client_step ladd ldel a t s s' \<Longrightarrow> client_run ladd ldel a t s'"

lemma pend_short: "conn_inv a t c p sc hs sent \<Longrightarrow> length p \<le> 1"
  by (auto simp: conn_inv_def gone_inv_def entry_inv_def entry_core_def shape_def split: option.splits if_splits)

text \<open>Taking a result out of the queue.\<close>

lemma client_pend: "client_inv a t s \<Longrightarrow> length (pend_of (cnode s) (cqueue s)) \<le> 1"
  using pend_short by (auto simp: client_inv_def pend_def)

lemma take_final:
  assumes "client_inv a t s" "cqueue s = qs @ q # rs" "is_final q"
  shows "pend s = [fst q]" "cnode s = None" "filter is_final (qs @ rs) = []" "msgs_of (qs @ rs) = messages s" "r_entry (snd q) = a"
  using take_final_of [OF client_pend [OF assms(1), unfolded assms(2)] assms(3)] assms(1,2)
  by (simp_all add: pend_def messages_def client_inv_def)

lemma take_message:
  assumes "client_inv a t s" "cqueue s = qs @ q # rs" "\<not> is_final q"
  shows "messages s = [q]" "msgs_of (qs @ rs) = []" "filter is_final (qs @ rs) = filter is_final (cqueue s)"
    "r_entry (snd q) = a" "r_state (snd q) = PR_ST_SUCCESS"
  using take_message_of [of qs q rs, OF _ assms(3)] assms by (auto simp: messages_def client_inv_def)

lemmas queue_defs = pend_def pend_of_def messages_def msgs_of_def holders_def

lemma section_step:
  assumes "idle_ops ladd ldel" "client_inv a t s" "cqueue s = qs @ (PD_OP_READ, r) # rs"
  shows "\<exists>td c. reply_section ladd ldel r (cc s) = Some (td, c) \<and> client_inv a t (s\<lparr>cc := c, cqueue := qs @ rs, cdone := cdone s @ [td]\<rparr>)"
proof (cases "is_final (PD_OP_READ, r)")
  case True
  note q = take_final [OF assms(2,3) True]
  have i: "conn_inv a t (cc s) [PD_OP_READ] (messages s \<noteq> []) (holders s) (csent s)" using assms(2) q(1) by (simp add: client_inv_def)
  from section_final_inv [OF assms(1) i, of r] True q(5) obtain td c where
    "reply_section ladd ldel r (cc s) = Some (td, c)" "conn_inv a t c [] (messages s \<noteq> []) (holders s @ holder td) (csent s)"
    by (auto simp: is_final_def)
  then show ?thesis using assms(2,3) q
    by (intro exI [of _ td] exI [of _ c]) (auto simp: client_inv_def queue_defs regs_def)
next
  case False
  note q = take_message [OF assms(2,3) False]
  have i: "conn_inv a t (cc s) (pend s) True (holders s) (csent s)" using assms(2) q(1) by (simp add: client_inv_def)
  from section_success_inv [OF assms(1) i, of r] q(4,5) obtain td c where
    "reply_section ladd ldel r (cc s) = Some (td, c)" "td_entry td" "conn_inv a t c (pend s) False (holders s @ [td_session td]) (csent s)" by auto
  then show ?thesis using assms(2,3) q(2,3)
    by (intro exI [of _ td] exI [of _ c]) (auto simp: client_inv_def queue_defs holder_def)
qed

lemma finish_step:
  assumes "client_inv a t s" "cdone s = ds @ td # es"
  shows "\<exists>c. reply_finish a t td (cc s) = Some c \<and> client_inv a t (s\<lparr>cc := c, cdone := ds @ es\<rparr>)"
proof (cases "td_entry td")
  case True
  then have "conn_inv a t (cc s) (pend s) (messages s \<noteq> []) (concat (map holder ds) @ td_session td # concat (map holder es)) (csent s)"
    using assms by (simp add: client_inv_def holders_def holder_def)
  from finish_inv [OF this True] obtain c where "reply_finish a t td (cc s) = Some c"
    "conn_inv a t c (pend s) (messages s \<noteq> []) (concat (map holder ds) @ concat (map holder es)) (csent s)" by auto
  then show ?thesis using assms(1) by (auto simp: client_inv_def queue_defs)
next
  case False
  then show ?thesis using assms by (auto simp: reply_finish_def client_inv_def queue_defs holder_def)
qed

lemma no_message: "conn_inv a t c [op] sc hs sent \<Longrightarrow> op = PD_OP_WRITE \<or> op = PD_OP_CONNECT \<Longrightarrow> \<not> sc"
  by (erule conn_invE) (auto simp: entry_inv_def entry_core_def shape_def op_defs)

lemma final_result_step:
  assumes "client_inv a t s" "cqueue s = qs @ (op, r) # rs" "op = PD_OP_WRITE \<or> op = PD_OP_CONNECT"
  shows "is_end (r_state r)" "r_entry r = a" "conn_inv a t (cc s) [op] False (holders s) (csent s)"
    "conn_inv a t c (regs n) False (holders s) (csent s) \<Longrightarrow> client_inv a t (s\<lparr>cc := c, cqueue := qs @ rs, cnode := n\<rparr>)"
proof -
  have f: "is_final (op, r)" using assms by (auto simp: client_inv_def op_defs)
  note q = take_final [OF assms(1,2) f]
  have i: "conn_inv a t (cc s) [op] (messages s \<noteq> []) (holders s) (csent s)" using assms(1) q(1) by (simp add: client_inv_def)
  then have m: "messages s = []" using no_message assms(3) by blast
  show "is_end (r_state r)" "r_entry r = a" using f q(5) by (simp_all add: is_final_def)
  show "conn_inv a t (cc s) [op] False (holders s) (csent s)" using i m by simp
  assume "conn_inv a t c (regs n) False (holders s) (csent s)"
  then show "client_inv a t (s\<lparr>cc := c, cqueue := qs @ rs, cnode := n\<rparr>)"
    using assms(1,2) q(3,4) m by (auto simp: client_inv_def queue_defs)
qed

lemma node_pend:
  assumes "client_inv a t s" "cnode s = Some op"
  shows "pend s = [op]" "filter is_final (cqueue s) = []"
  using node_pend_of client_pend [OF assms(1)] assms(2) by (simp_all add: pend_def)

lemma client_inv_cc:
  "client_inv a t s \<Longrightarrow> conn_inv a t c (pend s) (messages s \<noteq> []) (holders s) (csent s) \<Longrightarrow> client_inv a t (s\<lparr>cc := c\<rparr>)"
  by (simp add: client_inv_def queue_defs)

lemma message_step:
  assumes "client_inv a t s" "cnode s = Some PD_OP_READ" "conns (cc s) a = Some e" "e_state e = CONN_STATE_RECEIVING"
    "append_message ret now u a (cc s) = Some (r, c)"
  shows "ret \<le> 0 \<Longrightarrow> client_inv a t (s\<lparr>cc := c\<rparr>)"
    "ret > 0 \<Longrightarrow> client_inv a t (s\<lparr>cc := c, cqueue := cqueue s @ [(PD_OP_READ, \<lparr>r_state = PR_ST_SUCCESS, r_error = 0, r_entry = a\<rparr>)]\<rparr>)"
proof -
  note n = node_pend [OF assms(1,2)]
  have "conn_inv a t (cc s) [PD_OP_READ] (messages s \<noteq> []) (holders s) (csent s)" using assms(1) n(1) by (simp add: client_inv_def)
  from message_inv [OF this assms(3,4), of ret now u] assms(5) have
    i: "conn_inv a t c [PD_OP_READ] (messages s \<noteq> [] \<or> ret > 0) (holders s) (csent s)" "messages s = []" by auto
  show "client_inv a t (s\<lparr>cc := c\<rparr>)" if "ret \<le> 0" using client_inv_cc [OF assms(1), of c] i n(1) that by simp
  show "client_inv a t (s\<lparr>cc := c, cqueue := cqueue s @ [(PD_OP_READ, \<lparr>r_state = PR_ST_SUCCESS, r_error = 0, r_entry = a\<rparr>)]\<rparr>)" if "ret > 0"
    using i that assms(1,2) n by (auto simp: client_inv_def queue_defs is_final_def regs_def)
qed

lemma final_step:
  assumes "client_inv a t s" "cnode s = Some op" "is_end st"
  shows "client_inv a t (s\<lparr>cnode := None, cqueue := cqueue s @ [(op, \<lparr>r_state = st, r_error = err, r_entry = a\<rparr>)]\<rparr>)"
  using assms node_pend [OF assms(1,2)] by (auto simp: client_inv_def queue_defs is_final_def regs_def)

text \<open>The steps that change the state of the communicator only.\<close>

lemma create_step:
  assumes "client_inv a t s" "cnode s = Some PD_OP_READ" "create_reply u a (cc s) = Some (m, c)"
  shows "client_inv a t (s\<lparr>cc := c\<rparr>)"
  using create_inv [of a t "cc s" "messages s \<noteq> []" "holders s" "csent s" u] node_pend [OF assms(1,2)] assms
  by (intro client_inv_cc) (simp_all add: client_inv_def)

lemma written_step:
  assumes "client_inv a t s" "cnode s = Some PD_OP_WRITE" "partial_written now a (cc s) = Some (r, c)"
  shows "client_inv a t (s\<lparr>cc := c\<rparr>)"
  using written_inv [of a t "cc s" "messages s \<noteq> []" "holders s" "csent s" now] node_pend [OF assms(1,2)] assms
  by (intro client_inv_cc) (simp_all add: client_inv_def)

lemma forget_step:
  "client_inv a t s \<Longrightarrow> x \<in> fst ` set (handles (cc s)) \<Longrightarrow> client_inv a t (s\<lparr>cc := (cc s)\<lparr>csessions := (csessions (cc s))(x := None)\<rparr>\<rparr>)"
  by (intro client_inv_cc) (simp_all add: client_inv_def forget_inv)

lemma new_session_step:
  "client_inv a t s \<Longrightarrow> csessions (cc s) x = None \<Longrightarrow> client_inv a t (s\<lparr>cc := (cc s)\<lparr>csessions := (csessions (cc s))(x \<mapsto> y)\<rparr>\<rparr>)"
  by (intro client_inv_cc) (simp_all add: client_inv_def new_session_inv)

lemma request_idle_step:
  assumes "idle_ops ladd ldel" "client_inv a t s" "idle_try ldel t (cc s) = Some (a, c)" "cnode s = Some PD_OP_READ" "x \<noteq> NULL" "x \<notin> set (csent s)"
    "csessions c x = Some y" "s_target y = t" "use_idle ans oerr now u x a c = Some (ret, c')"
  shows "client_inv a t (s\<lparr>cc := c', cnode := registered (cc s) c' (Some PD_OP_READ), csent := csent s @ [x]\<rparr>)"
proof -
  have "conn_inv a t (cc s) (pend s) (messages s \<noteq> []) (holders s) (csent s)" using assms(2) by (simp add: client_inv_def)
  from request_idle_inv [OF assms(1) this assms(3,5-9)] show ?thesis
    using assms(2) node_pend(2) [OF assms(2,4)] by (simp add: client_inv_def queue_defs)
qed

lemma client_step_inv:
  assumes "idle_ops ladd ldel" "client_step ladd ldel a t s s'" "client_inv a t s"
  shows "client_inv a t s'"
  using assms(2)
proof cases
  case (read_section qs r rs td c)
  then show ?thesis using section_step [OF assms(1,3) read_section(2)] by simp
next
  case (read_finish ds td es c)
  then show ?thesis using finish_step [OF assms(3) read_finish(2)] by simp
next
  case (write_result qs r rs pret perr now u c)
  note q = final_result_step [OF assms(3) write_result(2)]
  from write_result_inv [of a t "cc s" "holders s" "csent s" r pret perr now u] q(1-3) write_result(3)
  show ?thesis using q(4) write_result(1) by simp
next
  case (connect_result qs r rs ans oerr pret perr now u c)
  note q = final_result_step [OF assms(3) connect_result(2)]
  from connect_result_inv [of a t "cc s" "holders s" "csent s" r ans oerr pret perr now u c] q(1-3) connect_result(3)
  show ?thesis using q(4) connect_result(1) by simp
next
  case (request_gone c c')
  with assms(3) have "conn_inv a t c' (pend s) (messages s \<noteq> []) (holders s) (csent s)"
    by (intro request_gone_inv [OF assms(1) _ request_gone(2,3)]) (simp add: client_inv_def)
  then show ?thesis using client_inv_cc [OF assms(3)] request_gone(1) by simp
next
  case (request_idle c x y ans oerr now u ret c')
  from request_idle_step [OF assms(1,3) request_idle(2-8)] request_idle(1) show ?thesis by simp
qed (use final_step [OF assms(3)] create_step [OF assms(3)] message_step [OF assms(3)] written_step [OF assms(3)] forget_step [OF assms(3)] new_session_step [OF assms(3)] in \<open>simp_all\<close>)

lemma start_inv:
  assumes "request_new_conn l x t c0 = Some (0, c)" "la_entry l = a" "csessions c0 x = Some y" "s_target y = t" "ctargets c0 t \<noteq> None"
    "list_at (cmem c0) t xs" "a \<notin> set xs" "a \<noteq> t" "x \<noteq> NULL" "handles c0 = []" "closed c0 = []"
  shows "client_inv a t \<lparr>cc = c, cnode = registered c0 c None, cqueue = [], cdone = [], csent = [x]\<rparr>"
proof -
  let ?h = "(cmem c0)((a, nextf) \<mapsto> NULL, (a, prevf) \<mapsto> NULL)"
  have "list_at ?h t xs \<longleftrightarrow> list_at (cmem c0) t xs" by (rule list_at_cong) (use assms(7,8) in auto)
  then have l: "list_at ?h t xs" using assms(6) by simp
  have a: "a \<noteq> NULL" and p: "la_poll l \<ge> 0"
    using assms(1,2) by (auto simp: request_new_conn_def launch_conn_def Let_def split: prod.splits if_splits Option.bind_splits)
  define e where "e = \<lparr>e_conn = la_conn l, e_seq = 1, e_sockfd = la_sockfd l, e_state = CONN_STATE_CONNECTING, e_error = 0, e_ref = 1,
    e_iov = [], e_session = x, e_target = t, e_service = NULL\<rparr>"
  have f: "conns c a = Some e" "cmem c = ?h" "handles c = []" "closed c = []" "ctargets c = ctargets c0" "in_session t x c"
      "pcalls c = pcalls c0 @ [Padd PD_OP_CONNECT (la_sockfd l) (t_connect (the (ctargets c0 t))) (la_poll l)]"
    using assms a p
    by (auto simp: request_new_conn_def launch_conn_def nonblock_connect_def number_session_def upd_conn_def upd_csession_def poll_def
        alloc_links_def in_session_def e_def split: if_splits)
  have "entry_inv a t c [PD_OP_CONNECT] False [] [x] xs e"
    using f a assms(7) by (simp add: inv_defs accounted_def free_node_def op_defs e_def)
  moreover have "base_inv a t c [x] xs" using f l a assms(5,8,9) by (simp add: base_inv_def)
  ultimately have "conn_inv a t c [PD_OP_CONNECT] False [] [x]" using f(1) by (intro conn_invI)
  then show ?thesis using f(7) p by (simp add: client_inv_def queue_defs regs_def registered_def)
qed

lemma client_run_inv: "client_run ladd ldel a t s \<Longrightarrow> idle_ops ladd ldel \<Longrightarrow> client_inv a t s"
  by (induction rule: client_run.induct) (auto intro: start_inv client_step_inv)

text \<open>What the invariant says, for the outside.\<close>

lemma client_inv_entry:
  assumes "client_inv a t s" "conns (cc s) a = Some e"
  shows "e_ref e > 0 \<and> closed (cc s) = [] \<and> (cnode s \<noteq> None \<or> cqueue s \<noteq> [] \<or> (\<exists>td \<in> set (cdone s). td_entry td))"
proof -
  from assms obtain xs where i: "entry_inv a t (cc s) (pend s) (messages s \<noteq> []) (holders s) (csent s) xs e"
    by (auto simp: client_inv_def conn_inv_def)
  then have "pend s \<noteq> [] \<or> messages s \<noteq> [] \<or> holders s \<noteq> []" "e_ref e > 0" "closed (cc s) = []" by (auto simp: entry_inv_def entry_core_def split: if_splits)
  then show ?thesis by (auto simp: queue_defs holder_def regs_def split: if_splits option.splits)
qed

lemma client_inv_gone:
  assumes "client_inv a t s" "conns (cc s) a = None"
  shows "length (closed (cc s)) = 1 \<and> cnode s = None \<and> cqueue s = [] \<and> (\<forall>td \<in> set (cdone s). \<not> td_entry td) \<and>
    mset (map fst (handles (cc s))) = mset (csent s)"
proof -
  from assms obtain xs where i: "gone_inv a (cc s) (pend s) (messages s \<noteq> []) (holders s) (csent s) xs"
    by (auto simp: client_inv_def conn_inv_def)
  then have g: "length (closed (cc s)) = 1" "pend s = []" "messages s = []" "holders s = []" "mset (map fst (handles (cc s))) = mset (csent s)"
    by (auto simp: gone_inv_def accounted_def)
  then have "cqueue s = [] \<and> cnode s = None" by (metis queue_empty_iff pend_def messages_def)
  then show ?thesis using g by (auto simp: holders_def holder_def split: if_splits)
qed

lemma distinct_count_le_1: "(\<And>y. Multiset.count (mset xs) y \<le> 1) \<Longrightarrow> distinct xs"
proof (induction xs)
  case (Cons x xs)
  have "Multiset.count (mset xs) y \<le> 1" for y using Cons.prems [of y] by (cases "x = y") (simp_all del: count_mset_0_iff)
  moreover have "x \<notin> set xs" using Cons.prems [of x] by (simp add: count_eq_zero_iff)
  ultimately show ?case using Cons.IH by simp
qed simp

lemma client_inv_handles:
  assumes "client_inv a t s"
  shows "distinct (map fst (handles (cc s))) \<and> fst ` set (handles (cc s)) \<subseteq> set (csent s)"
proof -
  from assms obtain xs where d: "distinct (csent s)" and i: "case conns (cc s) a of None \<Rightarrow> gone_inv a (cc s) (pend s) (messages s \<noteq> []) (holders s) (csent s) xs
      | Some e \<Rightarrow> entry_inv a t (cc s) (pend s) (messages s \<noteq> []) (holders s) (csent s) xs e"
    by (auto simp: client_inv_def conn_inv_def base_inv_def)
  obtain hs act x where "accounted (handles (cc s)) hs act x (csent s)"
    using i by (cases "conns (cc s) a") (auto simp: gone_inv_def entry_inv_def entry_core_def)
  then have s: "mset (map fst (handles (cc s))) \<subseteq># mset (csent s)" unfolding accounted_def by (metis mset_subset_eq_add_left add.assoc)
  have "Multiset.count (mset (map fst (handles (cc s)))) y \<le> 1" for y
    using mset_subset_eq_count [OF s, of y] d by (simp add: distinct_count_atmost_1 split: if_splits)
  then have "distinct (map fst (handles (cc s)))"
    by (rule distinct_count_le_1)
  moreover have "fst ` set (handles (cc s)) \<subseteq> set (csent s)" using set_mset_mono [OF s] by simp
  ultimately show ?thesis by simp
qed

subsection \<open>The handlers never touch a released connection\<close>

lemma queue_op:
  assumes "client_inv a t s" "(op, r) \<in> set (cqueue s)"
  shows "op = PD_OP_READ \<or> op = PD_OP_WRITE \<or> op = PD_OP_CONNECT"
proof (cases "is_final (op, r)")
  case True
  from assms(2) obtain qs rs where "cqueue s = qs @ (op, r) # rs" by (auto dest: split_list)
  from take_final(1) [OF assms(1) this True] assms(1) have "conn_inv a t (cc s) [op] (messages s \<noteq> []) (holders s) (csent s)" by (simp add: client_inv_def)
  then show ?thesis by (rule conn_invE) (auto simp: entry_inv_def entry_core_def shape_def split: if_splits)
next
  case False
  with assms show ?thesis by (auto simp: client_inv_def)
qed

lemma send_message_defined:
  assumes "client_of a t e c" "\<exists>err. Inl err \<in> set (sa_writes ans)"
  shows "\<exists>ret c'. send_message ans now u a c = Some (ret, c')"
proof -
  have k: "client_of a t e (c\<lparr>cerrno := err\<rparr>)" for err using assms(1) by (simp add: client_defs)
  then have "sent_all now u a e (c\<lparr>cerrno := err\<rparr>) \<noteq> None" for err
    using sent_request_op [OF k, of now u _ None] sent_all_client [OF k, of now u] by fastforce
  from send_message_total [OF client_session [OF assms(1)] assms(2) this] show ?thesis by auto
qed

lemma connect_result_defined:
  assumes "conn_inv a t c [PD_OP_CONNECT] False hs sent" "is_end (r_state r)" "r_entry r = a" "\<exists>err. Inl err \<in> set (sa_writes ans)"
  shows "\<exists>c'. handle_connect_result ans oerr pret perr now u r c = Some c'"
proof -
  from conn_invE [OF assms(1)] obtain xs e where
    b: "base_inv a t c sent xs" and e: "conns c a = Some e" and i: "entry_inv a t c [PD_OP_CONNECT] False hs sent xs e" by blast
  have st: "e_state e \<noteq> CONN_STATE_RECEIVING" using i by (auto simp: inv_defs op_defs)
  obtain y where k: "client_of a t e c" "csessions c (e_session e) = Some y" "s_target y = t" using entry_failing(2) [OF b e i] by (auto simp: client_defs)
  let ?c = "c\<lparr>csessions := (csessions c)(e_session e \<mapsto> y\<lparr>s_out := u_out u\<rparr>)\<rparr>"
  have ck: "client_of a t e ?c" using k by (simp add: client_defs)
  from send_message_defined [OF ck assms(4)] obtain ret c1 where m: "send_message ans now u a ?c = Some (ret, c1)" by blast
  from send_message_op [OF ck st m, of None] obtain e1 ks where o: "conn_op a t e ?c e1 c1 ks" by blast
  note ck1 = conn_op_client [OF o ck]
  from await_reply_op [OF ck1, of pret perr now u None] obtain c2 ks' where
    w: "await_reply pret perr now u a c1 = Some c2" "conn_op a t e1 c1 e1 c2 ks'" by auto
  have "\<exists>c'. fail_connect a st err c = Some c'" if "client_of a t e c" for st err c e
    using that by (auto simp: fail_connect_def release_conn_def session_handle_def client_defs)
  note d = this [OF k(1)] this [OF ck1] this [OF conn_op_client [OF w(2) ck1]] this [of e "?c\<lparr>cerrno := oerr\<rparr>"]
  have "client_of a t e (?c\<lparr>cerrno := oerr\<rparr>)" using ck by (simp add: client_defs)
  then show ?thesis using assms(2,3) e k(2) m w(1) d
    by (cases "r_state r = PR_ST_FINISHED"; cases "u_out u = NULL"; cases "ret = 0"; cases "ret > 0"; cases "pret \<ge> 0")
      (simp_all add: handle_connect_result_def upd_csession_def)
qed

lemma queue_defined:
  assumes "idle_ops ladd ldel" "client_inv a t s" "(op, r) \<in> set (cqueue s)"
  shows "if op = PD_OP_READ then reply_section ladd ldel r (cc s) \<noteq> None
    else if op = PD_OP_WRITE then handle_write_result pret perr now u r (cc s) \<noteq> None
    else (\<exists>err. Inl err \<in> set (sa_writes ans)) \<longrightarrow> handle_connect_result ans oerr pret perr now u r (cc s) \<noteq> None"
proof -
  from assms(3) obtain qs rs where q: "cqueue s = qs @ (op, r) # rs" by (meson split_list)
  note f = final_result_step(1-3) [OF assms(2) q]
  from queue_op [OF assms(2,3)] consider "op = PD_OP_READ" | "op = PD_OP_WRITE" | "op = PD_OP_CONNECT" by blast
  then show ?thesis
  proof cases
    case 1
    then show ?thesis using section_step [OF assms(1,2), of qs r rs] q by auto
  next
    case 2
    then show ?thesis using write_result_inv [of a t "cc s" "holders s" "csent s" r pret perr now u] f by (auto simp: op_defs)
  next
    case 3
    then show ?thesis using connect_result_defined [of a t "cc s" "holders s" "csent s" r ans oerr pret perr now u] f by (auto simp: op_defs)
  qed
qed

text \<open>
  C2: the reference count of a client connection is right. In every state of every run of
  handler threads, poller and requests on it, as long as the entry exists its count is
  positive, its descriptor is open, and somebody still has to deal with it (the poller, a
  queued result or a handler); when it was released, its descriptor was closed exactly
  once, nobody refers to it, and every session given to it had its \<open>handle\<close> called. No
  session is handled twice.
\<close>

theorem client_connection_released_once:
  assumes "idle_ops ladd ldel" "client_run ladd ldel a t s"
  shows "(case conns (cc s) a of
      Some e \<Rightarrow> e_ref e > 0 \<and> closed (cc s) = [] \<and> (cnode s \<noteq> None \<or> cqueue s \<noteq> [] \<or> (\<exists>td \<in> set (cdone s). td_entry td))
    | None \<Rightarrow> length (closed (cc s)) = 1 \<and> cnode s = None \<and> cqueue s = [] \<and> (\<forall>td \<in> set (cdone s). \<not> td_entry td) \<and>
        mset (map fst (handles (cc s))) = mset (csent s)) \<and>
    distinct (map fst (handles (cc s))) \<and> fst ` set (handles (cc s)) \<subseteq> set (csent s)"
proof -
  note i = client_run_inv [OF assms(2,1)]
  show ?thesis using client_inv_entry [OF i] client_inv_gone [OF i] client_inv_handles [OF i] by (cases "conns (cc s) a") simp_all
qed

text \<open>
  C10: in every state of such a run, every handler that can run next is defined, whatever
  the poller and the user's functions answer: it reads neither a released connection nor a
  session that was handled and deleted, and the idle list it links or unlinks the entry in
  is intact.
\<close>

theorem client_handlers_defined:
  assumes "idle_ops ladd ldel" "client_run ladd ldel a t s"
  shows "(\<forall>(op, r) \<in> set (cqueue s). if op = PD_OP_READ then reply_section ladd ldel r (cc s) \<noteq> None
      else if op = PD_OP_WRITE then handle_write_result pret perr now u r (cc s) \<noteq> None
      else (\<exists>err. Inl err \<in> set (sa_writes ans)) \<longrightarrow> handle_connect_result ans oerr pret perr now u r (cc s) \<noteq> None) \<and>
    (\<forall>td \<in> set (cdone s). reply_finish a t td (cc s) \<noteq> None) \<and>
    (cnode s = Some PD_OP_READ \<longrightarrow> create_reply u a (cc s) \<noteq> None) \<and>
    (cnode s = Some PD_OP_WRITE \<longrightarrow> partial_written now a (cc s) \<noteq> None)"
proof -
  note i = client_run_inv [OF assms(2,1)]
  have "reply_finish a t td (cc s) \<noteq> None" if "td \<in> set (cdone s)" for td
    using finish_step [OF i] split_list [OF that] by (metis option.distinct(1))
  moreover have "create_reply u a (cc s) \<noteq> None" if "cnode s = Some PD_OP_READ"
    using create_inv [of a t "cc s" "messages s \<noteq> []" "holders s" "csent s" u] node_pend [OF i that] i by (auto simp: client_inv_def)
  moreover have "partial_written now a (cc s) \<noteq> None" if "cnode s = Some PD_OP_WRITE"
    using written_inv [of a t "cc s" "messages s \<noteq> []" "holders s" "csent s" now] node_pend [OF i that] i by (auto simp: client_inv_def)
  ultimately show ?thesis using queue_defined [OF assms(1) i] by blast
qed

subsection \<open>An instance\<close>

definition sample_start :: comm where
  "sample_start = sample_comm\<lparr>conns := Map.empty, csessions := [3 \<mapsto> sample_csession\<lparr>s_target := 1\<rparr>],
     ctargets := [1 \<mapsto> \<lparr>t_connect = 1000, t_response = 2000, t_service = NULL, t_ref = 0, t_sockfd = 0\<rparr>]\<rparr>"

definition sample_launch :: launch_answers where
  "sample_launch = \<lparr>la_sockfd = 9, la_nonblock = 0, la_connect = 0, la_errno = 0, la_entry = 5, la_mutex = 0, la_conn = 80,
     la_poll = 0, la_poll_errno = 0\<rparr>"

text \<open>The connection fails before it is established.\<close>

definition sample_failed :: presult where
  "sample_failed = \<lparr>r_state = PR_ST_ERROR, r_error = 111, r_entry = 5\<rparr>"

lemma sample_client_run:
  obtains s where "client_run sample_list_add list_delete 5 1 s" "cqueue s = [(PD_OP_CONNECT, sample_failed)]" "cdone s = []"
proof -
  obtain c where c: "request_new_conn sample_launch 3 1 sample_start = Some (0, c)" "registered sample_start c None = Some PD_OP_CONNECT"
    by (auto simp: request_new_conn_def launch_conn_def nonblock_connect_def number_session_def upd_conn_def upd_csession_def poll_def
        alloc_links_def sample_launch_def sample_start_def sample_comm_def sample_csession_def registered_def Let_def)
  let ?s = "\<lparr>cc = c, cnode = registered sample_start c None, cqueue = [], cdone = [], csent = [3]\<rparr>"
  have "client_run sample_list_add list_delete 5 1 ?s"
    by (rule client_run.start [OF c(1), of _ "sample_csession\<lparr>s_target := 1\<rparr>" "[]"])
      (use list_heap_at(1) in \<open>auto simp: sample_launch_def sample_start_def sample_comm_def\<close>)
  moreover have "client_step sample_list_add list_delete 5 1 ?s (?s\<lparr>cnode := None, cqueue := cqueue ?s @ [(PD_OP_CONNECT, sample_failed)]\<rparr>)"
    unfolding sample_failed_def by (rule client_step.final) (use c(2) in \<open>auto simp: is_end_def\<close>)
  ultimately show ?thesis using that client_run.step by fastforce
qed

theorem client_connection_released_once_witness:
  "\<exists>s. client_run sample_list_add list_delete 5 1 s \<and> conns (cc s) 5 = None \<and> length (closed (cc s)) = 1 \<and> mset (map fst (handles (cc s))) = mset (csent s)"
proof -
  obtain s where s: "client_run sample_list_add list_delete 5 1 s" "cqueue s = [(PD_OP_CONNECT, sample_failed)]" "cdone s = []" by (rule sample_client_run)
  obtain e where e: "conns (cc s) 5 = Some e"
    using client_connection_released_once [OF sample_idle_ops s(1)] s(2) by (cases "conns (cc s) 5") auto
  obtain c where c: "handle_connect_result sample_sends 0 0 0 (Timespec 0 0) sample_user sample_failed (cc s) = Some c" "conns c 5 = None"
    using e by (auto simp: handle_connect_result_def sample_failed_def is_end_def st_defs fail_connect_def release_conn_def session_handle_def free_links_def)
  let ?s = "s\<lparr>cc := c, cqueue := [] @ [], cnode := registered (cc s) c None\<rparr>"
  have "client_step sample_list_add list_delete 5 1 s ?s" by (rule client_step.connect_result [OF _ c(1)]) (simp add: s(2))
  with s(1) have "client_run sample_list_add list_delete 5 1 ?s" by (rule client_run.step)
  with client_connection_released_once [OF sample_idle_ops this] c(2) show ?thesis
    by (intro exI [of _ ?s]) auto
qed

theorem client_handlers_defined_witness:
  "\<exists>s. client_run sample_list_add list_delete 5 1 s \<and>
     handle_connect_result sample_sends 0 0 0 (Timespec 0 0) sample_user sample_failed (cc s) \<noteq> None"
proof -
  obtain s where s: "client_run sample_list_add list_delete 5 1 s" "cqueue s = [(PD_OP_CONNECT, sample_failed)]" by (rule sample_client_run)
  from client_handlers_defined [OF sample_idle_ops s(1), of 0 0 "Timespec 0 0" sample_user sample_sends 0] s(2) have
    "(\<exists>err. Inl err \<in> set (sa_writes sample_sends)) \<longrightarrow>
      handle_connect_result sample_sends 0 0 0 (Timespec 0 0) sample_user sample_failed (cc s) \<noteq> None"
    by (simp add: op_defs)
  then show ?thesis using s(1) by (auto simp: sample_sends_def)
qed

end
