(* ===== verification/Comm_Server.thy ===== *)
theory Comm_Server
  imports Comm_Conn
begin

section \<open>The life of a server connection\<close>

text \<open>
  One connection of a reliable service, from \<open>accept\<close> to the release of its entry, its
  session and its target, as a step relation over the operations of the communicator: the
  poller reads the request and hands over results, handler threads take them in any order
  and are interrupted between the section under the locks, the call of the session's
  \<open>handle\<close> and what follows it, and the user replies, shuts down and destroys the session
  whenever the interface allows it. \<open>keep_alive_timeout\<close> answers 0, its default, so that the
  connection serves one request. The invariant of the runs is in \<open>Comm_Server_Run\<close>.
\<close>

subsection \<open>The state\<close>

text \<open>
  \<open>sv_node\<close> is the operation of the connection's node, \<open>sv_queue\<close> are the results on their
  way to a handler's section, \<open>sv_done\<close> what is left to do for the threads past theirs, with
  the entry they hold; \<open>sv_session\<close> is the session that was created for the connection and
  \<open>sv_over\<close> says that the user was told by \<open>reply\<close> or \<open>shutdown\<close> that no reply will be sent.
\<close>

record server =
  sv_comm :: comm
  sv_node :: "int option"
  sv_queue :: "(int \<times> presult) list"
  sv_done :: "(addr \<times> todo) list"
  sv_session :: "addr option"
  sv_over :: bool

text \<open>The calls of \<open>handle\<close> that were made: the session and its state.\<close>

definition calls_of :: "comm \<Rightarrow> (addr \<times> int) list" where
  "calls_of c = map (\<lambda>(x, st, err). (x, st)) (handles c)"

text \<open>
  When the user may destroy the session \<open>x\<close>: after the last call of its \<open>handle\<close>, or when no
  further one is to come: nobody replied, the reply failed, or the connection was shut down.
\<close>

definition may_destroy :: "addr \<Rightarrow> comm_session \<Rightarrow> server \<Rightarrow> bool" where
  "may_destroy x y s \<longleftrightarrow> sv_over s \<or> (x, CS_STATE_TOREPLY) \<in> set (calls_of (sv_comm s)) \<and> s_passive y = 2 \<or>
     (\<exists>h \<in> set (calls_of (sv_comm s)). fst h = x \<and> snd h \<noteq> CS_STATE_TOREPLY)"

text \<open>
  What \<open>mpoller_mod\<close> answers: it succeeds only on a descriptor that has a node, and sets
  \<open>ENOENT\<close> only on one that has none (\<open>Poller_Table\<close>).
\<close>

definition answers_ok :: "send_answers \<Rightarrow> server \<Rightarrow> bool" where
  "answers_ok ans s \<longleftrightarrow> (if sv_node s = None then sa_poll ans < 0 else sa_poll ans \<ge> 0 \<or> sa_poll_errno ans \<noteq> errno_code ENOENT)"

text \<open>The section of a write result.\<close>

definition write_section :: "int \<Rightarrow> int \<Rightarrow> session_user \<Rightarrow> presult \<Rightarrow> comm \<Rightarrow> (todo \<times> comm) option" where
  "write_section pret perr u r c = do {
     c \<leftarrow> upd_conn (r_entry r) (\<lambda>x. x\<lparr>e_iov := []\<rparr>) c;
     reply_result pret perr u r c
   }"

subsection \<open>The steps\<close>

inductive server_step :: "list_add_fun \<Rightarrow> list_del_fun \<Rightarrow> addr \<Rightarrow> server \<Rightarrow> server \<Rightarrow> bool"
  for ladd ldel a where
  final: "sv_node s = Some op \<Longrightarrow> is_end st \<Longrightarrow>
    server_step ladd ldel a s (s\<lparr>sv_node := None, sv_queue := sv_queue s @ [(op, \<lparr>r_state = st, r_error = err, r_entry = a\<rparr>)]\<rparr>)"
| opened: "sv_node s = Some PD_OP_READ \<Longrightarrow> conns (sv_comm s) a = Some e \<Longrightarrow> e_state e = CONN_STATE_CONNECTED \<Longrightarrow>
    x \<noteq> NULL \<Longrightarrow> csessions (sv_comm s) x = None \<Longrightarrow> create_request ldel (Some (x, y)) now u a (sv_comm s) = Some (m, c) \<Longrightarrow>
    server_step ladd ldel a s (s\<lparr>sv_comm := c, sv_session := Some x\<rparr>)"
| not_opened: "sv_node s = Some PD_OP_READ \<Longrightarrow> conns (sv_comm s) a = Some e \<Longrightarrow> e_state e \<noteq> CONN_STATE_CONNECTED \<or> new = None \<Longrightarrow>
    create_request ldel new now u a (sv_comm s) = Some (m, c) \<Longrightarrow> server_step ladd ldel a s (s\<lparr>sv_comm := c\<rparr>)"
| part: "sv_node s = Some PD_OP_READ \<Longrightarrow> conns (sv_comm s) a = Some e \<Longrightarrow> e_state e = CONN_STATE_RECEIVING \<Longrightarrow>
    csessions (sv_comm s) (e_session e) = Some y \<Longrightarrow> s_in y \<noteq> NULL \<Longrightarrow> ret \<le> 0 \<Longrightarrow>
    append_message ret now u a (sv_comm s) = Some (r, c) \<Longrightarrow> server_step ladd ldel a s (s\<lparr>sv_comm := c\<rparr>)"
| message: "sv_node s = Some PD_OP_READ \<Longrightarrow> conns (sv_comm s) a = Some e \<Longrightarrow> e_state e = CONN_STATE_RECEIVING \<Longrightarrow>
    csessions (sv_comm s) (e_session e) = Some y \<Longrightarrow> s_in y \<noteq> NULL \<Longrightarrow> ret > 0 \<Longrightarrow>
    append_message ret now u a (sv_comm s) = Some (r, c) \<Longrightarrow>
    server_step ladd ldel a s (s\<lparr>sv_comm := c, sv_queue := sv_queue s @ [(PD_OP_READ, \<lparr>r_state = PR_ST_SUCCESS, r_error = 0, r_entry = a\<rparr>)]\<rparr>)"
| written: "sv_node s = Some PD_OP_WRITE \<Longrightarrow> partial_written now a (sv_comm s) = Some (r, c) \<Longrightarrow>
    server_step ladd ldel a s (s\<lparr>sv_comm := c\<rparr>)"
| read_section: "sv_queue s = qs @ (PD_OP_READ, r) # rs \<Longrightarrow> request_section ladd ldel r (sv_comm s) = Some (td, c) \<Longrightarrow>
    server_step ladd ldel a s (s\<lparr>sv_comm := c, sv_queue := qs @ rs, sv_done := sv_done s @ [(r_entry r, td)]\<rparr>)"
| write_section: "sv_queue s = qs @ (PD_OP_WRITE, r) # rs \<Longrightarrow> u_keep_alive u = 0 \<Longrightarrow> write_section pret perr u r (sv_comm s) = Some (td, c) \<Longrightarrow>
    server_step ladd ldel a s (s\<lparr>sv_comm := c, sv_queue := qs @ rs, sv_done := sv_done s @ [(r_entry r, td)]\<rparr>)"
| call: "sv_done s = ds @ (b, td) # es \<Longrightarrow> td_entry td \<Longrightarrow> td_session td \<noteq> NULL \<Longrightarrow>
    server_step ladd ldel a s (s\<lparr>sv_comm := session_handle (td_session td) (td_state td) (td_error td) (sv_comm s),
      sv_done := ds @ (b, td\<lparr>td_session := NULL\<rparr>) # es\<rparr>)"
| finish: "sv_done s = ds @ (b, td) # es \<Longrightarrow> \<not> (td_entry td \<and> td_session td \<noteq> NULL) \<Longrightarrow> request_finish b td (sv_comm s) = Some c \<Longrightarrow>
    server_step ladd ldel a s (s\<lparr>sv_comm := c, sv_done := ds @ es\<rparr>)"
| reply: "sv_session s = Some x \<Longrightarrow> csessions (sv_comm s) x = Some y \<Longrightarrow> s_passive y = 2 \<Longrightarrow> (x, CS_STATE_TOREPLY) \<in> set (calls_of (sv_comm s)) \<Longrightarrow>
    u_keep_alive u = 0 \<Longrightarrow> answers_ok ans s \<Longrightarrow> reply_send ldel ans oerr now u x (sv_comm s) = Some (ret, c) \<Longrightarrow> csessions c x = Some y' \<Longrightarrow>
    server_step ladd ldel a s (s\<lparr>sv_comm := c, sv_node := registered (sv_comm s) c (sv_node s),
      sv_done := sv_done s @ (if ret = 0 then [(msg_entry c (s_in y'), \<lparr>td_entry = True, td_session = x, td_state = CS_STATE_SUCCESS, td_error = 0\<rparr>)] else []),
      sv_over := ret < 0\<rparr>)"
| shutdown: "sv_session s = Some x \<Longrightarrow> csessions (sv_comm s) x = Some y \<Longrightarrow> s_passive y = 2 \<Longrightarrow> (x, CS_STATE_TOREPLY) \<in> set (calls_of (sv_comm s)) \<Longrightarrow>
    shutdown x (sv_comm s) = Some (ret, c) \<Longrightarrow> server_step ladd ldel a s (s\<lparr>sv_comm := c, sv_over := True\<rparr>)"
| destroy: "sv_session s = Some x \<Longrightarrow> csessions (sv_comm s) x = Some y \<Longrightarrow> may_destroy x y s \<Longrightarrow> session_destroy x (sv_comm s) = Some c \<Longrightarrow>
    server_step ladd ldel a s (s\<lparr>sv_comm := c\<lparr>csessions := (csessions c)(x := None)\<rparr>\<rparr>)"

text \<open>The connection starts when \<open>accept\<close> made its target \<open>t\<close> and \<open>handle_listen_result\<close> its entry \<open>a\<close>.\<close>

inductive server_run :: "list_add_fun \<Rightarrow> list_del_fun \<Rightarrow> addr \<Rightarrow> addr \<Rightarrow> addr \<Rightarrow> int \<Rightarrow> server \<Rightarrow> bool" for ladd ldel a t v n where
  start: "accept t malloced sockfd v c0 = Some (t, c1) \<Longrightarrow> handle_listen_result nb a conn pret perr PR_ST_SUCCESS err t v c1 = Some c2 \<Longrightarrow>
    conns c2 a \<noteq> None \<Longrightarrow> t \<noteq> NULL \<Longrightarrow> conns c0 a = None \<Longrightarrow> a \<noteq> t \<Longrightarrow> cservices c0 v = Some z \<Longrightarrow> v_reliable z \<Longrightarrow> v_ref z = n \<Longrightarrow> v \<noteq> NULL \<Longrightarrow>
    handles c0 = [] \<Longrightarrow> closed c0 = [] \<Longrightarrow>
    server_run ladd ldel a t v n \<lparr>sv_comm = c2, sv_node = registered c1 c2 None, sv_queue = [], sv_done = [], sv_session = None, sv_over = False\<rparr>"
| step: "server_run ladd ldel a t v n s \<Longrightarrow> server_step ladd ldel a s s' \<Longrightarrow> server_run ladd ldel a t v n s'"

subsection \<open>The steps are those of the functions\<close>

text \<open>A handler is its section, the call of \<open>handle\<close> and what follows.\<close>

lemma request_finish_calls:
  "request_finish a td c = (if td_entry td \<and> td_session td \<noteq> NULL
     then request_finish a (td\<lparr>td_session := NULL\<rparr>) (session_handle (td_session td) (td_state td) (td_error td) c) else request_finish a td c)"
  by (simp add: request_finish_def)

lemma handle_reply_result_steps:
  assumes "is_end (r_state r)" "\<And>e. conns c (r_entry r) = Some e \<Longrightarrow> e_session e \<noteq> NULL"
  shows "handle_reply_result pret perr u r c = do { (td, c) \<leftarrow> reply_result pret perr u r c; request_finish (r_entry r) td c }"
proof (cases "conns c (r_entry r)")
  case (Some e)
  then have "e_session e \<noteq> NULL" using assms(2) by simp
  then show ?thesis using assms(1) Some by (simp add: handle_reply_result_def reply_result_def request_finish_def Let_def bind_assoc)
qed (simp add: assms(1) handle_reply_result_def reply_result_def Let_def)

lemma reply_done_steps:
  assumes "conns c a = Some e" "s \<noteq> NULL" "e_target e = t"
  shows "reply_done a t s c = request_finish a \<lparr>td_entry = True, td_session = s, td_state = CS_STATE_SUCCESS, td_error = 0\<rparr> c"
  using assms(1,2) by (simp add: assms(3) [symmetric] reply_done_def request_finish_def drop_server_ref_def session_handle_def)

text \<open>\<open>reply\<close> is the step \<open>reply\<close> followed, when the message went out at once, by a call and a finish.\<close>

lemma reply_steps:
  assumes "csessions c s = Some x" "s_passive x = 2"
  shows "reply ldel ans oerr now u s c = do {
      (ret, c') \<leftarrow> reply_send ldel ans oerr now u s c;
      c'' \<leftarrow> (if ret = 0 then do { y \<leftarrow> csessions c' s; reply_done (msg_entry c' (s_in y)) (s_target x) s c' } else Some c');
      Some (if ret < 0 then (-1, c'') else (0, c''\<lparr>cerrno := cerrno c\<rparr>)) }"
  using assms by (cases "reply_send ldel ans oerr now u s c") (auto simp: reply_def Let_def split: Option.bind_splits)

subsection \<open>The session as the user sees it\<close>

text \<open>
  The stages of a session: the connection without one; receiving the request; the request
  complete; announced by \<open>handle(TOREPLY)\<close>; a reply on its way; answered, by success or error;
  given up by the user; destroyed.
\<close>

datatype stage = Fresh | Receiving | Complete | Announced | Replying | Answered | Over | Destroyed

fun stage_next :: "stage \<Rightarrow> stage list" where
  "stage_next Fresh = [Receiving]"
| "stage_next Receiving = [Complete, Answered]"
| "stage_next Complete = [Announced]"
| "stage_next Announced = [Replying, Answered, Over, Destroyed]"
| "stage_next Replying = [Answered]"
| "stage_next Answered = [Destroyed]"
| "stage_next Over = [Destroyed]"
| "stage_next Destroyed = []"

text \<open>What the threads past their section hold, and the calls of \<open>handle\<close> they are about to make.\<close>

definition holds :: "server \<Rightarrow> (addr \<times> int) list" where
  "holds s = map (\<lambda>(b, td). (td_session td, td_state td)) (filter (\<lambda>(b, td). td_entry td) (sv_done s))"

definition to_call :: "(addr \<times> int) list \<Rightarrow> (addr \<times> int) list" where
  "to_call hs = filter (\<lambda>h. fst h \<noteq> NULL) hs"

definition sv_messages :: "server \<Rightarrow> (int \<times> presult) list" where
  "sv_messages s = filter (\<lambda>q. \<not> is_final q) (sv_queue s)"

definition stage_of :: "server \<Rightarrow> stage" where
  "stage_of s = (case sv_session s of None \<Rightarrow> Fresh | Some x \<Rightarrow>
     (case csessions (sv_comm s) x of None \<Rightarrow> Destroyed | Some y \<Rightarrow>
        if s_passive y = 2 then Announced
        else if \<exists>h \<in> set (calls_of (sv_comm s) @ to_call (holds s)). snd h \<noteq> CS_STATE_TOREPLY then Answered
        else if s_passive y = 1 then (if sv_messages s \<noteq> [] then Complete else Receiving)
        else if sv_over s then Over else Replying))"

end
