(* ===== verification/Comm_Server_Inv.thy ===== *)
theory Comm_Server_Inv
  imports Comm_Server
begin

section \<open>The invariant of a server connection\<close>

text \<open>
  The invariant of the steps of \<open>Comm_Server\<close>, and that every operation keeps it: for every
  stage of the session it says where the entry can be, what the user was told, and who
  holds references to the entry and to the target.
\<close>

subsection \<open>The invariant\<close>

text \<open>
  \<open>p\<close> is the operation of the node or of its final result on the way (at most one), \<open>m\<close> says
  that the finished request is on its way, \<open>live\<close> that the node is still registered.
\<close>

fun place :: "stage \<Rightarrow> int list \<Rightarrow> bool \<Rightarrow> bool \<Rightarrow> conn_state \<Rightarrow> bool" where
  "place Fresh p m live st \<longleftrightarrow> \<not> m \<and> (p = [] \<or> p = [PD_OP_READ] \<and> st = CONN_STATE_CONNECTED)"
| "place Receiving p m live st \<longleftrightarrow> \<not> m \<and> p = [PD_OP_READ] \<and> st = CONN_STATE_RECEIVING"
| "place Complete p m live st \<longleftrightarrow> m \<and> (p = [PD_OP_READ] \<and> st = CONN_STATE_SUCCESS \<or> p = [] \<and> st = CONN_STATE_CLOSING)"
| "place Announced p m live st \<longleftrightarrow> \<not> m \<and> (p = [] \<or> p = [PD_OP_READ] \<and> st = CONN_STATE_IDLE)"
| "place Replying p m live st \<longleftrightarrow> \<not> m \<and> (p = [PD_OP_WRITE] \<and> st = CONN_STATE_IDLE \<or>
     p = [PD_OP_READ] \<and> (st = CONN_STATE_ERROR \<or> st = CONN_STATE_RECEIVING \<and> \<not> live))"
| "place Answered p m live st \<longleftrightarrow> \<not> m \<and> (p = [] \<or> p = [PD_OP_READ] \<and> st = CONN_STATE_CLOSING)"
| "place Over p m live st \<longleftrightarrow> \<not> m \<and> (p = [] \<or> p = [PD_OP_READ] \<and> st = CONN_STATE_CLOSING)"
| "place Destroyed p m live st \<longleftrightarrow> \<not> m \<and> (p = [] \<or> p = [PD_OP_READ] \<and> st = CONN_STATE_CLOSING)"

text \<open>The calls of \<open>handle\<close> that were made and those still to make.\<close>

definition finals :: "addr \<Rightarrow> (addr \<times> int) list \<Rightarrow> bool" where
  "finals x hs \<longleftrightarrow> (\<exists>st. st \<noteq> CS_STATE_TOREPLY \<and> (hs = [(x, st)] \<or> hs = [(x, CS_STATE_TOREPLY), (x, st)]))"

fun talk :: "stage \<Rightarrow> addr \<Rightarrow> (addr \<times> int) list \<Rightarrow> (addr \<times> int) list \<Rightarrow> bool" where
  "talk Announced x told later \<longleftrightarrow> told @ later = [(x, CS_STATE_TOREPLY)]"
| "talk Replying x told later \<longleftrightarrow> told = [(x, CS_STATE_TOREPLY)] \<and> later = []"
| "talk Answered x told later \<longleftrightarrow> finals x (told @ later) \<and> length later \<le> 1"
| "talk Over x told later \<longleftrightarrow> told = [(x, CS_STATE_TOREPLY)] \<and> later = []"
| "talk Destroyed x told later \<longleftrightarrow> (told = [(x, CS_STATE_TOREPLY)] \<or> finals x told) \<and> later = []"
| "talk g x told later \<longleftrightarrow> told = [] \<and> later = []"

fun passive_ok :: "stage \<Rightarrow> int \<Rightarrow> bool" where
  "passive_ok Announced k \<longleftrightarrow> k = 2"
| "passive_ok Replying k \<longleftrightarrow> k = 3"
| "passive_ok Over k \<longleftrightarrow> k = 3"
| "passive_ok Answered k \<longleftrightarrow> k = 1 \<or> k = 3"
| "passive_ok g k \<longleftrightarrow> k = 1"

definition no_session :: "stage \<Rightarrow> bool" where
  "no_session g \<longleftrightarrow> g = Fresh \<or> g = Destroyed"

definition session_ok :: "addr \<Rightarrow> addr \<Rightarrow> addr \<Rightarrow> stage \<Rightarrow> comm \<Rightarrow> bool" where
  "session_ok a t x g c \<longleftrightarrow> (g \<noteq> Fresh \<longrightarrow> x \<noteq> NULL) \<and> (g = Destroyed \<longrightarrow> csessions c x = None) \<and>
     (\<not> no_session g \<longrightarrow> (\<exists>y. csessions c x = Some y \<and> s_target y = t \<and> passive_ok g (s_passive y) \<and>
        (s_in y \<noteq> NULL \<longrightarrow> msg_entry c (s_in y) = a) \<and> (g = Complete \<or> g = Announced \<longrightarrow> s_in y \<noteq> NULL)))"

definition base_ok :: "addr \<Rightarrow> addr \<Rightarrow> addr \<Rightarrow> int \<Rightarrow> comm \<Rightarrow> bool" where
  "base_ok a t v n c \<longleftrightarrow> a \<noteq> NULL \<and> a \<noteq> t \<and> v \<noteq> NULL \<and>
     (\<exists>z. cservices c v = Some z \<and> v_reliable z \<and> v_ref z = n + (if ctargets c t = None then 0 else 1))"

text \<open>Who refers to the target: the entry and the session. The idle list holds at most the entry.\<close>

definition idle_part :: "addr \<Rightarrow> int list \<Rightarrow> conn_entry option \<Rightarrow> addr list" where
  "idle_part a p w = (case w of None \<Rightarrow> [] | Some e \<Rightarrow> if p = [PD_OP_READ] \<and> e_state e = CONN_STATE_IDLE then [a] else [])"

definition target_core :: "addr \<Rightarrow> addr \<Rightarrow> stage \<Rightarrow> int list \<Rightarrow> comm \<Rightarrow> comm_target \<Rightarrow> bool" where
  "target_core a v g p c y \<longleftrightarrow> t_ref y = (if conns c a = None then 0 else 1) + (if no_session g then 0 else 1) \<and> t_service y = v"

definition target_ok :: "addr \<Rightarrow> addr \<Rightarrow> addr \<Rightarrow> stage \<Rightarrow> int list \<Rightarrow> comm \<Rightarrow> bool" where
  "target_ok a t v g p c \<longleftrightarrow> (case ctargets c t of None \<Rightarrow> conns c a = None \<and> no_session g
     | Some y \<Rightarrow> target_core a v g p c y \<and> t_ref y > 0 \<and> list_at (cmem c) t (idle_part a p (conns c a)))"

definition entry_core :: "addr \<Rightarrow> addr \<Rightarrow> addr \<Rightarrow> addr \<Rightarrow> stage \<Rightarrow> int list \<Rightarrow> bool \<Rightarrow> bool \<Rightarrow> (addr \<times> int) list \<Rightarrow> comm \<Rightarrow> conn_entry \<Rightarrow> bool" where
  "entry_core a t v x g p m live hs c e \<longleftrightarrow> place g p m live (e_state e) \<and> e_target e = t \<and> e_service e = v \<and> closed c = [] \<and>
     e_ref e = int (length hs) + (if p \<noteq> [] \<or> m then 1 else 0) \<and> free_node (cmem c) a \<and> (g \<noteq> Fresh \<longrightarrow> e_session e = x)"

definition conn_ok :: "addr \<Rightarrow> addr \<Rightarrow> addr \<Rightarrow> addr \<Rightarrow> stage \<Rightarrow> int list \<Rightarrow> bool \<Rightarrow> bool \<Rightarrow> (addr \<times> int) list \<Rightarrow> comm \<Rightarrow> bool" where
  "conn_ok a t v x g p m live hs c \<longleftrightarrow> (case conns c a of
       None \<Rightarrow> place g p m live CONN_STATE_CLOSING \<and> p = [] \<and> \<not> m \<and> hs = [] \<and> length (closed c) = 1
     | Some e \<Rightarrow> entry_core a t v x g p m live hs c e \<and> e_ref e > 0)"

definition srv :: "addr \<Rightarrow> addr \<Rightarrow> addr \<Rightarrow> int \<Rightarrow> addr \<Rightarrow> stage \<Rightarrow> int list \<Rightarrow> bool \<Rightarrow> bool \<Rightarrow> (addr \<times> int) list \<Rightarrow> comm \<Rightarrow> bool" where
  "srv a t v n x g p m live hs c \<longleftrightarrow> base_ok a t v n c \<and> target_ok a t v g p c \<and> session_ok a t x g c \<and>
     talk g x (calls_of c) (to_call hs) \<and> conn_ok a t v x g p m live hs c"

lemmas srv_defs = srv_def base_ok_def target_ok_def target_core_def session_ok_def conn_ok_def entry_core_def no_session_def

text \<open>What a state with an entry gives.\<close>

lemma srv_entryE:
  assumes "srv a t v n x g p m live hs c" "p \<noteq> [] \<or> m \<or> hs \<noteq> []"
  obtains e y where "conns c a = Some e" "entry_core a t v x g p m live hs c e" "e_ref e > 0"
    "ctargets c t = Some y" "target_core a v g p c y" "t_ref y > 0" "list_at (cmem c) t (idle_part a p (Some e))"
proof -
  obtain e where e: "conns c a = Some e" using assms by (auto simp: srv_def conn_ok_def split: option.splits)
  then obtain y where "ctargets c t = Some y" using assms(1) by (auto simp: srv_def target_ok_def split: option.splits)
  with e assms(1) that show ?thesis by (auto simp: srv_def target_ok_def conn_ok_def)
qed

lemma srv_sessionE:
  assumes "srv a t v n x g p m live hs c" "\<not> no_session g"
  obtains y w where "csessions c x = Some y" "s_target y = t" "passive_ok g (s_passive y)" "s_in y \<noteq> NULL \<longrightarrow> msg_entry c (s_in y) = a"
    "g = Complete \<or> g = Announced \<longrightarrow> s_in y \<noteq> NULL" "ctargets c t = Some w" "x \<noteq> NULL"
  using assms by (fastforce simp: srv_def session_ok_def target_ok_def no_session_def split: option.splits)

lemma srv_sessionD:
  assumes "srv a t v n x g p m live hs c" "\<not> no_session g" "csessions c x = Some y"
  shows "s_target y = t" "passive_ok g (s_passive y)" "s_in y \<noteq> NULL \<longrightarrow> msg_entry c (s_in y) = a"
    "g = Complete \<or> g = Announced \<longrightarrow> s_in y \<noteq> NULL" "x \<noteq> NULL"
  using assms by (auto simp: srv_def session_ok_def no_session_def)

subsection \<open>The sections of a read result\<close>

lemma to_call_append [simp]: "to_call (hs @ hs') = to_call hs @ to_call hs'"
  by (simp add: to_call_def)

lemma to_call_Cons [simp]: "to_call [] = []" "to_call (h # hs) = (if fst h \<noteq> NULL then h # to_call hs else to_call hs)"
  by (simp_all add: to_call_def)

lemma idle_del_last:
  assumes "idle_ops ladd ldel" "list_at h t [a]"
  obtains h' where "ldel a h = Some h'" "list_at h' t []" "dom h' = dom h"
  by (rule idle_del [OF assms]) (auto intro: that)

definition hold :: "todo \<Rightarrow> (addr \<times> int) list" where
  "hold td = (if td_entry td then [(td_session td, td_state td)] else [])"

lemma section_success_srv:
  assumes "idle_ops ladd ldel" "srv a t v n x g p True live hs c" "r_state r = PR_ST_SUCCESS" "r_entry r = a"
  shows "\<exists>td c'. request_section ladd ldel r c = Some (td, c') \<and> g = Complete \<and> srv a t v n x Announced p False live (hs @ hold td) c'"
proof -
  obtain e w where e: "conns c a = Some e" "entry_core a t v x g p True live hs c e" "e_ref e > 0" and
    w: "ctargets c t = Some w" "target_core a v g p c w" "t_ref w > 0" "list_at (cmem c) t (idle_part a p (Some e))"
    using srv_entryE [OF assms(2)] by auto
  have g: "g = Complete" using e(2) by (cases g) (auto simp: entry_core_def)
  obtain y where y: "csessions c x = Some y" "s_target y = t" "s_in y \<noteq> NULL" "msg_entry c (s_in y) = a" "x \<noteq> NULL"
    using srv_sessionE [OF assms(2)] g by (auto simp: no_session_def)
  let ?td = "\<lparr>td_entry = True, td_session = x, td_state = CS_STATE_TOREPLY, td_error = r_error r\<rparr>"
  have x: "e_session e = x" using e(2) g by (simp add: entry_core_def)
  show ?thesis
  proof (cases "e_state e = CONN_STATE_SUCCESS")
    case True
    let ?e = "e\<lparr>e_ref := e_ref e + 1, e_state := CONN_STATE_IDLE\<rparr>"
    have p: "p = [PD_OP_READ]" using e(2) g True by (simp add: entry_core_def)
    have l: "list_at (cmem c) t []" "a \<noteq> t" "free_node (cmem c) a" using w(4) True e(2) assms(2) by (auto simp: idle_part_def entry_core_def srv_def base_ok_def)
    from idle_add [OF assms(1) l(1) _ l(2,3)] obtain h where h: "ladd a t (cmem c) = Some h" "list_at h t [a]" "dom h = dom (cmem c)" by auto
    let ?c = "c\<lparr>conns := (conns c)(a \<mapsto> ?e), cmem := h, csessions := (csessions c)(x \<mapsto> y\<lparr>s_passive := 2\<rparr>)\<rparr>"
    have "request_section ladd ldel r c = Some (?td, ?c)"
      using assms(3,4) e(1,2) True x y(1) h(1) by (simp add: request_section_def upd_conn_def upd_csession_def set_cmem_def entry_core_def)
    moreover have "srv a t v n x Announced p False live (hs @ hold ?td) ?c"
      using assms(2) e w y h(2) p free_node_dom [OF h(3)] x g by (simp add: srv_defs calls_of_def to_call_def hold_def idle_part_def)
    ultimately show ?thesis using g by auto
  next
    case False
    let ?c = "c\<lparr>csessions := (csessions c)(x \<mapsto> y\<lparr>s_passive := 2\<rparr>)\<rparr>"
    have "request_section ladd ldel r c = Some (?td, ?c)"
      using assms(3,4) e(1,2) False x y(1) by (simp add: request_section_def upd_csession_def)
    moreover have "srv a t v n x Announced p False live (hs @ hold ?td) ?c"
      using assms(2) e w y x g False by (auto simp: srv_defs calls_of_def to_call_def hold_def idle_part_def)
    ultimately show ?thesis using g by auto
  qed
qed

text \<open>Where a section can bring the session.\<close>

definition section_move :: "stage \<Rightarrow> stage \<Rightarrow> bool" where
  "section_move g g' \<longleftrightarrow> g' = g \<or> g = Complete \<and> g' = Announced \<or> (g = Receiving \<or> g = Replying) \<and> g' = Answered"

lemma section_move_refl [simp, intro]: "section_move g g"
  by (simp add: section_move_def)

text \<open>The states of the entry when its reading has ended.\<close>

lemma reading_cases:
  assumes "entry_core a t v x g [PD_OP_READ] m live hs c e"
  obtains (conn) "g = Fresh" "e_state e = CONN_STATE_CONNECTED" "\<not> m"
    | (success) "g = Complete" "e_state e = CONN_STATE_SUCCESS" "m"
    | (idle) "g = Announced" "e_state e = CONN_STATE_IDLE" "\<not> m"
    | (fail) "g = Receiving \<or> g = Replying" "e_state e = CONN_STATE_RECEIVING \<or> e_state e = CONN_STATE_ERROR" "\<not> m"
    | (closing) "g = Answered \<or> g = Over \<or> g = Destroyed" "e_state e = CONN_STATE_CLOSING" "\<not> m"
  using assms by (cases g) (auto simp: entry_core_def op_defs)

lemma end_state_simps [simp]:
  assumes "is_end (r_state r)"
  shows "r_state r \<noteq> PR_ST_SUCCESS" "end_state r \<noteq> CS_STATE_TOREPLY" "CS_STATE_ERROR \<noteq> CS_STATE_TOREPLY"
  using assms by (auto simp: end_state_def CS_STATE_ERROR_def CS_STATE_STOPPED_def CS_STATE_TOREPLY_def)

abbreviation (input) final_todo :: "bool \<Rightarrow> addr \<Rightarrow> int \<Rightarrow> int \<Rightarrow> todo" where
  "final_todo b y st er \<equiv> \<lparr>td_entry = b, td_session = y, td_state = st, td_error = er\<rparr>"

text \<open>A final result: the entry leaves the idle list, or the session learns of the failure.\<close>

lemma final_leaves_srv:
  assumes "idle_ops ladd ldel" "srv a t v n x Announced [PD_OP_READ] False live hs c" "is_end (r_state r)" "r_entry r = a"
  shows "\<exists>td c'. request_section ladd ldel r c = Some (td, c') \<and> srv a t v n x Announced [] False live' (hs @ hold td) c'"
proof -
  obtain e w where e: "conns c a = Some e" "entry_core a t v x Announced [PD_OP_READ] False live hs c e" "e_ref e > 0" and
    w: "ctargets c t = Some w" "target_core a v Announced [PD_OP_READ] c w" "t_ref w > 0" "list_at (cmem c) t (idle_part a [PD_OP_READ] (Some e))"
    using srv_entryE [OF assms(2)] by auto
  from e(2) have s: "e_state e = CONN_STATE_IDLE" by (auto elim: reading_cases)
  then have "list_at (cmem c) t [a]" using w(4) by (simp add: idle_part_def)
  from idle_del_last [OF assms(1) this] obtain h where h: "ldel a (cmem c) = Some h" "list_at h t []" "dom h = dom (cmem c)" .
  let ?c = "c\<lparr>cmem := h\<rparr>" let ?d = "final_todo True NULL (end_state r) (end_error r)"
  have "request_section ladd ldel r c = Some (?d, ?c)" using assms(3,4) e(1) s h(1) by (simp add: request_section_def set_cmem_def Let_def)
  moreover have "srv a t v n x Announced [] False live' (hs @ hold ?d) ?c"
    using assms(2) e w s h(2) free_node_dom [OF h(3)] by (simp add: srv_defs calls_of_def to_call_def hold_def idle_part_def)
  ultimately show ?thesis by blast
qed

lemma final_fails_srv:
  assumes "srv a t v n x g [PD_OP_READ] False live hs c" "is_end (r_state r)" "r_entry r = a" "g = Receiving \<or> g = Replying"
  shows "\<exists>td. request_section ladd ldel r c = Some (td, c) \<and> srv a t v n x Answered [] False live' (hs @ hold td) c"
proof -
  obtain e w where e: "conns c a = Some e" "entry_core a t v x g [PD_OP_READ] False live hs c e" "e_ref e > 0" and
    w: "ctargets c t = Some w" "target_core a v g [PD_OP_READ] c w" "t_ref w > 0" "list_at (cmem c) t (idle_part a [PD_OP_READ] (Some e))"
    using srv_entryE [OF assms(1)] by auto
  from e(2) assms(4) have fail: "e_state e = CONN_STATE_RECEIVING \<or> e_state e = CONN_STATE_ERROR" by (auto elim: reading_cases)
  have x: "e_session e = x" "x \<noteq> NULL" using e(2) assms(1,4) by (auto simp: entry_core_def srv_def session_ok_def)
  obtain st er where d: "request_section ladd ldel r c = Some (final_todo True x st er, c)" "st \<noteq> CS_STATE_TOREPLY"
    using assms(2,3) end_state_simps [OF assms(2)] e(1) fail x by (auto simp: request_section_def Let_def)
  have "place Answered [] False live' (e_state e)" "finals x (calls_of c @ to_call (hs @ [(x, st)])) \<and> length (to_call (hs @ [(x, st)])) \<le> 1"
    using assms(1,4) fail d(2) x(2) by (auto simp: srv_def finals_def)
  moreover have "session_ok a t x Answered c" using assms(1,4) by (auto simp: srv_def session_ok_def no_session_def)
  moreover have "target_ok a t v Answered [] c"
    using w e(1) fail assms(4) by (auto simp: target_ok_def target_core_def no_session_def idle_part_def)
  moreover have "base_ok a t v n c" using assms(1) by (simp add: srv_def)
  ultimately have "srv a t v n x Answered [] False live' (hs @ hold (final_todo True x st er)) c"
    using e x(1) by (simp add: srv_def conn_ok_def entry_core_def hold_def)
  then show ?thesis using d(1) by blast
qed

lemma section_final_srv:
  assumes "idle_ops ladd ldel" "srv a t v n x g [PD_OP_READ] m live hs c" "is_end (r_state r)" "r_entry r = a"
  shows "\<exists>td c' g'. request_section ladd ldel r c = Some (td, c') \<and> section_move g g' \<and>
    srv a t v n x g' [] m live' (hs @ hold td) c'"
proof -
  obtain e w where e: "conns c a = Some e" "entry_core a t v x g [PD_OP_READ] m live hs c e" "e_ref e > 0" and
    w: "ctargets c t = Some w" "target_core a v g [PD_OP_READ] c w" "t_ref w > 0" "list_at (cmem c) t (idle_part a [PD_OP_READ] (Some e))"
    using srv_entryE [OF assms(2)] by auto
  note s = assms(3,4) e(1) end_state_simps [OF assms(3)]
  let ?d = "\<lambda>b. final_todo b NULL (end_state r) (end_error r)"
  from e(2) show ?thesis
  proof (cases rule: reading_cases)
    case success
    let ?c = "c\<lparr>conns := (conns c)(a \<mapsto> e\<lparr>e_state := CONN_STATE_CLOSING\<rparr>)\<rparr>"
    have "request_section ladd ldel r c = Some (?d False, ?c)" using s success by (simp add: request_section_def upd_conn_def Let_def)
    moreover have "srv a t v n x g [] m live' (hs @ hold (?d False)) ?c"
      using assms(2) e w success by (simp add: srv_defs calls_of_def to_call_def hold_def idle_part_def)
    ultimately show ?thesis by blast
  next
    case idle
    then have m: "srv a t v n x Announced [PD_OP_READ] False live hs c" using assms(2) by simp
    show ?thesis using final_leaves_srv [OF assms(1) m assms(3,4), where live' = live'] idle by (auto intro!: exI [of _ Announced])
  next
    case fail
    then have "section_move g Answered" by (auto simp: section_move_def)
    moreover have "srv a t v n x g [PD_OP_READ] False live hs c" using assms(2) fail(3) by simp
    from final_fails_srv [OF this assms(3,4) fail(1), where live' = live'] obtain td where
      "request_section ladd ldel r c = Some (td, c)" "srv a t v n x Answered [] m live' (hs @ hold td) c" using fail(3) by auto
    ultimately show ?thesis by blast
  next
    case conn
    have "request_section ladd ldel r c = Some (?d True, c)" using s conn by (simp add: request_section_def Let_def)
    moreover have "srv a t v n x g [] m live' (hs @ hold (?d True)) c"
      using assms(2) e w conn by (simp add: srv_defs calls_of_def to_call_def hold_def idle_part_def)
    ultimately show ?thesis by blast
  next
    case closing
    have "request_section ladd ldel r c = Some (?d True, c)" using s closing by (simp add: request_section_def Let_def)
    moreover have "srv a t v n x g [] m live' (hs @ hold (?d True)) c"
      using assms(2) e w closing by (auto simp: srv_defs calls_of_def to_call_def hold_def idle_part_def)
    ultimately show ?thesis by blast
  qed
qed

subsection \<open>A write result, and what follows a section\<close>

lemma write_section_srv:
  assumes "srv a t v n x g [PD_OP_WRITE] m live hs c" "u_keep_alive u = 0" "is_end (r_state r)" "r_entry r = a"
  shows "\<exists>td c'. write_section pret perr u r c = Some (td, c') \<and> g = Replying \<and> \<not> m \<and> srv a t v n x Answered [] m live' (hs @ hold td) c'"
proof -
  obtain e w where e: "conns c a = Some e" "entry_core a t v x g [PD_OP_WRITE] m live hs c e" "e_ref e > 0" and
    w: "ctargets c t = Some w" "target_core a v g [PD_OP_WRITE] c w" "t_ref w > 0" "list_at (cmem c) t (idle_part a [PD_OP_WRITE] (Some e))"
    using srv_entryE [OF assms(1)] by auto
  have g: "g = Replying" "\<not> m" using e(2) by (cases g; simp add: entry_core_def op_defs)+
  let ?st = "if r_state r = PR_ST_FINISHED then CS_STATE_SUCCESS else end_state r"
  have s: "?st \<noteq> CS_STATE_TOREPLY"
    by (simp add: end_state_def CS_STATE_SUCCESS_def CS_STATE_ERROR_def CS_STATE_STOPPED_def CS_STATE_TOREPLY_def)
  have x: "e_session e = x" "x \<noteq> NULL" using e(2) g assms(1) by (auto simp: entry_core_def srv_def session_ok_def)
  let ?d = "\<lparr>td_entry = True, td_session = x, td_state = ?st, td_error = r_error r\<rparr>"
  let ?c = "c\<lparr>conns := (conns c)(a \<mapsto> e\<lparr>e_iov := []\<rparr>)\<rparr>"
  have "write_section pret perr u r c = Some (?d, ?c)"
    using assms(2,4) e(1) x by (auto simp: write_section_def reply_result_def keep_reply_conn_def upd_conn_def Let_def)
  moreover have "srv a t v n x Answered [] m live' (hs @ hold ?d) ?c"
    using assms(1) e w g s x by (auto simp: srv_defs calls_of_def to_call_def hold_def idle_part_def finals_def op_defs)
  ultimately show ?thesis using g by blast
qed

lemma talk_call:
  assumes "talk g x told (ps @ h # qs)"
  shows "talk g x (told @ [h]) (ps @ qs)"
proof -
  have "length (told @ ps @ h # qs) \<le> length told + 1"
    using assms by (cases g) (auto simp: append_eq_Cons_conv Cons_eq_append_conv)
  then have "ps = []" "qs = []" by simp_all
  then show ?thesis using assms by (cases g) (auto simp: append_eq_Cons_conv)
qed

lemma call_srv:
  assumes "srv a t v n x g p m live (hs @ (y, st) # hs') c" "y \<noteq> NULL"
  shows "srv a t v n x g p m live (hs @ (NULL, st) # hs') (session_handle y st err c)"
proof -
  let ?c = "session_handle y st err c"
  have f: "conns ?c = conns c" "csessions ?c = csessions c" "ctargets ?c = ctargets c" "cservices ?c = cservices c" "cmem ?c = cmem c"
    "closed ?c = closed c" "msg_entry ?c = msg_entry c" "calls_of ?c = calls_of c @ [(y, st)]"
    by (simp_all add: session_handle_def calls_of_def)
  have "talk g x (calls_of c) (to_call hs @ (y, st) # to_call hs')" using assms by (simp add: srv_def)
  then have "talk g x (calls_of ?c) (to_call (hs @ (NULL, st) # hs'))" using talk_call f(8) by simp
  then show ?thesis using assms(1) unfolding srv_defs f by (auto split: option.splits)
qed

text \<open>The last reference to the target takes it away.\<close>

lemma starget_decref_op:
  assumes "ctargets c t = Some y" "cservices c (t_service y) = Some z"
  shows "starget_decref t c = Some (if t_ref y = 1
    then free_links t (c\<lparr>ctargets := (ctargets c)(t := None), cservices := (cservices c)(t_service y \<mapsto> z\<lparr>v_ref := v_ref z - 1\<rparr>),
      unbounds := (if v_ref z = 1 then unbounds c @ [t_service y] else unbounds c)\<rparr>)
    else c\<lparr>ctargets := (ctargets c)(t \<mapsto> y\<lparr>t_ref := t_ref y - 1\<rparr>)\<rparr>)"
  using assms by (simp add: starget_decref_def upd_ctarget_def service_decref_def upd_cservice_def free_links_def)

lemma finish_srv:
  assumes "srv a t v n x g p m live (hs @ (NULL, st) # hs') c" "td_entry td" "td_session td = NULL"
  shows "\<exists>c'. request_finish a td c = Some c' \<and> srv a t v n x g p m live (hs @ hs') c'"
proof -
  obtain e y where e: "conns c a = Some e" "entry_core a t v x g p m live (hs @ (NULL, st) # hs') c e" "e_ref e > 0" and
    y: "ctargets c t = Some y" "target_core a v g p c y" "t_ref y > 0" "list_at (cmem c) t (idle_part a p (Some e))"
    using srv_entryE [OF assms(1)] by auto
  obtain z where z: "cservices c v = Some z" "v_reliable z" "v_ref z = n + 1" "a \<noteq> t" "a \<noteq> NULL" using assms(1) y(1) by (auto simp: srv_def base_ok_def)
  have et: "e_target e = t" using e(2) by (simp add: entry_core_def)
  show ?thesis
  proof (cases "e_ref e = 1")
    case False
    let ?c = "c\<lparr>conns := (conns c)(a \<mapsto> e\<lparr>e_ref := e_ref e - 1\<rparr>)\<rparr>"
    have "request_finish a td c = Some ?c" using False e(1) assms(2,3) by (simp add: request_finish_def drop_server_ref_def drop_ref_op)
    moreover have "srv a t v n x g p m live (hs @ hs') ?c"
      using assms(1) e y z(5) False by (auto simp: srv_defs calls_of_def idle_part_def split: if_splits)
    ultimately show ?thesis by auto
  next
    case True
    have "int (length hs) + int (length hs') + (if p \<noteq> [] \<or> m then 1 else 0) = 0" using True e(2) by (simp add: entry_core_def)
    then have p: "p = []" "\<not> m" "hs = []" "hs' = []" by (simp_all add: add_nonneg_eq_0_iff split: if_splits)
    let ?c = "free_links a (c\<lparr>conns := (conns c)(a := None), closed := closed c @ [e_sockfd e]\<rparr>)"
    have d: "request_finish a td c = starget_decref t ?c"
      using True e(1) et assms(2,3) by (simp add: request_finish_def drop_server_ref_def drop_ref_op)
    have ry: "t_ref y = 1 + (if no_session g then 0 else 1)" "t_service y = v" using y(2) e(1) by (simp_all add: target_core_def)
    have "list_at (cmem ?c) t [] \<longleftrightarrow> list_at (cmem c) t []" by (rule list_at_cong) (use z in \<open>auto simp: free_links_def\<close>)
    then have l: "list_at (cmem ?c) t []" using y(4) p by (simp add: idle_part_def)
    show ?thesis
    proof (cases "no_session g")
      case True
      then have "request_finish a td c = Some (free_links t (?c\<lparr>ctargets := (ctargets c)(t := None), cservices := (cservices c)(v \<mapsto> z\<lparr>v_ref := v_ref z - 1\<rparr>),
          unbounds := (if v_ref z = 1 then unbounds c @ [v] else unbounds c)\<rparr>))"
        unfolding d using starget_decref_op [of ?c t y z] y(1) z(1) ry by (simp add: free_links_def)
      moreover have "srv a t v n x g p m live (hs @ hs') (free_links t (?c\<lparr>ctargets := (ctargets c)(t := None),
          cservices := (cservices c)(v \<mapsto> z\<lparr>v_ref := v_ref z - 1\<rparr>), unbounds := (if v_ref z = 1 then unbounds c @ [v] else unbounds c)\<rparr>))"
        using assms(1) e True z p by (auto simp: srv_defs calls_of_def free_links_def)
      ultimately show ?thesis by blast
    next
      case False
      then have "request_finish a td c = Some (?c\<lparr>ctargets := (ctargets c)(t \<mapsto> y\<lparr>t_ref := t_ref y - 1\<rparr>)\<rparr>)"
        unfolding d using starget_decref_op [of ?c t y z] y(1) z(1) ry by (simp add: free_links_def)
      moreover have "srv a t v n x g p m live (hs @ hs') (?c\<lparr>ctargets := (ctargets c)(t \<mapsto> y\<lparr>t_ref := t_ref y - 1\<rparr>)\<rparr>)"
        using assms(1) e False z p ry l y(1)
        by (cases g) (simp_all add: srv_defs calls_of_def free_links_def idle_part_def)
      ultimately show ?thesis by blast
    qed
  qed
qed

subsection \<open>The operations of the poller\<close>

text \<open>The new session, as \<open>create_request\<close> leaves it.\<close>

lemma create_request_opened:
  assumes "conns c a = Some e" "e_state e = CONN_STATE_CONNECTED" "e_target e = t" "ctargets c t = Some w"
  shows "\<exists>y' c'. create_request ldel (Some (x, y)) now u a c = Some (u_in u, c') \<and>
    conns c' = (conns c)(a \<mapsto> e\<lparr>e_session := x, e_seq := e_seq e + 1, e_state := CONN_STATE_RECEIVING\<rparr>) \<and>
    csessions c' = (csessions c)(x \<mapsto> y') \<and> s_target y' = t \<and> s_passive y' = 1 \<and> s_in y' = u_in u \<and>
    (u_in u \<noteq> NULL \<longrightarrow> msg_entry c' (u_in u) = a) \<and> ctargets c' = (ctargets c)(t \<mapsto> w\<lparr>t_ref := t_ref w + 1\<rparr>) \<and>
    cservices c' = cservices c \<and> cmem c' = cmem c \<and> handles c' = handles c \<and> closed c' = closed c"
proof (cases "u_in u = NULL")
  case True
  then show ?thesis using assms
    by (simp add: create_request_def open_session_def comm_ops Let_def starget_incref_def upd_ctarget_def set_in_def)
next
  case False
  then show ?thesis using assms
    by (simp add: create_request_def open_session_def comm_ops Let_def starget_incref_def upd_ctarget_def set_in_def)
qed

lemma opened_srv:
  assumes "srv a t v n x0 g [PD_OP_READ] m live hs c" "conns c a = Some e" "e_state e = CONN_STATE_CONNECTED" "x \<noteq> NULL"
  shows "\<exists>m' c'. create_request ldel (Some (x, y)) now u a c = Some (m', c') \<and> g = Fresh \<and> srv a t v n x Receiving [PD_OP_READ] m live hs c'"
proof -
  obtain w where e: "entry_core a t v x0 g [PD_OP_READ] m live hs c e" "e_ref e > 0" and
    w: "ctargets c t = Some w" "target_core a v g [PD_OP_READ] c w" "t_ref w > 0" "list_at (cmem c) t (idle_part a [PD_OP_READ] (Some e))"
    using srv_entryE [OF assms(1)] assms(2) by auto
  have g: "g = Fresh" using e(1) assms(3) by (cases g) (simp_all add: entry_core_def op_defs)
  have "e_target e = t" using e(1) by (simp add: entry_core_def)
  from create_request_opened [OF assms(2,3) this w(1), of ldel x y now u] obtain y' c' where
    f: "create_request ldel (Some (x, y)) now u a c = Some (u_in u, c')"
    "conns c' = (conns c)(a \<mapsto> e\<lparr>e_session := x, e_seq := e_seq e + 1, e_state := CONN_STATE_RECEIVING\<rparr>)"
    "csessions c' = (csessions c)(x \<mapsto> y')" "s_target y' = t" "s_passive y' = 1" "s_in y' = u_in u" "u_in u \<noteq> NULL \<longrightarrow> msg_entry c' (u_in u) = a"
    "ctargets c' = (ctargets c)(t \<mapsto> w\<lparr>t_ref := t_ref w + 1\<rparr>)" "cservices c' = cservices c" "cmem c' = cmem c" "handles c' = handles c" "closed c' = closed c"
    by blast
  have "srv a t v n x Receiving [PD_OP_READ] m live hs c'"
    using assms e w g f by (simp add: srv_defs calls_of_def idle_part_def)
  with f(1) g show ?thesis by blast
qed

lemma srv_same:
  assumes "conns c' = conns c" "csessions c' = csessions c" "ctargets c' = ctargets c" "cservices c' = cservices c" "cmem c' = cmem c"
    "calls_of c' = calls_of c" "closed c' = closed c" "msg_entry c' = msg_entry c"
  shows "srv a t v n x g p m live hs c' = srv a t v n x g p m live hs c"
  unfolding srv_defs assms ..

lemma not_opened_srv:
  assumes "srv a t v n x g [PD_OP_READ] m live hs c" "conns c a = Some e" "e_state e \<noteq> CONN_STATE_CONNECTED \<or> new = None"
  shows "\<exists>m' c'. create_request ldel new now u a c = Some (m', c') \<and> srv a t v n x g [PD_OP_READ] m live hs c'"
proof -
  have "entry_core a t v x g [PD_OP_READ] m live hs c e" using srv_entryE [OF assms(1)] assms(2) by auto
  then have "e_state e \<noteq> CONN_STATE_KEEPALIVE" by (cases g) (auto simp: entry_core_def op_defs)
  then have "create_request ldel new now u a c = Some (NULL, if e_state e = CONN_STATE_CONNECTED then c else c\<lparr>cerrno := EBADMSG_code\<rparr>)"
    using assms(2,3) by (auto simp: create_request_def)
  moreover have "srv a t v n x g [PD_OP_READ] m live hs (c\<lparr>cerrno := EBADMSG_code\<rparr>)"
    using assms(1) by (subst srv_same [where c = c]) (simp_all add: calls_of_def)
  ultimately show ?thesis using assms(1) by auto
qed

text \<open>An operation that keeps the session's stage.\<close>

lemma conn_op_srv:
  assumes "srv a t v n x g p m live hs c" "conns c a = Some e" "conn_op a t e c e' c' ks" "e_session e = x" "\<not> no_session g"
    "place g' p' m' live' (e_state e')" "g' = g \<or> (g = Receiving \<and> g' = Complete \<and> (\<forall>y. csessions c x = Some y \<longrightarrow> s_in y \<noteq> NULL))"
    "p \<noteq> []" "p' \<noteq> []" "idle_part a p (Some e) = []" "idle_part a p' (Some e') = []"
  shows "srv a t v n x g' p' m' live' hs c'"
proof -
  obtain w where e: "entry_core a t v x g p m live hs c e" "e_ref e > 0" and
    w: "ctargets c t = Some w" "target_core a v g p c w" "t_ref w > 0" "list_at (cmem c) t []"
    using srv_entryE [OF assms(1) disjI1 [OF assms(8)]] assms(2,10) by (metis option.inject)
  have o: "conns c' = (conns c)(a \<mapsto> e')" "e_ref e' = e_ref e" "e_session e' = x" "e_target e' = t" "e_service e' = v"
    "ctargets c' = ctargets c" "cservices c' = cservices c" "msg_entry c' = msg_entry c" "cmem c' = cmem c" "handles c' = handles c" "closed c' = closed c"
    using assms(3,4) e(1) by (simp_all add: conn_op_def entry_core_def)
  obtain y y' where y: "csessions c x = Some y" "csessions c' = (csessions c)(x \<mapsto> y')" "s_target y' = t" "s_passive y' = s_passive y" "s_in y' = s_in y"
    using assms(3,4) unfolding conn_op_def by (elim conjE exE) simp
  have g: "no_session g' = no_session g" "passive_ok g' = passive_ok g" "talk g' = talk g"
    using assms(7) by (auto simp: no_session_def fun_eq_iff)
  have "passive_ok g (s_passive y)" "s_in y \<noteq> NULL \<longrightarrow> msg_entry c (s_in y) = a" "g = Complete \<or> g = Announced \<longrightarrow> s_in y \<noteq> NULL" "x \<noteq> NULL"
    using srv_sessionD [OF assms(1,5) y(1)] by blast+
  then have "session_ok a t x g' c'"
    using assms(5,7) y g o(8) by (cases g') (auto simp: session_ok_def no_session_def)
  moreover have "base_ok a t v n c'" "talk g' x (calls_of c') (to_call hs)"
    using assms(1) o g by (simp_all add: srv_def base_ok_def calls_of_def)
  moreover have "target_ok a t v g' p' c'"
    using w o g assms(2,11) by (simp add: target_ok_def target_core_def)
  ultimately show ?thesis
    using e o assms(6,8,9) by (simp add: srv_def conn_ok_def entry_core_def)
qed

lemma srv_session_of:
  assumes "srv a t v n x g p m live hs c" "conns c a = Some e" "\<not> no_session g"
  shows "session_of a t e c" "e_session e = x"
proof -
  show "e_session e = x" using assms by (auto simp: srv_def conn_ok_def entry_core_def no_session_def)
  then show "session_of a t e c" using srv_sessionE [OF assms(1,3)] assms(2) by (fastforce simp: session_of_def)
qed

lemma append_srv:
  assumes "srv a t v n x g [PD_OP_READ] m True hs c" "conns c a = Some e" "e_state e = CONN_STATE_RECEIVING"
    "csessions c (e_session e) = Some y" "s_in y \<noteq> NULL"
  shows "\<exists>c'. append_message ret now u a c = Some (ret, c') \<and> g = Receiving \<and> \<not> m \<and>
    srv a t v n x (if ret > 0 then Complete else Receiving) [PD_OP_READ] (ret > 0) True hs c'"
proof -
  have "entry_core a t v x g [PD_OP_READ] m True hs c e" using srv_entryE [OF assms(1)] assms(2) by auto
  then have g: "g = Receiving" "\<not> m" using assms(3) by (cases g; simp add: entry_core_def op_defs)+
  then have n: "\<not> no_session g" by (simp add: no_session_def)
  note s = srv_session_of [OF assms(1,2) n]
  from append_message_op [OF s(1), of ret now u None] obtain e' c' ks where
    o: "append_message ret now u a c = Some (ret, c')" "conn_op a t e c e' c' ks" "e_state e' = (if ret > 0 then CONN_STATE_SUCCESS else e_state e)"
    by auto
  have "srv a t v n x (if ret > 0 then Complete else Receiving) [PD_OP_READ] (ret > 0) True hs c'"
    by (rule conn_op_srv [OF assms(1,2) o(2) s(2) n]) (use g o(3) s(2) assms(3-5) in \<open>auto simp: idle_part_def\<close>)
  with o(1) g show ?thesis by blast
qed

lemma written_srv:
  assumes "srv a t v n x g [PD_OP_WRITE] m live hs c"
  shows "\<exists>c'. partial_written now a c = Some (0, c') \<and> srv a t v n x g [PD_OP_WRITE] m live hs c'"
proof -
  obtain e where e: "conns c a = Some e" "entry_core a t v x g [PD_OP_WRITE] m live hs c e" using srv_entryE [OF assms] by auto
  then have n: "\<not> no_session g" by (auto simp: entry_core_def no_session_def op_defs)
  note s = srv_session_of [OF assms e(1) n]
  from partial_written_op [OF s(1), of now None] obtain c' ks where
    o: "partial_written now a c = Some (0, c')" "conn_op a t e c e c' ks" by auto
  have "srv a t v n x g [PD_OP_WRITE] m live hs c'"
    by (rule conn_op_srv [OF assms e(1) o(2) s(2) n]) (use e(2) in \<open>auto simp: idle_part_def entry_core_def op_defs\<close>)
  with o(1) show ?thesis by blast
qed

subsection \<open>Replying\<close>

text \<open>\<open>sent_reply\<close> keeps a reference for the rest of \<open>reply\<close> and closes the connection.\<close>

lemma sent_reply_op:
  assumes "session_of a t e c" "e_service e = v" "cservices c v = Some z" "v \<noteq> NULL" "u_keep_alive u = 0"
  shows "\<exists>c'. sent_all now u a e c = Some c' \<and>
    conn_op a t (e\<lparr>e_ref := e_ref e + 1\<rparr>) c (e\<lparr>e_ref := e_ref e + 1, e_state := CONN_STATE_CLOSING\<rparr>) c' [Pdel (e_sockfd e)]"
  using assms by (auto simp: sent_all_def sent_reply_def session_of_def conn_op_def upd_conn_def poll_def Let_def)

text \<open>The session that is being replied to.\<close>

lemma announced_srv:
  assumes "srv a t v n x g p m live hs c" "g \<noteq> Fresh" "csessions c x = Some y" "s_passive y = 2" "(x, CS_STATE_TOREPLY) \<in> set (calls_of c)"
  shows "g = Announced" "calls_of c = [(x, CS_STATE_TOREPLY)]" "to_call hs = []" "\<not> m"
proof -
  have "\<not> no_session g" using assms(1-3) by (auto simp: srv_def session_ok_def no_session_def)
  from srv_sessionD(2) [OF assms(1) this assms(3)] assms(4) show g: "g = Announced" by (cases g) simp_all
  have k: "calls_of c @ to_call hs = [(x, CS_STATE_TOREPLY)]" using assms(1) g by (simp add: srv_def)
  with assms(5) show "calls_of c = [(x, CS_STATE_TOREPLY)]" "to_call hs = []" by (auto simp: append_eq_Cons_conv)
  show "\<not> m" using assms(1) g by (auto simp: srv_def conn_ok_def entry_core_def split: option.splits)
qed

text \<open>Taking the entry out of the idle list, for a reply and for a shutdown.\<close>

lemma idle_pop_one:
  assumes "idle_ops ladd ldel" "list_at (cmem c) t [a]"
  shows "\<exists>h. idle_pop ldel t c = Some (a, c\<lparr>cmem := h\<rparr>) \<and> list_at h t [] \<and> dom h = dom (cmem c)"
proof -
  have t: "t \<noteq> NULL" using assms(2) by (simp add: list_at_def)
  from idle_del_last [OF assms] obtain h where h: "ldel a (cmem c) = Some h" "list_at h t []" "dom h = dom (cmem c)" .
  have "load (t, nextf) (cmem c) = Some a" using list_at_head(2) [OF assms(2)] t by (simp add: load_def)
  then have "idle_pop ldel t c = Some (a, c\<lparr>cmem := h\<rparr>)"
    using h list_empty_correct [OF assms(2)] by (simp add: idle_pop_def set_cmem_def)
  with h show ?thesis by blast
qed

lemma starget_shutdown_one:
  assumes "list_at (cmem c) t [a]" "ctargets c t = Some w" "cservices c (t_service w) = Some z" "v_reliable z" "conns c a = Some e"
  shows "\<exists>h. (\<forall>ss. starget_shutdown t (c\<lparr>csessions := ss\<rparr>) = Some (1, c\<lparr>conns := (conns c)(a \<mapsto> e\<lparr>e_state := CONN_STATE_CLOSING\<rparr>), cmem := h,
      pcalls := pcalls c @ [Pdel (e_sockfd e)], csessions := ss\<rparr>)) \<and> list_at h t [] \<and> dom h = dom (cmem c)"
proof -
  have t: "t \<noteq> NULL" using assms(1) by (simp add: list_at_def)
  from list_delete_correct [of "cmem c" t "[]" a "[]"] assms(1) obtain h where
    h: "list_delete a (cmem c) = Some h" "list_at h t []" "dom h = dom (cmem c)" by (auto dest: agree_off_dom)
  have "load (t, nextf) (cmem c) = Some a" using list_at_head(2) [OF assms(1)] t by (simp add: load_def)
  then have "starget_shutdown t (c\<lparr>csessions := ss\<rparr>) = Some (1, c\<lparr>conns := (conns c)(a \<mapsto> e\<lparr>e_state := CONN_STATE_CLOSING\<rparr>), cmem := h,
      pcalls := pcalls c @ [Pdel (e_sockfd e)], csessions := ss\<rparr>)" for ss
    using assms h(1) list_empty_correct [OF assms(1)]
    by (simp add: starget_shutdown_def set_cmem_def upd_conn_def poll_def)
  with h show ?thesis by blast
qed

lemma idle_pop_empty: "list_at (cmem c) t [] \<Longrightarrow> idle_pop ldel t c = Some (NULL, c)"
  using list_empty_correct [of "cmem c" t "[]"] by (simp add: idle_pop_def)

lemma starget_shutdown_empty: "list_at (cmem c) t [] \<Longrightarrow> starget_shutdown t c = Some (0, c)"
  using list_empty_correct [of "cmem c" t "[]"] by (simp add: starget_shutdown_def)

text \<open>Where an announced session's connection is.\<close>

lemma announced_place:
  assumes "srv a t v n x Announced p m live hs c"
  obtains w z where "ctargets c t = Some w" "target_core a v Announced p c w" "t_ref w > 0" "cservices c v = Some z" "v_reliable z" "p = []" "list_at (cmem c) t []"
  | w z e where "ctargets c t = Some w" "target_core a v Announced p c w" "t_ref w > 0" "cservices c v = Some z" "v_reliable z" "p = [PD_OP_READ]"
    "list_at (cmem c) t [a]" "conns c a = Some e" "entry_core a t v x Announced p m live hs c e" "e_state e = CONN_STATE_IDLE" "e_ref e > 0"
proof -
  obtain w z where w: "ctargets c t = Some w" "target_core a v Announced p c w" "t_ref w > 0" "cservices c v = Some z" "v_reliable z"
    "list_at (cmem c) t (idle_part a p (conns c a))"
    using assms by (auto simp: srv_def target_ok_def base_ok_def no_session_def split: option.splits)
  show ?thesis
  proof (cases "p = []")
    case True
    then have "idle_part a p (conns c a) = []" by (simp add: idle_part_def split: option.splits)
    then show ?thesis using that(1) [OF w(1-5) True] w(6) by simp
  next
    case False
    from srv_entryE [OF assms disjI1 [OF False]] obtain e where
      e: "conns c a = Some e" "entry_core a t v x Announced p m live hs c e" "e_ref e > 0" by blast
    then have p: "p = [PD_OP_READ]" "e_state e = CONN_STATE_IDLE" using False by (auto simp: entry_core_def)
    then show ?thesis using that(2) [OF w(1-5) p(1) _ e(1,2) p(2) e(3)] w(6) e(1) by (simp add: idle_part_def)
  qed
qed

text \<open>A reply that was given to the entry.\<close>

lemma reply_op_srv:
  assumes "srv a t v n x Announced [PD_OP_READ] m live hs c" "conns c a = Some e" "csessions c x = Some y" "list_at h t []" "dom h = dom (cmem c)"
    "conn_op a t (e\<lparr>e_ref := e_ref e + k\<rparr>) (c\<lparr>csessions := (csessions c)(x \<mapsto> y\<lparr>s_passive := 3\<rparr>), cmem := h\<rparr>) e' c' ks" "k \<ge> 0"
    "place g p False live (e_state e')" "p \<noteq> []" "idle_part a p (Some e') = []" "int (length hs') = int (length hs) + k"
    "talk g x (calls_of c) (to_call hs')" "g = Replying \<or> g = Answered \<or> g = Over"
  shows "srv a t v n x g p False live hs' c'"
proof -
  obtain w where e: "entry_core a t v x Announced [PD_OP_READ] m live hs c e" "e_ref e > 0" and
    w: "ctargets c t = Some w" "target_core a v Announced [PD_OP_READ] c w" "t_ref w > 0"
    using srv_entryE [OF assms(1)] assms(2) by (metis list.discI option.inject)
  have x: "e_session e = x" "\<not> m" using e(1) by (simp_all add: entry_core_def)
  note s = srv_sessionD [OF assms(1) _ assms(3)]
  have o: "conns c' = (conns c)(a \<mapsto> e')" "e_ref e' = e_ref e + k" "e_session e' = x" "e_target e' = t" "e_service e' = v"
    "ctargets c' = ctargets c" "cservices c' = cservices c" "msg_entry c' = msg_entry c" "cmem c' = h" "calls_of c' = calls_of c" "closed c' = closed c"
    using assms(6) e(1) x by (simp_all add: conn_op_def entry_core_def calls_of_def)
  obtain y' where y': "csessions c' = (csessions c)(x \<mapsto> y')" "s_target y' = t" "s_passive y' = 3" "s_in y' = s_in y"
    using assms(6) x(1) by (auto simp: conn_op_def)
  have "session_ok a t x g c'"
    using s assms(13) y' o(8) by (auto simp: session_ok_def no_session_def)
  moreover have "base_ok a t v n c'" using assms(1) o by (simp add: srv_def base_ok_def)
  moreover have "target_ok a t v g p c'"
    using w o assms(2,4,10,13) by (auto simp: target_ok_def target_core_def no_session_def)
  moreover have "entry_core a t v x g p False live hs' c' e'"
    using e(1) o assms(5,8,9,11) x free_node_dom [OF assms(5)] by (simp add: entry_core_def)
  ultimately show ?thesis
    using e(2) o assms(7,12) by (simp add: srv_def conn_ok_def)
qed

text \<open>The three ways a reply goes: sent, on its way (or failing at the next result), refused.\<close>

definition replied :: "addr \<Rightarrow> addr \<Rightarrow> addr \<Rightarrow> int \<Rightarrow> addr \<Rightarrow> int list \<Rightarrow> bool \<Rightarrow> (addr \<times> int) list \<Rightarrow> int option \<Rightarrow> int \<Rightarrow> int option \<Rightarrow> comm \<Rightarrow> bool" where
  "replied a t v n x p live hs k ret k' c' \<longleftrightarrow>
     ret = 0 \<and> k' = k \<and> srv a t v n x Answered p False live (hs @ [(x, CS_STATE_SUCCESS)]) c' \<and> map_option s_in (csessions c' x) \<noteq> Some NULL \<or>
     ret = 1 \<and> k' = k \<and> p = [PD_OP_READ] \<and> srv a t v n x Replying p False live hs c' \<or>
     ret = 1 \<and> live \<and> k' = Some PD_OP_WRITE \<and> srv a t v n x Replying [PD_OP_WRITE] False live hs c' \<or>
     ret < 0 \<and> k' = k \<and> p = [] \<and> srv a t v n x Over p False live hs c'"

lemma reply_sent_srv:
  assumes i: "srv a t v n x Announced [PD_OP_READ] m live hs c" and e: "conns c a = Some e" and y: "csessions c x = Some y"
    and h: "list_at h t []" "dom h = dom (cmem c)" and told: "calls_of c = [(x, CS_STATE_TOREPLY)]" "to_call hs = []" and u: "u_keep_alive u = 0"
    and k: "session_of a t e (c\<lparr>csessions := (csessions c)(x \<mapsto> y\<lparr>s_passive := 3\<rparr>), cmem := h\<rparr>)"
    and o: "conn_op a t e (c\<lparr>csessions := (csessions c)(x \<mapsto> y\<lparr>s_passive := 3\<rparr>), cmem := h\<rparr>) e c1 []" "sent_all now u a e c1 = Some c'"
  shows "replied a t v n x [PD_OP_READ] live hs k' 0 (registered c c' k') c'"
proof -
  let ?c = "c\<lparr>csessions := (csessions c)(x \<mapsto> y\<lparr>s_passive := 3\<rparr>), cmem := h\<rparr>" let ?e = "e\<lparr>e_ref := e_ref e + 1\<rparr>"
  have n: "\<not> no_session Announced" by (simp add: no_session_def)
  note s = srv_sessionD [OF i n y]
  have v: "e_service e = v" and x: "e_session e = x" using srv_entryE [OF i] e(1) by (auto simp: entry_core_def)
  obtain z where z: "cservices c v = Some z" "v \<noteq> NULL" using i by (auto simp: srv_def base_ok_def)
  have "cservices c1 v = Some z" using o(1) z by (simp add: conn_op_def)
  from sent_reply_op [OF conn_op_session [OF o(1) k] v this z(2) u, of now] o(2) have
    "conn_op a t ?e c1 (?e\<lparr>e_state := CONN_STATE_CLOSING\<rparr>) c' [Pdel (e_sockfd e)]" by auto
  then have p: "conn_op a t ?e ?c (?e\<lparr>e_state := CONN_STATE_CLOSING\<rparr>) c' [Pdel (e_sockfd e)]" using o(1) by (auto simp: conn_op_def)
  have "srv a t v n x Answered [PD_OP_READ] False live (hs @ [(x, CS_STATE_SUCCESS)]) c'"
    by (rule reply_op_srv [OF i e(1) y h p]) (use told s in \<open>auto simp: idle_part_def finals_def CS_STATE_SUCCESS_def CS_STATE_TOREPLY_def\<close>)
  moreover have "registered c c' k' = k'" using registered_op [OF p, of k'] by (simp add: registered_def)
  moreover have "map_option s_in (csessions c' x) = Some (s_in y)" using p x by (auto simp: conn_op_def)
  ultimately show ?thesis using s by (auto simp: replied_def)
qed

text \<open>The reply was left to the poller, or its connection fails with the next result.\<close>

lemma reply_kept_srv:
  assumes i: "srv a t v n x Announced [PD_OP_READ] m live hs c" and e: "conns c a = Some e" and y: "csessions c x = Some y"
    and h: "list_at h t []" "dom h = dom (cmem c)" and told: "calls_of c = [(x, CS_STATE_TOREPLY)]" "to_call hs = []"
    and o: "conn_op a t e (c\<lparr>csessions := (csessions c)(x \<mapsto> y\<lparr>s_passive := 3\<rparr>), cmem := h\<rparr>) e' c' ks"
    and cases: "e_state e' = CONN_STATE_IDLE \<and> foldl reg k ks = Some PD_OP_WRITE \<and> live \<or>
      e_state e' = CONN_STATE_RECEIVING \<and> foldl reg k ks = k \<and> \<not> live \<or> e_state e' = CONN_STATE_ERROR \<and> foldl reg k ks = k"
  shows "replied a t v n x [PD_OP_READ] live hs k 1 (registered c c' k) c'"
proof -
  have r: "registered c c' k = foldl reg k ks" using registered_op [OF o, of k] by (simp add: registered_def)
  note op = reply_op_srv [OF i e y h, of 0 e' c' ks, simplified, OF o]
  from cases show ?thesis
  proof (elim disjE conjE)
    assume s: "e_state e' = CONN_STATE_IDLE" "foldl reg k ks = Some PD_OP_WRITE" "live"
    have "srv a t v n x Replying [PD_OP_WRITE] False live hs c'" by (rule op) (use told s in \<open>auto simp: idle_part_def op_defs\<close>)
    with s r show ?thesis by (simp add: replied_def)
  next
    assume s: "e_state e' = CONN_STATE_RECEIVING" "foldl reg k ks = k" "\<not> live"
    have "srv a t v n x Replying [PD_OP_READ] False live hs c'" by (rule op) (use told s in \<open>auto simp: idle_part_def\<close>)
    with s r show ?thesis by (simp add: replied_def)
  next
    assume s: "e_state e' = CONN_STATE_ERROR" "foldl reg k ks = k"
    have "srv a t v n x Replying [PD_OP_READ] False live hs c'" by (rule op) (use told s in \<open>auto simp: idle_part_def\<close>)
    with s r show ?thesis by (simp add: replied_def)
  qed
qed

lemma send_idle_srv:
  assumes i: "srv a t v n x Announced [PD_OP_READ] m live hs c" and e: "conns c a = Some e" "e_state e = CONN_STATE_IDLE" and y: "csessions c x = Some y"
    and h: "list_at h t []" "dom h = dom (cmem c)" and told: "calls_of c = [(x, CS_STATE_TOREPLY)]" "to_call hs = []"
    and u: "u_keep_alive u = 0" "if live then sa_poll ans \<ge> 0 \<or> sa_poll_errno ans \<noteq> errno_code ENOENT else sa_poll ans < 0"
    and r: "send_idle ans oerr now u x a (c\<lparr>csessions := (csessions c)(x \<mapsto> y\<lparr>s_passive := 3\<rparr>), cmem := h\<rparr>) = Some (ret, c')"
  shows "replied a t v n x [PD_OP_READ] live hs k ret (registered c c' k) c'"
proof -
  let ?c = "c\<lparr>csessions := (csessions c)(x \<mapsto> y\<lparr>s_passive := 3\<rparr>), cmem := h\<rparr>"
  have n: "\<not> no_session Announced" by (simp add: no_session_def)
  note s = srv_session_of [OF i e(1) n] srv_sessionD [OF i n y]
  have k: "session_of a t e ?c" using s y by (auto simp: session_of_def)
  note sent = reply_sent_srv [OF i e(1) y h told u(1) k] and kept = reply_kept_srv [OF i e(1) y h told]
  from send_idle_cases [OF k s(2) e(2) r, of k]
  consider (all) c1 where "ret = 0" "conn_op a t e ?c e c1 []" "sent_all now u a e c1 = Some c'"
    | (some) e' ks where "conn_op a t e ?c e' c' ks" "ret = 1" "sending ans k e (e_state e') ks"
    | (fail) e' ks where "conn_op a t e ?c e' c' ks" "ret = 1" "e_state e' = CONN_STATE_ERROR" "foldl reg k ks = k" by blast
  then show ?thesis
  proof cases
    case all
    then show ?thesis using sent by simp
  next
    case some
    then show ?thesis using kept [OF some(1)] u(2) e(2) by (auto simp: sending_def split: if_splits)
  next
    case fail
    then show ?thesis using kept [OF fail(1)] by simp
  qed
qed

lemma reply_refused_srv:
  assumes "srv a t v n x Announced [] m live hs c" "csessions c x = Some y" "calls_of c = [(x, CS_STATE_TOREPLY)]" "to_call hs = []"
  shows "srv a t v n x Over [] False live hs (c\<lparr>csessions := (csessions c)(x \<mapsto> y\<lparr>s_passive := 3\<rparr>)\<rparr>)"
proof -
  let ?c = "c\<lparr>csessions := (csessions c)(x \<mapsto> y\<lparr>s_passive := 3\<rparr>)\<rparr>"
  have n: "\<not> no_session Announced" "\<not> no_session Over" by (simp_all add: no_session_def)
  note s = srv_sessionD [OF assms(1) n(1) assms(2)]
  have "session_ok a t x Over ?c" using s by (simp add: session_ok_def)
  moreover have "base_ok a t v n ?c" "target_ok a t v Over [] ?c"
    using assms(1) n by (auto simp: srv_def base_ok_def target_ok_def target_core_def split: option.splits)
  moreover have "conn_ok a t v x Over [] False live hs ?c"
    using assms(1) by (auto simp: srv_def conn_ok_def entry_core_def split: option.splits)
  ultimately show ?thesis using assms(3,4) by (simp add: srv_def calls_of_def)
qed

lemma reply_srv:
  assumes "idle_ops ladd ldel" "srv a t v n x g p m live hs c" "g \<noteq> Fresh" "csessions c x = Some y" "s_passive y = 2"
    "(x, CS_STATE_TOREPLY) \<in> set (calls_of c)" "u_keep_alive u = 0"
    "if live then sa_poll ans \<ge> 0 \<or> sa_poll_errno ans \<noteq> errno_code ENOENT else sa_poll ans < 0"
    "reply_send ldel ans oerr now u x c = Some (ret, c')"
  shows "g = Announced" "\<not> m" "replied a t v n x p live hs k ret (registered c c' k) c'"
proof -
  note g = announced_srv [OF assms(2-6)]
  then show "g = Announced" "\<not> m" by simp_all
  note i = assms(2) [unfolded g(1)]
  have t: "s_target y = t" using srv_sessionD(1) [OF i _ assms(4)] by (simp add: no_session_def)
  let ?c = "c\<lparr>csessions := (csessions c)(x \<mapsto> y\<lparr>s_passive := 3\<rparr>)\<rparr>"
  from i show "replied a t v n x p live hs k ret (registered c c' k) c'"
  proof (cases rule: announced_place)
    case (1 w z)
    then have "reply_send ldel ans oerr now u x c = Some (-1, ?c\<lparr>cerrno := errno_code ENOENT\<rparr>)"
      using assms(4) t idle_pop_empty [of ?c t ldel]
      by (simp add: reply_send_def upd_csession_def reply_reliable_def target_core_def)
    then have r: "ret = -1" "c' = ?c\<lparr>cerrno := errno_code ENOENT\<rparr>" using assms(9) by simp_all
    have "srv a t v n x Over [] False live hs c'"
      unfolding r using reply_refused_srv [OF _ assms(4) g(2,3)] i 1(6) by (subst srv_same [where c = ?c]) (simp_all add: calls_of_def)
    then show ?thesis using 1(6) r by (simp add: replied_def registered_def)
  next
    case (2 w z e)
    from idle_pop_one [OF assms(1), of ?c t a] 2(7) obtain h where
      h: "idle_pop ldel t ?c = Some (a, ?c\<lparr>cmem := h\<rparr>)" "list_at h t []" "dom h = dom (cmem c)" by auto
    have a: "a \<noteq> NULL" using i by (simp add: srv_def base_ok_def)
    have "reply_send ldel ans oerr now u x c = send_idle ans oerr now u x a (?c\<lparr>cmem := h\<rparr>)"
      using assms(4) t h(1) a 2(1,2,4,5) by (simp add: reply_send_def upd_csession_def reply_reliable_def target_core_def)
    then have r: "send_idle ans oerr now u x a (c\<lparr>csessions := (csessions c)(x \<mapsto> y\<lparr>s_passive := 3\<rparr>), cmem := h\<rparr>) = Some (ret, c')"
      using assms(9) by simp
    from i have "srv a t v n x Announced [PD_OP_READ] m live hs c" using 2(6) by simp
    from send_idle_srv [OF this 2(8,10) assms(4) h(2,3) g(2,3) assms(7,8) r, of k] 2(6) show ?thesis by simp
  qed
qed

subsection \<open>Giving up\<close>

lemma closed_srv:
  assumes "srv a t v n x Announced [PD_OP_READ] m live hs c" "conns c a = Some e" "csessions c x = Some y" "list_at h t []" "dom h = dom (cmem c)"
    "calls_of c = [(x, CS_STATE_TOREPLY)]" "to_call hs = []"
  shows "srv a t v n x Over [PD_OP_READ] False live hs (c\<lparr>conns := (conns c)(a \<mapsto> e\<lparr>e_state := CONN_STATE_CLOSING\<rparr>),
    cmem := h, pcalls := pcalls c @ [Pdel (e_sockfd e)], csessions := (csessions c)(x \<mapsto> y\<lparr>s_passive := 3\<rparr>)\<rparr>)"
proof -
  have n: "\<not> no_session Announced" by (simp add: no_session_def)
  note s = srv_session_of [OF assms(1,2) n] srv_sessionD [OF assms(1) n assms(3)]
  have o: "conn_op a t (e\<lparr>e_ref := e_ref e + 0\<rparr>) (c\<lparr>csessions := (csessions c)(x \<mapsto> y\<lparr>s_passive := 3\<rparr>), cmem := h\<rparr>) (e\<lparr>e_state := CONN_STATE_CLOSING\<rparr>)
    (c\<lparr>conns := (conns c)(a \<mapsto> e\<lparr>e_state := CONN_STATE_CLOSING\<rparr>), cmem := h,
      pcalls := pcalls c @ [Pdel (e_sockfd e)], csessions := (csessions c)(x \<mapsto> y\<lparr>s_passive := 3\<rparr>)\<rparr>) [Pdel (e_sockfd e)]"
    using s by (auto simp: conn_op_def fun_upd_idem)
  show ?thesis
    by (rule reply_op_srv [OF assms(1-5) o]) (use assms(6,7) in \<open>simp_all add: idle_part_def\<close>)
qed

text \<open>\<open>starget_shutdown\<close> on an announced session; the member \<open>passive\<close> is not looked at.\<close>

lemma shutdown_target_srv:
  assumes "srv a t v n x Announced p m live hs c" "csessions c x = Some y" "calls_of c = [(x, CS_STATE_TOREPLY)]" "to_call hs = []"
  shows "\<exists>ret c'. (\<forall>ss. starget_shutdown t (c\<lparr>csessions := ss\<rparr>) = Some (ret, c'\<lparr>csessions := ss\<rparr>)) \<and> csessions c' = csessions c \<and> cservices c' = cservices c \<and>
    srv a t v n x Over p False live hs (c'\<lparr>csessions := (csessions c)(x \<mapsto> y\<lparr>s_passive := 3\<rparr>)\<rparr>)"
  using assms(1)
proof (cases rule: announced_place)
  case (1 w z)
  then have "starget_shutdown t (c\<lparr>csessions := ss\<rparr>) = Some (0, c\<lparr>csessions := ss\<rparr>)" for ss using starget_shutdown_empty by simp
  moreover have "srv a t v n x Over p False live hs (c\<lparr>csessions := (csessions c)(x \<mapsto> y\<lparr>s_passive := 3\<rparr>)\<rparr>)"
    using reply_refused_srv [OF _ assms(2-4)] assms(1) 1(6) by blast
  ultimately show ?thesis by (intro exI [of _ 0] exI [of _ c]) simp
next
  case (2 w z e)
  from starget_shutdown_one [of c t a w z e] 2 obtain h where
    h: "\<And>ss. starget_shutdown t (c\<lparr>csessions := ss\<rparr>) = Some (1, c\<lparr>conns := (conns c)(a \<mapsto> e\<lparr>e_state := CONN_STATE_CLOSING\<rparr>), cmem := h,
        pcalls := pcalls c @ [Pdel (e_sockfd e)], csessions := ss\<rparr>)"
      "list_at h t []" "dom h = dom (cmem c)" by (auto simp: target_core_def)
  let ?c = "c\<lparr>conns := (conns c)(a \<mapsto> e\<lparr>e_state := CONN_STATE_CLOSING\<rparr>), cmem := h, pcalls := pcalls c @ [Pdel (e_sockfd e)]\<rparr>"
  have "starget_shutdown t (c\<lparr>csessions := ss\<rparr>) = Some (1, ?c\<lparr>csessions := ss\<rparr>)" for ss using h(1) .
  moreover have "srv a t v n x Over p False live hs (?c\<lparr>csessions := (csessions c)(x \<mapsto> y\<lparr>s_passive := 3\<rparr>)\<rparr>)"
    using closed_srv [OF _ 2(8) assms(2) h(2,3) assms(3,4)] assms(1) 2(6) by simp
  ultimately show ?thesis by (intro exI [of _ 1] exI [of _ ?c]) simp
qed

lemma shutdown_srv:
  assumes "srv a t v n x g p m live hs c" "g \<noteq> Fresh" "csessions c x = Some y" "s_passive y = 2" "(x, CS_STATE_TOREPLY) \<in> set (calls_of c)"
  shows "\<exists>ret c'. shutdown x c = Some (ret, c') \<and> g = Announced \<and> \<not> m \<and> srv a t v n x Over p False live hs c'"
proof -
  note g = announced_srv [OF assms]
  note i = assms(1) [unfolded g(1)]
  have t: "s_target y = t" using srv_sessionD(1) [OF i _ assms(3)] by (simp add: no_session_def)
  from shutdown_target_srv [OF i assms(3) g(2,3)] obtain ret c' where
    d: "\<And>ss. starget_shutdown t (c\<lparr>csessions := ss\<rparr>) = Some (ret, c'\<lparr>csessions := ss\<rparr>)"
    "srv a t v n x Over p False live hs (c'\<lparr>csessions := (csessions c)(x \<mapsto> y\<lparr>s_passive := 3\<rparr>)\<rparr>)" by blast
  let ?c = "c'\<lparr>csessions := (csessions c)(x \<mapsto> y\<lparr>s_passive := 3\<rparr>)\<rparr>"
  have "srv a t v n x Over p False live hs (?c\<lparr>cerrno := err\<rparr>)" for err
    using d(2) by (subst srv_same [where c = ?c]) (simp_all add: calls_of_def)
  then show ?thesis using d assms(3,4) t g(1,4) by (simp add: shutdown_def upd_csession_def)
qed

text \<open>The session's reference to the target goes with the session.\<close>

lemma session_gone_srv:
  assumes "srv a t v n x g p False live hs (c\<lparr>csessions := ss(x \<mapsto> y)\<rparr>)" "g = Over \<or> g = Answered" "talk Destroyed x (calls_of c) (to_call hs)"
  shows "\<exists>c'. starget_decref t c = Some c' \<and> srv a t v n x Destroyed p False live hs (c'\<lparr>csessions := ss(x := None)\<rparr>) \<and> csessions c' = csessions c"
proof -
  let ?c = "c\<lparr>csessions := ss(x \<mapsto> y)\<rparr>"
  have n: "\<not> no_session g" "no_session Destroyed" using assms(2) by (auto simp: no_session_def)
  obtain w z where w: "ctargets c t = Some w" "t_ref w = (if conns c a = None then 0 else 1) + 1" "t_service w = v"
    "list_at (cmem c) t (idle_part a p (conns c a))" "cservices c v = Some z" "v_reliable z" "v_ref z = n + 1" "a \<noteq> NULL" "a \<noteq> t" "v \<noteq> NULL" "x \<noteq> NULL"
    using assms(1) n assms(2) by (auto simp: srv_def target_ok_def target_core_def base_ok_def session_ok_def split: option.splits)
  have k: "conn_ok a t v x Destroyed p False live hs ?c" using assms(1,2) by (auto simp: srv_def conn_ok_def entry_core_def split: option.splits)
  show ?thesis
  proof (cases "conns c a")
    case None
    then have "starget_decref t c = Some (free_links t (c\<lparr>ctargets := (ctargets c)(t := None), cservices := (cservices c)(v \<mapsto> z\<lparr>v_ref := v_ref z - 1\<rparr>),
      unbounds := (if v_ref z = 1 then unbounds c @ [v] else unbounds c)\<rparr>))"
      using starget_decref_op [of c t w z] w by simp
    then show ?thesis using None k w n(2) assms(3)
      by (simp add: srv_def base_ok_def target_ok_def session_ok_def conn_ok_def free_links_def calls_of_def)
  next
    case (Some e)
    then have "starget_decref t c = Some (c\<lparr>ctargets := (ctargets c)(t \<mapsto> w\<lparr>t_ref := t_ref w - 1\<rparr>)\<rparr>)"
      using starget_decref_op [of c t w z] w by simp
    then show ?thesis using Some k w n(2) assms(3)
      by (simp add: srv_def base_ok_def target_ok_def target_core_def session_ok_def conn_ok_def entry_core_def calls_of_def)
  qed
qed

lemma destroy_srv:
  assumes "srv a t v n x g p m live hs c" "g \<noteq> Fresh" "csessions c x = Some y"
    "g = Over \<or> s_passive y = 2 \<and> (x, CS_STATE_TOREPLY) \<in> set (calls_of c) \<or> (\<exists>h \<in> set (calls_of c). fst h = x \<and> snd h \<noteq> CS_STATE_TOREPLY)"
  shows "\<exists>c'. session_destroy x c = Some c' \<and> g \<in> {Over, Announced, Answered} \<and> \<not> m \<and>
    srv a t v n x Destroyed p False live hs (c'\<lparr>csessions := (csessions c')(x := None)\<rparr>)"
proof -
  have n: "\<not> no_session g" using assms(1-3) by (auto simp: srv_def session_ok_def no_session_def)
  note s = srv_sessionD [OF assms(1) n assms(3)]
  have tk: "talk g x (calls_of c) (to_call hs)" using assms(1) by (simp add: srv_def)
  from assms(4) consider (ann) "s_passive y = 2" "(x, CS_STATE_TOREPLY) \<in> set (calls_of c)" | (rest) "g = Over \<or> g = Answered \<and> finals x (calls_of c) \<and> to_call hs = []"
    using tk s(2) n
    by (cases g) (auto simp: no_session_def finals_def append_eq_Cons_conv Cons_eq_append_conv)
  then show ?thesis
  proof cases
    case ann
    note g = announced_srv [OF assms(1-3) ann]
    from shutdown_target_srv [OF assms(1) [unfolded g(1)] assms(3) g(2,3)] obtain ret c1 where
      d: "\<And>ss. starget_shutdown t (c\<lparr>csessions := ss\<rparr>) = Some (ret, c1\<lparr>csessions := ss\<rparr>)" "csessions c1 = csessions c"
      "srv a t v n x Over p False live hs (c1\<lparr>csessions := (csessions c)(x \<mapsto> y\<lparr>s_passive := 3\<rparr>)\<rparr>)" by blast
    have "calls_of c1 = calls_of (c1\<lparr>csessions := (csessions c)(x \<mapsto> y\<lparr>s_passive := 3\<rparr>)\<rparr>)" by (simp add: calls_of_def)
    then have "talk Destroyed x (calls_of c1) (to_call hs)" using d(3) by (simp add: srv_def)
    from session_gone_srv [OF d(3) _ this] obtain c' where
      c': "starget_decref t c1 = Some c'" "srv a t v n x Destroyed p False live hs (c'\<lparr>csessions := (csessions c)(x := None)\<rparr>)" "csessions c' = csessions c" using d(2) by auto
    have "starget_shutdown t c = Some (ret, c1)" using d(1) [of "csessions c"] d(2) by (metis comm.surjective comm.update_convs(2))
    then show ?thesis using c' assms(3) ann(1) s(1) g(1,4) by (simp add: session_destroy_def)
  next
    case rest
    then have p: "s_passive y \<noteq> 0" "s_passive y \<noteq> 2" "\<not> m" using s(2) assms(1)
      by (auto simp: srv_def conn_ok_def entry_core_def split: option.splits)
    have i: "srv a t v n x g p False live hs (c\<lparr>csessions := (csessions c)(x \<mapsto> y)\<rparr>)" using assms(1,3) p(3) by (simp add: fun_upd_idem)
    have g: "g = Over \<or> g = Answered" and "talk Destroyed x (calls_of c) (to_call hs)" using rest tk by auto
    from session_gone_srv [OF i this] obtain c' where "starget_decref t c = Some c'"
        "srv a t v n x Destroyed p False live hs (c'\<lparr>csessions := (csessions c)(x := None)\<rparr>)" "csessions c' = csessions c" by auto
    then show ?thesis using assms(3) p s(1) g by (auto simp: session_destroy_def)
  qed
qed

end
