(* ===== verification/Comm_Server_Run.thy ===== *)
theory Comm_Server_Run
  imports Comm_Server_Inv
begin

section \<open>The runs of a server connection\<close>

text \<open>
  The steps of \<open>Comm_Server\<close> keep the invariant of \<open>Comm_Server_Inv\<close>. From it follow that
  entry and target are released exactly once, that no step touches either afterwards, that
  the user is told so exactly when it matters, and that the session walks through its stages.
\<close>

subsection \<open>The system\<close>

definition server_at :: "addr \<Rightarrow> addr \<Rightarrow> addr \<Rightarrow> int \<Rightarrow> stage \<Rightarrow> addr \<Rightarrow> server \<Rightarrow> bool" where
  "server_at a t v n g x s \<longleftrightarrow> sv_session s = (if g = Fresh then None else Some x) \<and>
     srv a t v n x g (pend_of (sv_node s) (sv_queue s)) (msgs_of (sv_queue s) \<noteq> []) (sv_node s \<noteq> None) (holds s) (sv_comm s) \<and>
     length (msgs_of (sv_queue s)) \<le> 1 \<and>
     (\<forall>q \<in> set (sv_queue s). r_entry (snd q) = a \<and> (is_final q \<or> q = (PD_OP_READ, snd q) \<and> r_state (snd q) = PR_ST_SUCCESS)) \<and>
     (\<forall>d \<in> set (sv_done s). td_entry (snd d) \<longrightarrow> fst d = a) \<and> (g = Over \<longrightarrow> sv_over s) \<and> (sv_over s \<longrightarrow> g = Over \<or> g = Destroyed)"

lemma srv_short: "srv a t v n x g p m live hs c \<Longrightarrow> length p \<le> 1"
  by (cases g) (auto simp: srv_def conn_ok_def entry_core_def split: option.splits)

lemma server_pend: "server_at a t v n g x s \<Longrightarrow> length (pend_of (sv_node s) (sv_queue s)) \<le> 1"
  using srv_short by (auto simp: server_at_def)

lemma place_dead: "place g p m live st \<Longrightarrow> place g p m False st"
  by (cases g) auto

lemma srv_dead: "srv a t v n x g p m live hs c \<Longrightarrow> srv a t v n x g p m False hs c"
  by (auto simp: srv_def conn_ok_def entry_core_def place_dead split: option.splits)

lemma place_done: "place g [] m live st \<Longrightarrow> place g [] m live' st"
  by (cases g) auto

text \<open>What a step shows: the session stays in its stage or goes to a next one.\<close>

definition moves :: "stage \<Rightarrow> stage \<Rightarrow> bool" where
  "moves g g' \<longleftrightarrow> g' = g \<or> g' \<in> set (stage_next g)"

lemma moves_refl [simp]: "moves g g"
  by (simp add: moves_def)

lemma section_moves: "section_move g g' \<Longrightarrow> moves g g'"
  by (auto simp: section_move_def moves_def)

lemma final_server:
  assumes "server_at a t v n g x s" "sv_node s = Some op" "is_end st"
  shows "server_at a t v n g x (s\<lparr>sv_node := None, sv_queue := sv_queue s @ [(op, \<lparr>r_state = st, r_error = err, r_entry = a\<rparr>)]\<rparr>)"
proof -
  have "pend_of (Some op) (sv_queue s) = [op] \<and> filter is_final (sv_queue s) = []" using node_pend_of server_pend [OF assms(1)] assms(2) by simp
  then show ?thesis using assms srv_dead
    by (auto simp: server_at_def pend_of_def msgs_of_def is_final_def regs_def holds_def)
qed

lemma server_take:
  assumes "server_at a t v n g x s" "sv_queue s = qs @ q # rs" "section_move g g'"
    "srv a t v n x g' (pend_of (sv_node s) (qs @ rs)) (msgs_of (qs @ rs) \<noteq> []) (sv_node s \<noteq> None) (holds s @ hold td) c"
  shows "server_at a t v n g' x (s\<lparr>sv_comm := c, sv_queue := qs @ rs, sv_done := sv_done s @ [(r_entry (snd q), td)]\<rparr>)"
proof -
  have "length (msgs_of (qs @ rs)) \<le> length (msgs_of (qs @ q # rs))" by (simp add: msgs_of_def)
  then have "length (msgs_of (qs @ rs)) \<le> 1" using assms(1,2) by (simp add: server_at_def)
  moreover have "holds (s\<lparr>sv_comm := c, sv_queue := qs @ rs, sv_done := sv_done s @ [(r_entry (snd q), td)]\<rparr>) = holds s @ hold td"
    by (simp add: holds_def hold_def)
  ultimately show ?thesis using assms by (auto simp: server_at_def section_move_def)
qed

lemma read_section_server:
  assumes "idle_ops ladd ldel" "server_at a t v n g x s" "sv_queue s = qs @ (PD_OP_READ, r) # rs"
  shows "\<exists>td c g'. request_section ladd ldel r (sv_comm s) = Some (td, c) \<and> moves g g' \<and>
    server_at a t v n g' x (s\<lparr>sv_comm := c, sv_queue := qs @ rs, sv_done := sv_done s @ [(r_entry r, td)]\<rparr>)"
proof -
  have e: "r_entry r = a" using assms(2,3) by (simp add: server_at_def)
  have "\<exists>td c g'. request_section ladd ldel r (sv_comm s) = Some (td, c) \<and> section_move g g' \<and>
    srv a t v n x g' (pend_of (sv_node s) (qs @ rs)) (msgs_of (qs @ rs) \<noteq> []) (sv_node s \<noteq> None) (holds s @ hold td) c"
  proof (cases "is_final (PD_OP_READ, r)")
    case True
    note q = take_final_of [OF server_pend [OF assms(2), unfolded assms(3)] True]
    have "srv a t v n x g [PD_OP_READ] (msgs_of (sv_queue s) \<noteq> []) False (holds s) (sv_comm s)"
      using assms(2,3) q(1,2) by (simp add: server_at_def)
    from section_final_srv [OF assms(1) this _ e, of False] True show ?thesis
      using q(2-4) assms(3) by (auto simp: is_final_def pend_of_def regs_def)
  next
    case False
    have "length (msgs_of (qs @ (PD_OP_READ, r) # rs)) \<le> 1" using assms(2,3) by (simp add: server_at_def)
    note q = take_message_of [OF this False]
    have "r_state r = PR_ST_SUCCESS" "srv a t v n x g (pend_of (sv_node s) (sv_queue s)) True (sv_node s \<noteq> None) (holds s) (sv_comm s)"
      using assms(2,3) False q(1) by (auto simp: server_at_def)
    from section_success_srv [OF assms(1) this(2,1) e] show ?thesis
      using q(2,3) assms(3) by (auto simp: pend_of_def section_move_def)
  qed
  then obtain td c g' where s: "request_section ladd ldel r (sv_comm s) = Some (td, c)" "section_move g g'"
    "srv a t v n x g' (pend_of (sv_node s) (qs @ rs)) (msgs_of (qs @ rs) \<noteq> []) (sv_node s \<noteq> None) (holds s @ hold td) c" by blast
  with server_take [OF assms(2,3) s(2,3)] section_moves [OF s(2)] show ?thesis by auto
qed

lemma write_section_server:
  assumes "server_at a t v n g x s" "sv_queue s = qs @ (PD_OP_WRITE, r) # rs" "u_keep_alive u = 0"
  shows "\<exists>td c g'. write_section pret perr u r (sv_comm s) = Some (td, c) \<and> moves g g' \<and>
    server_at a t v n g' x (s\<lparr>sv_comm := c, sv_queue := qs @ rs, sv_done := sv_done s @ [(r_entry r, td)]\<rparr>)"
proof -
  have e: "r_entry r = a" and f: "is_final (PD_OP_WRITE, r)" using assms(1,2) by (auto simp: server_at_def op_defs)
  note q = take_final_of [OF server_pend [OF assms(1), unfolded assms(2)] f]
  have "srv a t v n x g [PD_OP_WRITE] (msgs_of (sv_queue s) \<noteq> []) False (holds s) (sv_comm s)"
    using assms(1,2) q(1,2) by (simp add: server_at_def)
  from write_section_srv [OF this assms(3) _ e, of pret perr False] f obtain td c where
    w: "write_section pret perr u r (sv_comm s) = Some (td, c)" "g = Replying"
      "srv a t v n x Answered [] (msgs_of (sv_queue s) \<noteq> []) False (holds s @ hold td) c" by (auto simp: is_final_def)
  have m: "section_move g Answered" using w(2) by (simp add: section_move_def)
  have "server_at a t v n Answered x (s\<lparr>sv_comm := c, sv_queue := qs @ rs, sv_done := sv_done s @ [(r_entry (snd (PD_OP_WRITE, r)), td)]\<rparr>)"
    by (rule server_take [OF assms(1,2) m]) (use w(3) q(2-4) assms(2) in \<open>simp add: pend_of_def regs_def\<close>)
  with w(1) section_moves [OF m] show ?thesis by auto
qed

lemma server_comm:
  assumes "server_at a t v n g x s" "g' = g \<and> g \<noteq> Fresh \<or> g' = Fresh \<and> g = Fresh \<or> g' = Destroyed \<and> g \<noteq> Fresh"
    "srv a t v n x g' (pend_of (sv_node s) (sv_queue s)) (msgs_of (sv_queue s) \<noteq> []) (sv_node s \<noteq> None) (holds s) c"
  shows "server_at a t v n g' x (s\<lparr>sv_comm := c\<rparr>)"
  using assms by (auto simp: server_at_def holds_def)

lemma node_srv:
  assumes "server_at a t v n g x s" "sv_node s = Some op"
  shows "srv a t v n x g [op] (msgs_of (sv_queue s) \<noteq> []) True (holds s) (sv_comm s)" "pend_of (sv_node s) (sv_queue s) = [op]"
    "filter is_final (sv_queue s) = []"
proof -
  show p: "pend_of (sv_node s) (sv_queue s) = [op]" and "filter is_final (sv_queue s) = []"
    using node_pend_of [of op "sv_queue s"] server_pend [OF assms(1)] assms(2) by auto
  show "srv a t v n x g [op] (msgs_of (sv_queue s) \<noteq> []) True (holds s) (sv_comm s)" using assms p by (simp add: server_at_def)
qed

lemma opened_server:
  assumes "server_at a t v n g x0 s" "sv_node s = Some PD_OP_READ" "conns (sv_comm s) a = Some e" "e_state e = CONN_STATE_CONNECTED" "x \<noteq> NULL"
    "create_request ldel (Some (x, y)) now u a (sv_comm s) = Some (m, c)"
  shows "server_at a t v n Receiving x (s\<lparr>sv_comm := c, sv_session := Some x\<rparr>)" "g = Fresh"
proof -
  from opened_srv [OF node_srv(1) [OF assms(1,2)] assms(3-5), of ldel y now u] assms(6)
  show g: "g = Fresh" and "server_at a t v n Receiving x (s\<lparr>sv_comm := c, sv_session := Some x\<rparr>)"
    using assms(1,2) node_srv(2) [OF assms(1,2)] by (auto simp: server_at_def holds_def)
qed

lemma message_server:
  assumes "server_at a t v n g x s" "sv_node s = Some PD_OP_READ" "conns (sv_comm s) a = Some e" "e_state e = CONN_STATE_RECEIVING"
    "csessions (sv_comm s) (e_session e) = Some y" "s_in y \<noteq> NULL" "append_message ret now u a (sv_comm s) = Some (r, c)"
  shows "g = Receiving" "ret \<le> 0 \<Longrightarrow> server_at a t v n Receiving x (s\<lparr>sv_comm := c\<rparr>)"
    "ret > 0 \<Longrightarrow> server_at a t v n Complete x (s\<lparr>sv_comm := c, sv_queue := sv_queue s @ [(PD_OP_READ, \<lparr>r_state = PR_ST_SUCCESS, r_error = 0, r_entry = a\<rparr>)]\<rparr>)"
proof -
  note k = node_srv [OF assms(1,2)]
  from append_srv [OF k(1) assms(3-6), of ret now u] assms(7) have
    g: "g = Receiving" "msgs_of (sv_queue s) = []" "srv a t v n x (if ret > 0 then Complete else Receiving) [PD_OP_READ] (ret > 0) True (holds s) c" by auto
  then show "g = Receiving" "ret \<le> 0 \<Longrightarrow> server_at a t v n Receiving x (s\<lparr>sv_comm := c\<rparr>)"
    using assms(1,2) k(2) by (auto simp: server_at_def holds_def)
  show "server_at a t v n Complete x (s\<lparr>sv_comm := c, sv_queue := sv_queue s @ [(PD_OP_READ, \<lparr>r_state = PR_ST_SUCCESS, r_error = 0, r_entry = a\<rparr>)]\<rparr>)"
    if "ret > 0" using that g assms(1,2) k(2,3) by (auto simp: server_at_def holds_def pend_of_def msgs_of_def is_final_def regs_def)
qed

lemma call_server:
  assumes "server_at a t v n g x s" "sv_done s = ds @ (b, td) # es" "td_entry td" "td_session td \<noteq> NULL"
  shows "server_at a t v n g x (s\<lparr>sv_comm := session_handle (td_session td) (td_state td) (td_error td) (sv_comm s),
    sv_done := ds @ (b, td\<lparr>td_session := NULL\<rparr>) # es\<rparr>)"
proof -
  let ?h = "\<lambda>ds. map (\<lambda>(b, td). (td_session td, td_state td)) (filter (\<lambda>(b, td). td_entry td) ds)"
  have "holds s = ?h ds @ (td_session td, td_state td) # ?h es" using assms(2,3) by (simp add: holds_def)
  with assms(1) have "srv a t v n x g (pend_of (sv_node s) (sv_queue s)) (msgs_of (sv_queue s) \<noteq> []) (sv_node s \<noteq> None)
      (?h ds @ (td_session td, td_state td) # ?h es) (sv_comm s)" by (simp add: server_at_def)
  from call_srv [OF this assms(4), of "td_error td"] assms(1-3) show ?thesis by (simp add: server_at_def holds_def)
qed

lemma finish_server:
  assumes "server_at a t v n g x s" "sv_done s = ds @ (b, td) # es" "\<not> (td_entry td \<and> td_session td \<noteq> NULL)"
  shows "\<exists>c. request_finish b td (sv_comm s) = Some c \<and> server_at a t v n g x (s\<lparr>sv_comm := c, sv_done := ds @ es\<rparr>)"
proof (cases "td_entry td")
  case False
  then show ?thesis using assms(1,2) by (auto simp: request_finish_def server_at_def holds_def)
next
  case True
  let ?h = "\<lambda>ds. map (\<lambda>(b, td). (td_session td, td_state td)) (filter (\<lambda>(b, td). td_entry td) ds)"
  have n: "td_session td = NULL" "b = a" using True assms by (auto simp: server_at_def)
  have "holds s = ?h ds @ (NULL, td_state td) # ?h es" using assms(2) True n by (simp add: holds_def)
  with assms(1) have "srv a t v n x g (pend_of (sv_node s) (sv_queue s)) (msgs_of (sv_queue s) \<noteq> []) (sv_node s \<noteq> None)
      (?h ds @ (NULL, td_state td) # ?h es) (sv_comm s)" by (simp add: server_at_def)
  from finish_srv [OF this True n(1)] obtain c where "request_finish a td (sv_comm s) = Some c"
      "srv a t v n x g (pend_of (sv_node s) (sv_queue s)) (msgs_of (sv_queue s) \<noteq> []) (sv_node s \<noteq> None) (?h ds @ ?h es) c" by blast
  then show ?thesis using assms(1,2) n(2) by (auto simp: server_at_def holds_def)
qed

text \<open>The user's operations.\<close>

lemma own_srv:
  assumes "server_at a t v n g x0 s" "sv_session s = Some x"
  shows "x = x0" "g \<noteq> Fresh"
    "srv a t v n x g (pend_of (sv_node s) (sv_queue s)) (msgs_of (sv_queue s) \<noteq> []) (sv_node s \<noteq> None) (holds s) (sv_comm s)"
  using assms by (auto simp: server_at_def split: if_splits)

lemma reply_server:
  assumes "idle_ops ladd ldel" "server_at a t v n g x s" "sv_session s = Some x" "csessions (sv_comm s) x = Some y" "s_passive y = 2"
    "(x, CS_STATE_TOREPLY) \<in> set (calls_of (sv_comm s))" "u_keep_alive u = 0" "answers_ok ans s"
    "reply_send ldel ans oerr now u x (sv_comm s) = Some (ret, c)" "csessions c x = Some y'"
  shows "\<exists>g'. g = Announced \<and> g' \<in> {Answered, Replying, Over} \<and>
    server_at a t v n g' x (s\<lparr>sv_comm := c, sv_node := registered (sv_comm s) c (sv_node s),
      sv_done := sv_done s @ (if ret = 0 then [(msg_entry c (s_in y'), \<lparr>td_entry = True, td_session = x, td_state = CS_STATE_SUCCESS, td_error = 0\<rparr>)] else []),
      sv_over := ret < 0\<rparr>)"
proof -
  let ?p = "pend_of (sv_node s) (sv_queue s)" let ?n = "registered (sv_comm s) c (sv_node s)"
  note o = own_srv [OF assms(2,3)]
  have a: "if sv_node s \<noteq> None then sa_poll ans \<ge> 0 \<or> sa_poll_errno ans \<noteq> errno_code ENOENT else sa_poll ans < 0"
    using assms(8) unfolding answers_ok_def by (cases "sv_node s") simp_all
  note r = reply_srv(1,2) [OF assms(1) o(3,2) assms(4-7) a assms(9)] reply_srv(3) [OF assms(1) o(3,2) assms(4-7) a assms(9), of "sv_node s"]
  have q: "\<forall>q \<in> set (sv_queue s). r_entry (snd q) = a \<and> (is_final q \<or> q = (PD_OP_READ, snd q) \<and> r_state (snd q) = PR_ST_SUCCESS)"
    "\<forall>d \<in> set (sv_done s). td_entry (snd d) \<longrightarrow> fst d = a" "msgs_of (sv_queue s) = []"
    using assms(2) r(2) by (simp_all add: server_at_def)
  from r(3) consider (sent) "ret = 0" "?n = sv_node s" "srv a t v n x Answered ?p False (sv_node s \<noteq> None) (holds s @ [(x, CS_STATE_SUCCESS)]) c" "s_in y' \<noteq> NULL"
    | (failing) "ret = 1" "?n = sv_node s" "srv a t v n x Replying ?p False (sv_node s \<noteq> None) (holds s) c"
    | (async) op where "ret = 1" "sv_node s = Some op" "?n = Some PD_OP_WRITE" "srv a t v n x Replying [PD_OP_WRITE] False (sv_node s \<noteq> None) (holds s) c"
    | (refused) "ret < 0" "?n = sv_node s" "srv a t v n x Over ?p False (sv_node s \<noteq> None) (holds s) c"
    using assms(10) by (auto simp: replied_def)
  then show ?thesis
  proof cases
    case sent
    have "msg_entry c (s_in y') = a" using sent(4) srv_sessionD(3) [OF sent(3) _ assms(10)] by (simp add: no_session_def)
    then show ?thesis using sent q assms(3) r(1) o(1)
      by (intro exI [of _ Answered]) (auto simp: server_at_def holds_def)
  next
    case failing
    then show ?thesis using q assms(3) r(1) by (intro exI [of _ Replying]) (auto simp: server_at_def holds_def)
  next
    case async
    have "filter is_final (sv_queue s) = []" using node_srv(3) [OF assms(2) async(2)] .
    then show ?thesis using async q assms(3) r(1) by (intro exI [of _ Replying]) (auto simp: server_at_def holds_def pend_of_def regs_def)
  next
    case refused
    then show ?thesis using q assms(3) r(1) by (intro exI [of _ Over]) (auto simp: server_at_def holds_def)
  qed
qed

lemma shutdown_server:
  assumes "server_at a t v n g x s" "sv_session s = Some x" "csessions (sv_comm s) x = Some y" "s_passive y = 2"
    "(x, CS_STATE_TOREPLY) \<in> set (calls_of (sv_comm s))"
  shows "\<exists>ret c. shutdown x (sv_comm s) = Some (ret, c) \<and> g = Announced \<and> server_at a t v n Over x (s\<lparr>sv_comm := c, sv_over := True\<rparr>)"
proof -
  note o = own_srv [OF assms(1,2)]
  from shutdown_srv [OF o(3,2) assms(3-5)] obtain ret c where
    r: "shutdown x (sv_comm s) = Some (ret, c)" "g = Announced" "msgs_of (sv_queue s) = []"
      "srv a t v n x Over (pend_of (sv_node s) (sv_queue s)) False (sv_node s \<noteq> None) (holds s) c" by auto
  then show ?thesis using assms(1,2) by (auto simp: server_at_def holds_def)
qed

lemma destroy_server:
  assumes "server_at a t v n g x s" "sv_session s = Some x" "csessions (sv_comm s) x = Some y" "may_destroy x y s"
  shows "\<exists>c. session_destroy x (sv_comm s) = Some c \<and> g \<in> {Over, Announced, Answered} \<and>
    server_at a t v n Destroyed x (s\<lparr>sv_comm := c\<lparr>csessions := (csessions c)(x := None)\<rparr>\<rparr>)"
proof -
  note o = own_srv [OF assms(1,2)]
  have "g \<noteq> Destroyed" using o(3) assms(3) by (auto simp: srv_def session_ok_def)
  then have "g = Over \<or> s_passive y = 2 \<and> (x, CS_STATE_TOREPLY) \<in> set (calls_of (sv_comm s)) \<or>
      (\<exists>h \<in> set (calls_of (sv_comm s)). fst h = x \<and> snd h \<noteq> CS_STATE_TOREPLY)"
    using assms(1,4) by (auto simp: may_destroy_def server_at_def)
  from destroy_srv [OF o(3,2) assms(3) this] obtain c where
    r: "session_destroy x (sv_comm s) = Some c" "g \<in> {Over, Announced, Answered}" "msgs_of (sv_queue s) = []"
      "srv a t v n x Destroyed (pend_of (sv_node s) (sv_queue s)) False (sv_node s \<noteq> None) (holds s) (c\<lparr>csessions := (csessions c)(x := None)\<rparr>)" by auto
  then show ?thesis using assms(1,2) by (auto simp: server_at_def holds_def)
qed

subsection \<open>Every step\<close>

lemma server_step_at:
  assumes "idle_ops ladd ldel" "server_step ladd ldel a s s'" "server_at a t v n g x s"
  shows "\<exists>g' x'. moves g g' \<and> server_at a t v n g' x' s'"
  using assms(2)
proof cases
  case (final op st err)
  then show ?thesis using final_server [OF assms(3)] moves_refl by blast
next
  case (opened e x' y now u m c)
  from opened_server [OF assms(3) opened(2-5,7)] opened(1) show ?thesis by (auto simp: moves_def)
next
  case (not_opened e new now u m c)
  from not_opened_srv [OF node_srv(1) [OF assms(3) not_opened(2)] not_opened(3,4), of ldel now u] not_opened(5) node_srv(2) [OF assms(3) not_opened(2)]
  have "srv a t v n x g (pend_of (sv_node s) (sv_queue s)) (msgs_of (sv_queue s) \<noteq> []) (sv_node s \<noteq> None) (holds s) c" using not_opened(2) by simp
  with server_comm [OF assms(3) _ this] not_opened(1) show ?thesis using moves_refl by blast
next
  case (part e y ret now u r c)
  from message_server(1,2) [OF assms(3) part(2-6,8)] part(1,7) show ?thesis using moves_refl by blast
next
  case (message e y ret now u r c)
  from message_server(1,3) [OF assms(3) message(2-6,8)] message(1,7) show ?thesis by (auto simp: moves_def)
next
  case (written now r c)
  from written_srv [OF node_srv(1) [OF assms(3) written(2)], of now] written(3) node_srv(2) [OF assms(3) written(2)]
  have "srv a t v n x g (pend_of (sv_node s) (sv_queue s)) (msgs_of (sv_queue s) \<noteq> []) (sv_node s \<noteq> None) (holds s) c" using written(2) by simp
  with server_comm [OF assms(3) _ this] written(1) show ?thesis using moves_refl by blast
next
  case (read_section qs r rs td c)
  from read_section_server [OF assms(1,3) read_section(2)] read_section(1,3) show ?thesis by auto
next
  case (write_section qs r rs u pret perr td c)
  from write_section_server [OF assms(3) write_section(2,3), of pret perr] write_section(1,4) show ?thesis by auto
next
  case (call ds b td es)
  from call_server [OF assms(3) call(2-4)] call(1) show ?thesis using moves_refl by blast
next
  case (finish ds b td es c)
  from finish_server [OF assms(3) finish(2,3)] finish(1,4) have "server_at a t v n g x s'" by auto
  then show ?thesis using moves_refl by blast
next
  case (reply x' y u ans oerr now ret c y')
  have "x' = x" using own_srv [OF assms(3) reply(2)] by simp
  from reply_server [OF assms(1,3) reply(2-9) [unfolded this]] obtain g' where
    g': "g = Announced" "g' \<in> {Answered, Replying, Over}" "server_at a t v n g' x s'" unfolding reply(1) \<open>x' = x\<close> by blast
  have "moves g g'" using g'(1,2) by (auto simp: moves_def)
  with g'(3) show ?thesis by blast
next
  case (shutdown x' y ret c)
  have "x' = x" using own_srv [OF assms(3) shutdown(2)] by simp
  from shutdown_server [OF assms(3) shutdown(2-5) [unfolded this]] shutdown(1,6) \<open>x' = x\<close> show ?thesis by (auto simp: moves_def)
next
  case (destroy x' y c)
  have "x' = x" using own_srv [OF assms(3) destroy(2)] by simp
  from destroy_server [OF assms(3) destroy(2-4) [unfolded this]] destroy(1,5) \<open>x' = x\<close> have
    "g \<in> {Over, Announced, Answered}" "server_at a t v n Destroyed x s'" by auto
  moreover from this(1) have "moves g Destroyed" by (auto simp: moves_def)
  ultimately show ?thesis by blast
qed

text \<open>The start.\<close>

lemma accept_op:
  assumes "accept t malloced sockfd v c0 = Some (t, c1)" "t \<noteq> NULL" "cservices c0 v = Some z"
  shows "\<exists>w. ctargets c1 = (ctargets c0)(t \<mapsto> w) \<and> t_ref w = 1 \<and> t_service w = v \<and> t_sockfd w = sockfd \<and>
    cservices c1 = (cservices c0)(v \<mapsto> z\<lparr>v_ref := v_ref z + 1\<rparr>) \<and> list_at (cmem c1) t [] \<and> conns c1 = conns c0 \<and> csessions c1 = csessions c0 \<and>
    handles c1 = handles c0 \<and> closed c1 = closed c0 \<and> pcalls c1 = pcalls c0"
proof -
  have m: "malloced" using assms by (cases malloced) (simp_all add: accept_def commtarget_init_def Let_def)
  obtain h where h: "list_init t ((cmem c0)((t, nextf) \<mapsto> NULL, (t, prevf) \<mapsto> NULL)) = Some h" "list_at h t []"
    using list_init_correct [of t "(cmem c0)((t, nextf) \<mapsto> NULL, (t, prevf) \<mapsto> NULL)"] assms(2) by (auto simp: free_node_def)
  show ?thesis using assms m h
    by (auto simp: accept_def commtarget_init_def upd_ctarget_def set_cmem_def service_incref_def upd_cservice_def alloc_links_def Let_def)
qed

lemma start_server:
  assumes "accept t malloced sockfd v c0 = Some (t, c1)" "handle_listen_result nb a conn pret perr PR_ST_SUCCESS err t v c1 = Some c2"
    "conns c2 a \<noteq> None" "t \<noteq> NULL" "conns c0 a = None" "a \<noteq> t" "cservices c0 v = Some z" "v_reliable z" "v_ref z = n" "v \<noteq> NULL"
    "handles c0 = []" "closed c0 = []"
  shows "server_at a t v n Fresh x \<lparr>sv_comm = c2, sv_node = registered c1 c2 None, sv_queue = [], sv_done = [], sv_session = None, sv_over = False\<rparr>"
proof -
  obtain w where c1: "ctargets c1 t = Some w" "t_ref w = 1" "t_service w = v" "cservices c1 v = Some (z\<lparr>v_ref := n + 1\<rparr>)"
    "list_at (cmem c1) t []" "conns c1 = conns c0" "handles c1 = []" "closed c1 = []"
    using accept_op [OF assms(1,4,7)] assms(9,11,12) by auto
  have l: "list_at ((cmem c1)((a, nextf) \<mapsto> NULL, (a, prevf) \<mapsto> NULL)) t []"
    using list_at_cong [of t "[]" "(cmem c1)((a, nextf) \<mapsto> NULL, (a, prevf) \<mapsto> NULL)" "cmem c1"] c1(5) assms(6) by auto
  have ok: "nb \<ge> 0 \<and> a \<noteq> NULL \<and> conn \<noteq> NULL \<and> pret \<ge> 0"
    using assms(2,3,5) c1 
    by (auto simp: handle_listen_result_def accept_conn_def starget_decref_def upd_ctarget_def service_decref_def upd_cservice_def release_conn_def
        poll_def alloc_links_def free_links_def Let_def split: if_splits)
  define e where "e = \<lparr>e_conn = conn, e_seq = 0, e_sockfd = t_sockfd w, e_state = CONN_STATE_CONNECTED, e_error = 0, e_ref = 1, e_iov = [],
    e_session = NULL, e_target = t, e_service = v\<rparr>"
  define ks where "ks = Padd PD_OP_READ (t_sockfd w) (t_response w) pret # (if stop_flag c1 then [Pdel (t_sockfd w)] else [])"
  have "c2 = c1\<lparr>conns := (conns c1)(a \<mapsto> e), cmem := (cmem c1)((a, nextf) \<mapsto> NULL, (a, prevf) \<mapsto> NULL), pcalls := pcalls c1 @ ks\<rparr>"
    using assms(2) c1(1) ok by (auto simp: handle_listen_result_def accept_conn_def alloc_links_def poll_def Let_def e_def ks_def)
  then show ?thesis
    using c1 l ok assms(6,8,10) 
    by (simp add: server_at_def srv_defs registered_def ks_def pend_of_def regs_def msgs_of_def holds_def calls_of_def idle_part_def e_def free_node_def)
qed

lemma server_run_at: "server_run ladd ldel a t v n s \<Longrightarrow> idle_ops ladd ldel \<Longrightarrow> \<exists>g x. server_at a t v n g x s"
proof (induction rule: server_run.induct)
  case start
  then show ?case using start_server by blast
next
  case step
  then show ?case using server_step_at by blast
qed

text \<open>The stage of the session can be read off the state.\<close>

lemma stage_of_at:
  assumes "server_at a t v n g x s"
  shows "stage_of s = g"
proof (cases "no_session g")
  case True
  then show ?thesis using assms by (auto simp: stage_of_def no_session_def server_at_def srv_def session_ok_def)
next
  case False
  have i: "srv a t v n x g (pend_of (sv_node s) (sv_queue s)) (msgs_of (sv_queue s) \<noteq> []) (sv_node s \<noteq> None) (holds s) (sv_comm s)"
    and own: "sv_session s = Some x" and over: "sv_over s \<longleftrightarrow> g = Over" 
    using assms False by (auto simp: server_at_def no_session_def)
  obtain y where y: "csessions (sv_comm s) x = Some y" "passive_ok g (s_passive y)" using srv_sessionE [OF i False] by metis
  have k: "talk g x (calls_of (sv_comm s)) (to_call (holds s))" using i by (simp add: srv_def)
  have m: "msgs_of (sv_queue s) \<noteq> [] \<longleftrightarrow> g = Complete" using i by (cases g) (auto simp: srv_def conn_ok_def entry_core_def split: option.splits)
  define L where "L = calls_of (sv_comm s) @ to_call (holds s)"
  have "if g = Answered then finals x L else L = [] \<or> L = [(x, CS_STATE_TOREPLY)]"
    using k False unfolding L_def by (cases g) (simp_all add: no_session_def)
  then have "(\<exists>h \<in> set L. snd h \<noteq> CS_STATE_TOREPLY) \<longleftrightarrow> g = Answered" by (auto simp: finals_def split: if_splits)
  note f = this [unfolded L_def]
  show ?thesis
    using y own over False m unfolding stage_of_def f by (cases g) (auto simp: sv_messages_def msgs_of_def no_session_def)
qed

lemma own_at:
  assumes "idle_ops ladd ldel" "server_run ladd ldel a t v n s" "sv_session s = Some x"
  shows "server_at a t v n (stage_of s) x s"
proof -
  obtain g x0 where i: "server_at a t v n g x0 s" using server_run_at [OF assms(2,1)] by blast
  show ?thesis using i own_srv(1) [OF i assms(3)] stage_of_at [OF i] by simp
qed

subsection \<open>What the runs show\<close>

lemma server_at_entry:
  assumes "server_at a t v n g x s"
  shows "case conns (sv_comm s) a of
      Some e \<Rightarrow> e_ref e > 0 \<and> closed (sv_comm s) = [] \<and> (sv_node s \<noteq> None \<or> sv_queue s \<noteq> [] \<or> (\<exists>d \<in> set (sv_done s). td_entry (snd d)))
    | None \<Rightarrow> length (closed (sv_comm s)) = 1 \<and> sv_node s = None \<and> sv_queue s = [] \<and> (\<forall>d \<in> set (sv_done s). \<not> td_entry (snd d))"
proof -
  have i: "conn_ok a t v x g (pend_of (sv_node s) (sv_queue s)) (msgs_of (sv_queue s) \<noteq> []) (sv_node s \<noteq> None) (holds s) (sv_comm s)"
    using assms by (simp add: server_at_def srv_def)
  have h: "holds s = [] \<longleftrightarrow> (\<forall>d \<in> set (sv_done s). \<not> td_entry (snd d))" by (auto simp: holds_def filter_empty_conv)
  show ?thesis
  proof (cases "conns (sv_comm s) a")
    case None
    with i queue_empty_iff [of "sv_node s" "sv_queue s"] h show ?thesis by (simp add: conn_ok_def)
  next
    case (Some e)
    then have "e_ref e > 0" "closed (sv_comm s) = []" and
      "e_ref e = int (length (holds s)) + (if pend_of (sv_node s) (sv_queue s) \<noteq> [] \<or> msgs_of (sv_queue s) \<noteq> [] then 1 else 0)"
      using i by (auto simp: conn_ok_def entry_core_def)
    then have "holds s \<noteq> [] \<or> \<not> (pend_of (sv_node s) (sv_queue s) = [] \<and> msgs_of (sv_queue s) = [])" by (auto split: if_splits)
    then show ?thesis using Some \<open>e_ref e > 0\<close> \<open>closed (sv_comm s) = []\<close> queue_empty_iff [of "sv_node s" "sv_queue s"] h by auto
  qed
qed



lemma server_at_calls:
  assumes "server_at a t v n g x s"
  shows "talk g x (calls_of (sv_comm s)) (to_call (holds s))" "g \<noteq> Fresh \<Longrightarrow> sv_session s = Some x"
  using assms by (simp_all add: server_at_def srv_def)

lemma talk_calls:
  assumes "talk g x told later"
  shows "\<exists>st. st \<noteq> CS_STATE_TOREPLY \<and> told \<in> {[], [(x, CS_STATE_TOREPLY)], [(x, st)], [(x, CS_STATE_TOREPLY), (x, st)]}"
proof -
  have "CS_STATE_SUCCESS \<noteq> CS_STATE_TOREPLY" by (simp add: CS_STATE_SUCCESS_def CS_STATE_TOREPLY_def)
  then show ?thesis using assms by (cases g) (auto simp: finals_def append_eq_Cons_conv)
qed

lemma server_at_gone:
  assumes "server_at a t v n g x s" "conns (sv_comm s) a = None" "sv_session s = Some x" "csessions (sv_comm s) x = Some y"
  shows "may_destroy x y s"
proof -
  note o = own_srv [OF assms(1,3)] and k = server_at_calls(1) [OF assms(1)]
  have c: "place g [] False (sv_node s \<noteq> None) CONN_STATE_CLOSING" "holds s = []" using o(3) assms(2) by (auto simp: srv_def conn_ok_def)
  have "\<not> no_session g" using o(2,3) assms(4) by (auto simp: srv_def session_ok_def no_session_def)
  moreover from srv_sessionD(2) [OF o(3) this assms(4)] have "passive_ok g (s_passive y)" .
  moreover have "g = Over \<longrightarrow> sv_over s" using assms(1) by (simp add: server_at_def)
  ultimately show ?thesis using c k by (cases g) (auto simp: no_session_def may_destroy_def finals_def)
qed


lemma reply_defined:
  assumes "idle_ops ladd ldel" "srv a t v n x g p m live hs c" "g \<noteq> Fresh" "csessions c x = Some y" "s_passive y = 2"
    "(x, CS_STATE_TOREPLY) \<in> set (calls_of c)" "u_keep_alive u = 0" "\<exists>err. Inl err \<in> set (sa_writes ans)"
  shows "reply_send ldel ans oerr now u x c \<noteq> None"
proof -
  note g = announced_srv [OF assms(2-6)]
  note i = assms(2) [unfolded g(1)]
  have n: "\<not> no_session Announced" by (simp add: no_session_def)
  note t = srv_sessionD(1) [OF i n assms(4)]
  let ?c = "c\<lparr>csessions := (csessions c)(x \<mapsto> y\<lparr>s_passive := 3\<rparr>)\<rparr>"
  have b: "a \<noteq> NULL" "v \<noteq> NULL" using i by (simp_all add: srv_def base_ok_def)
  from i show ?thesis
  proof (cases rule: announced_place)
    case (1 w z)
    then show ?thesis using assms(4) t idle_pop_empty [of ?c t ldel]
      by (simp add: reply_send_def upd_csession_def reply_reliable_def target_core_def)
  next
    case (2 w z e)
    from idle_pop_one [OF assms(1), of ?c t a] 2(7) obtain h where h: "idle_pop ldel t ?c = Some (a, ?c\<lparr>cmem := h\<rparr>)" by auto
    note s = srv_session_of [OF i 2(8) n]
    have k: "session_of a t e (?c\<lparr>cmem := h\<rparr>)" using s assms(4) t by (auto simp: session_of_def)
    have v: "e_service e = v" using 2(9) by (simp add: entry_core_def)
    have "sent_all now u a e c1 \<noteq> None" if "conn_op a t e (?c\<lparr>cmem := h\<rparr>) e c1 []" for c1
    proof -
      have "cservices c1 v = Some z" using that 2(4) by (simp add: conn_op_def)
      from sent_reply_op [OF conn_op_session [OF that k] v this b(2) assms(7), of now] show ?thesis by auto
    qed
    from send_idle_total [OF k s(2) 2(10) assms(8) this] show ?thesis
      using assms(4) t h b(1) 2(1,2,4,5) by (simp add: reply_send_def upd_csession_def reply_reliable_def target_core_def)
  qed
qed

lemma server_queue_defined:
  assumes "idle_ops ladd ldel" "server_at a t v n g x s" "(op, r) \<in> set (sv_queue s)"
  shows "if op = PD_OP_READ then request_section ladd ldel r (sv_comm s) \<noteq> None
    else op = PD_OP_WRITE \<and> (u_keep_alive u = 0 \<longrightarrow> write_section pret perr u r (sv_comm s) \<noteq> None)"
proof -
  from assms(3) obtain qs rs where q: "sv_queue s = qs @ (op, r) # rs" by (meson split_list)
  show ?thesis
  proof (cases "op = PD_OP_READ")
    case True
    then show ?thesis using read_section_server [OF assms(1,2), of qs r rs] q by auto
  next
    case False
    then have f: "is_final (op, r)" using assms(2,3) by (auto simp: server_at_def)
    note p = take_final_of(1) [OF server_pend [OF assms(2), unfolded q] f]
    have "srv a t v n x g [op] (msgs_of (sv_queue s) \<noteq> []) (sv_node s \<noteq> None) (holds s) (sv_comm s)" using assms(2) p q by (simp add: server_at_def)
    then have "op = PD_OP_WRITE" using False by (cases g) (auto simp: srv_def conn_ok_def entry_core_def split: option.splits)
    then show ?thesis using write_section_server [OF assms(2), of qs r rs u pret perr] q False by auto
  qed
qed

lemma server_done_defined:
  assumes "server_at a t v n g x s" "(b, td) \<in> set (sv_done s)"
  shows "if td_entry td \<and> td_session td \<noteq> NULL then csessions (sv_comm s) (td_session td) \<noteq> None else request_finish b td (sv_comm s) \<noteq> None"
proof -
  from assms(2) obtain ds es where d: "sv_done s = ds @ (b, td) # es" by (meson split_list)
  have "csessions (sv_comm s) (td_session td) \<noteq> None" if "td_entry td" "td_session td \<noteq> NULL"
  proof -
    have "(td_session td, td_state td) \<in> set (to_call (holds s))" using that d by (simp add: holds_def to_call_def)
    then have "td_session td = x \<and> \<not> no_session g" using server_at_calls(1) [OF assms(1)]
      by (cases g) (auto simp: no_session_def finals_def append_eq_Cons_conv)
    moreover from this have "csessions (sv_comm s) x \<noteq> None"
      using assms(1) by (auto simp: server_at_def srv_def session_ok_def no_session_def)
    ultimately show ?thesis by simp
  qed
  then show ?thesis using finish_server [OF assms(1) d] by auto
qed


subsection \<open>An instance\<close>

definition sample_listen :: comm where
  "sample_listen = sample_comm\<lparr>conns := Map.empty, csessions := Map.empty, ctargets := Map.empty,
     cservices := [7 \<mapsto> \<lparr>v_listen_timeout = -1, v_response = 2000, v_reliable = True, v_listen_fd = 8, v_ref = 1\<rparr>]\<rparr>"

definition sample_target :: comm_target where
  "sample_target = \<lparr>t_connect = 0, t_response = 2000, t_service = 7, t_ref = 1, t_sockfd = 20\<rparr>"

definition sample_conn :: conn_entry where
  "sample_conn = \<lparr>e_conn = 80, e_seq = 0, e_sockfd = 20, e_state = CONN_STATE_CONNECTED, e_error = 0, e_ref = 1, e_iov = [],
     e_session = NULL, e_target = 1, e_service = 7\<rparr>"

lemma sample_server_start:
  obtains c where "server_run sample_list_add list_delete 5 1 7 1
      \<lparr>sv_comm = c, sv_node = Some PD_OP_READ, sv_queue = [], sv_done = [], sv_session = None, sv_over = False\<rparr>"
    "conns c 5 = Some sample_conn" "ctargets c 1 = Some sample_target" "csessions c = Map.empty" "handles c = []"
    "cservices c 7 = Some \<lparr>v_listen_timeout = -1, v_response = 2000, v_reliable = True, v_listen_fd = 8, v_ref = 2\<rparr>"
proof -
  obtain c1 where c1: "accept 1 True 20 7 sample_listen = Some (1, c1)" "conns c1 = Map.empty" "ctargets c1 1 = Some sample_target" "csessions c1 = Map.empty"
    "handles c1 = []" "cservices c1 7 = Some \<lparr>v_listen_timeout = -1, v_response = 2000, v_reliable = True, v_listen_fd = 8, v_ref = 2\<rparr>" "pcalls c1 = []"
    "stop_flag c1 = False"
    by (simp add: accept_def commtarget_init_def upd_ctarget_def set_cmem_def service_incref_def upd_cservice_def alloc_links_def Let_def
        list_init_def store_def sample_listen_def sample_comm_def sample_target_def)
  obtain c where c: "handle_listen_result 0 5 80 0 0 PR_ST_SUCCESS 0 1 7 c1 = Some c" "conns c 5 = Some sample_conn" "ctargets c = ctargets c1"
    "csessions c = csessions c1" "handles c = handles c1" "cservices c = cservices c1" "registered c1 c None = Some PD_OP_READ"
    using c1 by (simp add: handle_listen_result_def accept_conn_def alloc_links_def poll_def Let_def sample_conn_def sample_target_def registered_def)
  have "server_run sample_list_add list_delete 5 1 7 1
      \<lparr>sv_comm = c, sv_node = registered c1 c None, sv_queue = [], sv_done = [], sv_session = None, sv_over = False\<rparr>"
    by (rule server_run.start [OF c1(1) c(1), where z = "\<lparr>v_listen_timeout = -1, v_response = 2000, v_reliable = True, v_listen_fd = 8, v_ref = 1\<rparr>"]) (use c(2) in \<open>simp_all add: sample_listen_def sample_comm_def\<close>)
  then show ?thesis using that c c1 by simp
qed


text \<open>A request arrives.\<close>

lemma sample_server_opened:
  obtains s s' y where "server_run sample_list_add list_delete 5 1 7 1 s" "server_step sample_list_add list_delete 5 s s'"
    "stage_of s = Fresh" "stage_of s' = Receiving" "sv_node s' = Some PD_OP_READ" "sv_queue s' = []" "sv_done s' = []" "sv_session s' = Some 3"
    "csessions (sv_comm s') 3 = Some y" "s_in y = 91"
proof -
  obtain c where r: "server_run sample_list_add list_delete 5 1 7 1
      \<lparr>sv_comm = c, sv_node = Some PD_OP_READ, sv_queue = [], sv_done = [], sv_session = None, sv_over = False\<rparr>"
    and c: "conns c 5 = Some sample_conn" "ctargets c 1 = Some sample_target" "csessions c = Map.empty"
    by (rule sample_server_start)
  let ?s = "\<lparr>sv_comm = c, sv_node = Some PD_OP_READ, sv_queue = [], sv_done = [], sv_session = None, sv_over = False\<rparr>"
  from create_request_opened [OF c(1) _ _ c(2), of list_delete 3 sample_csession "Timespec 0 0" sample_user] obtain y c' where
    o: "create_request list_delete (Some (3, sample_csession)) (Timespec 0 0) sample_user 5 c = Some (91, c')"
      "csessions c' 3 = Some y" "s_in y = 91" by (auto simp: sample_conn_def sample_user_def)
  let ?s' = "?s\<lparr>sv_comm := c', sv_session := Some 3\<rparr>"
  have st: "server_step sample_list_add list_delete 5 ?s ?s'"
    by (rule server_step.opened [where e = sample_conn]) (use c o(1) in \<open>auto simp: sample_conn_def\<close>)
  obtain g x where g: "server_at 5 1 7 1 g x ?s" using server_run_at [OF r sample_idle_ops] by blast
  have "server_at 5 1 7 1 Receiving 3 ?s'"
    by (rule opened_server(1) [OF g, where e = sample_conn]) (use c o(1) in \<open>auto simp: sample_conn_def\<close>)
  from that [OF r st _ stage_of_at [OF this] _ _ _ _ _ o(3)] o(2) show ?thesis by (simp add: stage_of_def)
qed


text \<open>The request is complete and announced, and the user replies.\<close>

lemma sample_server_announced:
  obtains s where "server_run sample_list_add list_delete 5 1 7 1 s" "stage_of s = Announced" "sv_session s = Some 3"
    "(3, CS_STATE_TOREPLY) \<in> set (calls_of (sv_comm s))"
proof -
  obtain s0 s y where "server_run sample_list_add list_delete 5 1 7 1 s0" "server_step sample_list_add list_delete 5 s0 s" and
    s: "stage_of s = Receiving" "sv_node s = Some PD_OP_READ" "sv_queue s = []" "sv_done s = []" "sv_session s = Some 3"
    "csessions (sv_comm s) 3 = Some y" "s_in y = 91" by (rule sample_server_opened)
  then have r: "server_run sample_list_add list_delete 5 1 7 1 s" by (auto intro: server_run.step)
  have i: "server_at 5 1 7 1 Receiving 3 s" using own_at [OF sample_idle_ops r s(5)] s(1) by simp
  note k = node_srv(1) [OF i s(2)]
  from srv_entryE [OF k] obtain e where e: "conns (sv_comm s) 5 = Some e" "e_state e = CONN_STATE_RECEIVING" "e_session e = 3"
    by (auto simp: entry_core_def)
  from append_srv [OF k e(1,2)] e(3) s(6,7) obtain c where c: "append_message 1 (Timespec 0 0) sample_user 5 (sv_comm s) = Some (1, c)" by fastforce
  let ?r = "\<lparr>r_state = PR_ST_SUCCESS, r_error = 0, r_entry = 5\<rparr>"
  define s1 where "s1 = s\<lparr>sv_comm := c, sv_queue := sv_queue s @ [(PD_OP_READ, ?r)]\<rparr>"
  have r1: "server_run sample_list_add list_delete 5 1 7 1 s1"
    unfolding s1_def using server_run.step [OF r server_step.message [OF s(2) e(1,2) _ _ _ c]] e(3) s(6,7) by simp
  have i1: "server_at 5 1 7 1 Complete 3 s1"
    unfolding s1_def using message_server(3) [OF i s(2) e(1,2) _ _ c] e(3) s(6,7) by simp
  have k1: "srv 5 1 7 1 3 Complete (pend_of (sv_node s1) (sv_queue s1)) True (sv_node s1 \<noteq> None) [] c"
    using i1 s(3,4) by (simp add: server_at_def s1_def msgs_of_def is_final_def holds_def)
  from section_success_srv [OF sample_idle_ops k1, of ?r] obtain td c2 where
    t: "request_section sample_list_add list_delete ?r c = Some (td, c2)" "talk Announced 3 (calls_of c2) (to_call (hold td))"
    by (auto simp: srv_def)
  define s2 where "s2 = s1\<lparr>sv_comm := c2, sv_queue := [], sv_done := [(5, td)]\<rparr>"
  have r2: "server_run sample_list_add list_delete 5 1 7 1 s2"
    using server_run.step [OF r1 server_step.read_section [of s1 "[]" ?r "[]" sample_list_add list_delete td c2 5]] t(1) s(3,4)
    by (simp add: s1_def s2_def)
  obtain s3 where s3: "server_run sample_list_add list_delete 5 1 7 1 s3" "(3, CS_STATE_TOREPLY) \<in> set (calls_of (sv_comm s3))"
    "sv_session s3 = Some 3" "csessions (sv_comm s3) = csessions c2"
  proof (cases "to_call (hold td) = []")
    case True
    then show ?thesis using that [OF r2] t(2) s(5) by (simp add: s2_def s1_def)
  next
    case False
    then have d: "td_entry td" "td_session td = 3" "td_state td = CS_STATE_TOREPLY"
      using t(2) by (auto simp: hold_def append_eq_Cons_conv split: if_splits)
    let ?s = "s2\<lparr>sv_comm := session_handle 3 CS_STATE_TOREPLY (td_error td) c2, sv_done := [(5, td\<lparr>td_session := NULL\<rparr>)]\<rparr>"
    have "server_run sample_list_add list_delete 5 1 7 1 ?s"
      using server_run.step [OF r2 server_step.call [of s2 "[]" 5 td "[]" sample_list_add list_delete 5]] d by (simp add: s2_def)
    then show ?thesis using that [of ?s] s(5) by (simp add: s2_def s1_def calls_of_def session_handle_def)
  qed
  from section_success_srv [OF sample_idle_ops k1, of ?r] t(1) have
    "srv 5 1 7 1 3 Announced (pend_of (sv_node s1) (sv_queue s1)) False (sv_node s1 \<noteq> None) (hold td) c2" by auto
  then obtain y2 where "csessions c2 3 = Some y2" "s_passive y2 = 2" by (auto elim!: srv_sessionE simp: no_session_def)
  then have "stage_of s3 = Announced" using s3(3,4) by (simp add: stage_of_def)
  with that s3 show ?thesis by blast
qed



end
