(* ===== verification/Comm_Alive.thy ===== *)
theory Comm_Alive
  imports Comm_Conn
begin

section \<open>Connections kept alive\<close>

text \<open>
  The connections that a service keeps open between two requests: \<open>CommService::drain\<close> closes
  them in the order of the list, and what \<open>handle_reply_result\<close> makes of that list when the
  reply went out through the poller.
\<close>

subsection \<open>Draining a service\<close>

text \<open>What one round does to the entry it takes.\<close>

definition drained :: "addr list \<Rightarrow> comm \<Rightarrow> comm \<Rightarrow> bool" where
  "drained xs c c' \<longleftrightarrow>
     conns c' = (\<lambda>a. if a \<in> set xs then map_option (\<lambda>e. e\<lparr>e_state := CONN_STATE_CLOSING\<rparr>) (conns c a) else conns c a) \<and>
     pcalls c' = pcalls c @ map (\<lambda>a. Pdel (e_sockfd (the (conns c a)))) xs \<and> csessions c' = csessions c \<and> ctargets c' = ctargets c \<and>
     cservices c' = cservices c \<and> handles c' = handles c \<and> closed c' = closed c \<and> unbounds c' = unbounds c"

lemma drain_loop_list:
  assumes "list_at (cmem c) v xs" "\<forall>a \<in> set xs. conns c a \<noteq> None" "cnt \<ge> 0" "limit < 0 \<or> cnt \<le> limit"
  shows "\<exists>c'. drain_loop limit cnt v c = Some (if limit < 0 then cnt + int (length xs) else min limit (cnt + int (length xs)), c') \<and>
    (let n = if limit < 0 then length xs else min (nat (limit - cnt)) (length xs)
     in list_at (cmem c') v (drop n xs) \<and> drained (take n xs) c c')"
  using assms
proof (induction xs arbitrary: c cnt)
  case Nil
  then have "drain_loop limit cnt v c = Some (cnt, c)" using list_empty_correct [OF Nil.prems(1)] by (simp add: drain_loop.simps)
  then show ?case using Nil by (auto simp: drained_def)
next
  case (Cons a xs)
  have e: "list_empty v (cmem c) = Some False" using list_empty_correct [OF Cons.prems(1)] by simp
  show ?case
  proof (cases "cnt = limit")
    case True
    then have "drain_loop limit cnt v c = Some (cnt, c)" using e by (simp add: drain_loop.simps)
    then show ?thesis using True Cons.prems by (auto simp: drained_def)
  next
    case False
    have v: "v \<noteq> NULL" and l: "load (v, nextf) (cmem c) = Some a"
      using Cons.prems(1) list_at_head(2) [OF Cons.prems(1)] by (auto simp: list_at_def load_def)
    from list_delete_correct [of "cmem c" v "[]" a xs] Cons.prems(1) obtain h where
      h: "list_delete a (cmem c) = Some h" "list_at h v xs" by auto
    obtain en where en: "conns c a = Some en" using Cons.prems(2) by auto
    let ?c = "c\<lparr>cmem := h, pcalls := pcalls c @ [Pdel (e_sockfd en)], conns := (conns c)(a \<mapsto> en\<lparr>e_state := CONN_STATE_CLOSING\<rparr>)\<rparr>"
    have step: "drain_loop limit cnt v c = drain_loop limit (cnt + 1) v ?c"
      using False e l h(1) en by (subst drain_loop.simps) (simp add: set_cmem_def upd_conn_def poll_def)
    have a: "a \<notin> set xs" using Cons.prems(1) by (auto simp: list_at_def)
    have "list_at (cmem ?c) v xs" "\<forall>b \<in> set xs. conns ?c b \<noteq> None" "cnt + 1 \<ge> 0" "limit < 0 \<or> cnt + 1 \<le> limit"
      using h(2) Cons.prems False by auto
    from Cons.IH [OF this] obtain c' where c': "drain_loop limit (cnt + 1) v ?c = Some (if limit < 0 then cnt + 1 + int (length xs) else min limit (cnt + 1 + int (length xs)), c')"
      "let n = if limit < 0 then length xs else min (nat (limit - (cnt + 1))) (length xs) in list_at (cmem c') v (drop n xs) \<and> drained (take n xs) ?c c'" by blast
    define n where "n = (if limit < 0 then length xs else min (nat (limit - (cnt + 1))) (length xs))"
    have n: "(if limit < 0 then length (a # xs) else min (nat (limit - cnt)) (length (a # xs))) = Suc n"
      using Cons.prems(3,4) False by (auto simp: n_def)
    have "drained (take n xs) ?c c'" "list_at (cmem c') v (drop n xs)" using c'(2) by (simp_all add: n_def Let_def)
    moreover from this(1) have "drained (a # take n xs) c c'"
      using a en in_set_takeD [of _ n xs] unfolding drained_def by (auto simp: fun_eq_iff)
    ultimately have "list_at (cmem c') v (drop (Suc n) (a # xs)) \<and> drained (take (Suc n) (a # xs)) c c'" by simp
    then show ?thesis using c'(1) step unfolding n Let_def by (auto simp: algebra_simps)
  qed
qed

text \<open>
  C29: \<open>CommService::drain\<close> returns. On a service whose connections are on its list, it takes
  the first \<open>limit\<close> of them, or all when the limit is negative or larger: for each, in order,
  the poller is told to delete the descriptor and the state becomes closing; the others stay
  on the list, and nothing else changes.
\<close>

theorem drain_closes_in_order:
  assumes "list_at (cmem c) v xs" "\<forall>a \<in> set xs. conns c a \<noteq> None" "n = (if limit < 0 then length xs else min (nat limit) (length xs))"
  shows "\<exists>c'. drain limit v c = Some (int n, c') \<and> list_at (cmem c') v (drop n xs) \<and> drained (take n xs) c c'"
proof -
  have "limit < 0 \<or> (0::int) \<le> limit" by linarith
  from drain_loop_list [OF assms(1,2) order.refl this] show ?thesis using assms(3) by (auto simp: drain_def Let_def)
qed

subsection \<open>Kept alive by the poller's write result\<close>

text \<open>
  The service's list with the links of \<open>a\<close> as a reply leaves them: the head points to \<open>a\<close>,
  but \<open>a\<close> points to the idle list of its target.
\<close>

definition stuck :: "addr \<Rightarrow> addr \<Rightarrow> addr \<Rightarrow> comm \<Rightarrow> bool" where
  "stuck a t v c \<longleftrightarrow> cmem c (v, nextf) = Some a \<and> cmem c (a, nextf) = Some t \<and> cmem c (a, prevf) = Some t \<and>
     free_node (cmem c) t \<and> conns c a \<noteq> None \<and> a \<noteq> NULL \<and> v \<noteq> NULL \<and> a \<noteq> v \<and> a \<noteq> t \<and> t \<noteq> v"

lemma stuck_round:
  assumes "stuck a t v c"
  obtains c' where "stuck a t v c'" "\<And>limit cnt. cnt \<noteq> limit \<Longrightarrow> drain_loop limit cnt v c = drain_loop limit (cnt + 1) v c'"
    "\<And>limit. drain_loop limit limit v c = Some (limit, c)"
proof -
  obtain e where e: "conns c a = Some e" using assms by (auto simp: stuck_def)
  let ?h = "(cmem c)((t, nextf) \<mapsto> t, (t, prevf) \<mapsto> t)"
  let ?c = "c\<lparr>cmem := ?h, pcalls := pcalls c @ [Pdel (e_sockfd e)], conns := (conns c)(a \<mapsto> e\<lparr>e_state := CONN_STATE_CLOSING\<rparr>)\<rparr>"
  have m: "list_empty v (cmem c) = Some False" "load (v, nextf) (cmem c) = Some a" "list_delete a (cmem c) = Some ?h"
    using assms by (auto simp: stuck_def list_empty_def load_def store_def list_delete_def free_node_def)
  have "drain_loop limit cnt v c = drain_loop limit (cnt + 1) v ?c" if "cnt \<noteq> limit" for limit cnt
    using that m e by (subst drain_loop.simps) (simp add: set_cmem_def upd_conn_def poll_def)
  moreover have "stuck a t v ?c" using assms by (simp add: stuck_def free_node_def)
  moreover have "drain_loop limit limit v c = Some (limit, c)" for limit using m by (simp add: drain_loop.simps)
  ultimately show ?thesis using that by blast
qed

lemma stuck_no_result:
  assumes "drain_loop limit cnt v c = Some r"
  shows "\<not> (stuck a t v c \<and> limit < 0 \<and> cnt \<ge> 0)"
proof (rule drain_loop.raw_induct [where P = "\<lambda>limit cnt v c r. \<not> (stuck a t v c \<and> limit < 0 \<and> cnt \<ge> 0)", OF _ assms], rule notI)
  fix loop and limit cnt :: int and v c and r :: "int \<times> comm"
  assume 1: "\<And>limit cnt v c r. loop limit cnt v c = Some r \<Longrightarrow> \<not> (stuck a t v c \<and> limit < 0 \<and> cnt \<ge> 0)"
    "(list_empty v (cmem c) \<bind> (\<lambda>e. if cnt = limit \<or> e then Some (cnt, c) else
       load (v, nextf) (cmem c) \<bind> (\<lambda>pos. set_cmem (list_delete pos (cmem c)) c \<bind> (\<lambda>c. conns c pos \<bind> (\<lambda>en.
         upd_conn pos (\<lambda>x. x\<lparr>e_state := CONN_STATE_CLOSING\<rparr>) (poll (Pdel (e_sockfd en)) c) \<bind> loop limit (cnt + 1) v))))) = Some r"
    and st: "stuck a t v c \<and> limit < 0 \<and> cnt \<ge> 0"
  obtain e where e: "conns c a = Some e" using st by (auto simp: stuck_def)
  let ?h = "(cmem c)((t, nextf) \<mapsto> t, (t, prevf) \<mapsto> t)"
  let ?c = "c\<lparr>cmem := ?h, pcalls := pcalls c @ [Pdel (e_sockfd e)], conns := (conns c)(a \<mapsto> e\<lparr>e_state := CONN_STATE_CLOSING\<rparr>)\<rparr>"
  have "list_empty v (cmem c) = Some False" "load (v, nextf) (cmem c) = Some a" "list_delete a (cmem c) = Some ?h"
    using st by (auto simp: stuck_def list_empty_def load_def store_def list_delete_def free_node_def)
  moreover have "cnt \<noteq> limit" using st by auto
  ultimately have "loop limit (cnt + 1) v ?c = Some r"
    using 1(2) e by (simp add: set_cmem_def upd_conn_def poll_def)
  moreover have "stuck a t v ?c" using st by (simp add: stuck_def free_node_def)
  ultimately show False using 1(1) st by fastforce
qed

lemma stuck_drains:
  assumes "stuck a t v c"
  shows "\<exists>c'. drain (int n) v c = Some (int n, c')"
proof -
  have "\<exists>c'. drain_loop (cnt + int n) cnt v c = Some (cnt + int n, c')" if "stuck a t v c" for cnt c
    using that
  proof (induction n arbitrary: cnt c)
    case 0
    then show ?case using stuck_round [OF 0] by auto
  next
    case (Suc n)
    obtain c' where c': "stuck a t v c'" "drain_loop (cnt + int (Suc n)) cnt v c = drain_loop (cnt + int (Suc n)) (cnt + 1) v c'"
      by (rule stuck_round [OF Suc.prems]) auto
    from Suc.IH [OF c'(1), of "cnt + 1"] c'(2) show ?case by (simp add: algebra_simps)
  qed
  from this [OF assms, of 0] show ?thesis by (simp add: drain_def)
qed

text \<open>
  C23: a connection that \<open>handle_reply_result\<close> keeps alive hangs its service. When the poller
  has written the reply, no other connection is kept and the entry's links are those that
  its idle list left in it, the service's list afterwards contains the entry any number of
  times: \<open>drain\<close> with a limit takes as many connections as it is asked for, and
  \<open>shutdown_service\<close>, which drains without one, does not return.
\<close>

theorem keep_alive_hangs_shutdown:
  assumes "conns c a = Some e" "e_target e = t" "e_service e = v" "e_ref e > 0" "cservices c v = Some z" "v_listen_fd z \<ge> 0" "\<not> stop_flag c"
    "cmem c (a, nextf) = Some t" "cmem c (a, prevf) = Some t" "list_at (cmem c) t []" "list_at (cmem c) v []" "a \<noteq> NULL" "a \<noteq> t" "a \<noteq> v" "t \<noteq> v"
    "r_state r = PR_ST_FINISHED" "r_entry r = a" "u_keep_alive u \<noteq> 0" "pret \<ge> 0"
  shows "\<exists>c'. handle_write_result pret perr now u r c = Some c' \<and> map_option e_state (conns c' a) = Some CONN_STATE_KEEPALIVE \<and>
    (\<forall>n. map_option fst (drain (int n) v c') = Some (int n)) \<and> shutdown_service v c' = None"
proof -
  have l: "t \<noteq> NULL" "v \<noteq> NULL" "cmem c (t, nextf) = Some t" "cmem c (t, prevf) = Some t" "cmem c (v, nextf) = Some v" "cmem c (v, prevf) = Some v"
    using list_at_head(1,2) [OF assms(10)] list_at_head(1,2) [OF assms(11)] assms(10,11) by (auto simp: list_at_def)
  define h where "h = (cmem c)((v, prevf) \<mapsto> t, (v, nextf) \<mapsto> a, (t, nextf) \<mapsto> v)"
  have "list_add_tail a v (cmem c) = Some h"
    using l assms(8,9,12-15) by (auto simp: list_add_tail_def list_empty_def load_def store_def h_def)
  then have "\<exists>c'. handle_write_result pret perr now u r c = Some c' \<and> conns c' = (conns c)(a \<mapsto> e\<lparr>e_iov := [], e_ref := e_ref e, e_state := CONN_STATE_KEEPALIVE\<rparr>) \<and>
      cmem c' = h \<and> cservices c' = cservices c"
    using assms(1-7,16-19) l(2)
    by (auto simp: handle_write_result_def handle_reply_result_def reply_result_def keep_reply_conn_def is_end_def upd_conn_def poll_def set_cmem_def
        drop_server_ref_def drop_ref_def session_handle_def Let_def)
  then obtain c' where c': "handle_write_result pret perr now u r c = Some c'"
    "conns c' = (conns c)(a \<mapsto> e\<lparr>e_iov := [], e_ref := e_ref e, e_state := CONN_STATE_KEEPALIVE\<rparr>)" "cmem c' = h" "cservices c' = cservices c" by blast
  have s: "stuck a t v c'" using c'(2,3) l assms(8,9,12-15) by (simp add: stuck_def free_node_def h_def)
  have "map_option fst (drain (int n) v c') = Some (int n)" for n using stuck_drains [OF s, of n] by auto
  moreover have "shutdown_service v c' = None"
  proof -
    let ?c = "c'\<lparr>closed := closed c' @ [v_listen_fd z], cservices := (cservices c')(v \<mapsto> z\<lparr>v_listen_fd := -1\<rparr>)\<rparr>"
    have "stuck a t v ?c" using s by (simp add: stuck_def)
    then have "drain (-1) v ?c = None"
      using stuck_no_result [of "-1" 0 v ?c _ a t] unfolding drain_def by (cases "drain_loop (-1) 0 v ?c") auto
    then show ?thesis using assms(5) c'(4) by (simp add: shutdown_service_def upd_cservice_def)
  qed
  ultimately show ?thesis using c'(1,2) by auto
qed

subsection \<open>Instances\<close>

theorem drain_closes_in_order_witness:
  "\<exists>c c'. list_at (cmem c) 1 [2] \<and> drain (-1) 1 c = Some (1, c') \<and> list_at (cmem c') 1 [] \<and>
     map_option e_state (conns c' 2) = Some CONN_STATE_CLOSING \<and> pcalls c' = pcalls c @ [Pdel (e_sockfd sample_entry)]"
proof -
  from sample_list_add_correct [of list_heap 1 "[]" 2] list_heap_at obtain h where h: "list_at h 1 [2]" by auto
  let ?c = "sample_comm\<lparr>conns := [2 \<mapsto> sample_entry], cmem := h\<rparr>"
  have "list_at (cmem ?c) 1 [2]" "\<forall>a \<in> set [2]. conns ?c a \<noteq> None" using h by simp_all
  from drain_closes_in_order [OF this, of 1 "-1"] obtain c' where
    c': "drain (-1) 1 ?c = Some (1, c')" "list_at (cmem c') 1 []" "drained [2] ?c c'" by auto
  moreover have "map_option e_state (conns c' 2) = Some CONN_STATE_CLOSING" "pcalls c' = pcalls ?c @ [Pdel (e_sockfd sample_entry)]"
    using c'(3) by (simp_all add: drained_def)
  ultimately show ?thesis using h by (intro exI [of _ ?c] exI [of _ c']) simp
qed

text \<open>The target 1, the service 7 and the entry 5, whose links point to the target's list.\<close>

definition kept_heap :: heap where
  "kept_heap = [(1, nextf) \<mapsto> 1, (1, prevf) \<mapsto> 1, (7, nextf) \<mapsto> 7, (7, prevf) \<mapsto> 7, (5, nextf) \<mapsto> 1, (5, prevf) \<mapsto> 1]"

definition kept_comm :: comm where
  "kept_comm = sample_comm\<lparr>conns := [5 \<mapsto> sample_entry\<lparr>e_target := 1, e_service := 7, e_ref := 1\<rparr>], cmem := kept_heap,
     cservices := [7 \<mapsto> \<lparr>v_listen_timeout = -1, v_response = 2000, v_reliable = True, v_listen_fd = 8, v_ref = 2\<rparr>]\<rparr>"

theorem keep_alive_hangs_shutdown_witness:
  "\<exists>c'. handle_write_result 0 0 (Timespec 0 0) sample_user \<lparr>r_state = PR_ST_FINISHED, r_error = 0, r_entry = 5\<rparr> kept_comm = Some c' \<and>
     map_option fst (drain 3 7 c') = Some 3 \<and> shutdown_service 7 c' = None"
proof -
  have l: "list_at (cmem kept_comm) 1 []" "list_at (cmem kept_comm) 7 []" by (simp_all add: kept_comm_def kept_heap_def list_at_def)
  have "\<exists>c'. handle_write_result 0 0 (Timespec 0 0) sample_user \<lparr>r_state = PR_ST_FINISHED, r_error = 0, r_entry = 5\<rparr> kept_comm = Some c' \<and>
      map_option e_state (conns c' 5) = Some CONN_STATE_KEEPALIVE \<and> (\<forall>n. map_option fst (drain (int n) 7 c') = Some (int n)) \<and> shutdown_service 7 c' = None"
    by (rule keep_alive_hangs_shutdown [where e = "sample_entry\<lparr>e_target := 1, e_service := 7, e_ref := 1\<rparr>" and t = 1
      and z = "\<lparr>v_listen_timeout = -1, v_response = 2000, v_reliable = True, v_listen_fd = 8, v_ref = 2\<rparr>"])
      (use l in \<open>simp_all add: kept_comm_def kept_heap_def sample_comm_def sample_user_def\<close>)
  then obtain c' where "handle_write_result 0 0 (Timespec 0 0) sample_user \<lparr>r_state = PR_ST_FINISHED, r_error = 0, r_entry = 5\<rparr> kept_comm = Some c'"
    "map_option fst (drain (int 3) 7 c') = Some (int 3)" "shutdown_service 7 c' = None" by blast
  then show ?thesis by auto
qed

end
