(* ===== verification/Spec2Isabelle.thy ===== *)
theory Spec2Isabelle
  imports Rbtree_Spec Kernel_List Msgqueue_Threads Thrdpool Subtask Poller_Runs Mpoller Poller_Map Ioservice_Abi Comm_Threads
    Comm_Write Comm_Poller Comm_Client_Run Comm_Server_Run Comm_Alive
begin

text \<open>
  A verification of the kernel of an asynchronous networking library in C++
  (\<open>src/src/kernel\<close>).

  \<^bold>\<open>The program.\<close> The kernel has, from the bottom up: a red-black tree (\<open>rbtree.c\<close>) and a
  circular list (\<open>list.h\<close>); a message queue with two buffers (\<open>msgqueue.cc\<close>) and a thread
  pool on top of it (\<open>thrdpool.cc\<close>); a poller, that is a thread around \<open>epoll\<close> with a table
  of nodes by descriptor and timers in two lists and a red-black tree (\<open>poller.cc\<close>), and
  several pollers behind one table (\<open>mpoller.cc\<close>); Linux AIO services
  (\<open>ioservice_linux.cc\<close>); and the communicator (\<open>communicator.cc\<close>), which registers
  connections with the pollers, gets their results through a message queue and runs the
  handlers of sessions, services and timers in the threads of a pool. Beside it stand the
  subtasks of series and parallel work (\<open>subtask.cc\<close>).

  \<^bold>\<open>The theories.\<close>
  \<^item> \<open>Prelude\<close>: a heap of two-word objects with loads and stores that are undefined through
    \<open>NULL\<close> or outside allocated memory, frames, and the collections of rules.
  \<^item> \<open>Rbtree\<close> has the operations of \<open>rbtree.c\<close> over that heap; \<open>Rbtree_Rep\<close> says when the
    heap holds a tree; \<open>Rbtree_Insert\<close>, \<open>Rbtree_Erase\<close> and \<open>Rbtree_Walk\<close> prove the loops;
    \<open>Rbtree_Spec\<close> states the results: insertion and removal keep a red-black tree with
    exactly the right elements, the walk enumerates it, a node is replaced in place.
  \<^item> \<open>Kernel_List\<close>: the operations of \<open>list.h\<close>, which of them keep a circular list, and
    exactly what the others lose.
  \<^item> \<open>Msgqueue\<close> and \<open>Msgqueue_Threads\<close>: the queue, its interface as a locale, and any
    number of producers and consumers as a step relation: first in first out, nothing lost
    or doubled, no lost wake-up.
  \<^item> \<open>Thrdpool\<close>: creation, scheduling, termination; the count of threads.
  \<^item> \<open>Poller_Time\<close>, \<open>Poller_Tree\<close>, \<open>Poller\<close>, \<open>Poller_Events\<close>: clock arithmetic, the timer
    tree, the interface functions, the handlers and the loops of the poller thread.
    \<open>Poller_Table\<close> shows that the interface keeps table and \<open>epoll\<close> in agreement,
    \<open>Poller_Streams\<close> what the read and write handlers do with the bytes,
    \<open>Poller_Results\<close> which results a handler can give to the callback,
    \<open>Poller_Timeout\<close> the timeout loop: the tree part takes exactly the entries that are due,
    the list part is defined only when none is. \<open>Poller_Own\<close> and \<open>Poller_Runs\<close> put
    interface and thread together: runs of their steps in any order, in which table and
    \<open>epoll\<close> agree and every node that was registered is in the table, in the pipe or was
    handed over for good, and only once.
  \<^item> \<open>Mpoller\<close>: the shared table; each poller with its part of it refines a poller of its own.
    \<open>Poller_Map\<close>: together they implement a map from descriptors to jobs;
    the locale \<open>job_map\<close> is what a caller may rely on, and \<open>Comm_Poller\<close> uses nothing else.
  \<^item> \<open>Ioservice\<close>: control blocks, \<open>request\<close> and the waiting \<open>decref\<close>.
    \<open>Ioservice_Abi\<close>: the bytes of the control blocks and events that are shared with the
    system, for each byte order and word size of the macros.
  \<^item> \<open>Comm\<close>, \<open>Comm_Send\<close>, \<open>Comm_Handlers\<close>, \<open>Comm_Service\<close>, \<open>Comm_Request\<close>,
    \<open>Comm_Threads\<close>: the functions of \<open>communicator.cc\<close>: objects, reference counts and timeouts;
    sending; the handlers of results; the server's and the client's functions; threads,
    timers and I/O services. \<open>Comm\<close> bounds the total receive time, \<open>Comm_Send\<close> accounts for
    the bytes, \<open>Comm_Write\<close> shows that \<open>send_message\<close> and the poller's write handler
    together are one writing loop, \<open>Comm_Poller\<close> makes the communicator's calls on the
    mpoller's model, \<open>Comm_Threads\<close> composes pollers, queue and pool into
    \<open>init\<close>.
  \<^item> \<open>Comm_Conn\<close>: what the operations do to one connection, its session and its list,
    shared by the next two groups and \<open>Comm_Alive\<close>.
  \<^item> \<open>Comm_Client\<close> and \<open>Comm_Client_Run\<close>: the life of one client connection as a step
    relation over these functions, with handler threads interrupted between the section
    under the locks and the rest: the connection is released exactly once, every session is
    handled exactly once, and no handler runs on a released entry.
  \<^item> \<open>Comm_Server\<close>, \<open>Comm_Server_Inv\<close> and \<open>Comm_Server_Run\<close>: the life of one server
    connection, from \<open>accept\<close> to the release of entry, session and target, with the user's
    \<open>reply\<close>, \<open>shutdown\<close> and destruction of the session: reference counts, the calls of
    \<open>handle\<close>, a refinement of the session's life cycle (\<open>stage_next\<close>), and no access to
    what was released.
  \<^item> \<open>Comm_Alive\<close>: \<open>drain\<close> on a service's list of kept connections, and the list that
    \<open>handle_reply_result\<close> leaves, on which it does not end.
  \<^item> \<open>Subtask\<close>: series and parallel subtasks.

  \<^bold>\<open>How the code is modelled.\<close> A struct or class is a record, addresses are numbers, links
  live in the heap. An operation returns an \<open>option\<close>: \<open>None\<close> is undefined behaviour of the
  code (or, where the text says so, an answer of the environment that was not supplied), so
  every statement that an operation gives \<open>Some\<close> says that it is defined and returns.
  \<open>Blocked\<close> is a wait on a condition variable. Loops without a syntactic bound are
  \<open>partial_function (option)\<close>, and the results prove that they return; there is no fuel.
  Machine integers are words where they can wrap. Results of system calls, of \<open>malloc\<close>, of
  the user's virtual functions and of the clock are arguments. What happens under a mutex is
  one step; where threads interleave, the steps are those between lock and unlock.
  \<open>list_add\<close>, \<open>list_del\<close> and the \<open>SS_STATE\<close> constants, which the second half of
  \<open>communicator.cc\<close> uses and the repository does not declare, are parameters; what is
  assumed of the two functions is \<open>idle_ops\<close>.

  \<^bold>\<open>Not modelled.\<close> Memory that is only freed (the \<open>deinit\<close> and \<open>destroy\<close> functions), the
  branch of \<open>communicator.cc\<close> for systems other than Linux, the conversions of socket
  addresses, the test programs, and the files CMake writes. The step relation of a server
  connection is for a reliable service and \<open>keep_alive_timeout\<close> 0, so that a connection
  serves one request: the functions of the reuse of a connection are modelled one by one.
  The step relations of the connections see the pollers through the calls the communicator
  makes (\<open>Comm_Poller\<close> runs these on the mpoller) and the results it gets. Runs of the poller
  take the memory that a handler is given as different from all that was in use before it.
\<close>

end
